(* ===== verification/Kernel_Prelude.thy ===== *)
theory Kernel_Prelude
  imports Main "HOL-Library.Word"
begin

text \<open>
  Shared vocabulary of the development: the machine integer types of
  \<^verbatim>\<open>src/src/common/defines.h\<close>, the ways a kernel function can fail to return a value
  (an error sum and its sequencing), the rounding helpers, and little-endian access to byte
  arrays, which is how the on-disk and in-memory structures are laid out on AArch64.
\<close>

unbundle bit_operations_syntax

named_theorems res_simps \<open>sequencing of fallible computations\<close>
named_theorems byte_simps \<open>reads and writes of little-endian fields\<close>

section \<open>Machine integers\<close>

type_synonym u8 = "8 word"
type_synonym u16 = "16 word"
type_synonym u32 = "32 word"
type_synonym u64 = "64 word"

definition PAGE_SIZE :: nat where
  "PAGE_SIZE = 4096"

definition BLOCK_SIZE :: nat where
  "BLOCK_SIZE = 512"

definition round_down :: "u64 \<Rightarrow> u64 \<Rightarrow> u64" where
  "round_down a b = a - a mod b"

definition round_up :: "u64 \<Rightarrow> u64 \<Rightarrow> u64" where
  "round_up a b = round_down (a + b - 1) b"

text \<open>Subtraction of \<^verbatim>\<open>u32\<close> values kept as naturals: it wraps.\<close>

definition u32_sub :: "nat \<Rightarrow> nat \<Rightarrow> nat" where
  "u32_sub a b = (a + 2 ^ 32 - b) mod 2 ^ 32"

lemma u32_sub_le: "b \<le> a \<Longrightarrow> a < 2 ^ 32 \<Longrightarrow> u32_sub a b = a - b"
  unfolding u32_sub_def
  by (metis Nat.diff_add_assoc2 less_imp_diff_less mod_add_self2 mod_less)

section \<open>Computations that may not return\<close>

text \<open>
  \<^verbatim>\<open>Panic\<close> is \<^verbatim>\<open>PANIC()\<close> or a failed \<^verbatim>\<open>ASSERT\<close>; \<^verbatim>\<open>Fault\<close> is an access outside the object
  (a null pointer, an index past the end of an array); \<^verbatim>\<open>Spin\<close> is \<^verbatim>\<open>_acquire_spinlock\<close> on a
  lock that the running thread already holds, which never returns; \<^verbatim>\<open>Sleep\<close> is a thread that
  has to wait for another one before it can go on.
\<close>

datatype kerr = Panic | Fault | Spin | Sleep

type_synonym 'a res = "kerr + 'a"

definition rbind :: "'a res \<Rightarrow> ('a \<Rightarrow> 'b res) \<Rightarrow> 'b res" where
  "rbind m f = (case m of Inl e \<Rightarrow> Inl e | Inr x \<Rightarrow> f x)"

lemma rbind_simps [simp]:
  "rbind (Inl e) f = Inl e"
  "rbind (Inr x) f = f x"
  by (simp_all add: rbind_def)

lemma rbind_Inr_iff [res_simps]:
  "rbind m f = Inr y \<longleftrightarrow> (\<exists>x. m = Inr x \<and> f x = Inr y)"
  by (cases m) auto

lemma rbind_InrE [elim!]:
  assumes "rbind m f = Inr y"
  obtains x where "m = Inr x" and "f x = Inr y"
  using assms by (auto simp: rbind_Inr_iff)

lemma rbind_assoc: "rbind (rbind m f) g = rbind m (\<lambda>x. rbind (f x) g)"
  by (cases m) auto

lemma rbind_cong [fundef_cong]:
  assumes "m = m'" and "\<And>x. m' = Inr x \<Longrightarrow> f x = f' x"
  shows "rbind m f = rbind m' f'"
  using assms by (cases m') auto

text \<open>A checked array read and write: out of range is a fault.\<close>

definition aget :: "'a list \<Rightarrow> nat \<Rightarrow> 'a res" where
  "aget xs i = (if i < length xs then Inr (xs ! i) else Inl Fault)"

definition aset :: "'a list \<Rightarrow> nat \<Rightarrow> 'a \<Rightarrow> 'a list res" where
  "aset xs i v = (if i < length xs then Inr (xs[i := v]) else Inl Fault)"

lemma aget_Inr_iff [res_simps]: "aget xs i = Inr v \<longleftrightarrow> i < length xs \<and> xs ! i = v"
  by (auto simp: aget_def)

lemma aset_Inr_iff [res_simps]: "aset xs i v = Inr ys \<longleftrightarrow> i < length xs \<and> ys = xs[i := v]"
  by (auto simp: aset_def)

lemma aget_aset:
  assumes "aset xs i v = Inr ys"
  shows "aget ys j = (if i = j then Inr v else aget xs j)"
  using assms by (auto simp: aset_def aget_def split: if_splits)

section \<open>Rounding\<close>

lemma round_down_props:
  shows "unat (round_down a b) = unat a - unat a mod unat b"
proof -
  have "a mod b \<le> a"
    by (simp add: word_le_nat_alt unat_mod_distrib)
  then show ?thesis
    by (simp add: round_down_def unat_sub unat_mod_distrib)
qed

section \<open>Little-endian fields of byte arrays\<close>

lemma unat_u8_less: "unat (b :: u8) < 256"
  using unsigned_less [of b] by simp

fun le_encode :: "nat \<Rightarrow> nat \<Rightarrow> u8 list" where
  "le_encode 0 n = []"
| "le_encode (Suc k) n = of_nat (n mod 256) # le_encode k (n div 256)"

fun le_decode :: "u8 list \<Rightarrow> nat" where
  "le_decode [] = 0"
| "le_decode (b # bs) = unat b + 256 * le_decode bs"

lemma length_le_encode [simp]: "length (le_encode k n) = k"
  by (induction k arbitrary: n) auto

lemma le_decode_encode [simp]: "le_decode (le_encode k n) = n mod 256 ^ k"
proof (induction k arbitrary: n)
  case 0
  then show ?case by simp
next
  case (Suc k)
  have "unat (of_nat (n mod 256) :: u8) = n mod 256"
    by (simp add: unat_of_nat)
  then show ?case
    using Suc.IH [of "n div 256"] by (simp add: mod_mult2_eq)
qed

lemma le_decode_less: "le_decode bs < 256 ^ length bs"
proof (induction bs)
  case Nil
  then show ?case by simp
next
  case (Cons b bs)
  have "unat b < 256" by (rule unat_u8_less)
  with Cons show ?case by simp
qed

lemma le_encode_decode [simp]: "le_encode (length bs) (le_decode bs) = bs"
proof (induction bs)
  case Nil
  then show ?case by simp
next
  case (Cons b bs)
  have "unat b < 256" by (rule unat_u8_less)
  then have "(unat b + 256 * le_decode bs) mod 256 = unat b"
    and "(unat b + 256 * le_decode bs) div 256 = le_decode bs"
    by simp_all
  then show ?case
    using Cons by simp
qed

text \<open>\<^verbatim>\<open>rd k off bs\<close> reads the \<^verbatim>\<open>k\<close>-byte field at \<^verbatim>\<open>off\<close>, \<^verbatim>\<open>wr k off v bs\<close> overwrites it.\<close>

definition rd :: "nat \<Rightarrow> nat \<Rightarrow> u8 list \<Rightarrow> nat" where
  "rd k off bs = le_decode (take k (drop off bs))"

definition wr :: "nat \<Rightarrow> nat \<Rightarrow> nat \<Rightarrow> u8 list \<Rightarrow> u8 list" where
  "wr k off v bs = take off bs @ le_encode k v @ drop (off + k) bs"

lemma length_wr [byte_simps, simp]:
  "off + k \<le> length bs \<Longrightarrow> length (wr k off v bs) = length bs"
  by (simp add: wr_def)

lemma rd_less: "rd k off bs < 256 ^ k"
proof -
  have "rd k off bs < 256 ^ length (take k (drop off bs))"
    unfolding rd_def by (rule le_decode_less)
  also have "\<dots> \<le> 256 ^ k"
    by (rule power_increasing) auto
  finally show ?thesis .
qed

lemma rd_wr_same [byte_simps]:
  "off + k \<le> length bs \<Longrightarrow> rd k off (wr k off v bs) = v mod 256 ^ k"
  by (simp add: rd_def wr_def)

lemma rd_wr_other [byte_simps]:
  assumes "off + k \<le> length bs" and "off' + k' \<le> off \<or> off + k \<le> off'"
  shows "rd k' off' (wr k off v bs) = rd k' off' bs"
proof -
  have "take k' (drop off' (wr k off v bs)) = take k' (drop off' bs)"
  proof (cases "off' + k' \<le> off")
    case True
    then have "take k' (drop off' (take off bs)) = take k' (drop off' bs)"
      by (simp add: drop_take min_def)
    moreover have "k' \<le> length (drop off' (take off bs))"
      using True assms(1) by simp
    ultimately show ?thesis
      by (simp add: wr_def)
  next
    case False
    with assms have "off + k \<le> off'" by simp
    then have "drop off' (wr k off v bs) = drop off' bs"
      using assms(1) by (simp add: wr_def)
    then show ?thesis by simp
  qed
  then show ?thesis by (simp add: rd_def)
qed

end
