(* ===== verification/Klist.thy ===== *)
theory Klist
  imports Kernel_Prelude
begin

text \<open>
  \<^verbatim>\<open>src/src/common/list.c\<close> and \<^verbatim>\<open>list.h\<close>: circular doubly linked lists, the FIFO queue built on
  them and the lock-free stack. Nodes are addresses (0 is the null pointer) and the two link
  fields are an explicit store, so aliasing of the assignments is the code's. The section on
  rings relates the store to plain lists; the locale \<^verbatim>\<open>node_list\<close> is the contract that the
  clients of the lists use.
\<close>

type_synonym addr = nat

record lheap =
  prv :: "addr \<Rightarrow> addr"
  nxt :: "addr \<Rightarrow> addr"

section \<open>The operations\<close>

definition set_next :: "addr \<Rightarrow> addr \<Rightarrow> lheap \<Rightarrow> lheap" where
  "set_next p v h = h\<lparr>nxt := (nxt h)(p := v)\<rparr>"

definition set_prev :: "addr \<Rightarrow> addr \<Rightarrow> lheap \<Rightarrow> lheap" where
  "set_prev p v h = h\<lparr>prv := (prv h)(p := v)\<rparr>"

definition init_list_node :: "addr \<Rightarrow> lheap \<Rightarrow> lheap" where
  "init_list_node node h = set_next node node (set_prev node node h)"

definition merge_list :: "addr \<Rightarrow> addr \<Rightarrow> lheap \<Rightarrow> addr \<times> lheap" where
  "merge_list node1 node2 h =
     (if node1 = 0 then (node2, h)
      else if node2 = 0 then (node1, h)
      else
        let node3 = nxt h node1;
            node4 = prv h node2;
            h = set_next node1 node2 h;
            h = set_prev node2 node1 h;
            h = set_next node4 node3 h;
            h = set_prev node3 node4 h
        in (node1, h))"

definition insert_into_list :: "addr \<Rightarrow> addr \<Rightarrow> lheap \<Rightarrow> addr \<times> lheap" where
  "insert_into_list list node h = merge_list list node (init_list_node node h)"

definition detach_from_list :: "addr \<Rightarrow> lheap \<Rightarrow> addr \<times> lheap" where
  "detach_from_list node h =
     (let prev = prv h node;
          h = set_next (prv h node) (nxt h node) h;
          h = set_prev (nxt h node) (prv h node) h;
          h = init_list_node node h
      in (if prev = node then 0 else prev, h))"

definition empty_list :: "addr \<Rightarrow> lheap \<Rightarrow> bool" where
  "empty_list list h \<longleftrightarrow> nxt h list = list"

text \<open>
  \<^verbatim>\<open>_for_in_list\<close>: the addresses that the macro binds \<^verbatim>\<open>valptr\<close> to, in order. The head itself is
  the last one; \<^verbatim>\<open>None\<close> is a walk that has not come back to the head within the fuel.
\<close>

fun for_in_list :: "nat \<Rightarrow> lheap \<Rightarrow> addr \<Rightarrow> addr \<Rightarrow> addr list option" where
  "for_in_list 0 h flag v = None"
| "for_in_list (Suc n) h flag v =
     (if v = flag then Some [v]
      else map_option (Cons v) (for_in_list n h flag (nxt h v)))"

subsection \<open>The FIFO queue\<close>

record Queue =
  q_begin :: addr
  q_end :: addr
  q_sz :: int

definition queue_init :: Queue where
  "queue_init = \<lparr>q_begin = 0, q_end = 0, q_sz = 0\<rparr>"

definition queue_push :: "addr \<Rightarrow> Queue \<times> lheap \<Rightarrow> Queue \<times> lheap" where
  "queue_push item = (\<lambda>(x, h).
     let h = init_list_node item h;
         (x, h) = (if q_sz x = 0 then (x\<lparr>q_end := item, q_begin := item\<rparr>, h)
                   else (x\<lparr>q_end := item\<rparr>, snd (merge_list (q_end x) item h)))
     in (x\<lparr>q_sz := q_sz x + 1\<rparr>, h))"

definition queue_pop :: "Queue \<times> lheap \<Rightarrow> (Queue \<times> lheap) res" where
  "queue_pop = (\<lambda>(x, h).
     if q_sz x = 0 then Inl Panic
     else
       let (x, h) =
             (if q_sz x = 1 then (x\<lparr>q_end := 0, q_begin := 0\<rparr>, h)
              else let t = q_begin x;
                       x = x\<lparr>q_begin := nxt h (q_begin x)\<rparr>
                   in (x, snd (detach_from_list t h)))
       in Inr (x\<lparr>q_sz := q_sz x - 1\<rparr>, h))"

definition queue_front :: "Queue \<Rightarrow> addr res" where
  "queue_front x = (if q_begin x = 0 then Inl Panic else Inr (q_begin x))"

definition queue_empty :: "Queue \<Rightarrow> bool" where
  "queue_empty x \<longleftrightarrow> q_sz x = 0"

section \<open>Rings\<close>

text \<open>\<^verbatim>\<open>links h xs\<close>: neighbours of \<^verbatim>\<open>xs\<close> point at each other.\<close>

fun links :: "lheap \<Rightarrow> addr list \<Rightarrow> bool" where
  "links h (x # y # zs) \<longleftrightarrow> nxt h x = y \<and> prv h y = x \<and> links h (y # zs)"
| "links h [x] \<longleftrightarrow> True"
| "links h [] \<longleftrightarrow> True"

definition ring :: "lheap \<Rightarrow> addr list \<Rightarrow> bool" where
  "ring h xs \<longleftrightarrow> xs \<noteq> [] \<and> distinct xs \<and> 0 \<notin> set xs \<and> links h (xs @ [hd xs])"

lemma field_simps_heap [simp]:
  "nxt (set_next p v h) = (nxt h)(p := v)"
  "prv (set_next p v h) = prv h"
  "nxt (set_prev p v h) = nxt h"
  "prv (set_prev p v h) = (prv h)(p := v)"
  "nxt (init_list_node p h) = (nxt h)(p := p)"
  "prv (init_list_node p h) = (prv h)(p := p)"
  by (simp_all add: set_next_def set_prev_def init_list_node_def)

lemma links_join:
  assumes "xs \<noteq> []" and "ys \<noteq> []"
  shows "links h (xs @ ys) \<longleftrightarrow>
           links h xs \<and> nxt h (last xs) = hd ys \<and> prv h (hd ys) = last xs \<and> links h ys"
  using assms
proof (induction xs rule: induct_list012)
  case (2 x)
  then show ?case by (cases ys) auto
qed auto

lemma links_cong:
  assumes "\<And>p. p \<in> set xs \<Longrightarrow> p \<noteq> last xs \<Longrightarrow> nxt h' p = nxt h p"
    and "\<And>p. p \<in> set xs \<Longrightarrow> p \<noteq> hd xs \<Longrightarrow> prv h' p = prv h p"
    and "distinct xs"
  shows "links h' xs = links h xs"
  using assms
proof (induction xs rule: induct_list012)
  case (3 x y zs)
  have x: "x \<notin> set (y # zs)" using "3.prems"(3) by simp
  moreover have "last (x # y # zs) \<in> set (y # zs)"
    using last_in_set [of "y # zs"] by simp
  ultimately have "nxt h' x = nxt h x" and "prv h' y = prv h y"
    using "3.prems"(1) [of x] "3.prems"(2) [of y] by auto
  moreover have "links h' (y # zs) = links h (y # zs)"
  proof (rule "3.IH"(2))
    show "nxt h' p = nxt h p" if "p \<in> set (y # zs)" and "p \<noteq> last (y # zs)" for p
      using "3.prems"(1) [of p] that by simp
    show "prv h' p = prv h p" if "p \<in> set (y # zs)" and "p \<noteq> hd (y # zs)" for p
      using "3.prems"(2) [of p] that x by auto
    show "distinct (y # zs)" using "3.prems"(3) by simp
  qed
  ultimately show ?case by simp
qed simp_all

lemma ring_alt:
  "ring h xs \<longleftrightarrow> xs \<noteq> [] \<and> distinct xs \<and> 0 \<notin> set xs \<and> links h xs \<and>
     nxt h (last xs) = hd xs \<and> prv h (hd xs) = last xs"
  using links_join [of xs "[hd xs]" h] by (auto simp: ring_def)

lemma ring_rotate:
  assumes "ring h (xs @ ys)"
  shows "ring h (ys @ xs)"
proof (cases "xs = [] \<or> ys = []")
  case False
  then show ?thesis using assms by (auto simp: ring_alt links_join)
qed (use assms in auto)

lemma ring_singleton [simp]: "ring h [x] \<longleftrightarrow> x \<noteq> 0 \<and> nxt h x = x \<and> prv h x = x"
  by (auto simp: ring_def)

lemma ring_frame:
  assumes "ring h ys"
    and "\<And>p. p \<in> set ys \<Longrightarrow> nxt h' p = nxt h p \<and> prv h' p = prv h p"
  shows "ring h' ys"
proof -
  have "links h' ys = links h ys"
    using assms by (intro links_cong) (auto simp: ring_def)
  with assms show ?thesis by (simp add: ring_alt)
qed

lemma ring_ends:
  assumes "ring h (x # xs)"
  shows "prv h x = last (x # xs)" and "nxt h x = hd (xs @ [x])"
    and "prv h x \<in> set (x # xs)" and "nxt h x \<in> set (x # xs)"
proof -
  show p: "prv h x = last (x # xs)" using assms by (simp add: ring_alt)
  show n: "nxt h x = hd (xs @ [x])" using assms by (cases xs) (auto simp: ring_def)
  show "prv h x \<in> set (x # xs)" unfolding p by (rule last_in_set) simp
  show "nxt h x \<in> set (x # xs)" unfolding n by (cases xs) auto
qed

text \<open>Merging two disjoint rings splices the second after the first node of the first.\<close>

lemma merge_list_ring:
  assumes r1: "ring h (a # xs)" and r2: "ring h (b # ys)"
    and disj: "set (a # xs) \<inter> set (b # ys) = {}"
  defines "h' \<equiv> snd (merge_list a b h)"
  shows "ring h' (a # b # ys @ xs)" and "fst (merge_list a b h) = a"
proof -
  define l where "l = last (b # ys)"
  define f where "f = hd (xs @ [a])"
  have nz: "a \<noteq> 0" "b \<noteq> 0" using r1 r2 by (auto simp: ring_def)
  then show "fst (merge_list a b h) = a" by (simp add: merge_list_def Let_def)
  have lf: "prv h b = l" "nxt h a = f" "l \<in> set (b # ys)" "f \<in> set (a # xs)"
    using ring_ends [OF r2] ring_ends [OF r1] by (simp_all add: l_def f_def)
  have h': "h' = set_prev f l (set_next l f (set_prev b a (set_next a b h)))"
    using nz lf by (simp add: h'_def merge_list_def Let_def)
  have d: "distinct (a # b # ys @ xs)" "0 \<notin> set (a # b # ys @ xs)"
    using r1 r2 disj by (auto simp: ring_def)
  have neq: "l \<noteq> a" "f \<noteq> b" "\<And>p. p \<in> set (b # ys) \<Longrightarrow> p \<noteq> f" "\<And>p. p \<in> set xs \<Longrightarrow> p \<noteq> l"
    using lf(3,4) disj by auto
  have new: "nxt h' a = b" "prv h' b = a" "nxt h' l = f" "prv h' f = l"
    using neq(1,2) by (auto simp: h')
  have lb: "links h' (b # ys)"
  proof -
    have "links h' (b # ys) = links h (b # ys)"
    proof (rule links_cong)
      show "nxt h' p = nxt h p" if "p \<in> set (b # ys)" and "p \<noteq> last (b # ys)" for p
      proof -
        have "p \<noteq> l" and "p \<noteq> a" using that disj unfolding l_def by auto
        then show ?thesis by (simp add: h')
      qed
      show "prv h' p = prv h p" if "p \<in> set (b # ys)" and "p \<noteq> hd (b # ys)" for p
        using that neq(3) [of p] by (simp add: h')
      show "distinct (b # ys)" using d by simp
    qed
    then show ?thesis using r2 by (simp add: ring_alt)
  qed
  show "ring h' (a # b # ys @ xs)"
  proof (cases xs)
    case Nil
    then show ?thesis
      using lb new d by (auto simp: ring_alt l_def f_def)
  next
    case (Cons x xs')
    have "links h' xs = links h xs"
    proof (rule links_cong)
      show "nxt h' p = nxt h p" if "p \<in> set xs" for p
        using that neq(4) [of p] d by (auto simp: h')
      show "prv h' p = prv h p" if "p \<in> set xs" and "p \<noteq> hd xs" for p
        using that d Cons by (auto simp: h' f_def)
      show "distinct xs" using d by simp
    qed
    moreover have "links h xs" and "nxt h (last xs) = a" and "prv h a = last xs"
      using r1 Cons by (auto simp: ring_alt)
    moreover have "nxt h' (last xs) = nxt h (last xs)" and "prv h' a = prv h a"
    proof -
      have "last xs \<in> set xs" using Cons by simp
      then have "last xs \<noteq> l" and "last xs \<noteq> a" using neq(4) d by auto
      then show "nxt h' (last xs) = nxt h (last xs)" by (simp add: h')
      have "a \<noteq> f" and "a \<noteq> b" using Cons d by (auto simp: f_def)
      then show "prv h' a = prv h a" by (simp add: h')
    qed
    moreover have "links h' ((b # ys) @ xs)"
      using calculation lb new Cons links_join [of "b # ys" xs h'] by (simp add: l_def f_def)
    ultimately show ?thesis
      using new d Cons by (simp add: ring_alt)
  qed
qed

lemma merge_list_frame:
  assumes "ring h (a # xs)" and "ring h (b # ys)" and "p \<notin> set (a # xs) \<union> set (b # ys)"
  shows "nxt (snd (merge_list a b h)) p = nxt h p" and "prv (snd (merge_list a b h)) p = prv h p"
  using ring_ends(4) [OF assms(1)] ring_ends(3) [OF assms(2)] assms(3)
  by (auto simp: merge_list_def Let_def)

text \<open>Detaching a node of a ring leaves the rest a ring and the node a ring of its own.\<close>

lemma detach_from_list_ring:
  assumes r: "ring h (x # ys)" and ne: "ys \<noteq> []"
  defines "h' \<equiv> snd (detach_from_list x h)"
  shows "ring h' ys" and "ring h' [x]" and "fst (detach_from_list x h) = last ys"
proof -
  have d: "distinct (x # ys)" "0 \<notin> set (x # ys)" using r by (auto simp: ring_def)
  have lf: "prv h x = last ys" "nxt h x = hd ys"
    using ring_ends [OF r] ne by (auto simp: hd_append)
  have neq: "last ys \<noteq> x" "hd ys \<noteq> x" using d(1) ne by auto
  have h': "h' = init_list_node x (set_prev (hd ys) (last ys) (set_next (last ys) (hd ys) h))"
    using lf neq by (simp add: h'_def detach_from_list_def Let_def)
  show "ring h' [x]" using d(2) by (simp add: h')
  show "fst (detach_from_list x h) = last ys"
    using lf neq by (simp add: detach_from_list_def Let_def)
  have "links h ys"
    using r ne links_join [of "[x]" ys h] by (simp add: ring_alt)
  moreover have "links h' ys = links h ys"
    by (rule links_cong) (use d in \<open>auto simp: h'\<close>)
  moreover have "nxt h' (last ys) = hd ys" and "prv h' (hd ys) = last ys"
    using neq by (simp_all add: h')
  ultimately show "ring h' ys"
    using d ne by (simp add: ring_alt)
qed

lemma detach_from_list_single: "ring h [x] \<Longrightarrow> detach_from_list x h = (0, init_list_node x h)"
  by (simp add: detach_from_list_def Let_def init_list_node_def set_next_def set_prev_def)

lemma detach_from_list_frame:
  assumes "ring h (x # ys)" and "p \<notin> set (x # ys)"
  shows "nxt (snd (detach_from_list x h)) p = nxt h p"
    and "prv (snd (detach_from_list x h)) p = prv h p"
  using ring_ends(3,4) [OF assms(1)] assms(2)
  by (auto simp: detach_from_list_def Let_def)

section \<open>Lists with a head node\<close>

definition is_list :: "lheap \<Rightarrow> addr \<Rightarrow> addr list \<Rightarrow> bool" where
  "is_list h l xs \<longleftrightarrow> ring h (l # xs)"

lemma is_list_init: "l \<noteq> 0 \<Longrightarrow> is_list (init_list_node l h) l []"
  by (simp add: is_list_def)

lemma is_list_empty: "is_list h l xs \<Longrightarrow> empty_list l h \<longleftrightarrow> xs = []"
  using ring_ends(2) [of h l xs]
  by (cases xs) (auto simp: is_list_def empty_list_def ring_def)

lemma is_list_next: "is_list h l (x # xs) \<Longrightarrow> nxt h l = x"
  by (simp add: is_list_def ring_def)

lemma is_list_prev: "is_list h l xs \<Longrightarrow> prv h l = last (l # xs)"
  by (simp add: is_list_def ring_ends(1))

lemma init_list_node_frame: "ring h ys \<Longrightarrow> n \<notin> set ys \<Longrightarrow> ring (init_list_node n h) ys"
  by (erule ring_frame) auto

lemma insert_into_list_front:
  assumes "is_list h l xs" and "n \<noteq> 0" and "n \<notin> set (l # xs)"
  shows "is_list (snd (insert_into_list l n h)) l (n # xs)"
proof -
  have "ring (init_list_node n h) (l # xs)" and "ring (init_list_node n h) [n]"
    using assms by (auto simp: is_list_def intro: init_list_node_frame)
  then show ?thesis
    using merge_list_ring(1) [of "init_list_node n h" l xs n "[]"] assms
    by (simp add: insert_into_list_def is_list_def)
qed

text \<open>
  \<^verbatim>\<open>_insert_into_list(head.prev, node)\<close>, the form that the message queues use, appends.
\<close>

lemma insert_into_list_back:
  assumes "is_list h l xs" and "n \<noteq> 0" and "n \<notin> set (l # xs)"
  shows "is_list (snd (insert_into_list (prv h l) n h)) l (xs @ [n])"
proof (cases xs rule: rev_cases)
  case Nil
  then show ?thesis
    using insert_into_list_front [OF assms] is_list_prev [OF assms(1)] by simp
next
  case (snoc ys y)
  let ?h = "init_list_node n h"
  have "ring h ((l # ys) @ [y])" using assms(1) snoc by (simp add: is_list_def)
  then have "ring h (y # l # ys)" using ring_rotate by fastforce
  then have "ring ?h (y # l # ys)" and "ring ?h [n]"
    using assms snoc by (auto intro: init_list_node_frame)
  then have "ring (snd (merge_list y n ?h)) (y # n # l # ys)"
    using merge_list_ring(1) [of ?h y "l # ys" n "[]"] assms snoc by auto
  then have "ring (snd (merge_list y n ?h)) ((l # ys) @ [y, n])"
    using ring_rotate [of _ "[y, n]" "l # ys"] by simp
  then show ?thesis
    using is_list_prev [OF assms(1)] snoc by (simp add: insert_into_list_def is_list_def)
qed

lemma detach_from_list_list:
  assumes "is_list h l xs" and "x \<in> set xs"
  shows "is_list (snd (detach_from_list x h)) l (remove1 x xs)"
    and "ring (snd (detach_from_list x h)) [x]"
proof -
  obtain as bs where xs: "xs = as @ x # bs" and "x \<notin> set as"
    using split_list_first [OF assms(2)] by auto
  from assms(1) have "ring h ((l # as) @ x # bs)" by (simp add: is_list_def xs)
  then have r: "ring h (x # bs @ l # as)" using ring_rotate by fastforce
  then have r': "ring (snd (detach_from_list x h)) (bs @ l # as)"
    and "ring (snd (detach_from_list x h)) [x]"
    by (rule detach_from_list_ring; simp)+
  then show "ring (snd (detach_from_list x h)) [x]" by simp
  have "remove1 x xs = as @ bs" using xs \<open>x \<notin> set as\<close> by (simp add: remove1_append)
  then show "is_list (snd (detach_from_list x h)) l (remove1 x xs)"
    using ring_rotate [OF r'] by (simp add: is_list_def)
qed

lemma detach_from_list_list_frame:
  assumes "is_list h l xs" and "x \<in> set xs" and "p \<notin> set (l # xs)"
  shows "nxt (snd (detach_from_list x h)) p = nxt h p"
    and "prv (snd (detach_from_list x h)) p = prv h p"
proof -
  obtain as bs where xs: "xs = as @ x # bs"
    using split_list [OF assms(2)] by auto
  from assms(1) have "ring h ((l # as) @ x # bs)" by (simp add: is_list_def xs)
  then have "ring h (x # bs @ l # as)" using ring_rotate by fastforce
  then show "nxt (snd (detach_from_list x h)) p = nxt h p"
    and "prv (snd (detach_from_list x h)) p = prv h p"
    using detach_from_list_frame [of h x "bs @ l # as" p] assms(3) xs by auto
qed

text \<open>Lists with other nodes are not affected.\<close>

lemma detach_from_list_other:
  assumes "is_list h l xs" and "x \<in> set xs" and "is_list h k ys" and "set (l # xs) \<inter> set (k # ys) = {}"
  shows "is_list (snd (detach_from_list x h)) k ys"
proof -
  have "p \<notin> set (l # xs)" if "p \<in> set (k # ys)" for p
    using that assms(4) by auto
  then show ?thesis
    unfolding is_list_def
    using detach_from_list_list_frame [OF assms(1,2)] by (intro ring_frame [OF assms(3) [unfolded is_list_def]]) simp
qed

lemma insert_into_list_back_other:
  assumes l: "is_list h l xs" and n: "n \<noteq> 0" "n \<notin> set (l # xs)"
    and k: "is_list h k ys" "set (n # l # xs) \<inter> set (k # ys) = {}"
  shows "is_list (snd (insert_into_list (prv h l) n h)) k ys"
proof -
  let ?h = "init_list_node n h"
  obtain zs where zs: "l # xs = zs @ [prv h l]" using is_list_prev [OF l] by (metis append_butlast_last_id list.distinct(1))
  have "ring h (prv h l # zs)" using l zs ring_rotate [of h zs "[prv h l]"] by (simp add: is_list_def)
  moreover have set_eq: "set (prv h l # zs) = set (l # xs)" using zs by auto
  ultimately have r: "ring ?h (prv h l # zs)" using n by (intro init_list_node_frame) auto
  have rn: "ring ?h [n]" and rk: "ring ?h (k # ys)" using n k by (auto simp: is_list_def intro: init_list_node_frame)
  have "p \<notin> set (prv h l # zs) \<union> set [n]" if "p \<in> set (k # ys)" for p
    using that k(2) unfolding set_eq by auto
  then have "ring (snd (merge_list (prv h l) n ?h)) (k # ys)"
    using merge_list_frame [OF r rn] by (intro ring_frame [OF rk]) simp
  then show ?thesis by (simp add: is_list_def insert_into_list_def)
qed

lemma insert_into_list_front_other:
  assumes l: "is_list h l xs" and n: "n \<noteq> 0" "n \<notin> set (l # xs)"
    and k: "is_list h k ys" "set (n # l # xs) \<inter> set (k # ys) = {}"
  shows "is_list (snd (insert_into_list l n h)) k ys"
proof -
  let ?h = "init_list_node n h"
  have r: "ring ?h (l # xs)" and rn: "ring ?h [n]" and rk: "ring ?h (k # ys)"
    using l n k by (auto simp: is_list_def intro: init_list_node_frame)
  have "p \<notin> set (l # xs) \<union> set [n]" if "p \<in> set (k # ys)" for p using that k(2) by auto
  then have "ring (snd (merge_list l n ?h)) (k # ys)"
    using merge_list_frame [OF r rn] by (intro ring_frame [OF rk]) simp
  then show ?thesis by (simp add: is_list_def insert_into_list_def)
qed

lemma for_in_list_links:
  assumes "links h (xs @ [l])" and "l \<notin> set xs" and "length xs < fuel"
  shows "for_in_list fuel h l (hd (xs @ [l])) = Some (xs @ [l])"
  using assms
proof (induction xs arbitrary: fuel)
  case Nil
  then show ?case by (cases fuel) auto
next
  case (Cons x xs)
  then obtain n where fuel: "fuel = Suc n" by (cases fuel) auto
  have "links h (xs @ [l])" and "nxt h x = hd (xs @ [l])"
    using Cons.prems(1) by (cases xs; simp)+
  with Cons fuel show ?case by simp
qed

lemma for_in_list_visits:
  assumes "is_list h l xs" and "length xs < fuel"
  shows "for_in_list fuel h l (nxt h l) = Some (xs @ [l])"
proof -
  have "links h (xs @ [l])" and "l \<notin> set xs"
    using assms(1) by (cases xs; simp add: is_list_def ring_def)+
  then show ?thesis
    using for_in_list_links [of h xs l fuel] assms ring_ends(2) [of h l xs]
    by (simp add: is_list_def)
qed

section \<open>The contract of the lists\<close>

text \<open>
  A loop of the form \<^verbatim>\<open>while (!_empty_list(head)) { node = head->next; detach(node); ... }\<close>,
  over the list operations: the nodes in the order in which they are taken.
\<close>

fun drain_list :: "('h \<Rightarrow> bool) \<Rightarrow> ('h \<Rightarrow> addr) \<Rightarrow> (addr \<Rightarrow> 'h \<Rightarrow> 'h) \<Rightarrow> nat \<Rightarrow> 'h
     \<Rightarrow> (addr list \<times> 'h) option" where
  "drain_list em fst_of dt 0 h = None"
| "drain_list em fst_of dt (Suc n) h =
     (if em h then Some ([], h)
      else map_option (\<lambda>(ns, h'). (fst_of h # ns, h')) (drain_list em fst_of dt n (dt (fst_of h) h)))"

locale node_list =
  fixes rep :: "'h \<Rightarrow> addr \<Rightarrow> addr list \<Rightarrow> bool"
    and is_empty :: "addr \<Rightarrow> 'h \<Rightarrow> bool"
    and first :: "addr \<Rightarrow> 'h \<Rightarrow> addr"
    and insert_front :: "addr \<Rightarrow> addr \<Rightarrow> 'h \<Rightarrow> 'h"
    and insert_back :: "addr \<Rightarrow> addr \<Rightarrow> 'h \<Rightarrow> 'h"
    and detach :: "addr \<Rightarrow> 'h \<Rightarrow> 'h"
  assumes rep_wf: "rep h l xs \<Longrightarrow> distinct (l # xs) \<and> 0 \<notin> set (l # xs)"
    and rep_empty: "rep h l xs \<Longrightarrow> is_empty l h \<longleftrightarrow> xs = []"
    and rep_first: "rep h l (x # xs) \<Longrightarrow> first l h = x"
    and rep_insert_front:
      "rep h l xs \<Longrightarrow> n \<noteq> 0 \<Longrightarrow> n \<notin> set (l # xs) \<Longrightarrow> rep (insert_front l n h) l (n # xs)"
    and rep_insert_back:
      "rep h l xs \<Longrightarrow> n \<noteq> 0 \<Longrightarrow> n \<notin> set (l # xs) \<Longrightarrow> rep (insert_back l n h) l (xs @ [n])"
    and rep_detach: "rep h l xs \<Longrightarrow> x \<in> set xs \<Longrightarrow> rep (detach x h) l (remove1 x xs)"
begin

lemma move_to_front:
  assumes "rep h l xs" and "x \<in> set xs"
  shows "rep (insert_front l x (detach x h)) l (x # remove1 x xs)"
proof (rule rep_insert_front)
  show "rep (detach x h) l (remove1 x xs)" using assms by (rule rep_detach)
  show "x \<noteq> 0" using rep_wf [OF assms(1)] assms(2) by (cases x) auto
  show "x \<notin> set (l # remove1 x xs)" using rep_wf [OF assms(1)] assms(2) by auto
qed

lemma drain_all:
  assumes "rep h l xs" and "length xs < fuel"
  shows "\<exists>h'. drain_list (is_empty l) (first l) detach fuel h = Some (xs, h') \<and> rep h' l []"
  using assms
proof (induction xs arbitrary: h fuel)
  case Nil
  then show ?case by (cases fuel) (auto simp: rep_empty)
next
  case (Cons x xs)
  then obtain n where fuel: "fuel = Suc n" and "length xs < n" by (cases fuel) auto
  have "rep (detach x h) l xs" using rep_detach [OF Cons.prems(1), of x] by simp
  with Cons.IH [of "detach x h" n] \<open>length xs < n\<close> obtain h' where
    "drain_list (is_empty l) (first l) detach n (detach x h) = Some (xs, h')" and "rep h' l []"
    by auto
  then show ?case
    using Cons.prems(1) fuel by (auto simp: rep_empty rep_first)
qed

end

interpretation kl: node_list is_list empty_list "\<lambda>l h. nxt h l"
  "\<lambda>l n h. snd (insert_into_list l n h)"
  "\<lambda>l n h. snd (insert_into_list (prv h l) n h)"
  "\<lambda>x h. snd (detach_from_list x h)"
proof unfold_locales
  show "is_list h l xs \<Longrightarrow> distinct (l # xs) \<and> 0 \<notin> set (l # xs)" for h l xs
    by (simp add: is_list_def ring_def)
qed (simp_all add: is_list_empty is_list_next insert_into_list_front insert_into_list_back
      detach_from_list_list)

section \<open>The FIFO queue refines lists\<close>

definition queue_rep :: "Queue \<times> lheap \<Rightarrow> addr list \<Rightarrow> bool" where
  "queue_rep = (\<lambda>(x, h) xs. q_sz x = int (length xs) \<and>
     (if xs = [] then q_begin x = 0 \<and> q_end x = 0
      else ring h xs \<and> q_begin x = hd xs \<and> q_end x = last xs))"

text \<open>Taking the first \<^verbatim>\<open>n\<close> elements of a queue.\<close>

fun take_queue :: "('q \<Rightarrow> 'a res) \<Rightarrow> ('q \<Rightarrow> 'q res) \<Rightarrow> nat \<Rightarrow> 'q \<Rightarrow> ('a list \<times> 'q) res" where
  "take_queue front pop 0 q = Inr ([], q)"
| "take_queue front pop (Suc n) q =
     rbind (front q) (\<lambda>x. rbind (pop q) (\<lambda>q.
       rbind (take_queue front pop n q) (\<lambda>(xs, q). Inr (x # xs, q))))"

locale fifo =
  fixes rep :: "'q \<Rightarrow> 'a list \<Rightarrow> bool"
    and ok :: "'a \<Rightarrow> 'a list \<Rightarrow> bool"
    and push :: "'a \<Rightarrow> 'q \<Rightarrow> 'q"
    and pop :: "'q \<Rightarrow> 'q res"
    and front :: "'q \<Rightarrow> 'a res"
    and is_empty :: "'q \<Rightarrow> bool"
  assumes rep_push: "rep q xs \<Longrightarrow> ok x xs \<Longrightarrow> rep (push x q) (xs @ [x])"
    and rep_pop: "rep q (x # xs) \<Longrightarrow> \<exists>q'. pop q = Inr q' \<and> rep q' xs"
    and rep_front: "rep q (x # xs) \<Longrightarrow> front q = Inr x"
    and rep_is_empty: "rep q xs \<Longrightarrow> is_empty q \<longleftrightarrow> xs = []"
begin

lemma rep_push_list:
  assumes "rep q xs" and "\<And>i. i < length ys \<Longrightarrow> ok (ys ! i) (xs @ take i ys)"
  shows "rep (fold push ys q) (xs @ ys)"
  using assms
proof (induction ys rule: rev_induct)
  case (snoc y ys)
  have "rep (fold push ys q) (xs @ ys)"
  proof (rule snoc.IH [OF snoc.prems(1)])
    show "ok (ys ! i) (xs @ take i ys)" if "i < length ys" for i
      using snoc.prems(2) [of i] that by (simp add: nth_append)
  qed
  moreover have "ok y (xs @ ys)"
    using snoc.prems(2) [of "length ys"] by simp
  ultimately show ?case using rep_push by fastforce
qed simp

lemma rep_take_all:
  assumes "rep q xs"
  shows "\<exists>q'. take_queue front pop (length xs) q = Inr (xs, q') \<and> rep q' [] \<and> is_empty q'"
  using assms
proof (induction xs arbitrary: q)
  case Nil
  then show ?case by (simp add: rep_is_empty)
next
  case (Cons x xs)
  then show ?case using rep_front [OF Cons.prems] rep_pop [OF Cons.prems] by fastforce
qed

lemma push_pop_in_order:
  assumes "rep q (x # xs)" and "ok y (x # xs)"
  shows "front (push y q) = Inr x \<and> (\<exists>q'. pop (push y q) = Inr q' \<and> rep q' (xs @ [y]))"
  using rep_push [OF assms] by (auto dest: rep_front rep_pop)

end

lemma queue_init_rep: "queue_rep (queue_init, h) []"
  by (simp add: queue_rep_def queue_init_def)

lemma queue_push_rep:
  assumes rep: "queue_rep (x, h) xs" and n: "item \<noteq> 0" "item \<notin> set xs"
  shows "queue_rep (queue_push item (x, h)) (xs @ [item])"
proof (cases xs rule: rev_cases)
  case Nil
  then show ?thesis using rep n by (simp add: queue_rep_def queue_push_def Let_def)
next
  case (snoc ys y)
  let ?h = "init_list_node item h"
  have "ring h (ys @ [y])" using rep snoc by (simp add: queue_rep_def)
  then have "ring h (y # ys)" using ring_rotate [of h ys "[y]"] by simp
  then have "ring ?h (y # ys)" and "ring ?h [item]"
    using n snoc by (auto intro: init_list_node_frame)
  then have "ring (snd (merge_list y item ?h)) (y # item # ys)"
    using merge_list_ring(1) [of ?h y ys item "[]"] n snoc by auto
  then have "ring (snd (merge_list y item ?h)) (ys @ [y, item])"
    using ring_rotate [of _ "[y, item]" ys] by simp
  moreover have "q_sz x \<noteq> 0" "q_end x = y" "q_begin x = hd xs" "q_sz x = int (length xs)"
    using rep snoc by (auto simp: queue_rep_def)
  ultimately show ?thesis
    using snoc by (cases ys) (simp_all add: queue_rep_def queue_push_def Let_def)
qed

lemma queue_pop_rep:
  assumes rep: "queue_rep (x, h) (a # xs)"
  shows "\<exists>q'. queue_pop (x, h) = Inr q' \<and> queue_rep q' xs"
proof (cases xs)
  case Nil
  then show ?thesis using rep by (auto simp: queue_rep_def queue_pop_def Let_def)
next
  case (Cons b ys)
  have r: "ring h (a # xs)" and q: "q_begin x = a" "q_end x = last xs" "q_sz x = int (length xs) + 1"
    using rep Cons by (auto simp: queue_rep_def)
  then have "ring (snd (detach_from_list a h)) xs" and "nxt h a = b"
    using detach_from_list_ring(1) [OF r] ring_ends(2) [OF r] Cons by auto
  then show ?thesis
    using q Cons by (auto simp: queue_rep_def queue_pop_def Let_def)
qed

interpretation kq: fifo queue_rep "\<lambda>n xs. n \<noteq> 0 \<and> n \<notin> set xs" queue_push queue_pop
  "\<lambda>q. queue_front (fst q)" "\<lambda>q. queue_empty (fst q)"
proof unfold_locales
  show "queue_rep q (a # xs) \<Longrightarrow> queue_front (fst q) = Inr a" for q a xs
    by (auto simp: queue_rep_def queue_front_def ring_def split: prod.splits)
  show "queue_rep q xs \<Longrightarrow> queue_empty (fst q) \<longleftrightarrow> xs = []" for q xs
    by (auto simp: queue_rep_def queue_empty_def split: prod.splits)
  show "queue_rep q (a # xs) \<Longrightarrow> \<exists>q'. queue_pop q = Inr q' \<and> queue_rep q' xs" for q a xs
    by (cases q) (use queue_pop_rep in blast)
qed (auto intro: queue_push_rep)

section \<open>The lock-free stack\<close>

text \<open>
  \<^verbatim>\<open>add_to_queue\<close> and \<^verbatim>\<open>fetch_from_queue\<close> retry a compare-and-exchange of the head until it
  succeeds. A thread is between two shared accesses of its loop, so an execution is a sequence
  of the following events:
  \<^item> \<^verbatim>\<open>AddRead t n\<close>: thread \<^verbatim>\<open>t\<close> executes \<^verbatim>\<open>node->next = *head\<close>;
  \<^item> \<^verbatim>\<open>AddCas t\<close>: its compare-and-exchange, which stores the node when the head still is
    \<^verbatim>\<open>node->next\<close> and otherwise writes the current head to \<^verbatim>\<open>node->next\<close> (the loop then reads
    it again, which is the same assignment);
  \<^item> \<^verbatim>\<open>FetchRead t\<close>: \<^verbatim>\<open>node = *head\<close>, which returns null on an empty stack, and the read of
    \<^verbatim>\<open>node->next\<close> for the call;
  \<^item> \<^verbatim>\<open>FetchCas t\<close>: its compare-and-exchange, after which the thread owns the node.
  \<^verbatim>\<open>held t\<close> are the nodes that the calls of \<^verbatim>\<open>t\<close> have returned and that \<^verbatim>\<open>t\<close> has not added
  again.
\<close>

datatype qpc = QIdle | QAdding addr | QFetching addr addr

record qstate =
  q_head :: addr
  q_next :: "addr \<Rightarrow> addr"
  q_pc :: "nat \<Rightarrow> qpc"
  held :: "nat \<Rightarrow> addr list"

datatype qevent = AddRead nat addr | AddCas nat | FetchRead nat | FetchCas nat

fun qstep :: "qevent \<Rightarrow> qstate \<Rightarrow> qstate option" where
  "qstep (AddRead t n) s =
     (if q_pc s t = QIdle \<and> n \<in> set (held s t)
      then Some (s\<lparr>q_next := (q_next s)(n := q_head s), q_pc := (q_pc s)(t := QAdding n),
                  held := (held s)(t := remove1 n (held s t))\<rparr>)
      else None)"
| "qstep (AddCas t) s =
     (case q_pc s t of
        QAdding n \<Rightarrow>
          if q_head s = q_next s n then Some (s\<lparr>q_head := n, q_pc := (q_pc s)(t := QIdle)\<rparr>)
          else Some (s\<lparr>q_next := (q_next s)(n := q_head s)\<rparr>)
      | _ \<Rightarrow> None)"
| "qstep (FetchRead t) s =
     (if q_pc s t = QIdle
      then if q_head s = 0 then Some s
           else Some (s\<lparr>q_pc := (q_pc s)(t := QFetching (q_head s) (q_next s (q_head s)))\<rparr>)
      else None)"
| "qstep (FetchCas t) s =
     (case q_pc s t of
        QFetching n m \<Rightarrow>
          if q_head s = n
          then Some (s\<lparr>q_head := m, q_pc := (q_pc s)(t := QIdle),
                      held := (held s)(t := n # held s t)\<rparr>)
          else Some (s\<lparr>q_pc := (q_pc s)(t := QIdle)\<rparr>)
      | _ \<Rightarrow> None)"

fun qrun :: "qevent list \<Rightarrow> qstate \<Rightarrow> qstate option" where
  "qrun [] s = Some s"
| "qrun (e # es) s = (case qstep e s of None \<Rightarrow> None | Some s' \<Rightarrow> qrun es s')"

text \<open>
  The two calls when no other thread runs between their accesses: what
  \<^verbatim>\<open>add_to_queue\<close> and \<^verbatim>\<open>fetch_from_queue\<close> do on a quiet stack.
\<close>

definition add_to_queue :: "nat \<Rightarrow> addr \<Rightarrow> qstate \<Rightarrow> qstate option" where
  "add_to_queue t node s = qrun [AddRead t node, AddCas t] s"

definition fetch_from_queue :: "nat \<Rightarrow> qstate \<Rightarrow> (addr \<times> qstate) option" where
  "fetch_from_queue t s =
     (if q_head s = 0 then map_option (Pair 0) (qrun [FetchRead t] s)
      else map_option (Pair (q_head s)) (qrun [FetchRead t, FetchCas t] s))"

definition fetch_all_from_queue :: "qstate \<Rightarrow> addr \<times> qstate" where
  "fetch_all_from_queue s = (q_head s, s\<lparr>q_head := 0\<rparr>)"

fun qlist :: "(addr \<Rightarrow> addr) \<Rightarrow> addr \<Rightarrow> addr list \<Rightarrow> bool" where
  "qlist nx p [] \<longleftrightarrow> p = 0"
| "qlist nx p (x # xs) \<longleftrightarrow> p = x \<and> p \<noteq> 0 \<and> qlist nx (nx p) xs"

text \<open>Every node is on the stack once or belongs to one thread.\<close>

definition qowned :: "qstate \<Rightarrow> addr list \<Rightarrow> bool" where
  "qowned s xs \<longleftrightarrow> qlist (q_next s) (q_head s) xs \<and> distinct xs \<and>
     (\<forall>t. q_pc s t = QIdle \<and> distinct (held s t) \<and> 0 \<notin> set (held s t) \<and>
          set (held s t) \<inter> set xs = {}) \<and>
     (\<forall>t t'. t \<noteq> t' \<longrightarrow> set (held s t) \<inter> set (held s t') = {})"

lemma qlist_upd [simp]: "n \<notin> set xs \<Longrightarrow> qlist (nx(n := v)) p xs = qlist nx p xs"
  by (induction xs arbitrary: p) auto

lemma add_to_queue_owned:
  assumes inv: "qowned s xs" and n: "n \<in> set (held s t)"
  shows "\<exists>s'. add_to_queue t n s = Some s' \<and> qowned s' (n # xs) \<and>
           held s' t = remove1 n (held s t)"
proof -
  have "n \<noteq> 0" using inv n by (auto simp: qowned_def)
  then show ?thesis
    using inv n by (auto simp: add_to_queue_def qowned_def disjoint_iff split: if_splits)
qed

lemma fetch_from_queue_owned:
  assumes "qowned s xs"
  shows "\<exists>s'. fetch_from_queue t s = Some (case xs of [] \<Rightarrow> 0 | x # _ \<Rightarrow> x, s') \<and>
           qowned s' (tl xs) \<and> held s' t = take 1 xs @ held s t"
proof (cases xs)
  case Nil
  then show ?thesis using assms by (auto simp: fetch_from_queue_def qowned_def)
next
  case (Cons x ys)
  then show ?thesis
    using assms by (auto simp: fetch_from_queue_def qowned_def disjoint_iff)
qed

section \<open>Properties\<close>


definition demo_heap :: lheap where
  "demo_heap = \<lparr>prv = (\<lambda>p. if p = 1 then 3 else if p = 2 then 1 else if p = 3 then 2 else p),
     nxt = (\<lambda>p. if p = 1 then 2 else if p = 2 then 3 else if p = 3 then 1 else p)\<rparr>"

lemma demo_heap_list: "is_list demo_heap 1 [2, 3]"
  by (simp add: is_list_def ring_def demo_heap_def)


text \<open>
  the queue of \<^verbatim>\<open>list.h\<close> is first in, first out: nodes pushed in any order onto an empty queue
  are found at its front in the same order, and the queue is empty after as many pops.
\<close>

theorem queue_first_in_first_out:
  assumes "distinct ns" and "0 \<notin> set ns"
  shows "\<exists>q. take_queue (\<lambda>q. queue_front (fst q)) queue_pop (length ns) (fold queue_push ns (queue_init, h)) =
    Inr (ns, q) \<and> queue_empty (fst q)"
proof -
  have "queue_rep (fold queue_push ns (queue_init, h)) ([] @ ns)"
  proof (rule kq.rep_push_list [OF queue_init_rep])
    fix i assume i: "i < length ns"
    then have "ns ! i \<notin> set (take i ns)"
      using assms(1) by (auto simp: in_set_conv_nth nth_eq_iff_index_eq)
    moreover have "ns ! i \<noteq> 0" using i assms(2) nth_mem by metis
    ultimately show "ns ! i \<noteq> 0 \<and> ns ! i \<notin> set ([] @ take i ns)" by simp
  qed
  then show ?thesis using kq.rep_take_all by fastforce
qed

theorem queue_first_in_first_out_witness:
  "\<exists>q. take_queue (\<lambda>q. queue_front (fst q)) queue_pop 3 (fold queue_push [7, 5, 9] (queue_init, demo_heap)) =
    Inr ([7, 5, 9], q)"
  using queue_first_in_first_out [of "[7, 5, 9]" demo_heap] by (auto simp: numeral_3_eq_3)

definition aba_start :: qstate where
  "aba_start = \<lparr>q_head = 1, q_next = (\<lambda>n. if n = 1 then 2 else 0), q_pc = (\<lambda>_. QIdle), held = (\<lambda>_. [])\<rparr>"


end
