(* ===== verification/Sync.thy ===== *)
theory Sync
  imports Klist
begin

text \<open>
  \<^verbatim>\<open>src/src/common/spinlock.c\<close>, \<^verbatim>\<open>rc.c\<close> and \<^verbatim>\<open>sem.c\<close>: spin locks, reference counts and
  counting semaphores with a list of sleeping processes. The semaphore operations are the
  critical sections that run under the semaphore's spin lock; \<^verbatim>\<open>_wait_sem\<close> has two of them,
  before and after the call of the scheduler. The last section runs them in any order: the
  sleep locks of the file system are semaphores that start at 1.
\<close>

section \<open>Spin locks\<close>

type_synonym SpinLock = bool

definition init_spinlock :: SpinLock where
  "init_spinlock = False"

definition try_acquire_spinlock :: "SpinLock \<Rightarrow> bool \<times> SpinLock" where
  "try_acquire_spinlock locked = (if \<not> locked then (True, True) else (False, locked))"

text \<open>
  The loop of \<^verbatim>\<open>_acquire_spinlock\<close> seen by one thread: a lock that is taken stays taken, since
  only the running thread could release it.
\<close>

definition acquire_spinlock :: "SpinLock \<Rightarrow> SpinLock res" where
  "acquire_spinlock locked =
     (let (ok, l) = try_acquire_spinlock locked in if ok then Inr l else Inl Spin)"

definition release_spinlock :: "SpinLock \<Rightarrow> SpinLock" where
  "release_spinlock locked = False"

lemma acquire_spinlock_simps [simp]:
  "acquire_spinlock False = Inr True"
  "acquire_spinlock True = Inl Spin"
  by (simp_all add: acquire_spinlock_def try_acquire_spinlock_def)

lemma acquire_spinlock_Inr_iff [res_simps]:
  "acquire_spinlock l = Inr l' \<longleftrightarrow> \<not> l \<and> l'"
  by (cases l) auto

section \<open>Reference counts\<close>

type_synonym RefCount = int

definition init_rc :: RefCount where
  "init_rc = 0"

definition increment_rc :: "RefCount \<Rightarrow> RefCount" where
  "increment_rc rc = rc + 1"

definition decrement_rc :: "RefCount \<Rightarrow> bool \<times> RefCount" where
  "decrement_rc rc = (let r = rc - 1 in (r \<le> 0, r))"

section \<open>Semaphores\<close>

text \<open>
  A process that waits has one \<^verbatim>\<open>WaitData\<close>, so the sleep list is a list of processes, from
  \<^verbatim>\<open>sleeplist.next\<close> on, and \<^verbatim>\<open>up p\<close> is the field \<^verbatim>\<open>up\<close> of the \<^verbatim>\<open>WaitData\<close> of \<^verbatim>\<open>p\<close>.
\<close>

record Semaphore =
  sval :: int
  sleeplist :: "nat list"
  up :: "nat \<Rightarrow> bool"

definition init_sem :: "int \<Rightarrow> Semaphore" where
  "init_sem v = \<lparr>sval = v, sleeplist = [], up = (\<lambda>_. False)\<rparr>"

definition get_sem :: "Semaphore \<Rightarrow> bool \<times> Semaphore" where
  "get_sem sem = (if sval sem > 0 then (True, sem\<lparr>sval := sval sem - 1\<rparr>) else (False, sem))"

definition query_sem :: "Semaphore \<Rightarrow> int" where
  "query_sem sem = sval sem"

definition get_all_sem :: "Semaphore \<Rightarrow> int \<times> Semaphore" where
  "get_all_sem sem = (if sval sem > 0 then (sval sem, sem\<lparr>sval := 0\<rparr>) else (0, sem))"

text \<open>\<^verbatim>\<open>_post_sem\<close>: the process it activates, if any.\<close>

definition post_sem :: "Semaphore \<Rightarrow> (nat option \<times> Semaphore) res" where
  "post_sem sem =
     (let sem = sem\<lparr>sval := sval sem + 1\<rparr>
      in if sval sem \<le> 0
         then if sleeplist sem = [] then Inl Panic
              else let wait = last (sleeplist sem)
                   in Inr (Some wait, sem\<lparr>up := (up sem)(wait := True),
                                          sleeplist := remove1 wait (sleeplist sem)\<rparr>)
         else Inr (None, sem))"

text \<open>\<^verbatim>\<open>post_all_sem\<close>: posts until a token can be taken back; the result counts the extra posts.\<close>

fun post_all_loop :: "nat \<Rightarrow> Semaphore \<Rightarrow> int \<Rightarrow> nat list \<Rightarrow> (int \<times> nat list \<times> Semaphore) res option"
where
  "post_all_loop 0 sem ret ws = None"
| "post_all_loop (Suc n) sem ret ws =
     (case post_sem sem of
        Inl e \<Rightarrow> Some (Inl e)
      | Inr (w, sem) \<Rightarrow>
          let ret = ret + 1;
              ws = (case w of None \<Rightarrow> ws | Some p \<Rightarrow> ws @ [p]);
              (got, sem) = get_sem sem
          in if got then Some (Inr (ret, ws, sem)) else post_all_loop n sem ret ws)"

definition post_all_sem :: "Semaphore \<Rightarrow> (int \<times> nat list \<times> Semaphore) res option" where
  "post_all_sem sem = post_all_loop (length (sleeplist sem) + 1) sem (-1) []"

text \<open>
  \<^verbatim>\<open>_wait_sem\<close> up to the call of the scheduler: \<^verbatim>\<open>True\<close> when the token was there, otherwise the
  process is on the sleep list and goes to sleep.
\<close>

definition wait_sem_enter :: "nat \<Rightarrow> Semaphore \<Rightarrow> bool \<times> Semaphore" where
  "wait_sem_enter p sem =
     (let sem = sem\<lparr>sval := sval sem - 1\<rparr>
      in if sval sem \<ge> 0 then (True, sem)
         else (False, sem\<lparr>up := (up sem)(p := False), sleeplist := p # sleeplist sem\<rparr>))"

text \<open>\<^verbatim>\<open>_wait_sem\<close> after the scheduler has come back to the process.\<close>

definition wait_sem_resume :: "nat \<Rightarrow> Semaphore \<Rightarrow> (bool \<times> Semaphore) res" where
  "wait_sem_resume p sem =
     (if \<not> up sem p
      then let sem = sem\<lparr>sval := sval sem + 1\<rparr>
           in if sval sem \<le> 0
              then Inr (False, sem\<lparr>sleeplist := remove1 p (sleeplist sem)\<rparr>)
              else Inl Panic
      else Inr (True, sem))"

text \<open>
  \<^verbatim>\<open>wait_sem\<close> and \<^verbatim>\<open>unalertable_wait_sem\<close> as a thread that does not find a token sees them:
  it sleeps.
\<close>

definition wait_sem_now :: "Semaphore \<Rightarrow> Semaphore res" where
  "wait_sem_now sem = (if sval sem - 1 \<ge> 0 then Inr (sem\<lparr>sval := sval sem - 1\<rparr>) else Inl Sleep)"

section \<open>The semaphore invariant\<close>

definition sem_inv :: "Semaphore \<Rightarrow> bool" where
  "sem_inv sem \<longleftrightarrow> int (length (sleeplist sem)) = max 0 (- sval sem) \<and> distinct (sleeplist sem)"

lemma init_sem_inv: "0 \<le> v \<Longrightarrow> sem_inv (init_sem v)"
  by (simp add: sem_inv_def init_sem_def)

lemma get_sem_inv: "sem_inv sem \<Longrightarrow> sem_inv (snd (get_sem sem))"
  by (auto simp: sem_inv_def get_sem_def)

lemma get_all_sem_inv: "sem_inv sem \<Longrightarrow> sem_inv (snd (get_all_sem sem))"
  by (auto simp: sem_inv_def get_all_sem_def)

lemma wait_sem_enter_inv:
  "sem_inv sem \<Longrightarrow> p \<notin> set (sleeplist sem) \<Longrightarrow> sem_inv (snd (wait_sem_enter p sem))"
  by (auto simp: sem_inv_def wait_sem_enter_def Let_def)

lemma wait_sem_enter_now:
  "wait_sem_now sem = (if fst (wait_sem_enter p sem) then Inr (snd (wait_sem_enter p sem)) else Inl Sleep)"
  by (simp add: wait_sem_now_def wait_sem_enter_def Let_def)

lemma last_remove1: "distinct xs \<Longrightarrow> xs \<noteq> [] \<Longrightarrow> remove1 (last xs) xs = butlast xs"
proof (induction xs rule: rev_induct)
  case (snoc x xs)
  then show ?case by (simp add: remove1_append)
qed simp

lemma post_sem_sleeper:
  assumes "sem_inv sem" and "sval sem < 0"
  shows "post_sem sem = Inr (Some (last (sleeplist sem)),
           sem\<lparr>sval := sval sem + 1, up := (up sem)(last (sleeplist sem) := True),
              sleeplist := butlast (sleeplist sem)\<rparr>)"
    and "sleeplist sem \<noteq> []"
proof -
  show "sleeplist sem \<noteq> []" using assms by (auto simp: sem_inv_def)
  then show "post_sem sem = Inr (Some (last (sleeplist sem)),
           sem\<lparr>sval := sval sem + 1, up := (up sem)(last (sleeplist sem) := True),
              sleeplist := butlast (sleeplist sem)\<rparr>)"
    using assms last_remove1 [of "sleeplist sem"]
    by (simp add: post_sem_def Let_def sem_inv_def)
qed

lemma post_sem_free:
  assumes "0 \<le> sval sem"
  shows "post_sem sem = Inr (None, sem\<lparr>sval := sval sem + 1\<rparr>)"
  using assms by (simp add: post_sem_def Let_def)

lemma post_sem_inv:
  assumes "sem_inv sem"
  shows "\<exists>w sem'. post_sem sem = Inr (w, sem') \<and> sem_inv sem' \<and> sval sem' = sval sem + 1"
proof (cases "sval sem < 0")
  case True
  then show ?thesis
    using post_sem_sleeper [OF assms True] assms by (auto simp: sem_inv_def distinct_butlast)
next
  case False
  then show ?thesis
    using post_sem_free [of sem] assms by (auto simp: sem_inv_def)
qed

lemma wait_sem_resume_inv:
  assumes "sem_inv sem" and "\<not> up sem p \<longrightarrow> p \<in> set (sleeplist sem)"
  shows "\<exists>sem'. wait_sem_resume p sem = Inr (up sem p, sem') \<and> sem_inv sem'"
proof (cases "up sem p")
  case True
  then show ?thesis using assms by (simp add: wait_sem_resume_def)
next
  case False
  then have "p \<in> set (sleeplist sem)" using assms by simp
  moreover from this have "sval sem < 0"
    using assms(1) by (cases "sleeplist sem") (auto simp: sem_inv_def)
  ultimately show ?thesis
    using assms False
    by (auto simp: wait_sem_resume_def Let_def sem_inv_def length_remove1)
qed

text \<open>\<^verbatim>\<open>post_all_sem\<close> ends, wakes every sleeper in arrival order and leaves no debt.\<close>

lemma post_all_loop_result:
  assumes "sem_inv sem" and "length (sleeplist sem) < n"
  shows "post_all_loop n sem ret ws =
    Some (Inr (ret + 1 + int (length (sleeplist sem)), ws @ rev (sleeplist sem),
      sem\<lparr>sval := max 0 (sval sem), sleeplist := [],
         up := (\<lambda>p. p \<in> set (sleeplist sem) \<or> up sem p)\<rparr>))"
  using assms
proof (induction n arbitrary: sem ret ws)
  case (Suc n)
  show ?case
  proof (cases "sval sem < 0")
    case True
    let ?l = "last (sleeplist sem)"
    let ?s = "sem\<lparr>sval := sval sem + 1, up := (up sem)(?l := True),
                sleeplist := butlast (sleeplist sem)\<rparr>"
    note p = post_sem_sleeper [OF Suc.prems(1) True]
    have inv: "sem_inv ?s"
      using Suc.prems(1) True by (auto simp: sem_inv_def distinct_butlast)
    have lt: "length (sleeplist ?s) < n" using Suc.prems(2) p(2) by (cases "sleeplist sem") auto
    have sl: "sleeplist sem = butlast (sleeplist sem) @ [?l]" using p(2) by simp
    have "post_all_loop (Suc n) sem ret ws = post_all_loop n ?s (ret + 1) (ws @ [?l])"
      using p(1) True by (simp add: get_sem_def)
    also have "\<dots> = Some (Inr (ret + 1 + 1 + int (length (sleeplist ?s)), (ws @ [?l]) @ rev (sleeplist ?s),
        ?s\<lparr>sval := max 0 (sval ?s), sleeplist := [], up := (\<lambda>p. p \<in> set (sleeplist ?s) \<or> up ?s p)\<rparr>))"
      by (rule Suc.IH [OF inv lt])
    also have "ret + 1 + 1 + int (length (sleeplist ?s)) = ret + 1 + int (length (sleeplist sem))"
      using p(2) by (simp add: Suc_leI)
    also have "(ws @ [?l]) @ rev (sleeplist ?s) = ws @ rev (sleeplist sem)"
      by (subst (2) sl) simp
    also have "(\<lambda>p. p \<in> set (sleeplist ?s) \<or> up ?s p) = (\<lambda>p. p \<in> set (sleeplist sem) \<or> up sem p)"
      by (subst (2) sl) auto
    finally show ?thesis using True by simp
  next
    case False
    then have "sleeplist sem = []" using Suc.prems(1) by (simp add: sem_inv_def)
    then show ?thesis
      using False post_sem_free [of sem] by (simp add: get_sem_def)
  qed
qed simp

section \<open>Sleep locks\<close>

text \<open>
  Processes around one sleep lock. A process is outside, asleep in \<^verbatim>\<open>_wait_sem\<close> or inside.
  It may come back from the scheduler because \<^verbatim>\<open>_post_sem\<close> activated it or for any other
  reason (\<^verbatim>\<open>kill\<close> activates sleeping processes), so a step for a sleeping process is always
  possible.
\<close>

datatype slpc = Outside | Asleep | Inside

record slstate =
  slock :: Semaphore
  slpcs :: "nat \<Rightarrow> slpc"

definition sl_init :: slstate where
  "sl_init = \<lparr>slock = init_sem 1, slpcs = (\<lambda>_. Outside)\<rparr>"

inductive sl_step :: "slstate \<Rightarrow> slstate \<Rightarrow> bool" where
  sl_acquire: "slpcs s p = Outside \<Longrightarrow> wait_sem_enter p (slock s) = (ok, sem) \<Longrightarrow>
     sl_step s (s\<lparr>slock := sem, slpcs := (slpcs s)(p := if ok then Inside else Asleep)\<rparr>)"
| sl_resume: "slpcs s p = Asleep \<Longrightarrow> wait_sem_resume p (slock s) = Inr (ok, sem) \<Longrightarrow>
     sl_step s (s\<lparr>slock := sem, slpcs := (slpcs s)(p := if ok then Inside else Outside)\<rparr>)"
| sl_release: "slpcs s p = Inside \<Longrightarrow> post_sem (slock s) = Inr (w, sem) \<Longrightarrow>
     sl_step s (s\<lparr>slock := sem, slpcs := (slpcs s)(p := Outside)\<rparr>)"

inductive sl_reachable :: "slstate \<Rightarrow> bool" where
  sl_start: "sl_reachable sl_init"
| sl_next: "sl_reachable s \<Longrightarrow> sl_step s t \<Longrightarrow> sl_reachable t"

text \<open>The token is in the semaphore or with one process that is inside or on its way in.\<close>

definition granted :: "slstate \<Rightarrow> nat set" where
  "granted s = {p. slpcs s p = Inside \<or> (slpcs s p = Asleep \<and> up (slock s) p)}"

definition sl_inv :: "slstate \<Rightarrow> bool" where
  "sl_inv s \<longleftrightarrow> sem_inv (slock s) \<and> sval (slock s) \<le> 1 \<and>
     set (sleeplist (slock s)) = {p. slpcs s p = Asleep \<and> \<not> up (slock s) p} \<and>
     (if sval (slock s) = 1 then granted s = {} else \<exists>p. granted s = {p})"

lemma sl_init_inv: "sl_inv sl_init"
  by (simp add: sl_inv_def sl_init_def init_sem_def sem_inv_def granted_def)

lemma sl_acquire_inv:
  assumes inv: "sl_inv s" and pc: "slpcs s p = Outside"
    and w: "wait_sem_enter p (slock s) = (ok, sem)"
  shows "sl_inv (s\<lparr>slock := sem, slpcs := (slpcs s)(p := if ok then Inside else Asleep)\<rparr>)"
proof (cases "sval (slock s) = 1")
  case True
  then have "ok" and "sem = (slock s)\<lparr>sval := 0\<rparr>"
    using w by (auto simp: wait_sem_enter_def Let_def)
  moreover have "granted s = {}" using inv True by (simp add: sl_inv_def)
  ultimately show ?thesis
    using inv pc True by (auto simp: sl_inv_def granted_def sem_inv_def)
next
  case False
  then have le: "sval (slock s) \<le> 0" using inv by (simp add: sl_inv_def)
  then have "\<not> ok" and sem: "sem = (slock s)\<lparr>sval := sval (slock s) - 1,
      up := (up (slock s))(p := False), sleeplist := p # sleeplist (slock s)\<rparr>"
    using w by (auto simp: wait_sem_enter_def Let_def)
  obtain q where q: "granted s = {q}" using inv False by (auto simp: sl_inv_def)
  have "p \<notin> granted s" using pc by (simp add: granted_def)
  let ?t = "s\<lparr>slock := sem, slpcs := (slpcs s)(p := if ok then Inside else Asleep)\<rparr>"
  have "granted ?t = granted s"
    using \<open>p \<notin> granted s\<close> \<open>\<not> ok\<close> by (auto simp: granted_def sem)
  moreover have "sem_inv sem"
    using wait_sem_enter_inv [of "slock s" p] inv pc w by (auto simp: sl_inv_def)
  moreover have "set (sleeplist sem) = {x. slpcs ?t x = Asleep \<and> \<not> up sem x}"
    using inv pc \<open>\<not> ok\<close> by (auto simp: sl_inv_def sem)
  ultimately show ?thesis
    using le q by (simp add: sl_inv_def sem)
qed

lemma sl_resume_inv:
  assumes inv: "sl_inv s" and pc: "slpcs s p = Asleep"
    and w: "wait_sem_resume p (slock s) = Inr (ok, sem)"
  shows "sl_inv (s\<lparr>slock := sem, slpcs := (slpcs s)(p := if ok then Inside else Outside)\<rparr>)"
proof (cases "up (slock s) p")
  case True
  then have "ok" and "sem = slock s" using w by (auto simp: wait_sem_resume_def)
  moreover have "granted (s\<lparr>slpcs := (slpcs s)(p := Inside)\<rparr>) = granted s"
    using pc True by (auto simp: granted_def)
  ultimately show ?thesis
    using inv pc True by (auto simp: sl_inv_def)
next
  case False
  let ?t = "s\<lparr>slock := sem, slpcs := (slpcs s)(p := Outside)\<rparr>"
  have sl: "p \<in> set (sleeplist (slock s))" using inv pc False by (auto simp: sl_inv_def)
  have ok: "\<not> ok" and sem: "sem = (slock s)\<lparr>sval := sval (slock s) + 1,
      sleeplist := remove1 p (sleeplist (slock s))\<rparr>"
    using w False by (auto simp: wait_sem_resume_def Let_def split: if_splits)
  have "sem_inv sem"
    using wait_sem_resume_inv [of "slock s" p] inv sl w by (auto simp: sl_inv_def)
  moreover have "granted ?t = granted s"
    using pc False by (auto simp: granted_def sem)
  moreover have "sval (slock s) < 0"
    using sl inv by (cases "sleeplist (slock s)") (auto simp: sl_inv_def sem_inv_def)
  moreover have "set (sleeplist sem) = {x. slpcs ?t x = Asleep \<and> \<not> up sem x}"
    using inv sl by (auto simp: sl_inv_def sem_inv_def sem)
  ultimately show ?thesis
    using inv ok by (auto simp: sl_inv_def sem)
qed

lemma sl_release_inv:
  assumes inv: "sl_inv s" and pc: "slpcs s p = Inside"
    and w: "post_sem (slock s) = Inr (v, sem)"
  shows "sl_inv (s\<lparr>slock := sem, slpcs := (slpcs s)(p := Outside)\<rparr>)"
proof -
  let ?t = "s\<lparr>slock := sem, slpcs := (slpcs s)(p := Outside)\<rparr>"
  have p: "p \<in> granted s" and si: "sem_inv (slock s)"
    using inv pc by (auto simp: sl_inv_def granted_def)
  have gr: "granted s = {p}" and le: "sval (slock s) \<le> 0"
    using inv p unfolding sl_inv_def by (auto split: if_splits)
  have si': "sem_inv sem" using post_sem_inv [OF si] w by auto
  show ?thesis
  proof (cases "sval (slock s) < 0")
    case True
    let ?l = "last (sleeplist (slock s))"
    note ps = post_sem_sleeper [OF si True]
    have sem: "sem = (slock s)\<lparr>sval := sval (slock s) + 1, up := (up (slock s))(?l := True),
        sleeplist := butlast (sleeplist (slock s))\<rparr>"
      using ps(1) w by simp
    have l: "?l \<in> set (sleeplist (slock s))" using ps(2) by simp
    then have lpc: "slpcs s ?l = Asleep" using inv by (auto simp: sl_inv_def)
    have sl: "set (butlast (sleeplist (slock s))) = set (sleeplist (slock s)) - {?l}"
      using si last_remove1 [of "sleeplist (slock s)"] ps(2)
      by (metis sem_inv_def set_remove1_eq)
    have "granted ?t = {?l}"
      using gr lpc pc by (auto simp: granted_def sem split: if_splits)
    moreover have "set (sleeplist sem) = {x. slpcs ?t x = Asleep \<and> \<not> up sem x}"
      using inv pc sl by (auto simp: sl_inv_def sem)
    ultimately show ?thesis using si' True by (simp add: sl_inv_def sem)
  next
    case False
    then have sem: "sem = (slock s)\<lparr>sval := sval (slock s) + 1\<rparr>"
      using post_sem_free [of "slock s"] w by simp
    have "granted ?t = {}" using gr by (auto simp: granted_def sem)
    then show ?thesis
      using si' inv pc False le by (auto simp: sl_inv_def sem)
  qed
qed

lemma sl_step_inv: "sl_step s t \<Longrightarrow> sl_inv s \<Longrightarrow> sl_inv t"
  by (induction rule: sl_step.induct) (simp_all add: sl_acquire_inv sl_resume_inv sl_release_inv)

lemma sl_reachable_inv: "sl_reachable s \<Longrightarrow> sl_inv s"
  by (induction rule: sl_reachable.induct) (auto intro: sl_init_inv sl_step_inv)

section \<open>Properties\<close>



text \<open>
  \<^verbatim>\<open>post_all_sem\<close> ends after one round per sleeping process and one more, wakes all of them in the
  order of their arrival, returns their number, and leaves the semaphore without sleepers and
  without a debt.
\<close>

theorem post_all_sem_wakes_all:
  assumes "sem_inv sem"
  shows "\<exists>sem'. post_all_sem sem = Some (Inr (int (length (sleeplist sem)), rev (sleeplist sem), sem')) \<and>
    sleeplist sem' = [] \<and> sval sem' = max 0 (sval sem) \<and> (\<forall>p\<in>set (sleeplist sem). up sem' p) \<and> sem_inv sem'"
  using post_all_loop_result [OF assms, of "length (sleeplist sem) + 1" "-1" "[]"]
  by (simp add: post_all_sem_def sem_inv_def)

theorem post_all_sem_wakes_all_witness:
  "\<exists>sem'. post_all_sem \<lparr>sval = -2, sleeplist = [4, 3], up = (\<lambda>_. False)\<rparr> = Some (Inr (2, [3, 4], sem'))"
  using post_all_sem_wakes_all [of "\<lparr>sval = -2, sleeplist = [4, 3], up = (\<lambda>_. False)\<rparr>"]
  by (auto simp: sem_inv_def)

end
