(* ===== verification/Bitmap.thy ===== *)
theory Bitmap
  imports Kernel_Prelude
begin

text \<open>
  \<^verbatim>\<open>src/src/common/bitmap.h\<close>: bit arrays in 64-bit cells. The file system keeps its bitmaps
  in block data, a byte array that the code casts to a cell array, so the operations work on
  bytes: cell \<^verbatim>\<open>i\<close> is the little-endian word at byte \<^verbatim>\<open>8 * i\<close>.
\<close>

type_synonym BitmapCell = u64

definition bitmap_cell :: "u8 list \<Rightarrow> nat \<Rightarrow> BitmapCell" where
  "bitmap_cell bs i = of_nat (rd 8 (8 * i) bs)"

definition bitmap_set_cell :: "u8 list \<Rightarrow> nat \<Rightarrow> BitmapCell \<Rightarrow> u8 list" where
  "bitmap_set_cell bs i c = wr 8 (8 * i) (unat c) bs"

definition bitmap_parse_index :: "nat \<Rightarrow> nat \<times> nat" where
  "bitmap_parse_index index = (index div 64, index mod 64)"

definition bitmap_get :: "u8 list \<Rightarrow> nat \<Rightarrow> bool" where
  "bitmap_get bs index =
     (let (i, off) = bitmap_parse_index index in drop_bit off (bitmap_cell bs i) AND 1 \<noteq> 0)"

definition bitmap_set :: "u8 list \<Rightarrow> nat \<Rightarrow> u8 list" where
  "bitmap_set bs index =
     (let (i, off) = bitmap_parse_index index
      in bitmap_set_cell bs i (bitmap_cell bs i OR push_bit off 1))"

definition bitmap_clear :: "u8 list \<Rightarrow> nat \<Rightarrow> u8 list" where
  "bitmap_clear bs index =
     (let (i, off) = bitmap_parse_index index
      in bitmap_set_cell bs i (bitmap_cell bs i AND NOT (push_bit off 1)))"

lemma bitmap_cell_set_cell:
  assumes "8 * i + 8 \<le> length bs"
  shows "bitmap_cell (bitmap_set_cell bs i c) j = (if i = j then c else bitmap_cell bs j)"
proof (cases "i = j")
  case True
  have "unat c mod 256 ^ 8 = unat c"
    using unsigned_less [of c, where 'a = nat] by simp
  then show ?thesis
    using True assms by (simp add: bitmap_cell_def bitmap_set_cell_def rd_wr_same)
next
  case False
  then have "8 * j + 8 \<le> 8 * i \<or> 8 * i + 8 \<le> 8 * j" by arith
  then show ?thesis
    using False assms by (simp add: bitmap_cell_def bitmap_set_cell_def rd_wr_other)
qed

lemma bitmap_get_bit: "bitmap_get bs n = bit (bitmap_cell bs (n div 64)) (n mod 64)"
  by (simp add: bitmap_get_def bitmap_parse_index_def bit_iff_odd_drop_bit and_one_eq odd_iff_mod_2_eq_one)

lemma index_in_cells:
  assumes "n < 8 * length (bs :: u8 list)" and "8 dvd length bs"
  shows "8 * (n div 64) + 8 \<le> length bs"
proof -
  obtain k where k: "length bs = 8 * k" using assms(2) by (elim dvdE)
  then have "n div 64 < k" using assms(1) by (simp add: less_mult_imp_div_less mult.commute)
  then show ?thesis using k by simp
qed

lemma length_bitmap_set [simp]:
  "n < 8 * length bs \<Longrightarrow> 8 dvd length bs \<Longrightarrow> length (bitmap_set bs n) = length bs"
  using index_in_cells [of n bs]
  by (simp add: bitmap_set_def bitmap_parse_index_def bitmap_set_cell_def)

lemma length_bitmap_clear [simp]:
  "n < 8 * length bs \<Longrightarrow> 8 dvd length bs \<Longrightarrow> length (bitmap_clear bs n) = length bs"
  using index_in_cells [of n bs]
  by (simp add: bitmap_clear_def bitmap_parse_index_def bitmap_set_cell_def)

lemma div_mod_eq_iff: "(n :: nat) div 64 = m div 64 \<and> n mod 64 = m mod 64 \<longleftrightarrow> n = m"
  by (metis div_mult_mod_eq)

lemma bitmap_get_set:
  assumes "n < 8 * length bs" and "8 dvd length bs"
  shows "bitmap_get (bitmap_set bs n) m = (m = n \<or> bitmap_get bs m)"
  using bitmap_cell_set_cell [OF index_in_cells [OF assms]] div_mod_eq_iff [of n m]
  by (auto simp: bitmap_get_bit bitmap_set_def bitmap_parse_index_def bit_or_iff bit_exp_iff)

lemma bitmap_get_clear:
  assumes "n < 8 * length bs" and "8 dvd length bs"
  shows "bitmap_get (bitmap_clear bs n) m = (m \<noteq> n \<and> bitmap_get bs m)"
  using bitmap_cell_set_cell [OF index_in_cells [OF assms]] div_mod_eq_iff [of n m]
  by (auto simp: bitmap_get_bit bitmap_clear_def bitmap_parse_index_def bit_and_iff bit_not_iff
        bit_exp_iff)

end
