(* ===== verification/Cache.thy ===== *)
theory Cache
  imports Sync Bitmap
begin

text \<open>
  \<^verbatim>\<open>src/src/fs/cache.c\<close> with the on-disk structures of \<^verbatim>\<open>src/src/fs/defines.h\<close> it uses: the block
  cache, the write-ahead log and the block allocator. One record holds the static variables of
  the file and the disk behind \<^verbatim>\<open>device\<close>; the field \<^verbatim>\<open>writes\<close> keeps the device writes in the
  order they are issued, so that a power cut between any two of them can be described. The
  cache list is the address list that \<^verbatim>\<open>Klist\<close> proves the linked list to be.

  A call that has to wait is a result: \<^verbatim>\<open>Inl Sleep\<close> for the lock of a block, \<^verbatim>\<open>Asleep\<close> for the
  two semaphores of the log.
\<close>

section \<open>On-disk structures\<close>

record SuperBlock =
  num_blocks :: nat
  num_data_blocks :: nat
  num_inodes :: nat
  num_log_blocks :: nat
  log_start :: nat
  inode_start :: nat
  bitmap_start :: nat

definition LOG_MAX_SIZE :: nat where
  "LOG_MAX_SIZE = (BLOCK_SIZE - 8) div 8"

definition OP_MAX_NUM_BLOCKS :: nat where
  "OP_MAX_NUM_BLOCKS = 10"

definition EVICTION_THRESHOLD :: nat where
  "EVICTION_THRESHOLD = 20"

definition BIT_PER_BLOCK :: nat where
  "BIT_PER_BLOCK = BLOCK_SIZE * 8"

lemmas fs_consts = LOG_MAX_SIZE_def OP_MAX_NUM_BLOCKS_def EVICTION_THRESHOLD_def BIT_PER_BLOCK_def
  BLOCK_SIZE_def

record LogHeader =
  hdr_num_blocks :: nat
  hdr_block_no :: "nat list"
  hdr_valid :: bool

text \<open>
  The device transfers 512 bytes: \<^verbatim>\<open>num_blocks\<close> and the 63 entries of \<^verbatim>\<open>block_no\<close> fill them, the
  field \<^verbatim>\<open>valid\<close> behind them stays in memory.
\<close>

definition header_bytes :: "LogHeader \<Rightarrow> u8 list" where
  "header_bytes h = le_encode 8 (hdr_num_blocks h) @ concat (map (le_encode 8) (hdr_block_no h))"

definition header_load :: "u8 list \<Rightarrow> LogHeader \<Rightarrow> LogHeader" where
  "header_load bs h = h\<lparr>hdr_num_blocks := rd 8 0 bs,
     hdr_block_no := map (\<lambda>i. rd 8 (8 + 8 * i) bs) [0..<LOG_MAX_SIZE]\<rparr>"

section \<open>The state\<close>

record Block =
  block_no :: nat
  acquired :: bool
  pinned :: bool
  blk_lock :: Semaphore
  blk_valid :: bool
  blk_data :: "u8 list"
  refcnt :: int

record OpContext =
  rm :: u64
  ctx_done :: u64
  ctx_lock :: SpinLock

record logst =
  log_lock :: SpinLock
  log_sem :: Semaphore
  operation_count :: int
  is_committing :: bool
  started_event_count :: int
  end_op_sem :: Semaphore

record bcst =
  disk :: "nat \<Rightarrow> u8 list"
  writes :: "(nat \<times> u8 list) list"
  cache_lock :: SpinLock
  blk :: "addr \<Rightarrow> Block"
  cached :: "addr list"
  num_cached_blocks :: nat
  fresh :: addr
  header :: LogHeader
  log :: logst
  write_log_count :: nat
  write_data_count :: nat

section \<open>Device access\<close>

definition dev_write :: "nat \<Rightarrow> u8 list \<Rightarrow> bcst \<Rightarrow> bcst" where
  "dev_write b d s = s\<lparr>disk := (disk s)(b := d), writes := writes s @ [(b, d)]\<rparr>"

definition set_blk :: "addr \<Rightarrow> (Block \<Rightarrow> Block) \<Rightarrow> bcst \<Rightarrow> bcst" where
  "set_blk a f s = s\<lparr>blk := (blk s)(a := f (blk s a))\<rparr>"

definition device_read :: "addr \<Rightarrow> bcst \<Rightarrow> bcst" where
  "device_read a s = set_blk a (\<lambda>b. b\<lparr>blk_data := disk s (block_no b)\<rparr>) s"

definition device_write :: "Block \<Rightarrow> bcst \<Rightarrow> bcst" where
  "device_write b s = dev_write (block_no b) (blk_data b) s"

definition read_header :: "SuperBlock \<Rightarrow> bcst \<Rightarrow> bcst" where
  "read_header sb s = s\<lparr>header := header_load (disk s (log_start sb)) (header s)\<rparr>"

definition write_header :: "SuperBlock \<Rightarrow> bcst \<Rightarrow> bcst" where
  "write_header sb s = dev_write (log_start sb) (header_bytes (header s)) s"

section \<open>Blocks\<close>

definition init_block :: Block where
  "init_block = \<lparr>block_no = 0, acquired = False, pinned = False, blk_lock = init_sem 1,
     blk_valid = False, blk_data = replicate BLOCK_SIZE 0, refcnt = 0\<rparr>"

definition get_num_cached_blocks :: "bcst \<Rightarrow> nat" where
  "get_num_cached_blocks s = num_cached_blocks s"

text \<open>The last lines of each branch of \<^verbatim>\<open>cache_acquire\<close>: take the sleep lock and own the block.\<close>

definition lock_block :: "addr \<Rightarrow> bcst \<Rightarrow> (addr \<times> bcst) res" where
  "lock_block a s =
     rbind (wait_sem_now (blk_lock (blk s a)))
       (\<lambda>l. Inr (a, set_blk a (\<lambda>b. b\<lparr>blk_lock := l, acquired := True\<rparr>) s))"

text \<open>The allocation of a block and its insertion at the head of the list (both places).\<close>

definition new_block :: "nat \<Rightarrow> bcst \<Rightarrow> (addr \<times> bcst) res" where
  "new_block bno s =
     (let a = fresh s;
          s = s\<lparr>fresh := a + 1, blk := (blk s)(a := init_block\<lparr>block_no := bno, refcnt := 1\<rparr>),
                cached := a # cached s, num_cached_blocks := num_cached_blocks s + 1,
                cache_lock := release_spinlock (cache_lock s)\<rparr>;
          s = device_read a s;
          s = set_blk a (\<lambda>b. b\<lparr>blk_valid := True\<rparr>) s
      in lock_block a s)"

definition evictable :: "Block \<Rightarrow> bool" where
  "evictable b \<longleftrightarrow> refcnt b = 0 \<and> \<not> pinned b"

definition cache_acquire :: "nat \<Rightarrow> bcst \<Rightarrow> (addr \<times> bcst) res" where
  "cache_acquire bno s =
     rbind (acquire_spinlock (cache_lock s)) (\<lambda>l.
       let s = s\<lparr>cache_lock := l\<rparr>
       in case find (\<lambda>a. block_no (blk s a) = bno) (cached s) of
            Some a \<Rightarrow>
              let s = set_blk a (\<lambda>b. b\<lparr>refcnt := refcnt b + 1\<rparr>) s;
                  s = s\<lparr>cache_lock := release_spinlock (cache_lock s)\<rparr>
              in lock_block a s
          | None \<Rightarrow>
              if num_cached_blocks s < EVICTION_THRESHOLD then new_block bno s
              else (case find (\<lambda>a. evictable (blk s a)) (rev (cached s)) of
                      Some a \<Rightarrow>
                        if acquired (blk s a) then Inl Panic
                        else
                          let s = set_blk a (\<lambda>b. b\<lparr>block_no := bno, blk_valid := False, refcnt := 1,
                                                  blk_lock := init_sem 1\<rparr>) s;
                              s = s\<lparr>cache_lock := release_spinlock (cache_lock s)\<rparr>;
                              s = device_read a s;
                              s = set_blk a (\<lambda>b. b\<lparr>blk_valid := True\<rparr>) s
                          in lock_block a s
                    | None \<Rightarrow> new_block bno s))"

definition cache_release :: "addr \<Rightarrow> bcst \<Rightarrow> bcst res" where
  "cache_release a s =
     (let s = set_blk a (\<lambda>b. b\<lparr>acquired := False\<rparr>) s
      in rbind (post_sem (blk_lock (blk s a))) (\<lambda>(w, l).
        let s = set_blk a (\<lambda>b. b\<lparr>blk_lock := l\<rparr>) s
        in rbind (acquire_spinlock (cache_lock s)) (\<lambda>cl.
          let s = s\<lparr>cache_lock := cl\<rparr>;
              s = set_blk a (\<lambda>b. b\<lparr>refcnt := refcnt b - 1\<rparr>) s
          in if evictable (blk s a) \<and> num_cached_blocks s > EVICTION_THRESHOLD
             then Inr (s\<lparr>cached := remove1 a (cached s),
                         num_cached_blocks := num_cached_blocks s - 1,
                         cache_lock := release_spinlock (cache_lock s)\<rparr>)
             else if evictable (blk s a) \<and> num_cached_blocks s \<le> EVICTION_THRESHOLD
             then Inr (s\<lparr>cached := a # remove1 a (cached s),
                         cache_lock := release_spinlock (cache_lock s)\<rparr>)
             else Inr (s\<lparr>cache_lock := release_spinlock (cache_lock s)\<rparr>))))"

section \<open>Recovery and initialisation\<close>

text \<open>
  The loop of \<^verbatim>\<open>restore_log\<close>. Each round allocates a block that is never freed; only its data
  and its number matter here, so it is a local value.
\<close>

fun restore_loop :: "SuperBlock \<Rightarrow> nat list \<Rightarrow> bcst \<Rightarrow> bcst res" where
  "restore_loop sb [] s = Inr s"
| "restore_loop sb (i # is) s =
     (let d = disk s (log_start sb + 1 + i)
      in rbind (aget (hdr_block_no (header s)) i) (\<lambda>b. restore_loop sb is (dev_write b d s)))"

definition restore_log :: "SuperBlock \<Rightarrow> bcst \<Rightarrow> bcst res" where
  "restore_log sb s =
     (let s = read_header sb s
      in if hdr_valid (header s) \<or> hdr_num_blocks (header s) \<noteq> 0
         then rbind (restore_loop sb [0..<hdr_num_blocks (header s)] s) (\<lambda>s.
                Inr (write_header sb (s\<lparr>header := (header s)\<lparr>hdr_num_blocks := 0, hdr_valid := False\<rparr>\<rparr>)))
         else Inr s)"

definition init_log :: logst where
  "init_log = \<lparr>log_lock = init_spinlock, log_sem = init_sem 0, operation_count = 0,
     is_committing = False, started_event_count = 0, end_op_sem = init_sem 0\<rparr>"

definition init_log_header :: "bcst \<Rightarrow> bcst" where
  "init_log_header s = s\<lparr>header := (header s)\<lparr>hdr_num_blocks := 0, hdr_valid := False\<rparr>\<rparr>"

definition init_bcache :: "SuperBlock \<Rightarrow> bcst \<Rightarrow> bcst res" where
  "init_bcache sb s =
     rbind (restore_log sb (s\<lparr>cache_lock := init_spinlock, cached := [], num_cached_blocks := 0\<rparr>))
       (\<lambda>s. Inr (init_log_header (s\<lparr>log := init_log\<rparr>)))"

section \<open>Atomic operations\<close>

definition init_ctx :: OpContext where
  "init_ctx = \<lparr>rm = of_nat OP_MAX_NUM_BLOCKS, ctx_done = 0, ctx_lock = init_spinlock\<rparr>"

datatype opres = Done | Retry | Asleep

definition log_full :: "SuperBlock \<Rightarrow> OpContext \<Rightarrow> logst \<Rightarrow> bool" where
  "log_full sb ctx l \<longleftrightarrow> is_committing l \<or>
     uint (of_int (operation_count l) + rm ctx) > int (u32_sub (num_log_blocks sb) 1) \<or>
     uint (of_int (operation_count l) + rm ctx) > int LOG_MAX_SIZE"

text \<open>
  One round of the loop of \<^verbatim>\<open>cache_begin_op\<close> for process \<^verbatim>\<open>p\<close>. \<^verbatim>\<open>Asleep\<close>: it waits on
  \<^verbatim>\<open>log.sem\<close>, and runs the next round when it comes back; \<^verbatim>\<open>Retry\<close>: the semaphore had a token
  and the next round starts at once.
\<close>

definition cache_begin_op :: "SuperBlock \<Rightarrow> nat \<Rightarrow> bcst \<Rightarrow> (opres \<times> OpContext \<times> bcst) res" where
  "cache_begin_op sb p s =
     (let ctx = init_ctx
      in rbind (acquire_spinlock (log_lock (log s))) (\<lambda>k.
        let l = (log s)\<lparr>log_lock := k\<rparr>
        in if log_full sb ctx l
           then let l = l\<lparr>log_lock := release_spinlock (log_lock l)\<rparr>;
                    (ok, sem) = wait_sem_enter p (log_sem l)
                in Inr (if ok then Retry else Asleep, ctx, s\<lparr>log := l\<lparr>log_sem := sem\<rparr>\<rparr>)
           else let l = l\<lparr>started_event_count := started_event_count l + 1,
                           operation_count := operation_count l + uint (rm ctx)\<rparr>
                in Inr (Done, ctx, s\<lparr>log := l\<lparr>log_lock := release_spinlock (log_lock l)\<rparr>\<rparr>)))"

definition cache_sync :: "OpContext option \<Rightarrow> addr \<Rightarrow> bcst \<Rightarrow> (OpContext option \<times> bcst) res" where
  "cache_sync ctx a s =
     (case ctx of
        None \<Rightarrow> Inr (None, set_blk a (\<lambda>b. b\<lparr>pinned := False\<rparr>) (device_write (blk s a) s))
      | Some ctx \<Rightarrow>
          if pinned (blk s a) then Inr (Some ctx, s)
          else
            let s = set_blk a (\<lambda>b. b\<lparr>pinned := True\<rparr>) s
            in rbind (acquire_spinlock (ctx_lock ctx)) (\<lambda>k.
              let ctx = ctx\<lparr>ctx_lock := k, rm := rm ctx - 1, ctx_done := ctx_done ctx + 1\<rparr>
              in if rm ctx + ctx_done ctx \<noteq> of_nat OP_MAX_NUM_BLOCKS then Inl Panic
                 else
                   let ctx = ctx\<lparr>ctx_lock := release_spinlock (ctx_lock ctx)\<rparr>
                   in if rm ctx = - 1 then Inl Panic
                      else if ctx_done ctx > of_nat OP_MAX_NUM_BLOCKS then Inl Panic
                      else Inr (Some ctx, s)))"

section \<open>Commit\<close>

text \<open>The scan of the cache list in \<^verbatim>\<open>write_log\<close> and \<^verbatim>\<open>write_data\<close>; \<^verbatim>\<open>save\<close> has \<^verbatim>\<open>room\<close> entries.\<close>

fun scan_pinned :: "nat \<Rightarrow> (addr \<Rightarrow> Block) \<Rightarrow> addr list \<Rightarrow> addr list \<Rightarrow> addr list res" where
  "scan_pinned room bl [] save = Inr save"
| "scan_pinned room bl (a # as) save =
     (if pinned (bl a)
      then if length save < room then scan_pinned room bl as (save @ [a]) else Inl Fault
      else scan_pinned room bl as save)"

fun write_log_blocks :: "SuperBlock \<Rightarrow> nat \<Rightarrow> addr list \<Rightarrow> bcst \<Rightarrow> bcst" where
  "write_log_blocks sb i [] s = s"
| "write_log_blocks sb i (a # as) s =
     (let temp = init_block\<lparr>block_no := log_start sb + 1 + i, blk_data := blk_data (blk s a)\<rparr>
      in write_log_blocks sb (i + 1) as (device_write temp s))"

fun set_header_nos :: "nat \<Rightarrow> nat list \<Rightarrow> nat list \<Rightarrow> nat list res" where
  "set_header_nos i [] ns = Inr ns"
| "set_header_nos i (b # bs) ns = rbind (aset ns i b) (set_header_nos (i + 1) bs)"

definition write_log :: "SuperBlock \<Rightarrow> bcst \<Rightarrow> bcst res" where
  "write_log sb s =
     rbind (acquire_spinlock (cache_lock s)) (\<lambda>k.
       let s = s\<lparr>cache_lock := k\<rparr>
       in rbind (scan_pinned (u32_sub (num_log_blocks sb) 1) (blk s) (cached s) []) (\<lambda>save.
         let count = length save;
             s = s\<lparr>write_log_count := count, cache_lock := release_spinlock (cache_lock s)\<rparr>
         in if count > u32_sub (u32_sub (inode_start sb) (log_start sb)) 1 then Inl Panic
            else
              let s = write_log_blocks sb 0 save s
              in rbind (set_header_nos 0 (map (\<lambda>a. block_no (blk s a)) save) (hdr_block_no (header s)))
                   (\<lambda>ns. Inr (s\<lparr>header := \<lparr>hdr_num_blocks = count, hdr_block_no = ns,
                                           hdr_valid = True\<rparr>\<rparr>))))"

definition write_log_header :: "SuperBlock \<Rightarrow> bcst \<Rightarrow> bcst" where
  "write_log_header sb s = write_header sb s"

definition write_data :: "SuperBlock \<Rightarrow> bcst \<Rightarrow> bcst res" where
  "write_data sb s =
     rbind (acquire_spinlock (cache_lock s)) (\<lambda>k.
       let s = s\<lparr>cache_lock := k\<rparr>
       in rbind (scan_pinned (u32_sub (num_log_blocks sb) 1) (blk s) (cached s) []) (\<lambda>save.
         let s = s\<lparr>write_data_count := length save\<rparr>
         in if write_data_count s \<noteq> write_log_count s then Inl Panic
            else
              let s = s\<lparr>cache_lock := release_spinlock (cache_lock s)\<rparr>;
                  s = fold (\<lambda>a s. device_write (blk s a) s) save s
              in rbind (acquire_spinlock (cache_lock s)) (\<lambda>k.
                let s = s\<lparr>cache_lock := k\<rparr>;
                    s = fold (\<lambda>a s. set_blk a (\<lambda>b. b\<lparr>pinned := False\<rparr>) s) save s
                in Inr (s\<lparr>cache_lock := release_spinlock (cache_lock s)\<rparr>))))"

definition erase_log_header :: "SuperBlock \<Rightarrow> bcst \<Rightarrow> bcst" where
  "erase_log_header sb s = write_header sb (init_log_header s)"

definition commit :: "SuperBlock \<Rightarrow> bcst \<Rightarrow> bcst res" where
  "commit sb s =
     rbind (write_log sb s) (\<lambda>s.
       let s = write_log_header sb s
       in rbind (write_data sb s) (\<lambda>s. Inr (erase_log_header sb s)))"

text \<open>\<^verbatim>\<open>post_all_sem\<close> ends (\<^verbatim>\<open>post_all_loop_result\<close>), so \<^verbatim>\<open>None\<close> never shows.\<close>

definition post_all :: "Semaphore \<Rightarrow> Semaphore res" where
  "post_all sem =
     (case post_all_sem sem of
        None \<Rightarrow> Inl Spin
      | Some r \<Rightarrow> rbind r (\<lambda>(n, woken, sem). Inr sem))"

text \<open>
  \<^verbatim>\<open>cache_end_op\<close> for process \<^verbatim>\<open>p\<close>. \<^verbatim>\<open>Asleep\<close>: other operations are running and \<^verbatim>\<open>p\<close> waits on
  \<^verbatim>\<open>log.end_op_sem\<close> for the one that commits.
\<close>

definition cache_end_op :: "SuperBlock \<Rightarrow> nat \<Rightarrow> OpContext \<Rightarrow> bcst \<Rightarrow> (opres \<times> bcst) res" where
  "cache_end_op sb p ctx s =
     rbind (acquire_spinlock (log_lock (log s))) (\<lambda>k.
       let l = (log s)\<lparr>log_lock := k\<rparr>
       in if is_committing l then Inl Panic
          else
            let l = l\<lparr>started_event_count := started_event_count l - 1,
                      operation_count := operation_count l - uint (rm ctx)\<rparr>
            in if started_event_count l = 0
               then
                 let l = l\<lparr>is_committing := True, log_lock := release_spinlock (log_lock l)\<rparr>
                 in rbind (commit sb (s\<lparr>log := l\<rparr>)) (\<lambda>s.
                   rbind (acquire_spinlock (log_lock (log s))) (\<lambda>k.
                     let l = (log s)\<lparr>log_lock := k, is_committing := False, operation_count := 0\<rparr>
                     in rbind (post_all (log_sem l)) (\<lambda>sem1.
                       rbind (post_all (end_op_sem l)) (\<lambda>sem2.
                         let l = l\<lparr>log_sem := sem1, end_op_sem := sem2,
                                   log_lock := release_spinlock (log_lock l)\<rparr>
                         in Inr (Done, s\<lparr>log := l\<rparr>)))))
               else
                 rbind (post_all (log_sem l)) (\<lambda>sem1.
                   let l = l\<lparr>log_sem := sem1, log_lock := release_spinlock (log_lock l)\<rparr>;
                       (ok, sem2) = wait_sem_enter p (end_op_sem l)
                   in Inr (if ok then Done else Asleep, s\<lparr>log := l\<lparr>end_op_sem := sem2\<rparr>\<rparr>)))"

section \<open>The block allocator\<close>

text \<open>The inner loop of \<^verbatim>\<open>cache_alloc\<close>: the first clear bit below \<^verbatim>\<open>end\<close>.\<close>

definition first_clear :: "u8 list \<Rightarrow> nat \<Rightarrow> nat option" where
  "first_clear bs end = find (\<lambda>i. \<not> bitmap_get bs i) [0..<end]"

fun alloc_scan ::
  "SuperBlock \<Rightarrow> OpContext option \<Rightarrow> nat \<Rightarrow> nat list \<Rightarrow> bcst \<Rightarrow>
    (nat option \<times> OpContext option \<times> bcst) res" where
  "alloc_scan sb ctx n [] s = Inr (None, ctx, s)"
| "alloc_scan sb ctx n (i # is) s =
     (let end = (if i = n - 1 then num_blocks sb mod BIT_PER_BLOCK else BIT_PER_BLOCK)
      in rbind (cache_acquire (bitmap_start sb + i) s) (\<lambda>(a, s).
        case first_clear (blk_data (blk s a)) end of
          Some index \<Rightarrow>
            let s = set_blk a (\<lambda>b. b\<lparr>blk_data := bitmap_set (blk_data b) index\<rparr>) s
            in rbind (cache_sync ctx a s) (\<lambda>(ctx, s).
              rbind (cache_release a s) (\<lambda>s. Inr (Some (i * BIT_PER_BLOCK + index), ctx, s)))
        | None \<Rightarrow> rbind (cache_release a s) (\<lambda>s. alloc_scan sb ctx n is s)))"

definition cache_alloc ::
  "SuperBlock \<Rightarrow> OpContext option \<Rightarrow> bcst \<Rightarrow> (nat \<times> OpContext option \<times> bcst) res" where
  "cache_alloc sb ctx s =
     (let n = num_blocks sb div BIT_PER_BLOCK + 1
      in rbind (alloc_scan sb ctx n [0..<n] s) (\<lambda>(found, ctx, s).
        case found of
          None \<Rightarrow> Inl Panic
        | Some bno \<Rightarrow>
            rbind (cache_acquire bno s) (\<lambda>(a, s).
              let s = set_blk a (\<lambda>b. b\<lparr>blk_data := replicate BLOCK_SIZE 0\<rparr>) s
              in rbind (cache_sync ctx a s) (\<lambda>(ctx, s).
                rbind (cache_release a s) (\<lambda>s. Inr (bno, ctx, s))))))"

definition cache_free ::
  "SuperBlock \<Rightarrow> OpContext option \<Rightarrow> nat \<Rightarrow> bcst \<Rightarrow> (OpContext option \<times> bcst) res" where
  "cache_free sb ctx bno s =
     (let bitmap_block_no = bitmap_start sb + bno div BIT_PER_BLOCK;
          index = bno mod BIT_PER_BLOCK
      in rbind (cache_acquire bitmap_block_no s) (\<lambda>(a, s).
        let s = set_blk a (\<lambda>b. b\<lparr>blk_data := bitmap_clear (blk_data b) index\<rparr>) s
        in rbind (cache_sync ctx a s) (\<lambda>(ctx, s).
          rbind (cache_release a s) (\<lambda>s. Inr (ctx, s)))))"

end
