(* ===== verification/Cache_Inv.thy ===== *)
theory Cache_Inv
  imports Cache
begin

text \<open>
  The invariant of the block cache and what each operation does to the disk contents as its
  clients see them: the \<^emph>\<open>view\<close> of a block number is the data of the cached copy, or of the
  disk when there is none. The laws at the end are the contract of a block cache, as a locale,
  which the inode layer uses; the interpretation discharges them for \<^verbatim>\<open>cache.c\<close>.
\<close>

section \<open>The view and the invariant\<close>

abbreviation bno_of :: "bcst \<Rightarrow> addr \<Rightarrow> nat" where
  "bno_of s a \<equiv> block_no (blk s a)"

definition view :: "bcst \<Rightarrow> nat \<Rightarrow> u8 list" where
  "view s b = (case find (\<lambda>a. bno_of s a = b) (cached s) of
     Some a \<Rightarrow> blk_data (blk s a) | None \<Rightarrow> disk s b)"

definition nos :: "bcst \<Rightarrow> nat set" where
  "nos s = bno_of s ` set (cached s)"

text \<open>
  One thread uses the cache at a time, so a block has one reference when it is acquired and
  none otherwise. Data that is neither pinned nor acquired is what the disk has.
\<close>

definition blk_wf :: "u8 list \<Rightarrow> Block \<Rightarrow> bool" where
  "blk_wf d b \<longleftrightarrow> length (blk_data b) = BLOCK_SIZE \<and> refcnt b = of_bool (acquired b) \<and>
     sval (blk_lock b) = 1 - of_bool (acquired b) \<and> sleeplist (blk_lock b) = [] \<and>
     (\<not> pinned b \<and> \<not> acquired b \<longrightarrow> blk_data b = d)"

definition bc_inv :: "bcst \<Rightarrow> bool" where
  "bc_inv s \<longleftrightarrow> \<not> cache_lock s \<and> distinct (cached s) \<and> inj_on (bno_of s) (set (cached s)) \<and>
     num_cached_blocks s = length (cached s) \<and>
     (\<forall>a\<in>set (cached s). a < fresh s \<and> blk_wf (disk s (bno_of s a)) (blk s a)) \<and>
     (\<forall>b. length (disk s b) = BLOCK_SIZE) \<and> length (hdr_block_no (header s)) = LOG_MAX_SIZE"

definition holds :: "bcst \<Rightarrow> addr \<Rightarrow> nat \<Rightarrow> bool" where
  "holds s a b \<longleftrightarrow> a \<in> set (cached s) \<and> bno_of s a = b \<and> acquired (blk s a)"

definition clean :: "bcst \<Rightarrow> addr \<Rightarrow> bool" where
  "clean s a \<longleftrightarrow> pinned (blk s a) \<or> blk_data (blk s a) = disk s (bno_of s a)"

definition set_data :: "addr \<Rightarrow> u8 list \<Rightarrow> bcst \<Rightarrow> bcst" where
  "set_data a d s = set_blk a (\<lambda>b. b\<lparr>blk_data := d\<rparr>) s"

definition pinned_nos :: "bcst \<Rightarrow> nat set" where
  "pinned_nos s = bno_of s ` {a \<in> set (cached s). pinned (blk s a)}"

lemma bc_invD:
  assumes "bc_inv s"
  shows "\<not> cache_lock s" and "distinct (cached s)" and "inj_on (bno_of s) (set (cached s))"
    and "num_cached_blocks s = length (cached s)"
    and "a \<in> set (cached s) \<Longrightarrow> a < fresh s"
    and "a \<in> set (cached s) \<Longrightarrow> blk_wf (disk s (bno_of s a)) (blk s a)"
    and "length (disk s b) = BLOCK_SIZE"
    and "length (hdr_block_no (header s)) = LOG_MAX_SIZE"
  using assms unfolding bc_inv_def by blast+

lemma find_Some_unique:
  assumes "inj_on f (set xs)" and "a \<in> set xs"
  shows "find (\<lambda>x. f x = f a) xs = Some a"
  using assms
proof (induction xs)
  case (Cons x xs)
  show ?case
  proof (cases "f x = f a")
    case True
    then have "x = a" using Cons.prems by (meson inj_onD list.set_intros(1))
    then show ?thesis by simp
  next
    case False
    then show ?thesis using Cons by (auto intro: inj_on_subset)
  qed
qed simp

lemma nosI: "a \<in> set (cached s) \<Longrightarrow> bno_of s a \<in> nos s"
  by (simp add: nos_def)

lemma view_cached:
  "inj_on (bno_of s) (set (cached s)) \<Longrightarrow> a \<in> set (cached s) \<Longrightarrow> view s (bno_of s a) = blk_data (blk s a)"
  by (simp add: view_def find_Some_unique [where f = "bno_of s"])

lemma find_bno_None: "b \<notin> nos s \<Longrightarrow> find (\<lambda>a. bno_of s a = b) (cached s) = None"
  by (auto simp: nos_def find_None_iff)

lemma view_uncached: "b \<notin> nos s \<Longrightarrow> view s b = disk s b"
  by (simp add: view_def find_bno_None)

lemma view_eqI:
  assumes inj: "inj_on (bno_of s) (set (cached s))" "inj_on (bno_of t) (set (cached t))"
    and c: "\<And>a. a \<in> set (cached s) \<Longrightarrow>
        (a \<in> set (cached t) \<and> bno_of t a = bno_of s a \<and> blk_data (blk t a) = v (bno_of s a)) \<or>
        (bno_of s a \<notin> nos t \<and> disk t (bno_of s a) = v (bno_of s a))"
    and n: "\<And>a. a \<in> set (cached t) \<Longrightarrow> bno_of t a \<notin> nos s \<Longrightarrow> blk_data (blk t a) = v (bno_of t a)"
    and d: "\<And>b. b \<notin> nos s \<Longrightarrow> b \<notin> nos t \<Longrightarrow> disk t b = v b"
  shows "view t = v"
proof
  fix b
  show "view t b = v b"
  proof (cases "b \<in> nos s")
    case True
    then obtain a where a: "a \<in> set (cached s)" "b = bno_of s a" by (auto simp: nos_def)
    show ?thesis using c [OF a(1)]
    proof
      assume *: "a \<in> set (cached t) \<and> bno_of t a = bno_of s a \<and> blk_data (blk t a) = v (bno_of s a)"
      then show ?thesis using view_cached [OF inj(2), of a] a by simp
    next
      assume "bno_of s a \<notin> nos t \<and> disk t (bno_of s a) = v (bno_of s a)"
      then show ?thesis using a view_uncached [of b t] by simp
    qed
  next
    case False
    show ?thesis
    proof (cases "b \<in> nos t")
      case True
      then obtain a where a: "a \<in> set (cached t)" "b = bno_of t a" by (auto simp: nos_def)
      then show ?thesis using n [of a] False view_cached [OF inj(2), of a] by simp
    next
      case nt: False
      then show ?thesis using d [OF False nt] view_uncached [of b t] by simp
    qed
  qed
qed

section \<open>Four changes of the cache list\<close>

text \<open>Every operation is one of: change a block in place, add one, recycle one, drop one.\<close>

lemma set_blk_simps [simp]:
  "blk (set_blk a f s) = (blk s)(a := f (blk s a))" "cached (set_blk a f s) = cached s"
  "disk (set_blk a f s) = disk s" "writes (set_blk a f s) = writes s"
  "fresh (set_blk a f s) = fresh s" "cache_lock (set_blk a f s) = cache_lock s"
  "num_cached_blocks (set_blk a f s) = num_cached_blocks s" "header (set_blk a f s) = header s"
  "log (set_blk a f s) = log s" "write_log_count (set_blk a f s) = write_log_count s"
  by (simp_all add: set_blk_def)

lemma change_blk:
  assumes inv: "bc_inv s" and a: "a \<in> set (cached s)"
    and b: "block_no (f (blk s a)) = bno_of s a" and wf: "blk_wf (disk s (bno_of s a)) (f (blk s a))"
  shows "bc_inv (set_blk a f s)"
    and "view (set_blk a f s) = (view s)(bno_of s a := blk_data (f (blk s a)))"
proof -
  let ?t = "set_blk a f s"
  have bn: "bno_of ?t = bno_of s" using b by auto
  have inj: "inj_on (bno_of ?t) (set (cached ?t))"
    unfolding bn using bc_invD(3) [OF inv] by simp
  show "bc_inv ?t"
    using inv inj wf b unfolding bc_inv_def by auto
  show "view ?t = (view s)(bno_of s a := blk_data (f (blk s a)))"
  proof (rule view_eqI [OF bc_invD(3) [OF inv] inj])
    fix x assume x: "x \<in> set (cached s)"
    then have "bno_of s x = bno_of s a \<Longrightarrow> x = a"
      using a bc_invD(3) [OF inv] by (metis inj_onD)
    then show "x \<in> set (cached ?t) \<and> bno_of ?t x = bno_of s x \<and>
        blk_data (blk ?t x) = ((view s)(bno_of s a := blk_data (f (blk s a)))) (bno_of s x) \<or>
        bno_of s x \<notin> nos ?t \<and>
        disk ?t (bno_of s x) = ((view s)(bno_of s a := blk_data (f (blk s a)))) (bno_of s x)"
      using x b view_cached [OF bc_invD(3) [OF inv] x] by auto
  next
    fix x assume "x \<in> set (cached ?t)" "bno_of ?t x \<notin> nos s"
    then show "blk_data (blk ?t x) = ((view s)(bno_of s a := blk_data (f (blk s a)))) (bno_of ?t x)"
      using b by (auto simp: nos_def split: if_splits)
  next
    fix y assume "y \<notin> nos s"
    then show "disk ?t y = ((view s)(bno_of s a := blk_data (f (blk s a)))) y"
      using a view_uncached [of y s] by (auto simp: nos_def)
  qed
qed

lemma add_blk:
  assumes inv: "bc_inv s" and b: "block_no B \<notin> nos s"
    and wf: "blk_wf (disk s (block_no B)) B" and d: "blk_data B = disk s (block_no B)"
    and t: "t = s\<lparr>fresh := fresh s + 1, blk := (blk s)(fresh s := B), cached := fresh s # cached s,
              num_cached_blocks := num_cached_blocks s + 1\<rparr>"
  shows "bc_inv t" and "view t = view s"
proof -
  note I = bc_invD [OF inv]
  have fr: "fresh s \<notin> set (cached s)" using I(5) by blast
  have bn: "bno_of t a = bno_of s a" "blk t a = blk s a" if "a \<in> set (cached s)" for a
    using that fr by (auto simp: t)
  have inj: "inj_on (bno_of t) (set (cached t))"
  proof -
    have "inj_on (bno_of t) (set (cached s))"
      using I(3) bn(1) by (simp cong: inj_on_cong)
    moreover have "bno_of t ` set (cached s) = nos s"
      using bn(1) by (simp add: nos_def cong: image_cong)
    ultimately show ?thesis
      using b fr by (simp add: t)
  qed
  show "bc_inv t"
    unfolding bc_inv_def
  proof (intro conjI ballI allI)
    fix a assume "a \<in> set (cached t)"
    then show "a < fresh t" and "blk_wf (disk t (bno_of t a)) (blk t a)"
      using I(5,6) [of a] wf fr by (auto simp: t)
  qed (use inj I fr in \<open>auto simp: t\<close>)
  show "view t = view s"
  proof (rule view_eqI [OF I(3) inj])
    fix a assume a: "a \<in> set (cached s)"
    then show "a \<in> set (cached t) \<and> bno_of t a = bno_of s a \<and> blk_data (blk t a) = view s (bno_of s a) \<or>
        bno_of s a \<notin> nos t \<and> disk t (bno_of s a) = view s (bno_of s a)"
      using bn [OF a] view_cached [OF I(3) a] by (auto simp: t)
  next
    fix a assume "a \<in> set (cached t)" "bno_of t a \<notin> nos s"
    then have "a = fresh s" using bn [of a] by (auto simp: t nos_def)
    then show "blk_data (blk t a) = view s (bno_of t a)"
      using b d view_uncached [of "block_no B" s] by (simp add: t)
  next
    fix y assume "y \<notin> nos s" then show "disk t y = view s y"
      by (simp add: view_uncached t)
  qed
qed

lemma recycle_blk:
  assumes inv: "bc_inv s" and a: "a \<in> set (cached s)"
    and cl: "\<not> pinned (blk s a)" "\<not> acquired (blk s a)"
    and b: "block_no (f (blk s a)) \<notin> nos s"
    and wf: "blk_wf (disk s (block_no (f (blk s a)))) (f (blk s a))"
    and d: "blk_data (f (blk s a)) = disk s (block_no (f (blk s a)))"
  shows "bc_inv (set_blk a f s)" and "view (set_blk a f s) = view s"
proof -
  let ?t = "set_blk a f s"
  note I = bc_invD [OF inv]
  have inj: "inj_on (bno_of ?t) (set (cached ?t))"
  proof (rule inj_onI)
    fix x y assume "x \<in> set (cached ?t)" "y \<in> set (cached ?t)" "bno_of ?t x = bno_of ?t y"
    then show "x = y"
      using I(3) b by (cases "x = a"; cases "y = a") (auto simp: nos_def dest: inj_onD intro: rev_image_eqI)
  qed
  show "bc_inv ?t"
    unfolding bc_inv_def
  proof (intro conjI ballI allI)
    fix x assume "x \<in> set (cached ?t)"
    then show "x < fresh ?t" and "blk_wf (disk ?t (bno_of ?t x)) (blk ?t x)"
      using I(5,6) [of x] wf by auto
  qed (use inj I in auto)
  have old: "blk_data (blk s a) = disk s (bno_of s a)"
    using I(6) [OF a] cl by (simp add: blk_wf_def)
  have oldn: "bno_of s a \<notin> nos ?t"
  proof
    assume "bno_of s a \<in> nos ?t"
    then obtain x where x: "x \<in> set (cached s)" "bno_of s a = bno_of ?t x" by (auto simp: nos_def)
    then show False
    proof (cases "x = a")
      case True
      then show False using x b nosI [OF a] by simp
    next
      case False
      then show False using x a I(3) by (auto dest: inj_onD)
    qed
  qed
  show "view ?t = view s"
  proof (rule view_eqI [OF I(3) inj])
    fix x assume x: "x \<in> set (cached s)"
    show "x \<in> set (cached ?t) \<and> bno_of ?t x = bno_of s x \<and> blk_data (blk ?t x) = view s (bno_of s x) \<or>
        bno_of s x \<notin> nos ?t \<and> disk ?t (bno_of s x) = view s (bno_of s x)"
      using x old oldn view_cached [OF I(3) x] by (cases "x = a") auto
  next
    fix x assume "x \<in> set (cached ?t)" "bno_of ?t x \<notin> nos s"
    then have "x = a" by (auto simp: nos_def split: if_splits)
    then show "blk_data (blk ?t x) = view s (bno_of ?t x)"
      using b d view_uncached by simp
  next
    fix y assume "y \<notin> nos s" then show "disk ?t y = view s y"
      by (simp add: view_uncached)
  qed
qed

lemma relist_blk:
  assumes inv: "bc_inv s" and sub: "set xs \<subseteq> set (cached s)" and dist: "distinct xs"
    and cl: "\<And>a. a \<in> set (cached s) \<Longrightarrow> a \<notin> set xs \<Longrightarrow> \<not> pinned (blk s a) \<and> \<not> acquired (blk s a)"
    and t: "t = s\<lparr>cached := xs, num_cached_blocks := length xs\<rparr>"
  shows "bc_inv t" and "view t = view s"
proof -
  note I = bc_invD [OF inv]
  have inj: "inj_on (bno_of t) (set (cached t))"
    using I(3) sub by (auto simp: t intro: inj_on_subset)
  show "bc_inv t"
    using inv inj sub dist by (auto simp: bc_inv_def t)
  show "view t = view s"
  proof (rule view_eqI [OF I(3) inj])
    fix x assume x: "x \<in> set (cached s)"
    have "bno_of s x \<notin> nos t" if "x \<notin> set xs"
      using that x I(3) sub by (auto simp: nos_def t inj_on_def)
    moreover have "blk_data (blk s x) = disk s (bno_of s x)" if "x \<notin> set xs"
      using cl [OF x that] I(6) [OF x] by (simp add: blk_wf_def)
    ultimately show "x \<in> set (cached t) \<and> bno_of t x = bno_of s x \<and> blk_data (blk t x) = view s (bno_of s x) \<or>
        bno_of s x \<notin> nos t \<and> disk t (bno_of s x) = view s (bno_of s x)"
      using view_cached [OF I(3) x] by (cases "x \<in> set xs") (auto simp: t)
  next
    fix x assume "x \<in> set (cached t)" "bno_of t x \<notin> nos s"
    then show "blk_data (blk t x) = view s (bno_of t x)"
      using sub by (auto simp: nos_def t)
  next
    fix y assume "y \<notin> nos s" then show "disk t y = view s y"
      by (simp add: view_uncached t)
  qed
qed

section \<open>Acquire\<close>

definition same_log :: "bcst \<Rightarrow> bcst \<Rightarrow> bool" where
  "same_log s t \<longleftrightarrow> disk t = disk s \<and> writes t = writes s \<and> header t = header s \<and> log t = log s"

definition acquired_step :: "bcst \<Rightarrow> nat \<Rightarrow> addr \<Rightarrow> bcst \<Rightarrow> bool" where
  "acquired_step s b a t \<longleftrightarrow> bc_inv t \<and> blk_data (blk t a) = view s b \<and> view t = view s \<and>
     clean t a \<and> (\<forall>a' b'. holds t a' b' \<longleftrightarrow> holds s a' b' \<or> a' = a \<and> b' = b) \<and>
     (\<forall>a' b'. holds s a' b' \<longrightarrow> blk t a' = blk s a') \<and> same_log s t \<and> pinned_nos t = pinned_nos s"

lemma cache_lock_id [simp]: "\<not> cache_lock s \<Longrightarrow> s\<lparr>cache_lock := False\<rparr> = s"
  by (simp add: bcst.surjective)

lemma set_blk_twice [simp]: "set_blk a f (set_blk a g s) = set_blk a (f \<circ> g) s"
  by (simp add: set_blk_def)

lemma set_blk_lock [simp]:
  "(set_blk a f s)\<lparr>cache_lock := l\<rparr> = set_blk a f (s\<lparr>cache_lock := l\<rparr>)"
  by (simp add: set_blk_def)

definition own :: "Block \<Rightarrow> Block" where
  "own b = b\<lparr>refcnt := 1, blk_lock := (blk_lock b)\<lparr>sval := 0\<rparr>, acquired := True\<rparr>"

lemma blk_wf_own: "blk_wf d b \<Longrightarrow> blk_wf d' (own b)"
  by (simp add: blk_wf_def own_def)

lemma cache_acquire_hit:
  assumes inv: "bc_inv s" and a: "a \<in> set (cached s)" "\<not> acquired (blk s a)"
  shows "cache_acquire (bno_of s a) s = Inr (a, set_blk a own s)"
proof -
  note I = bc_invD [OF inv]
  have f: "find (\<lambda>x. bno_of s x = bno_of s a) (cached s) = Some a"
    by (rule find_Some_unique [OF I(3) a(1)])
  have "sval (blk_lock (blk s a)) = 1" and "refcnt (blk s a) = 0"
    using I(6) [OF a(1)] a(2) by (auto simp: blk_wf_def)
  then show ?thesis
    using I(1) f
    by (simp add: cache_acquire_def lock_block_def wait_sem_now_def release_spinlock_def own_def
        Let_def) (simp add: set_blk_def own_def)
qed

definition loaded :: "nat \<Rightarrow> u8 list \<Rightarrow> Block" where
  "loaded bno d = own (init_block\<lparr>block_no := bno, blk_valid := True, blk_data := d\<rparr>)"

definition added :: "nat \<Rightarrow> bcst \<Rightarrow> bcst" where
  "added bno s = s\<lparr>fresh := fresh s + 1, blk := (blk s)(fresh s := loaded bno (disk s bno)),
     cached := fresh s # cached s, num_cached_blocks := num_cached_blocks s + 1\<rparr>"

lemma new_block_eq:
  "new_block bno s = Inr (fresh s, added bno (s\<lparr>cache_lock := False\<rparr>))"
  by (simp add: new_block_def lock_block_def wait_sem_now_def release_spinlock_def own_def loaded_def
      added_def device_read_def init_block_def init_sem_def Let_def set_blk_def)

definition recycle :: "nat \<Rightarrow> u8 list \<Rightarrow> Block \<Rightarrow> Block" where
  "recycle bno d b = b\<lparr>block_no := bno, refcnt := 1, blk_data := d, blk_valid := True,
     blk_lock := (init_sem 1)\<lparr>sval := 0\<rparr>, acquired := True\<rparr>"

lemma cache_acquire_miss:
  assumes inv: "bc_inv s" and b: "bno \<notin> nos s"
  shows "cache_acquire bno s =
    (if num_cached_blocks s < EVICTION_THRESHOLD then Inr (fresh s, added bno s)
     else case find (\<lambda>a. evictable (blk s a)) (rev (cached s)) of
            None \<Rightarrow> Inr (fresh s, added bno s)
          | Some a \<Rightarrow> Inr (a, set_blk a (recycle bno (disk s bno)) s))"
proof -
  note I = bc_invD [OF inv]
  have na: "\<not> acquired (blk s a)" if "find (\<lambda>a. evictable (blk s a)) (rev (cached s)) = Some a" for a
  proof -
    have "a \<in> set (cached s)" and "evictable (blk s a)"
      using that by (auto simp: find_Some_iff) (metis length_rev nth_mem set_rev)
    then show ?thesis
      using I(6) [of a] by (auto simp: evictable_def blk_wf_def)
  qed
  show ?thesis
    using I(1) na
    by (simp add: cache_acquire_def find_bno_None [OF b] new_block_eq device_read_def lock_block_def
        wait_sem_now_def release_spinlock_def Let_def init_sem_def recycle_def own_def
        split: option.splits)
      (simp add: set_blk_def recycle_def own_def init_sem_def)
qed

lemma acquired_step_hit:
  assumes inv: "bc_inv s" and a: "a \<in> set (cached s)" "\<not> acquired (blk s a)"
  shows "acquired_step s (bno_of s a) a (set_blk a own s)"
proof -
  note I = bc_invD [OF inv]
  note wf = I(6) [OF a(1)]
  have own: "block_no (own B) = block_no B" "blk_data (own B) = blk_data B"
    "pinned (own B) = pinned B" "acquired (own B)" for B
    by (simp_all add: own_def)
  have v: "view s (bno_of s a) = blk_data (blk s a)" by (rule view_cached [OF I(3) a(1)])
  have c: "bc_inv (set_blk a own s)" "view (set_blk a own s) = view s"
    using change_blk [OF inv a(1), of own] wf v by (auto simp: own blk_wf_own fun_upd_idem)
  have "clean (set_blk a own s) a"
    using wf a(2) by (auto simp: clean_def blk_wf_def own)
  moreover have "holds (set_blk a own s) a' b' \<longleftrightarrow> holds s a' b' \<or> a' = a \<and> b' = bno_of s a" for a' b'
    using a by (auto simp: holds_def own)
  moreover have "blk (set_blk a own s) a' = blk s a'" if "holds s a' b'" for a' b'
    using that a(2) by (auto simp: holds_def)
  moreover have "pinned_nos (set_blk a own s) = pinned_nos s"
    by (auto simp: pinned_nos_def own image_iff)
  ultimately show ?thesis
    using c v by (simp add: acquired_step_def own same_log_def)
qed

lemma acquired_step_added:
  assumes inv: "bc_inv s" and b: "bno \<notin> nos s"
  shows "acquired_step s bno (fresh s) (added bno s)"
proof -
  note I = bc_invD [OF inv]
  let ?B = "loaded bno (disk s bno)"
  have B: "block_no ?B = bno" "blk_data ?B = disk s bno" "\<not> pinned ?B" "acquired ?B"
    by (simp_all add: loaded_def own_def init_block_def)
  have wf: "blk_wf (disk s bno) ?B"
    using I(7) [of bno] by (simp add: blk_wf_def loaded_def own_def init_block_def init_sem_def)
  have c: "bc_inv (added bno s)" "view (added bno s) = view s"
    using add_blk [OF inv, of ?B "added bno s"] b wf by (simp_all add: B added_def)
  have fr: "fresh s \<notin> set (cached s)" using I(5) by blast
  have "holds (added bno s) a' b' \<longleftrightarrow> holds s a' b' \<or> a' = fresh s \<and> b' = bno" for a' b'
    using fr B by (auto simp: holds_def added_def)
  moreover have "blk (added bno s) a' = blk s a'" if "holds s a' b'" for a' b'
    using that fr by (auto simp: holds_def added_def)
  moreover have "pinned_nos (added bno s) = pinned_nos s"
    using fr B by (auto simp: pinned_nos_def added_def image_iff)
  ultimately show ?thesis
    using c view_uncached [OF b] by (simp add: acquired_step_def same_log_def clean_def added_def B)
qed

lemma acquired_step_recycled:
  assumes inv: "bc_inv s" and b: "bno \<notin> nos s" and a: "a \<in> set (cached s)" "evictable (blk s a)"
  shows "acquired_step s bno a (set_blk a (recycle bno (disk s bno)) s)"
proof -
  note I = bc_invD [OF inv]
  let ?f = "recycle bno (disk s bno)"
  have cl: "\<not> pinned (blk s a)" "\<not> acquired (blk s a)"
    using a(2) I(6) [OF a(1)] by (auto simp: evictable_def blk_wf_def)
  have B: "block_no (?f (blk s a)) = bno" "blk_data (?f (blk s a)) = disk s bno"
    "\<not> pinned (?f (blk s a))" "acquired (?f (blk s a))"
    using cl by (simp_all add: recycle_def own_def)
  have wf: "blk_wf (disk s bno) (?f (blk s a))"
    using I(7) [of bno] by (simp add: blk_wf_def recycle_def own_def init_sem_def)
  have c: "bc_inv (set_blk a ?f s)" "view (set_blk a ?f s) = view s"
    using recycle_blk [OF inv a(1) cl, of ?f] b wf by (simp_all add: B)
  have "holds (set_blk a ?f s) a' b' \<longleftrightarrow> holds s a' b' \<or> a' = a \<and> b' = bno" for a' b'
    using a(1) cl B by (auto simp: holds_def)
  moreover have "blk (set_blk a ?f s) a' = blk s a'" if "holds s a' b'" for a' b'
    using that cl by (auto simp: holds_def)
  moreover have "pinned_nos (set_blk a ?f s) = pinned_nos s"
    using cl B by (auto simp: pinned_nos_def image_iff)
  ultimately show ?thesis
    using c view_uncached [OF b] by (simp add: acquired_step_def same_log_def clean_def B)
qed

lemma cache_acquire_step:
  assumes inv: "bc_inv s" and free: "\<And>a. \<not> holds s a bno"
  shows "\<exists>a t. cache_acquire bno s = Inr (a, t) \<and> acquired_step s bno a t"
proof (cases "bno \<in> nos s")
  case True
  then obtain a where a: "a \<in> set (cached s)" "bno = bno_of s a" by (auto simp: nos_def)
  then have "\<not> acquired (blk s a)" using free [of a] by (simp add: holds_def)
  then show ?thesis
    using cache_acquire_hit [OF inv a(1)] acquired_step_hit [OF inv a(1)] a(2) by blast
next
  case False
  show ?thesis
  proof (cases "find (\<lambda>a. evictable (blk s a)) (rev (cached s))")
    case None
    then show ?thesis
      using cache_acquire_miss [OF inv False] acquired_step_added [OF inv False] by simp
  next
    case (Some a)
    then have "a \<in> set (cached s)" and "evictable (blk s a)"
      by (auto simp: find_Some_iff) (metis length_rev nth_mem set_rev)
    then show ?thesis
      using cache_acquire_miss [OF inv False] acquired_step_added [OF inv False]
        acquired_step_recycled [OF inv False, of a] Some by auto
  qed
qed

section \<open>Release\<close>

definition released_step :: "bcst \<Rightarrow> addr \<Rightarrow> bcst \<Rightarrow> bool" where
  "released_step s a t \<longleftrightarrow> bc_inv t \<and> view t = view s \<and>
     (\<forall>a' b'. holds t a' b' \<longleftrightarrow> holds s a' b' \<and> a' \<noteq> a) \<and>
     (\<forall>a' b'. holds t a' b' \<longrightarrow> blk t a' = blk s a') \<and> same_log s t \<and> pinned_nos t = pinned_nos s"

definition disown :: "Block \<Rightarrow> Block" where
  "disown b = b\<lparr>acquired := False, blk_lock := (blk_lock b)\<lparr>sval := 1\<rparr>, refcnt := 0\<rparr>"

lemma holdsD:
  assumes "bc_inv s" and "holds s a b"
  shows "a \<in> set (cached s)" and "bno_of s a = b" and "acquired (blk s a)"
    and "blk_wf (disk s b) (blk s a)" and "view s b = blk_data (blk s a)"
  using assms bc_invD(6) [OF assms(1), of a] view_cached [OF bc_invD(3) [OF assms(1)], of a]
  by (auto simp: holds_def)

lemma cache_release_eq:
  assumes inv: "bc_inv s" and h: "holds s a b"
  shows "cache_release a s = Inr
    (let t = set_blk a disown s
     in if pinned (blk s a) then t
        else if num_cached_blocks s > EVICTION_THRESHOLD
        then t\<lparr>cached := remove1 a (cached s), num_cached_blocks := num_cached_blocks s - 1\<rparr>
        else t\<lparr>cached := a # remove1 a (cached s)\<rparr>)"
proof -
  have B: "sval (blk_lock (blk s a)) = 0" "refcnt (blk s a) = 1"
    using holdsD [OF inv h] by (auto simp: blk_wf_def)
  then show ?thesis
    using bc_invD(1) [OF inv]
    by (auto simp: cache_release_def post_sem_def Let_def evictable_def release_spinlock_def
        disown_def set_blk_def)
qed

lemma disowned:
  assumes inv: "bc_inv s" and h: "holds s a b" and cl: "clean s a"
  shows "released_step s a (set_blk a disown s)"
proof -
  let ?t = "set_blk a disown s"
  note H = holdsD [OF inv h]
  have d: "block_no (disown B) = block_no B" "blk_data (disown B) = blk_data B"
    "pinned (disown B) = pinned B" "\<not> acquired (disown B)" for B
    by (simp_all add: disown_def)
  have "blk_wf (disk s b) (disown (blk s a))"
    using H(2,4) cl by (auto simp: blk_wf_def disown_def clean_def)
  then have "bc_inv ?t" "view ?t = view s"
    using change_blk [OF inv H(1), of disown] H by (simp_all add: d fun_upd_idem)
  moreover have "holds ?t a' b' \<longleftrightarrow> holds s a' b' \<and> a' \<noteq> a" for a' b'
    by (auto simp: holds_def d)
  moreover have "pinned_nos ?t = pinned_nos s"
    by (auto simp: pinned_nos_def d image_iff)
  ultimately show ?thesis
    by (auto simp: released_step_def same_log_def holds_def)
qed

lemma released_step_relist:
  assumes st: "released_step s a t" and sub: "set xs \<subseteq> set (cached t)" and dist: "distinct xs"
    and cl: "\<And>x. x \<in> set (cached t) \<Longrightarrow> x \<notin> set xs \<Longrightarrow> \<not> pinned (blk t x) \<and> \<not> acquired (blk t x)"
  shows "released_step s a (t\<lparr>cached := xs, num_cached_blocks := length xs\<rparr>)"
proof -
  let ?u = "t\<lparr>cached := xs, num_cached_blocks := length xs\<rparr>"
  have inv: "bc_inv t" using st by (simp add: released_step_def)
  have "holds ?u a' b' \<longleftrightarrow> holds t a' b'" for a' b'
    using sub cl by (auto simp: holds_def)
  moreover have "pinned_nos ?u = pinned_nos t"
    using sub cl by (fastforce simp: pinned_nos_def)
  ultimately show ?thesis
    using st relist_blk [OF inv sub dist cl] by (simp add: released_step_def same_log_def)
qed

lemma cache_release_step:
  assumes inv: "bc_inv s" and h: "holds s a b" and cl: "clean s a"
  shows "\<exists>t. cache_release a s = Inr t \<and> released_step s a t"
proof -
  let ?t = "set_blk a disown s"
  note H = holdsD [OF inv h] and I = bc_invD [OF inv] and D = disowned [OF assms]
  have "released_step s a (?t\<lparr>cached := xs, num_cached_blocks := length xs\<rparr>)"
    if "\<not> pinned (blk s a)" and "set (cached s) - {a} \<subseteq> set xs" and "set xs \<subseteq> set (cached s)"
      and "distinct xs" for xs
  proof (rule released_step_relist [OF D _ that(4)])
    show "set xs \<subseteq> set (cached ?t)" using that(3) by simp
    fix x assume "x \<in> set (cached ?t)" "x \<notin> set xs"
    then have "x = a" using that(2) by auto
    then show "\<not> pinned (blk ?t x) \<and> \<not> acquired (blk ?t x)"
      using that(1) by (simp add: disown_def)
  qed
  note R = this
  let ?ys = "a # remove1 a (cached s)"
  have len: "length ?ys = num_cached_blocks s"
    using length_pos_if_in_set [OF H(1)] H(1) I(4) by (simp add: length_remove1)
  have nn: "?t\<lparr>cached := ?ys, num_cached_blocks := num_cached_blocks s\<rparr> = ?t\<lparr>cached := ?ys\<rparr>"
    by (simp add: set_blk_def)
  have "released_step s a (?t\<lparr>cached := ?ys\<rparr>)" if "\<not> pinned (blk s a)"
    using R [of ?ys] that H(1) I(2) unfolding len nn by (simp add: set_remove1_eq subset_insertI2)
  moreover have "num_cached_blocks s - 1 = length (remove1 a (cached s))"
    using H(1) I(4) by (simp add: length_remove1)
  ultimately show ?thesis
    unfolding cache_release_eq [OF inv h] Let_def
    using D R [of "remove1 a (cached s)"] I(2) by (auto simp: set_remove1_eq)
qed

section \<open>Change and sync\<close>

lemma set_data_step:
  assumes inv: "bc_inv s" and h: "holds s a b" and d: "length d = BLOCK_SIZE"
  shows "bc_inv (set_data a d s)" and "view (set_data a d s) = (view s)(b := d)"
    and "holds (set_data a d s) a' b' = holds s a' b'"
    and "a' \<noteq> a \<Longrightarrow> blk (set_data a d s) a' = blk s a'"
    and "blk_data (blk (set_data a d s) a) = d"
    and "same_log s (set_data a d s)" and "pinned_nos (set_data a d s) = pinned_nos s"
proof -
  note H = holdsD [OF inv h]
  have "blk_wf (disk s b) ((blk s a)\<lparr>blk_data := d\<rparr>)"
    using H(3,4) d by (simp add: blk_wf_def)
  then show "bc_inv (set_data a d s)" and "view (set_data a d s) = (view s)(b := d)"
    using change_blk [OF inv H(1), of "\<lambda>b. b\<lparr>blk_data := d\<rparr>"] H(2) by (simp_all add: set_data_def)
  show "holds (set_data a d s) a' b' = holds s a' b'"
    by (auto simp: holds_def set_data_def)
  show "pinned_nos (set_data a d s) = pinned_nos s"
    by (auto simp: pinned_nos_def set_data_def image_iff)
qed (simp_all add: set_data_def same_log_def)

definition ctx_ok :: "OpContext \<Rightarrow> bool" where
  "ctx_ok ctx \<longleftrightarrow> \<not> ctx_lock ctx \<and> unat (rm ctx) + unat (ctx_done ctx) = OP_MAX_NUM_BLOCKS"

definition budget :: "OpContext \<Rightarrow> nat" where
  "budget ctx = unat (rm ctx)"

lemma init_ctx_ok: "ctx_ok init_ctx" and budget_init_ctx: "budget init_ctx = OP_MAX_NUM_BLOCKS"
  by (simp_all add: ctx_ok_def budget_def init_ctx_def init_spinlock_def OP_MAX_NUM_BLOCKS_def)

lemma ctx_step:
  assumes ok: "ctx_ok ctx" and pos: "0 < budget ctx"
  shows "unat (rm ctx - 1) = unat (rm ctx) - 1" "unat (ctx_done ctx + 1) = unat (ctx_done ctx) + 1"
    "rm ctx - 1 + (ctx_done ctx + 1) = of_nat OP_MAX_NUM_BLOCKS" "rm ctx - 1 \<noteq> - 1"
    "\<not> ctx_done ctx + 1 > of_nat OP_MAX_NUM_BLOCKS"
proof -
  have le: "unat (ctx_done ctx) < 10" "unat (rm ctx) \<le> 10" "rm ctx \<noteq> 0"
    using ok pos by (auto simp: ctx_ok_def budget_def OP_MAX_NUM_BLOCKS_def)
  show u1: "unat (rm ctx - 1) = unat (rm ctx) - 1"
    using le(3) by (simp add: unat_minus_one)
  show u2: "unat (ctx_done ctx + 1) = unat (ctx_done ctx) + 1"
    using le(1) by (simp add: unat_word_ariths)
  have "rm ctx + ctx_done ctx = of_nat (unat (rm ctx) + unat (ctx_done ctx))"
    by simp
  then show "rm ctx - 1 + (ctx_done ctx + 1) = of_nat OP_MAX_NUM_BLOCKS"
    using ok by (simp add: ctx_ok_def del: of_nat_add)
  show "rm ctx - 1 \<noteq> - 1" using le(3) by simp
  show "\<not> ctx_done ctx + 1 > of_nat OP_MAX_NUM_BLOCKS"
    using u2 le(1) by (simp add: word_less_nat_alt OP_MAX_NUM_BLOCKS_def)
qed

lemma pinned_nos_held:
  assumes "bc_inv s" and "holds s a b"
  shows "b \<in> pinned_nos s \<longleftrightarrow> pinned (blk s a)"
  using assms holdsD [OF assms] bc_invD(3) [OF assms(1)]
  by (auto simp: pinned_nos_def inj_on_def)

lemma pin_step:
  assumes inv: "bc_inv s" and h: "holds s a b"
  defines "t \<equiv> set_blk a (\<lambda>b. b\<lparr>pinned := True\<rparr>) s"
  shows "bc_inv t" and "view t = view s" and "holds t a' b' = holds s a' b'" and "clean t a"
    and "same_log s t" and "pinned_nos t = insert b (pinned_nos s)"
proof -
  note H = holdsD [OF inv h]
  have "blk_wf (disk s b) ((blk s a)\<lparr>pinned := True\<rparr>)"
    using H(3,4) by (simp add: blk_wf_def)
  then show "bc_inv t" and "view t = view s"
    using change_blk [OF inv H(1), of "\<lambda>b. b\<lparr>pinned := True\<rparr>"] H by (simp_all add: t_def fun_upd_idem)
  show "pinned_nos t = insert b (pinned_nos s)"
    using H(1,2) by (auto simp: pinned_nos_def t_def image_iff)
qed (auto simp: t_def holds_def clean_def same_log_def)

lemma cache_sync_step:
  assumes inv: "bc_inv s" and h: "holds s a b" and ok: "ctx_ok ctx"
    and room: "b \<in> pinned_nos s \<or> 0 < budget ctx"
  shows "\<exists>ctx' t. cache_sync (Some ctx) a s = Inr (Some ctx', t) \<and> ctx_ok ctx' \<and>
     budget ctx' + of_bool (b \<notin> pinned_nos s) = budget ctx \<and>
     bc_inv t \<and> view t = view s \<and> (\<forall>a' b'. holds t a' b' = holds s a' b') \<and> clean t a \<and>
     (\<forall>a'. a' \<noteq> a \<longrightarrow> blk t a' = blk s a') \<and> same_log s t \<and> pinned_nos t = insert b (pinned_nos s)"
proof (cases "pinned (blk s a)")
  case True
  then show ?thesis
    using inv ok pinned_nos_held [OF inv h]
    by (auto simp: cache_sync_def clean_def same_log_def intro!: exI [of _ ctx] exI [of _ s])
next
  case False
  let ?t = "set_blk a (\<lambda>b. b\<lparr>pinned := True\<rparr>) s"
  let ?c = "ctx\<lparr>rm := rm ctx - 1, ctx_done := ctx_done ctx + 1\<rparr>"
  have nb: "b \<notin> pinned_nos s" using False pinned_nos_held [OF inv h] by simp
  then have pos: "0 < budget ctx" using room by simp
  note C = ctx_step [OF ok pos]
  have lk: "\<not> ctx_lock ctx" using ok by (simp add: ctx_ok_def)
  have "ctx\<lparr>ctx_lock := False, rm := r, ctx_done := d\<rparr> = ctx\<lparr>rm := r, ctx_done := d\<rparr>" for r d
    using lk by (simp add: OpContext.surjective)
  then have "cache_sync (Some ctx) a s = Inr (Some ?c, ?t)"
    using False C lk by (simp add: cache_sync_def Let_def release_spinlock_def)
  moreover have "ctx_ok ?c" and "budget ?c + 1 = budget ctx"
    using ok pos C(1,2) by (auto simp: ctx_ok_def budget_def)
  ultimately show ?thesis
    using pin_step [OF inv h] nb by (auto intro!: exI [of _ ?c] exI [of _ ?t])
qed

lemma cache_sync_exhausted:
  assumes "\<not> pinned (blk s a)" and "ctx_ok ctx" and "budget ctx = 0"
  shows "cache_sync (Some ctx) a s = Inl Panic"
proof -
  have "rm ctx = 0" using assms(3) by (simp add: budget_def unat_eq_0)
  then show ?thesis
    using assms(1,2) by (simp add: cache_sync_def Let_def ctx_ok_def)
qed

section \<open>The contract of a block cache\<close>

locale block_cache =
  fixes acquire :: "nat \<Rightarrow> 's \<Rightarrow> ('a \<times> 's) res" and release :: "'a \<Rightarrow> 's \<Rightarrow> 's res"
    and put :: "'a \<Rightarrow> u8 list \<Rightarrow> 's \<Rightarrow> 's" and sync :: "'c \<Rightarrow> 'a \<Rightarrow> 's \<Rightarrow> ('c \<times> 's) res"
    and get :: "'s \<Rightarrow> 'a \<Rightarrow> u8 list" and inv :: "'s \<Rightarrow> bool" and vw :: "'s \<Rightarrow> nat \<Rightarrow> u8 list"
    and hold :: "'s \<Rightarrow> 'a \<Rightarrow> nat \<Rightarrow> bool" and settled :: "'s \<Rightarrow> 'a \<Rightarrow> bool"
    and dirty :: "'s \<Rightarrow> nat set" and good :: "'c \<Rightarrow> bool" and room :: "'c \<Rightarrow> nat"
  assumes acquire_law: "inv s \<Longrightarrow> (\<And>a. \<not> hold s a b) \<Longrightarrow>
      \<exists>a t. acquire b s = Inr (a, t) \<and> inv t \<and> get t a = vw s b \<and> vw t = vw s \<and> settled t a \<and>
        hold t = (\<lambda>a' b'. hold s a' b' \<or> a' = a \<and> b' = b) \<and>
        (\<forall>a' b'. hold s a' b' \<longrightarrow> settled t a' = settled s a') \<and> dirty t = dirty s"
    and release_law: "inv s \<Longrightarrow> hold s a b \<Longrightarrow> settled s a \<Longrightarrow>
      \<exists>t. release a s = Inr t \<and> inv t \<and> vw t = vw s \<and> hold t = (\<lambda>a' b'. hold s a' b' \<and> a' \<noteq> a) \<and>
        (\<forall>a' b'. hold t a' b' \<longrightarrow> settled t a' = settled s a') \<and> dirty t = dirty s"
    and put_law: "inv s \<Longrightarrow> hold s a b \<Longrightarrow> length d = BLOCK_SIZE \<Longrightarrow>
      inv (put a d s) \<and> vw (put a d s) = (vw s)(b := d) \<and> hold (put a d s) = hold s \<and>
        (\<forall>a'. a' \<noteq> a \<longrightarrow> settled (put a d s) a' = settled s a') \<and> dirty (put a d s) = dirty s"
    and sync_law: "inv s \<Longrightarrow> hold s a b \<Longrightarrow> good c \<Longrightarrow> b \<in> dirty s \<or> 0 < room c \<Longrightarrow>
      \<exists>c' t. sync c a s = Inr (c', t) \<and> good c' \<and> room c' + of_bool (b \<notin> dirty s) = room c \<and>
        inv t \<and> vw t = vw s \<and> hold t = hold s \<and> settled t a \<and>
        (\<forall>a'. a' \<noteq> a \<longrightarrow> settled t a' = settled s a') \<and> dirty t = insert b (dirty s)"
    and hold_inj: "inv s \<Longrightarrow> hold s a b \<Longrightarrow> hold s a' b \<Longrightarrow> a' = a"
    and hold_fun: "hold s a b \<Longrightarrow> hold s a b' \<Longrightarrow> b' = b"
    and hold_get: "inv s \<Longrightarrow> hold s a b \<Longrightarrow> get s a = vw s b"
    and view_length: "inv s \<Longrightarrow> length (vw s b) = BLOCK_SIZE"
begin

definition unheld :: "'s \<Rightarrow> nat \<Rightarrow> bool" where
  "unheld s b \<longleftrightarrow> (\<forall>a. \<not> hold s a b)"

definition same_held :: "'s \<Rightarrow> 's \<Rightarrow> bool" where
  "same_held s t \<longleftrightarrow> hold t = hold s \<and> (\<forall>a b. hold s a b \<longrightarrow> settled t a = settled s a)"

lemma same_held_refl: "same_held s s"
  by (simp add: same_held_def)

lemma same_held_trans: "same_held s t \<Longrightarrow> same_held t u \<Longrightarrow> same_held s u"
  by (auto simp: same_held_def)

lemma same_held_unheld: "same_held s t \<Longrightarrow> unheld t b = unheld s b"
  by (simp add: same_held_def unheld_def)

lemma acquired_fresh:
  assumes "inv s" and "unheld s b" and "hold s a' b'"
    and "hold t = (\<lambda>x y. hold s x y \<or> x = a \<and> y = b)" and "inv t"
  shows "a' \<noteq> a"
  using assms hold_fun [of t a' b' b] by (auto simp: unheld_def)

lemma read_block:
  assumes "inv s" and "unheld s b"
  shows "\<exists>a t u. acquire b s = Inr (a, t) \<and> get t a = vw s b \<and> release a t = Inr u \<and>
     inv u \<and> vw u = vw s \<and> same_held s u \<and> dirty u = dirty s"
proof -
  obtain a t where t: "acquire b s = Inr (a, t)" "inv t" "get t a = vw s b" "vw t = vw s" "settled t a"
    "hold t = (\<lambda>a' b'. hold s a' b' \<or> a' = a \<and> b' = b)"
    "\<forall>a' b'. hold s a' b' \<longrightarrow> settled t a' = settled s a'" "dirty t = dirty s"
    using acquire_law [OF assms(1), of b] assms(2) unfolding unheld_def by blast
  have fr: "a' \<noteq> a" if "hold s a' b'" for a' b'
    using acquired_fresh [OF assms that t(6,2)] .
  obtain u where u: "release a t = Inr u" "inv u" "vw u = vw t"
    "hold u = (\<lambda>a' b'. hold t a' b' \<and> a' \<noteq> a)"
    "\<forall>a' b'. hold u a' b' \<longrightarrow> settled u a' = settled t a'" "dirty u = dirty t"
    using release_law [OF t(2) _ t(5), of b] unfolding t(6) by blast
  have "hold u = hold s" unfolding u(4) t(6) using fr by (intro ext) blast
  then show ?thesis
    using t u by (auto simp: same_held_def)
qed

lemma write_block:
  assumes inv: "inv s" and b: "unheld s b" and c: "good c" "b \<in> dirty s \<or> 0 < room c"
    and d: "length d = BLOCK_SIZE"
  shows "\<exists>a t c' u w. acquire b s = Inr (a, t) \<and> get t a = vw s b \<and>
     sync c a (put a d t) = Inr (c', u) \<and> release a u = Inr w \<and> good c' \<and>
     room c' + of_bool (b \<notin> dirty s) = room c \<and> inv w \<and> vw w = (vw s)(b := d) \<and>
     same_held s w \<and> dirty w = insert b (dirty s)"
proof -
  obtain a t where t: "acquire b s = Inr (a, t)" "inv t" "get t a = vw s b" "vw t = vw s"
    "hold t = (\<lambda>a' b'. hold s a' b' \<or> a' = a \<and> b' = b)"
    "\<forall>a' b'. hold s a' b' \<longrightarrow> settled t a' = settled s a'" "dirty t = dirty s"
    using acquire_law [OF inv, of b] b unfolding unheld_def by blast
  have fr: "a' \<noteq> a" if "hold s a' b'" for a' b'
    using acquired_fresh [OF inv b that t(5,2)] .
  have h: "hold t a b" using t(5) by simp
  note p = put_law [OF t(2) h d]
  obtain c' u where u: "sync c a (put a d t) = Inr (c', u)" "good c'"
    "room c' + of_bool (b \<notin> dirty s) = room c" "inv u" "vw u = vw (put a d t)"
    "hold u = hold t" "settled u a"
    "\<And>a'. a' \<noteq> a \<Longrightarrow> settled u a' = settled (put a d t) a'" "dirty u = insert b (dirty s)"
    using sync_law [of "put a d t" a b c] p h c t(7) by auto
  obtain w where w: "release a u = Inr w" "inv w" "vw w = vw u"
    "hold w = (\<lambda>a' b'. hold u a' b' \<and> a' \<noteq> a)"
    "\<forall>a' b'. hold w a' b' \<longrightarrow> settled w a' = settled u a'" "dirty w = dirty u"
    using release_law [OF u(4) _ u(7), of b] h unfolding u(6) by blast
  have "hold w = hold s" unfolding w(4) u(6) t(5) using fr by (intro ext) blast
  then have "same_held s w"
    using w(5) u(8) p t(6) fr by (auto simp: same_held_def)
  then show ?thesis
    using t u w p by auto
qed

end

definition sync_ctx :: "OpContext \<Rightarrow> addr \<Rightarrow> bcst \<Rightarrow> (OpContext \<times> bcst) res" where
  "sync_ctx ctx a s = rbind (cache_sync (Some ctx) a s) (\<lambda>(c, s). Inr (the c, s))"

interpretation bc: block_cache cache_acquire cache_release set_data sync_ctx
  "\<lambda>s a. blk_data (blk s a)" bc_inv view holds clean pinned_nos ctx_ok budget
proof (unfold_locales, goal_cases)
  case (1 s b)
  then obtain a t where t: "cache_acquire b s = Inr (a, t)" "acquired_step s b a t"
    using cache_acquire_step by blast
  moreover have "clean t a' = clean s a'" if "holds s a' b'" for a' b'
  proof -
    have "blk t a' = blk s a'" and "disk t = disk s"
      using t(2) that unfolding acquired_step_def same_log_def by blast+
    then show ?thesis by (simp add: clean_def)
  qed
  ultimately show ?case
    by (auto simp: acquired_step_def fun_eq_iff)
next
  case (2 s a b)
  then obtain t where t: "cache_release a s = Inr t" "released_step s a t"
    using cache_release_step by blast
  moreover have "clean t a' = clean s a'" if "holds t a' b'" for a' b'
  proof -
    have "blk t a' = blk s a'" and "disk t = disk s"
      using t(2) that unfolding released_step_def same_log_def by blast+
    then show ?thesis by (simp add: clean_def)
  qed
  ultimately show ?case
    by (auto simp: released_step_def fun_eq_iff)
next
  case (3 s a b d)
  then show ?case
    using set_data_step [OF 3] by (auto simp: clean_def same_log_def fun_eq_iff)
next
  case (4 s a b c)
  show ?case
    using cache_sync_step [OF 4]
    by (auto simp: sync_ctx_def clean_def same_log_def fun_eq_iff)
next
  case (5 s a b a')
  then show ?case using bc_invD(3) [OF 5(1)] by (auto simp: holds_def inj_on_def)
next
  case (6 s a b b')
  then show ?case by (simp add: holds_def)
next
  case (7 s a b)
  then show ?case using holdsD(5) by metis
next
  case (8 s b)
  show ?case
  proof (cases "b \<in> nos s")
    case True
    then obtain a where a: "a \<in> set (cached s)" "b = bno_of s a" by (auto simp: nos_def)
    then show ?thesis
      using view_cached [OF bc_invD(3) [OF 8] a(1)] bc_invD(6) [OF 8 a(1)] by (simp add: blk_wf_def)
  next
    case False
    then show ?thesis using view_uncached bc_invD(7) [OF 8] by simp
  qed
qed

end
