(* ===== verification/Cache_Alloc.thy ===== *)
theory Cache_Alloc
  imports Cache_Inv
begin

text \<open>
  The block allocator of \<^verbatim>\<open>src/src/fs/cache.c\<close> in terms of the view: \<^verbatim>\<open>cache_alloc\<close> takes the first
  free block of the bitmap and clears it, \<^verbatim>\<open>cache_free\<close> gives a block back.
\<close>

definition used :: "SuperBlock \<Rightarrow> (nat \<Rightarrow> u8 list) \<Rightarrow> nat \<Rightarrow> bool" where
  "used sb v b = bitmap_get (v (bitmap_start sb + b div BIT_PER_BLOCK)) (b mod BIT_PER_BLOCK)"

definition bitmap_area :: "SuperBlock \<Rightarrow> nat set" where
  "bitmap_area sb = {bitmap_start sb..bitmap_start sb + num_blocks sb div BIT_PER_BLOCK}"

lemma sync_ctx_Inr:
  "sync_ctx ctx a s = Inr (ctx', t) \<Longrightarrow> cache_sync (Some ctx) a s = Inr (Some ctx', t)"
  by (auto simp: sync_ctx_def cache_sync_def Let_def split: if_splits)

lemma set_blk_data:
  "set_blk a (\<lambda>b. b\<lparr>blk_data := f (blk_data b)\<rparr>) s = set_data a (f (blk_data (blk s a))) s"
  by (simp add: set_data_def set_blk_def)

text \<open>The pattern acquire, change, sync, release, and acquire, look, release.\<close>

lemma read_bracket:
  assumes "bc_inv s" and "bc.unheld s b"
  shows "\<exists>a t u. cache_acquire b s = Inr (a, t) \<and> blk_data (blk t a) = view s b \<and>
    cache_release a t = Inr u \<and> bc_inv u \<and> view u = view s \<and> bc.same_held s u \<and>
    pinned_nos u = pinned_nos s"
  using bc.read_block [OF assms] .

lemma write_bracket:
  assumes "bc_inv s" and "bc.unheld s b" and "ctx_ok ctx" and "b \<in> pinned_nos s \<or> 0 < budget ctx"
    and "length (f (view s b)) = BLOCK_SIZE"
  shows "\<exists>a t ctx' u w. cache_acquire b s = Inr (a, t) \<and> blk_data (blk t a) = view s b \<and>
    cache_sync (Some ctx) a (set_blk a (\<lambda>b. b\<lparr>blk_data := f (blk_data b)\<rparr>) t) = Inr (Some ctx', u) \<and>
    cache_release a u = Inr w \<and> ctx_ok ctx' \<and> budget ctx \<le> budget ctx' + 1 \<and> bc_inv w \<and>
    view w = (view s)(b := f (view s b)) \<and> bc.same_held s w \<and> pinned_nos w = insert b (pinned_nos s)"
proof -
  obtain a t ctx' u w where
    w: "cache_acquire b s = Inr (a, t)" "blk_data (blk t a) = view s b"
      "sync_ctx ctx a (set_data a (f (view s b)) t) = Inr (ctx', u)" "cache_release a u = Inr w"
      "ctx_ok ctx'" "budget ctx' + of_bool (b \<notin> pinned_nos s) = budget ctx" "bc_inv w"
      "view w = (view s)(b := f (view s b))" "bc.same_held s w" "pinned_nos w = insert b (pinned_nos s)"
    using bc.write_block [OF assms] by blast
  have "budget ctx \<le> budget ctx' + 1" using w(6) by (cases "b \<in> pinned_nos s") auto
  then show ?thesis
    using w sync_ctx_Inr [OF w(3)] set_blk_data [of a f t] by auto
qed

section \<open>The search\<close>

definition bits_in :: "SuperBlock \<Rightarrow> nat \<Rightarrow> nat \<Rightarrow> nat" where
  "bits_in sb n i = (if i = n - 1 then num_blocks sb mod BIT_PER_BLOCK else BIT_PER_BLOCK)"

fun free_slot :: "SuperBlock \<Rightarrow> nat \<Rightarrow> (nat \<Rightarrow> u8 list) \<Rightarrow> nat list \<Rightarrow> (nat \<times> nat) option" where
  "free_slot sb n v [] = None"
| "free_slot sb n v (i # is) =
     (case first_clear (v (bitmap_start sb + i)) (bits_in sb n i) of
        Some index \<Rightarrow> Some (i, index)
      | None \<Rightarrow> free_slot sb n v is)"

lemma first_clear_Some:
  "first_clear bs e = Some i \<Longrightarrow> i < e \<and> \<not> bitmap_get bs i \<and> (\<forall>j<i. bitmap_get bs j)"
  by (auto simp: first_clear_def find_Some_iff)

lemma first_clear_None: "first_clear bs e = None \<longleftrightarrow> (\<forall>i<e. bitmap_get bs i)"
  by (auto simp: first_clear_def find_None_iff)

lemma free_slot_Some:
  "free_slot sb n v is = Some (i, index) \<Longrightarrow>
   \<exists>xs ys. is = xs @ i # ys \<and> first_clear (v (bitmap_start sb + i)) (bits_in sb n i) = Some index \<and>
     (\<forall>x\<in>set xs. first_clear (v (bitmap_start sb + x)) (bits_in sb n x) = None)"
proof (induction "is")
  case (Cons x xs)
  show ?case
  proof (cases "first_clear (v (bitmap_start sb + x)) (bits_in sb n x)")
    case None
    then obtain ys zs where "xs = ys @ i # zs"
      "first_clear (v (bitmap_start sb + i)) (bits_in sb n i) = Some index"
      "\<forall>x\<in>set ys. first_clear (v (bitmap_start sb + x)) (bits_in sb n x) = None"
      using Cons by auto
    then show ?thesis using None by (intro exI [of _ "x # ys"] exI [of _ zs]) auto
  next
    case (Some k)
    then show ?thesis using Cons.prems by (intro exI [of _ "[]"] exI [of _ xs]) auto
  qed
qed simp

lemma upt_split_prefix: "[0..<n] = xs @ i # ys \<Longrightarrow> xs = [0..<i] \<and> i < n"
proof -
  assume a: "[0..<n] = xs @ i # ys"
  have l: "length xs < n"
    using arg_cong [OF a, of length] by simp
  moreover have "i = [0..<n] ! length xs"
    unfolding a by simp
  ultimately have i: "i = length xs" by simp
  have "xs = take (length xs) [0..<n]" using a by simp
  then show ?thesis using i l by (simp add: take_upt)
qed

lemma same_div_mod_less: "(a :: nat) < b \<Longrightarrow> a div k = b div k \<Longrightarrow> a mod k < b mod k"
  by (metis add_less_cancel_left div_mult_mod_eq)

lemma num_bitmap_bits:
  assumes "j < num_blocks sb" and "n = num_blocks sb div BIT_PER_BLOCK + 1"
  shows "j div BIT_PER_BLOCK < n" and "j mod BIT_PER_BLOCK < bits_in sb n (j div BIT_PER_BLOCK)"
proof -
  have p: "0 < BIT_PER_BLOCK" by (simp add: fs_consts)
  show "j div BIT_PER_BLOCK < n"
    using assms div_le_mono [of j "num_blocks sb" BIT_PER_BLOCK] by simp
  show "j mod BIT_PER_BLOCK < bits_in sb n (j div BIT_PER_BLOCK)"
  proof (cases "j div BIT_PER_BLOCK = n - 1")
    case True
    then have "j div BIT_PER_BLOCK = num_blocks sb div BIT_PER_BLOCK" using assms(2) by simp
    then show ?thesis
      using same_div_mod_less [OF assms(1)] True by (simp add: bits_in_def)
  qed (use p in \<open>simp add: bits_in_def\<close>)
qed

text \<open>The search finds the first free block of the whole bitmap.\<close>

lemma free_slot_least:
  assumes n: "n = num_blocks sb div BIT_PER_BLOCK + 1"
    and f: "free_slot sb n v [0..<n] = Some (i, index)"
  defines "b \<equiv> i * BIT_PER_BLOCK + index"
  shows "b < num_blocks sb" and "\<not> used sb v b" and "j < b \<Longrightarrow> used sb v j"
    and "b div BIT_PER_BLOCK = i" and "b mod BIT_PER_BLOCK = index" and "i < n"
proof -
  obtain xs ys where s: "[0..<n] = xs @ i # ys"
    "first_clear (v (bitmap_start sb + i)) (bits_in sb n i) = Some index"
    "\<And>x. x \<in> set xs \<Longrightarrow> first_clear (v (bitmap_start sb + x)) (bits_in sb n x) = None"
    using free_slot_Some [OF f] by auto
  have xs: "xs = [0..<i]" and i: "i < n" using upt_split_prefix [OF s(1)] by auto
  note F = first_clear_Some [OF s(2)]
  have lt: "index < BIT_PER_BLOCK"
    using F mod_less_divisor [of BIT_PER_BLOCK "num_blocks sb"]
    by (auto simp: bits_in_def fs_consts split: if_splits)
  show bd: "b div BIT_PER_BLOCK = i" and bm: "b mod BIT_PER_BLOCK = index"
    using lt by (simp_all add: b_def)
  show "i < n" by fact
  show "\<not> used sb v b" using F by (simp add: used_def bd bm)
  show "b < num_blocks sb"
  proof (cases "i = n - 1")
    case True
    then show ?thesis
      using F n add_less_cancel_left [of "i * BIT_PER_BLOCK" index "num_blocks sb mod BIT_PER_BLOCK"]
        div_mult_mod_eq [of "num_blocks sb" BIT_PER_BLOCK] unfolding bits_in_def b_def
      by (metis add_diff_cancel_right')
  next
    case False
    then have "Suc i * BIT_PER_BLOCK \<le> num_blocks sb div BIT_PER_BLOCK * BIT_PER_BLOCK"
      using i n by (intro mult_le_mono1) simp
    then have "Suc i * BIT_PER_BLOCK \<le> num_blocks sb"
      by (rule order_trans) simp
    then show ?thesis using lt by (simp add: b_def)
  qed
  show "used sb v j" if j: "j < b"
  proof (cases "j div BIT_PER_BLOCK = i")
    case True
    then have "j mod BIT_PER_BLOCK < index"
      using same_div_mod_less [OF j, of BIT_PER_BLOCK] bd bm by simp
    then show ?thesis using F True by (simp add: used_def)
  next
    case False
    have "j div BIT_PER_BLOCK \<le> i" using j bd div_le_mono [of j b BIT_PER_BLOCK] by simp
    then have "j div BIT_PER_BLOCK \<in> set xs" using False xs by simp
    moreover have "j < num_blocks sb" using j \<open>b < num_blocks sb\<close> by simp
    ultimately show ?thesis
      using s(3) num_bitmap_bits(2) [OF _ n] by (auto simp: used_def first_clear_None)
  qed
qed

lemma free_slot_full:
  assumes n: "n = num_blocks sb div BIT_PER_BLOCK + 1" and j: "j < num_blocks sb"
    and f: "free_slot sb n v [0..<n] = None"
  shows "used sb v j"
proof -
  have none: "first_clear (v (bitmap_start sb + i)) (bits_in sb n i) = None" if "i \<in> set is"
    "free_slot sb n v is = None" for i "is"
    using that by (induction "is") (auto split: option.splits)
  show ?thesis
    using none [OF _ f] num_bitmap_bits [OF j n] by (auto simp: used_def first_clear_None)
qed

lemma alloc_scan_spec:
  assumes inv: "bc_inv s" and free: "\<And>i. i \<in> set is \<Longrightarrow> bc.unheld s (bitmap_start sb + i)"
    and ok: "ctx_ok ctx" and room: "0 < budget ctx"
  shows "case free_slot sb n (view s) is of
      None \<Rightarrow> \<exists>t. alloc_scan sb (Some ctx) n is s = Inr (None, Some ctx, t)
    | Some (i, index) \<Rightarrow> \<exists>ctx' t.
        alloc_scan sb (Some ctx) n is s = Inr (Some (i * BIT_PER_BLOCK + index), Some ctx', t) \<and>
        bc_inv t \<and> ctx_ok ctx' \<and> budget ctx \<le> budget ctx' + 1 \<and> bc.same_held s t \<and>
        view t = (view s)(bitmap_start sb + i := bitmap_set (view s (bitmap_start sb + i)) index)"
  using inv free
proof (induction "is" arbitrary: s)
  case (Cons i "is")
  let ?b = "bitmap_start sb + i"
  have un: "bc.unheld s ?b" using Cons.prems(2) by simp
  show ?case
  proof (cases "first_clear (view s ?b) (bits_in sb n i)")
    case None
    obtain a t u where u: "cache_acquire ?b s = Inr (a, t)" "blk_data (blk t a) = view s ?b"
      "cache_release a t = Inr u" "bc_inv u" "view u = view s" "bc.same_held s u"
      using read_bracket [OF Cons.prems(1) un] by blast
    have eq: "alloc_scan sb (Some ctx) n (i # is) s = alloc_scan sb (Some ctx) n is u"
      using u None by (simp add: bits_in_def Let_def)
    have fs: "free_slot sb n (view s) (i # is) = free_slot sb n (view s) is"
      using None by simp
    have "bc.unheld u (bitmap_start sb + j)" if "j \<in> set is" for j
      using Cons.prems(2) that bc.same_held_unheld [OF u(6)] by simp
    note ih = Cons.IH [OF u(4) this, unfolded u(5)]
    show ?thesis
      unfolding eq fs using ih bc.same_held_trans [OF u(6)]
      by (cases "free_slot sb n (view s) is") (simp, fastforce)
  next
    case (Some index)
    have idx: "index < 8 * length (view s ?b)"
      using first_clear_Some [OF Some] bc.view_length [OF Cons.prems(1), of ?b]
        mod_less_divisor [of BIT_PER_BLOCK "num_blocks sb"]
      by (auto simp: bits_in_def fs_consts split: if_splits)
    have "length (bitmap_set (view s ?b) index) = BLOCK_SIZE"
      using length_bitmap_set [OF idx] bc.view_length [OF Cons.prems(1), of ?b] by (simp add: fs_consts)
    then obtain a t ctx' u w where w: "cache_acquire ?b s = Inr (a, t)" "blk_data (blk t a) = view s ?b"
      "cache_sync (Some ctx) a (set_blk a (\<lambda>b. b\<lparr>blk_data := bitmap_set (blk_data b) index\<rparr>) t) = Inr (Some ctx', u)"
      "cache_release a u = Inr w" "ctx_ok ctx'" "budget ctx \<le> budget ctx' + 1" "bc_inv w"
      "view w = (view s)(?b := bitmap_set (view s ?b) index)" "bc.same_held s w"
      using write_bracket [OF Cons.prems(1) un ok, of "\<lambda>d. bitmap_set d index"] room by blast
    have "alloc_scan sb (Some ctx) n (i # is) s = Inr (Some (i * BIT_PER_BLOCK + index), Some ctx', w)"
      using w(1-4) Some by (simp add: bits_in_def Let_def)
    then show ?thesis using Some w(5-9) by simp
  qed
qed simp

section \<open>Allocation and release\<close>

text \<open>The first free block is neither held nor a block of the bitmap.\<close>

definition allocatable :: "SuperBlock \<Rightarrow> bcst \<Rightarrow> bool" where
  "allocatable sb s \<longleftrightarrow> (\<forall>b\<in>bitmap_area sb. bc.unheld s b) \<and>
     (\<forall>b<num_blocks sb. \<not> used sb (view s) b \<longrightarrow> bc.unheld s b \<and> b \<notin> bitmap_area sb)"

lemma bitmap_block_in_area:
  "b < num_blocks sb \<Longrightarrow> bitmap_start sb + b div BIT_PER_BLOCK \<in> bitmap_area sb"
  by (simp add: bitmap_area_def div_le_mono)

lemma used_bitmap_set:
  assumes "b < num_blocks sb" and "\<And>x. length (v x) = BLOCK_SIZE" and "z \<notin> bitmap_area sb"
    and "j < num_blocks sb"
    and "v' = v(bitmap_start sb + b div BIT_PER_BLOCK :=
      bitmap_set (v (bitmap_start sb + b div BIT_PER_BLOCK)) (b mod BIT_PER_BLOCK), z := d)"
  shows "used sb v' j \<longleftrightarrow> used sb v j \<or> j = b"
proof -
  have lt: "b mod BIT_PER_BLOCK < 8 * length (v x)" for x
    using assms(2) [of x] mod_less_divisor [of BIT_PER_BLOCK b] by (simp add: fs_consts)
  have nz: "bitmap_start sb + j div BIT_PER_BLOCK \<noteq> z"
    using bitmap_block_in_area [OF assms(4)] assms(3) by auto
  have "j = b \<longleftrightarrow> j div BIT_PER_BLOCK = b div BIT_PER_BLOCK \<and> j mod BIT_PER_BLOCK = b mod BIT_PER_BLOCK"
    by (metis div_mult_mod_eq)
  then show ?thesis
    using nz bitmap_get_set [OF lt] assms(2) by (auto simp: assms(5) used_def fs_consts)
qed

lemma cache_alloc_spec:
  assumes inv: "bc_inv s" and al: "allocatable sb s" and ok: "ctx_ok ctx" and room: "2 \<le> budget ctx"
    and some: "\<exists>b<num_blocks sb. \<not> used sb (view s) b"
  shows "\<exists>b ctx' t. cache_alloc sb (Some ctx) s = Inr (b, Some ctx', t) \<and> bc_inv t \<and> ctx_ok ctx' \<and>
    budget ctx \<le> budget ctx' + 2 \<and> bc.same_held s t \<and> b < num_blocks sb \<and> \<not> used sb (view s) b \<and>
    (\<forall>j<b. used sb (view s) j) \<and> b \<notin> bitmap_area sb \<and>
    view t = (view s)(bitmap_start sb + b div BIT_PER_BLOCK :=
        bitmap_set (view s (bitmap_start sb + b div BIT_PER_BLOCK)) (b mod BIT_PER_BLOCK),
      b := replicate BLOCK_SIZE 0)"
proof -
  define n where "n = num_blocks sb div BIT_PER_BLOCK + 1"
  have un: "bc.unheld s (bitmap_start sb + i)" if "i \<in> set [0..<n]" for i
    using al that by (auto simp: allocatable_def bitmap_area_def n_def)
  obtain i index where fs: "free_slot sb n (view s) [0..<n] = Some (i, index)"
    using some free_slot_full [OF n_def] by fastforce
  define b where "b = i * BIT_PER_BLOCK + index"
  note L = free_slot_least [OF n_def fs, folded b_def]
  obtain ctx1 t1 where t1: "alloc_scan sb (Some ctx) n [0..<n] s = Inr (Some b, Some ctx1, t1)"
    "bc_inv t1" "ctx_ok ctx1" "budget ctx \<le> budget ctx1 + 1" "bc.same_held s t1"
    "view t1 = (view s)(bitmap_start sb + i := bitmap_set (view s (bitmap_start sb + i)) index)"
    using alloc_scan_spec [OF inv un ok, of "[0..<n]" n] room fs by (auto simp: b_def)
  have ub: "bc.unheld t1 b" and nb: "b \<notin> bitmap_area sb"
    using al L(1,2) bc.same_held_unheld [OF t1(5)] by (auto simp: allocatable_def)
  obtain a t ctx' u w where w: "cache_acquire b t1 = Inr (a, t)"
    "cache_sync (Some ctx1) a (set_blk a (\<lambda>b. b\<lparr>blk_data := replicate BLOCK_SIZE 0\<rparr>) t) = Inr (Some ctx', u)"
    "cache_release a u = Inr w" "ctx_ok ctx'" "budget ctx1 \<le> budget ctx' + 1" "bc_inv w"
    "view w = (view t1)(b := replicate BLOCK_SIZE 0)" "bc.same_held t1 w"
    using write_bracket [OF t1(2) ub t1(3), of "\<lambda>_. replicate BLOCK_SIZE 0"] room t1(4) by auto
  have "cache_alloc sb (Some ctx) s = Inr (b, Some ctx', w)"
    using t1(1) w(1-3) by (simp add: cache_alloc_def Let_def n_def)
  then show ?thesis
    using w(4-7) t1(4,6) L(1-5) nb bc.same_held_trans [OF t1(5) w(8)]
    by (intro exI [of _ b] exI [of _ ctx'] exI [of _ w]) auto
qed

lemma cache_free_spec:
  assumes inv: "bc_inv s" and b: "b < num_blocks sb" and ok: "ctx_ok ctx" and room: "0 < budget ctx"
    and un: "bc.unheld s (bitmap_start sb + b div BIT_PER_BLOCK)"
  shows "\<exists>ctx' t. cache_free sb (Some ctx) b s = Inr (Some ctx', t) \<and> bc_inv t \<and> ctx_ok ctx' \<and>
    budget ctx \<le> budget ctx' + 1 \<and> bc.same_held s t \<and>
    view t = (view s)(bitmap_start sb + b div BIT_PER_BLOCK :=
        bitmap_clear (view s (bitmap_start sb + b div BIT_PER_BLOCK)) (b mod BIT_PER_BLOCK))"
proof -
  let ?bb = "bitmap_start sb + b div BIT_PER_BLOCK" and ?i = "b mod BIT_PER_BLOCK"
  have "?i < 8 * length (view s ?bb)"
    using bc.view_length [OF inv, of ?bb] mod_less_divisor [of BIT_PER_BLOCK b] by (simp add: fs_consts)
  then have "length (bitmap_clear (view s ?bb) ?i) = BLOCK_SIZE"
    using bc.view_length [OF inv, of ?bb] length_bitmap_clear [of ?i "view s ?bb"] by (simp add: fs_consts)
  then obtain a t ctx' u w where w: "cache_acquire ?bb s = Inr (a, t)"
    "cache_sync (Some ctx) a (set_blk a (\<lambda>b. b\<lparr>blk_data := bitmap_clear (blk_data b) ?i\<rparr>) t) = Inr (Some ctx', u)"
    "cache_release a u = Inr w" "ctx_ok ctx'" "budget ctx \<le> budget ctx' + 1" "bc_inv w"
    "view w = (view s)(?bb := bitmap_clear (view s ?bb) ?i)" "bc.same_held s w"
    using write_bracket [OF inv un ok, of "\<lambda>d. bitmap_clear d ?i"] room by blast
  have "cache_free sb (Some ctx) b s = Inr (Some ctx', w)"
    using w(1-3) by (simp add: cache_free_def Let_def)
  then show ?thesis using w(4-8) by blast
qed

lemma used_bitmap_clear:
  assumes "\<And>x. length (v x) = BLOCK_SIZE"
    and "v' = v(bitmap_start sb + b div BIT_PER_BLOCK :=
      bitmap_clear (v (bitmap_start sb + b div BIT_PER_BLOCK)) (b mod BIT_PER_BLOCK))"
  shows "used sb v' j \<longleftrightarrow> used sb v j \<and> j \<noteq> b"
proof -
  have lt: "b mod BIT_PER_BLOCK < 8 * length (v x)" for x
    using assms(1) [of x] mod_less_divisor [of BIT_PER_BLOCK b] by (simp add: fs_consts)
  have "j = b \<longleftrightarrow> j div BIT_PER_BLOCK = b div BIT_PER_BLOCK \<and> j mod BIT_PER_BLOCK = b mod BIT_PER_BLOCK"
    by (metis div_mult_mod_eq)
  then show ?thesis
    using bitmap_get_clear [OF lt] assms(1) by (auto simp: assms(2) used_def fs_consts)
qed

section \<open>Properties\<close>

text \<open>
  C4: \<^verbatim>\<open>cache_alloc\<close> returns the first block that the bitmap has as free, marks exactly this block
  as used and fills it with zeros; every block that is neither this one nor a block of the bitmap
  keeps its content. When the bitmap has no free block, it panics.
\<close>

theorem cache_alloc_first_free:
  assumes "bc_inv s" and "allocatable sb s" and "ctx_ok ctx" and "2 \<le> budget ctx"
  shows "if \<forall>b<num_blocks sb. used sb (view s) b then cache_alloc sb (Some ctx) s = Inl Panic
    else \<exists>b ctx' t. cache_alloc sb (Some ctx) s = Inr (b, Some ctx', t) \<and> bc_inv t \<and>
      ctx_ok ctx' \<and> budget ctx \<le> budget ctx' + 2 \<and>
      b < num_blocks sb \<and> \<not> used sb (view s) b \<and> (\<forall>j<b. used sb (view s) j) \<and>
      (\<forall>j<num_blocks sb. used sb (view t) j \<longleftrightarrow> used sb (view s) j \<or> j = b) \<and>
      view t b = replicate BLOCK_SIZE 0 \<and> (\<forall>x. x \<notin> bitmap_area sb \<longrightarrow> x \<noteq> b \<longrightarrow> view t x = view s x)"
proof (cases "\<forall>b<num_blocks sb. used sb (view s) b")
  case True
  define n where "n = num_blocks sb div BIT_PER_BLOCK + 1"
  have "free_slot sb n (view s) [0..<n] = None"
    using True free_slot_least(1,2) [OF n_def, of "view s"] by (cases "free_slot sb n (view s) [0..<n]") auto
  moreover have "bc.unheld s (bitmap_start sb + i)" if "i \<in> set [0..<n]" for i
    using assms(2) that by (auto simp: allocatable_def bitmap_area_def n_def)
  ultimately obtain t where "alloc_scan sb (Some ctx) n [0..<n] s = Inr (None, Some ctx, t)"
    using alloc_scan_spec [OF assms(1) _ assms(3), of "[0..<n]" sb n] assms(4) by auto
  then show ?thesis using True by (simp add: cache_alloc_def Let_def n_def)
next
  case False
  obtain b ctx' t where b: "cache_alloc sb (Some ctx) s = Inr (b, Some ctx', t)" "bc_inv t" "ctx_ok ctx'"
    "budget ctx \<le> budget ctx' + 2" "b < num_blocks sb" "\<not> used sb (view s) b" "\<forall>j<b. used sb (view s) j"
    "b \<notin> bitmap_area sb" and v: "view t = (view s)(bitmap_start sb + b div BIT_PER_BLOCK :=
        bitmap_set (view s (bitmap_start sb + b div BIT_PER_BLOCK)) (b mod BIT_PER_BLOCK),
      b := replicate BLOCK_SIZE 0)"
    using cache_alloc_spec [OF assms] False by blast
  have "\<forall>j<num_blocks sb. used sb (view t) j \<longleftrightarrow> used sb (view s) j \<or> j = b"
    using used_bitmap_set [OF b(5) bc.view_length [OF assms(1)] b(8) _ v] by blast
  moreover have "view t x = view s x" if "x \<notin> bitmap_area sb" "x \<noteq> b" for x
    using that bitmap_block_in_area [OF b(5)] by (auto simp: v)
  ultimately show ?thesis using False b v by auto
qed

text \<open>
  C5: giving back the block just allocated restores the set of used blocks.
\<close>

theorem alloc_free_roundtrip:
  assumes "bc_inv s" and "allocatable sb s" and "ctx_ok ctx" and "3 \<le> budget ctx"
    and "\<exists>b<num_blocks sb. \<not> used sb (view s) b"
  shows "\<exists>b c1 t c2 u. cache_alloc sb (Some ctx) s = Inr (b, Some c1, t) \<and>
    cache_free sb (Some c1) b t = Inr (Some c2, u) \<and>
    (\<forall>j<num_blocks sb. used sb (view u) j = used sb (view s) j)"
proof -
  obtain b c1 t where b: "cache_alloc sb (Some ctx) s = Inr (b, Some c1, t)" "bc_inv t" "ctx_ok c1"
    "budget ctx \<le> budget c1 + 2" "bc.same_held s t" "b < num_blocks sb" "\<not> used sb (view s) b"
    "b \<notin> bitmap_area sb" and v: "view t = (view s)(bitmap_start sb + b div BIT_PER_BLOCK :=
        bitmap_set (view s (bitmap_start sb + b div BIT_PER_BLOCK)) (b mod BIT_PER_BLOCK),
      b := replicate BLOCK_SIZE 0)"
    using cache_alloc_spec [OF assms(1-3) _ assms(5)] assms(4) by auto
  have "bc.unheld t (bitmap_start sb + b div BIT_PER_BLOCK)"
    using assms(2) bitmap_block_in_area [OF b(6)] bc.same_held_unheld [OF b(5)] by (simp add: allocatable_def)
  then obtain c2 u where u: "cache_free sb (Some c1) b t = Inr (Some c2, u)"
    "view u = (view t)(bitmap_start sb + b div BIT_PER_BLOCK :=
        bitmap_clear (view t (bitmap_start sb + b div BIT_PER_BLOCK)) (b mod BIT_PER_BLOCK))"
    using cache_free_spec [OF b(2,6,3)] assms(4) b(4) by auto
  have "used sb (view u) j = used sb (view s) j" if "j < num_blocks sb" for j
    using used_bitmap_set [OF b(6) bc.view_length [OF assms(1)] b(8) that v]
      used_bitmap_clear [OF bc.view_length [OF b(2)] u(2)] b(7) by auto
  then show ?thesis using b(1) u(1) by blast
qed

definition alloc_sb :: SuperBlock where
  "alloc_sb = \<lparr>num_blocks = 1000, num_data_blocks = 900, num_inodes = 200, num_log_blocks = 63,
     log_start = 2, inode_start = 65, bitmap_start = 90\<rparr>"

definition alloc_bc :: bcst where
  "alloc_bc = \<lparr>disk = (\<lambda>b. replicate 100 255 @ replicate 412 0), writes = [], cache_lock = False,
     blk = (\<lambda>_. init_block), cached = [], num_cached_blocks = 0, fresh = 0,
     header = \<lparr>hdr_num_blocks = 0, hdr_block_no = replicate LOG_MAX_SIZE 0, hdr_valid = False\<rparr>,
     log = init_log, write_log_count = 0, write_data_count = 0\<rparr>"

lemma alloc_bc_used: "used alloc_sb (view alloc_bc) 90" "\<not> used alloc_sb (view alloc_bc) 999"
proof -
  have v: "view alloc_bc b = replicate 100 255 @ replicate 412 0" for b
    by (simp add: view_def alloc_bc_def)
  have "take 8 (drop 8 (replicate 100 255 @ replicate 412 0 :: u8 list)) = [255, 255, 255, 255, 255, 255, 255, 255]"
    by (simp add: numeral_eq_Suc)
  then have c: "bitmap_cell (replicate 100 255 @ replicate 412 0) 1 = - 1"
    by (simp add: bitmap_cell_def rd_def)
  have "take 8 (drop 120 (replicate 100 255 @ replicate 412 0 :: u8 list)) = replicate 8 0"
    by simp
  then have d: "bitmap_cell (replicate 100 255 @ replicate 412 0) 15 = 0"
    by (simp add: bitmap_cell_def rd_def numeral_eq_Suc)
  show "used alloc_sb (view alloc_bc) 90" "\<not> used alloc_sb (view alloc_bc) 999"
    using c d by (simp_all add: used_def v bitmap_get_bit fs_consts)
qed

lemma alloc_bc_ok: "bc_inv alloc_bc" "allocatable alloc_sb alloc_bc"
proof -
  show "bc_inv alloc_bc"
    by (simp add: bc_inv_def alloc_bc_def fs_consts)
  have "b = 90" if "b \<in> bitmap_area alloc_sb" for b
    using that by (simp add: bitmap_area_def alloc_sb_def fs_consts)
  then show "allocatable alloc_sb alloc_bc"
    using alloc_bc_used(1) by (auto simp: allocatable_def bc.unheld_def holds_def alloc_bc_def)
qed

theorem cache_alloc_first_free_witness:
  "\<exists>b ctx' t. cache_alloc alloc_sb (Some init_ctx) alloc_bc = Inr (b, Some ctx', t) \<and>
     \<not> used alloc_sb (view alloc_bc) b \<and> used alloc_sb (view t) b"
proof -
  have room: "2 \<le> budget init_ctx" by (simp add: budget_init_ctx OP_MAX_NUM_BLOCKS_def)
  have ne: "(\<forall>b<num_blocks alloc_sb. used alloc_sb (view alloc_bc) b) = False"
    using alloc_bc_used(2) by (auto simp: alloc_sb_def intro!: exI [of _ 999])
  show ?thesis
    using cache_alloc_first_free [OF alloc_bc_ok init_ctx_ok room] unfolding ne if_False by blast
qed

theorem alloc_free_roundtrip_witness:
  "\<exists>b c1 t c2 u. cache_alloc alloc_sb (Some init_ctx) alloc_bc = Inr (b, Some c1, t) \<and>
     cache_free alloc_sb (Some c1) b t = Inr (Some c2, u)"
proof -
  have "3 \<le> budget init_ctx" by (simp add: budget_init_ctx OP_MAX_NUM_BLOCKS_def)
  moreover have "\<exists>b<num_blocks alloc_sb. \<not> used alloc_sb (view alloc_bc) b"
    using alloc_bc_used(2) by (intro exI [of _ 999]) (simp add: alloc_sb_def)
  ultimately show ?thesis
    using alloc_free_roundtrip [OF alloc_bc_ok init_ctx_ok] by blast
qed

text \<open>
  C6: the cache refines a plain array of blocks. Acquiring a block that nobody holds succeeds,
  whatever has to be evicted, and shows its current content; changing, syncing and releasing it
  updates this block of the view and no other, and costs the operation at most one unit of its
  budget.
\<close>

theorem cache_refines_blocks:
  assumes "bc_inv s" and "bc.unheld s b" and "ctx_ok ctx" and "b \<in> pinned_nos s \<or> 0 < budget ctx"
    and "length (f (view s b)) = BLOCK_SIZE"
  shows "\<exists>a t ctx' u w. cache_acquire b s = Inr (a, t) \<and> view t = view s \<and> blk_data (blk t a) = view s b \<and>
    cache_sync (Some ctx) a (set_data a (f (blk_data (blk t a))) t) = Inr (Some ctx', u) \<and>
    cache_release a u = Inr w \<and> bc_inv w \<and> view w = (view s)(b := f (view s b)) \<and>
    disk w = disk s \<and> budget ctx \<le> budget ctx' + 1"
proof -
  obtain a t where t: "cache_acquire b s = Inr (a, t)" "acquired_step s b a t"
    using cache_acquire_step [OF assms(1), of b] assms(2) unfolding bc.unheld_def by blast
  obtain ctx' u w where w: "cache_sync (Some ctx) a (set_data a (f (blk_data (blk t a))) t) = Inr (Some ctx', u)"
    "cache_release a u = Inr w" "budget ctx \<le> budget ctx' + 1" "bc_inv w"
    "view w = (view s)(b := f (view s b))"
    using write_bracket [OF assms(1-4), of f] assms(5) t(1) by (auto simp: set_blk_data)
  have "disk (set_data a d t) = disk s" for d
    using t(2) by (simp add: acquired_step_def same_log_def set_data_def)
  moreover have "disk u = disk (set_data a d t)" if "cache_sync (Some ctx) a (set_data a d t) = Inr (Some ctx', u)" for d
    using that by (auto simp: cache_sync_def Let_def split: if_splits)
  moreover have "disk w = disk u"
    using w(2) by (auto simp: cache_release_def Let_def split: if_splits)
  ultimately show ?thesis
    using t w by (auto simp: acquired_step_def)
qed

theorem cache_refines_blocks_witness:
  "\<exists>a t ctx' u w. cache_acquire 7 alloc_bc = Inr (a, t) \<and>
    cache_sync (Some init_ctx) a (set_data a (rev (blk_data (blk t a))) t) = Inr (Some ctx', u) \<and>
    cache_release a u = Inr w \<and> view w 7 = replicate 412 0 @ replicate 100 255"
proof -
  have "bc.unheld alloc_bc 7" by (simp add: bc.unheld_def holds_def alloc_bc_def)
  moreover have "view alloc_bc 7 = replicate 100 255 @ replicate 412 0"
    by (simp add: view_def alloc_bc_def)
  moreover have "0 < budget init_ctx" by (simp add: budget_init_ctx OP_MAX_NUM_BLOCKS_def)
  ultimately show ?thesis
    using cache_refines_blocks [OF alloc_bc_ok(1) _ init_ctx_ok, of 7 rev] by (fastforce simp: BLOCK_SIZE_def)
qed

end
