(* ===== verification/Console.thy ===== *)
theory Console
  imports Sync
begin

text \<open>
  \<^verbatim>\<open>src/src/kernel/console.c\<close>: the input ring of the console with its three indices, the line editor in
  the interrupt handler, and reading and writing. The UART is a list of characters that went
  out; the characters that came in are the argument of the interrupt handler.
\<close>

definition INPUT_BUF :: nat where
  "INPUT_BUF = 128"

definition wrap_inc :: "nat \<Rightarrow> nat" where
  "wrap_inc x = (x + 1) mod INPUT_BUF"

definition wrap_dec :: "nat \<Rightarrow> nat" where
  "wrap_dec x = (x + INPUT_BUF - 1) mod INPUT_BUF"

record input =
  in_lock :: SpinLock
  in_read :: Semaphore
  in_buf :: "u8 list"
  in_r :: nat
  in_w :: nat
  in_e :: nat
  uart_out :: "u8 list"

definition cons_input_init :: input where
  "cons_input_init = \<lparr>in_lock = init_spinlock, in_read = init_sem 0, in_buf = replicate INPUT_BUF 0,
     in_r = 0, in_w = 0, in_e = 0, uart_out = []\<rparr>"

definition uart_put_char :: "u8 \<Rightarrow> input \<Rightarrow> input" where
  "uart_put_char c s = s\<lparr>uart_out := uart_out s @ [c]\<rparr>"

text \<open>\<^verbatim>\<open>None\<close> is the code \<^verbatim>\<open>BACKSPACE\<close>, which is no character.\<close>

definition console_put_char :: "u8 option \<Rightarrow> input \<Rightarrow> input" where
  "console_put_char c s =
     (case c of
        None \<Rightarrow> uart_put_char 8 (uart_put_char 32 (uart_put_char 8 s))
      | Some c \<Rightarrow> uart_put_char c s)"

definition console_write :: "u8 list \<Rightarrow> input \<Rightarrow> (nat \<times> input) res" where
  "console_write buf s =
     rbind (acquire_spinlock (in_lock s)) (\<lambda>l.
       let s = fold uart_put_char buf (s\<lparr>in_lock := l\<rparr>)
       in Inr (length buf, s\<lparr>in_lock := release_spinlock (in_lock s)\<rparr>))"

section \<open>Reading\<close>

text \<open>
  \<^verbatim>\<open>CDone\<close>: the bytes copied out. \<^verbatim>\<open>CWait\<close>: the bytes copied so far and how many are still wanted;
  the process waits on \<^verbatim>\<open>input.read\<close> and runs the loop again when it is woken. \<^verbatim>\<open>CRetry\<close>: the
  semaphore had a token, and the loop runs again at once.
\<close>

datatype cres = CDone "u8 list" | CWait "u8 list" nat | CRetry "u8 list" nat

fun console_read_loop :: "nat \<Rightarrow> nat \<Rightarrow> u8 list \<Rightarrow> input \<Rightarrow> cres \<times> input" where
  "console_read_loop p 0 acc s = (CDone acc, s)"
| "console_read_loop p (Suc n) acc s =
     (if in_r s = in_w s
      then let s = s\<lparr>in_lock := release_spinlock (in_lock s)\<rparr>;
               (ok, sem) = wait_sem_enter p (in_read s)
           in (if ok then CRetry acc (Suc n) else CWait acc (Suc n), s\<lparr>in_read := sem\<rparr>)
      else
        let c = in_buf s ! in_r s
        in if c = 4 then (CDone acc, s)
           else let s = s\<lparr>in_r := wrap_inc (in_r s)\<rparr>; acc = acc @ [c]
                in if c = 10 then (CDone acc, s) else console_read_loop p n acc s)"

definition console_read :: "nat \<Rightarrow> nat \<Rightarrow> u8 list \<Rightarrow> input \<Rightarrow> (cres \<times> input) res" where
  "console_read p n acc s =
     rbind (acquire_spinlock (in_lock s)) (\<lambda>l.
       case console_read_loop p n acc (s\<lparr>in_lock := l\<rparr>) of
         (CDone bs, s) \<Rightarrow>
           let s = (if in_buf s ! in_r s = 4 then s\<lparr>in_r := wrap_inc (in_r s)\<rparr> else s)
           in Inr (CDone bs, s\<lparr>in_lock := release_spinlock (in_lock s)\<rparr>)
       | r \<Rightarrow> Inr r)"

section \<open>The interrupt handler\<close>

text \<open>The loop for control-U; the index can move at most once around the ring.\<close>

fun kill_line :: "nat \<Rightarrow> input \<Rightarrow> input" where
  "kill_line 0 s = s"
| "kill_line (Suc n) s =
     (if in_e s \<noteq> in_w s \<and> in_buf s ! wrap_dec (in_e s) \<noteq> 10
      then kill_line n (console_put_char None (s\<lparr>in_e := wrap_dec (in_e s)\<rparr>))
      else s)"

definition post_all_readers :: "input \<Rightarrow> input res" where
  "post_all_readers s =
     (case post_all_sem (in_read s) of
        None \<Rightarrow> Inl Spin
      | Some r \<Rightarrow> rbind r (\<lambda>(n, woken, sem). Inr (s\<lparr>in_read := sem\<rparr>)))"

definition intr_char :: "u8 \<Rightarrow> bool \<Rightarrow> input \<Rightarrow> (bool \<times> input) res" where
  "intr_char c is_empty s =
     (if c = 21 then Inr (is_empty, kill_line INPUT_BUF s)
      else if c = 127
      then Inr (is_empty,
             if in_e s \<noteq> in_w s then console_put_char None (s\<lparr>in_e := wrap_dec (in_e s)\<rparr>) else s)
      else if c \<noteq> 0 \<and> (in_e s \<noteq> in_r s \<or> is_empty)
      then
        let c = (if c = 13 then 10 else c);
            s = s\<lparr>in_buf := (in_buf s)[in_e s := c]\<rparr>;
            s = s\<lparr>in_e := wrap_inc (in_e s)\<rparr>;
            s = console_put_char (Some c) s
        in if c = 10 \<or> c = 4 \<or> in_e s = in_w s
           then rbind (post_all_readers (s\<lparr>in_w := in_e s\<rparr>)) (\<lambda>s. Inr (False, s))
           else Inr (False, s)
      else Inr (is_empty, s))"

fun intr_loop :: "u8 list \<Rightarrow> bool \<Rightarrow> input \<Rightarrow> input res" where
  "intr_loop [] is_empty s = Inr s"
| "intr_loop (c # cs) is_empty s =
     (if c = 0 \<or> c = 255 then Inr s
      else rbind (intr_char c is_empty s) (\<lambda>(is_empty, s). intr_loop cs is_empty s))"

definition console_intr :: "u8 list \<Rightarrow> input \<Rightarrow> input res" where
  "console_intr cs s =
     rbind (acquire_spinlock (in_lock s)) (\<lambda>l.
       rbind (intr_loop cs True (s\<lparr>in_lock := l\<rparr>)) (\<lambda>s.
         Inr (s\<lparr>in_lock := release_spinlock (in_lock s)\<rparr>)))"

section \<open>The ring as two lists\<close>

text \<open>
  \<^verbatim>\<open>pending\<close> are the characters that a reader may take, \<^verbatim>\<open>editing\<close> those of the line that is still
  being typed.
\<close>

definition ring_dist :: "nat \<Rightarrow> nat \<Rightarrow> nat" where
  "ring_dist i j = (j + INPUT_BUF - i) mod INPUT_BUF"

definition segment :: "u8 list \<Rightarrow> nat \<Rightarrow> nat \<Rightarrow> u8 list" where
  "segment b i n = map (\<lambda>k. b ! ((i + k) mod INPUT_BUF)) [0..<n]"

definition pending :: "input \<Rightarrow> u8 list" where
  "pending s = segment (in_buf s) (in_r s) (ring_dist (in_r s) (in_w s))"

definition editing :: "input \<Rightarrow> u8 list" where
  "editing s = segment (in_buf s) (in_w s) (ring_dist (in_w s) (in_e s))"

definition in_inv :: "input \<Rightarrow> bool" where
  "in_inv s \<longleftrightarrow> length (in_buf s) = INPUT_BUF \<and> in_r s < INPUT_BUF \<and> in_w s < INPUT_BUF \<and>
     in_e s < INPUT_BUF \<and> length (pending s) + length (editing s) < INPUT_BUF \<and>
     sem_inv (in_read s) \<and> sval (in_read s) \<le> 0 \<and> 10 \<notin> set (editing s)"

lemma length_segment [simp]: "length (segment b i n) = n"
  by (simp add: segment_def)

lemma INPUT_BUF_pos [simp]: "0 < INPUT_BUF"
  by (simp add: INPUT_BUF_def)

text \<open>Arithmetic on the ring without division.\<close>

lemma ring_dist_if:
  "i < INPUT_BUF \<Longrightarrow> j < INPUT_BUF \<Longrightarrow> ring_dist i j = (if i \<le> j then j - i else j + INPUT_BUF - i)"
proof (cases "i \<le> j")
  case True
  assume "j < INPUT_BUF"
  moreover have "j + INPUT_BUF - i = j - i + INPUT_BUF" using True by simp
  ultimately show ?thesis
    using True unfolding ring_dist_def by (metis less_imp_diff_less mod_add_self2 mod_less)
qed (simp add: ring_dist_def)

lemma ring_add_if:
  "i < INPUT_BUF \<Longrightarrow> n < INPUT_BUF \<Longrightarrow>
   (i + n) mod INPUT_BUF = (if i + n < INPUT_BUF then i + n else i + n - INPUT_BUF)"
  using mod_if [of "i + n" INPUT_BUF] by auto

lemma ring_dist_less: "ring_dist i j < INPUT_BUF"
  by (simp add: ring_dist_def)

lemma ring_dist_self [simp]: "i < INPUT_BUF \<Longrightarrow> ring_dist i i = 0"
  by (simp add: ring_dist_def)

lemma ring_dist_0: "i < INPUT_BUF \<Longrightarrow> j < INPUT_BUF \<Longrightarrow> ring_dist i j = 0 \<longleftrightarrow> i = j"
  by (auto simp: ring_dist_if)

text \<open>The index at distance \<^verbatim>\<open>n\<close>.\<close>

lemma ring_dist_add: "i < INPUT_BUF \<Longrightarrow> n < INPUT_BUF \<Longrightarrow> ring_dist i ((i + n) mod INPUT_BUF) = n"
  by (auto simp: ring_add_if ring_dist_if)

lemma ring_dist_inv: "i < INPUT_BUF \<Longrightarrow> j < INPUT_BUF \<Longrightarrow> (i + ring_dist i j) mod INPUT_BUF = j"
  by (simp add: ring_add_if ring_dist_less) (auto simp: ring_dist_if)

lemma wrap_inc_add: "wrap_inc ((i + n) mod INPUT_BUF) = (i + Suc n) mod INPUT_BUF"
  by (simp add: wrap_inc_def mod_simps)

lemma wrap_dec_inc: "x < INPUT_BUF \<Longrightarrow> wrap_dec (wrap_inc x) = x"
  by (cases "Suc x = INPUT_BUF") (simp_all add: wrap_dec_def wrap_inc_def)

lemma wrap_dec_add: "wrap_dec ((i + Suc n) mod INPUT_BUF) = (i + n) mod INPUT_BUF"
  using wrap_dec_inc [of "(i + n) mod INPUT_BUF"] by (simp add: wrap_inc_add)

lemma segment_snoc: "segment b i (Suc n) = segment b i n @ [b ! ((i + n) mod INPUT_BUF)]"
  by (simp add: segment_def)

lemma segment_append: "segment b i (m + n) = segment b i m @ segment b ((i + m) mod INPUT_BUF) n"
  by (induction n) (simp_all add: segment_snoc segment_def mod_simps add.assoc)

lemma segment_Cons: "i < INPUT_BUF \<Longrightarrow> segment b i (Suc n) = b ! i # segment b (wrap_inc i) n"
  using segment_append [of b i 1 n] by (simp add: wrap_inc_def) (simp add: segment_def)

lemma segment_update:
  assumes "n \<le> m" and "m < INPUT_BUF"
  shows "segment (b[(i + m) mod INPUT_BUF := c]) i n = segment b i n"
proof -
  have "(i + m) mod INPUT_BUF \<noteq> (i + k) mod INPUT_BUF" if "k < n" for k
    using that assms mod_eq_dvd_iff_nat [of "i + k" "i + m" INPUT_BUF] dvd_imp_le [of INPUT_BUF "m - k"]
    by auto
  then show ?thesis by (auto simp: segment_def)
qed

text \<open>A well-formed state, by its read index and the lengths of the two lists.\<close>

definition ring_at :: "input \<Rightarrow> nat \<Rightarrow> nat \<Rightarrow> bool" where
  "ring_at s p q \<longleftrightarrow> length (in_buf s) = INPUT_BUF \<and> in_r s < INPUT_BUF \<and> p + q < INPUT_BUF \<and>
     in_w s = (in_r s + p) mod INPUT_BUF \<and> in_e s = (in_w s + q) mod INPUT_BUF"

lemma ring_atD:
  assumes "ring_at s p q"
  shows "ring_dist (in_r s) (in_w s) = p" and "ring_dist (in_w s) (in_e s) = q"
    and "in_w s < INPUT_BUF" and "in_e s < INPUT_BUF"
    and "pending s = segment (in_buf s) (in_r s) p" and "editing s = segment (in_buf s) (in_w s) q"
proof -
  have w: "in_w s < INPUT_BUF" using assms by (simp add: ring_at_def INPUT_BUF_def)
  have d1: "ring_dist (in_r s) (in_w s) = p"
    using assms ring_dist_add [of "in_r s" p] by (simp add: ring_at_def)
  have d2: "ring_dist (in_w s) (in_e s) = q"
    using assms ring_dist_add [OF w, of q] by (simp add: ring_at_def)
  show "in_e s < INPUT_BUF" using assms by (simp add: ring_at_def INPUT_BUF_def)
  show "pending s = segment (in_buf s) (in_r s) p" by (simp only: pending_def d1)
  show "editing s = segment (in_buf s) (in_w s) q" by (simp only: editing_def d2)
qed (use assms ring_dist_add in \<open>auto simp: ring_at_def INPUT_BUF_def\<close>)

lemma in_inv_ring_at:
  "in_inv s \<longleftrightarrow> ring_at s (length (pending s)) (length (editing s)) \<and>
     sem_inv (in_read s) \<and> sval (in_read s) \<le> 0 \<and> 10 \<notin> set (editing s)"
proof
  assume "in_inv s"
  then show "ring_at s (length (pending s)) (length (editing s)) \<and>
     sem_inv (in_read s) \<and> sval (in_read s) \<le> 0 \<and> 10 \<notin> set (editing s)"
    using ring_dist_inv [of "in_r s" "in_w s"] ring_dist_inv [of "in_w s" "in_e s"]
    by (simp add: in_inv_def ring_at_def pending_def editing_def)
next
  assume "ring_at s (length (pending s)) (length (editing s)) \<and>
     sem_inv (in_read s) \<and> sval (in_read s) \<le> 0 \<and> 10 \<notin> set (editing s)"
  then show "in_inv s"
    using ring_atD(3,4) [of s] by (auto simp: in_inv_def ring_at_def)
qed

section \<open>Line editing\<close>

definition line_edit :: "u8 \<Rightarrow> u8 list \<times> u8 list \<Rightarrow> u8 list \<times> u8 list" where
  "line_edit c = (\<lambda>(pend, ed).
     if c = 21 then (pend, [])
     else if c = 127 then (pend, butlast ed)
     else let c = (if c = 13 then 10 else c)
          in if c = 10 \<or> c = 4 then (pend @ ed @ [c], []) else (pend, ed @ [c]))"

lemma put_char_simps [simp]:
  "in_buf (console_put_char c s) = in_buf s" "in_r (console_put_char c s) = in_r s"
  "in_w (console_put_char c s) = in_w s" "in_e (console_put_char c s) = in_e s"
  "in_read (console_put_char c s) = in_read s" "in_lock (console_put_char c s) = in_lock s"
  by (cases c; simp add: console_put_char_def uart_put_char_def)+

lemma ring_lists_eq:
  assumes "ring_at s p q" and "ring_at t p' q'"
    and "segment (in_buf t) (in_r t) p' = xs" and "segment (in_buf t) (in_w t) q' = ys"
  shows "pending t = xs" and "editing t = ys"
  using ring_atD(5,6) [OF assms(2)] assms(3,4) by simp_all

lemma erase_char:
  assumes "ring_at s p (Suc q)"
  defines "t \<equiv> console_put_char None (s\<lparr>in_e := wrap_dec (in_e s)\<rparr>)"
  shows "ring_at t p q" and "pending t = pending s" and "editing t = butlast (editing s)"
    and "in_buf s ! wrap_dec (in_e s) = last (editing s)"
proof -
  have d: "wrap_dec (in_e s) = (in_w s + q) mod INPUT_BUF"
    using assms(1) wrap_dec_add [of "in_w s" q] by (simp add: ring_at_def)
  show r: "ring_at t p q" using assms(1) d by (simp add: ring_at_def t_def)
  show "pending t = pending s"
    using ring_atD(5) [OF r] ring_atD(5) [OF assms(1)] by (simp add: t_def)
  show "editing t = butlast (editing s)"
    using ring_atD(6) [OF r] ring_atD(6) [OF assms(1)] by (simp add: t_def segment_snoc)
  show "in_buf s ! wrap_dec (in_e s) = last (editing s)"
    using ring_atD(6) [OF assms(1)] d by (simp add: segment_snoc)
qed

lemma store_char:
  fixes c :: u8
  assumes "ring_at s p q" and "p + q + 1 < INPUT_BUF"
  defines "t \<equiv> s\<lparr>in_buf := (in_buf s)[in_e s := c], in_e := wrap_inc (in_e s)\<rparr>"
  shows "ring_at t p (Suc q)" and "pending t = pending s" and "editing t = editing s @ [c]"
    and "in_e t \<noteq> in_w t"
proof -
  have e: "in_e s = (in_w s + q) mod INPUT_BUF" "in_e s = (in_r s + (p + q)) mod INPUT_BUF"
    using assms(1) by (simp_all add: ring_at_def mod_simps add.assoc)
  show r: "ring_at t p (Suc q)"
    using assms(1,2) wrap_inc_add [of "in_w s" q] by (simp add: ring_at_def t_def)
  have "segment ((in_buf s)[in_e s := c]) (in_r s) p = segment (in_buf s) (in_r s) p"
    unfolding e(2) using assms(2) by (intro segment_update) auto
  then show "pending t = pending s"
    using ring_atD(5) [OF r] ring_atD(5) [OF assms(1)] by (simp add: t_def)
  have "segment ((in_buf s)[in_e s := c]) (in_w s) q = segment (in_buf s) (in_w s) q"
    unfolding e(1) using assms(2) by (intro segment_update) auto
  moreover have "(in_buf s)[in_e s := c] ! in_e s = c"
    using ring_atD(4) [OF assms(1)] assms(1) by (simp add: ring_at_def)
  ultimately show "editing t = editing s @ [c]"
    using ring_atD(6) [OF r] ring_atD(6) [OF assms(1)] e(1) by (simp add: t_def segment_snoc)
  show "in_e t \<noteq> in_w t"
    using ring_atD(2,3,4) [OF r] ring_dist_0 [of "in_w t" "in_e t"] by auto
qed

lemma commit_line:
  assumes "ring_at s p q"
  shows "ring_at (s\<lparr>in_w := in_e s\<rparr>) (p + q) 0" and "pending (s\<lparr>in_w := in_e s\<rparr>) = pending s @ editing s"
    and "editing (s\<lparr>in_w := in_e s\<rparr>) = []"
proof -
  show r: "ring_at (s\<lparr>in_w := in_e s\<rparr>) (p + q) 0"
    using assms ring_atD(4) [OF assms] by (simp add: ring_at_def mod_simps add.assoc)
  show "pending (s\<lparr>in_w := in_e s\<rparr>) = pending s @ editing s"
    using ring_atD(5) [OF r] ring_atD(5,6) [OF assms] assms
    by (simp add: segment_append) (simp add: ring_at_def)
  show "editing (s\<lparr>in_w := in_e s\<rparr>) = []"
    using ring_atD(6) [OF r] by (simp add: segment_def)
qed

lemma kill_line_all:
  assumes "ring_at s p q" and "10 \<notin> set (editing s)" and "q \<le> n"
  shows "ring_at (kill_line n s) p 0 \<and> pending (kill_line n s) = pending s \<and> editing (kill_line n s) = [] \<and>
    in_read (kill_line n s) = in_read s \<and> in_lock (kill_line n s) = in_lock s"
  using assms
proof (induction n arbitrary: s q)
  case 0
  then show ?case using ring_atD(6) [OF 0(1)] by (simp add: segment_def)
next
  case (Suc n)
  show ?case
  proof (cases q)
    case 0
    then have "in_e s = in_w s"
      using ring_atD(2-4) [OF Suc.prems(1)] ring_dist_0 [of "in_w s" "in_e s"] by auto
    then show ?thesis using 0 Suc.prems ring_atD(6) [OF Suc.prems(1)] by (simp add: segment_def)
  next
    case (Suc q')
    note r = Suc.prems(1) [unfolded Suc]
    let ?t = "console_put_char None (s\<lparr>in_e := wrap_dec (in_e s)\<rparr>)"
    note E = erase_char [OF r]
    have "in_e s \<noteq> in_w s"
      using ring_atD(2-4) [OF r] ring_dist_0 [of "in_w s" "in_e s"] by auto
    moreover have ne: "editing s \<noteq> []" using ring_atD(6) [OF r] by (simp add: segment_snoc)
    moreover have "in_buf s ! wrap_dec (in_e s) \<noteq> 10"
      using E(4) ne Suc.prems(2) by (metis last_in_set)
    ultimately have "kill_line (Suc n) s = kill_line n ?t" by simp
    moreover have "10 \<notin> set (editing ?t)"
      using E(3) Suc.prems(2) by (auto dest: in_set_butlastD)
    ultimately show ?thesis
      using Suc.IH [OF E(1)] E(2) Suc.prems(3) Suc by simp
  qed
qed

lemma post_all_readers_spec:
  assumes "sem_inv (in_read s)" and "sval (in_read s) \<le> 0"
  shows "\<exists>sem. post_all_readers s = Inr (s\<lparr>in_read := sem\<rparr>) \<and> sem_inv sem \<and> sval sem \<le> 0 \<and> sleeplist sem = []"
  using assms post_all_loop_result [of "in_read s" "length (sleeplist (in_read s)) + 1"]
  by (auto simp: post_all_readers_def post_all_sem_def sem_inv_def)

lemma in_inv_read:
  "in_inv (s\<lparr>in_read := sem\<rparr>) \<longleftrightarrow> ring_at s (length (pending s)) (length (editing s)) \<and>
     sem_inv sem \<and> sval sem \<le> 0 \<and> 10 \<notin> set (editing s)"
  "pending (s\<lparr>in_read := sem\<rparr>) = pending s" "editing (s\<lparr>in_read := sem\<rparr>) = editing s"
proof -
  show *: "pending (s\<lparr>in_read := sem\<rparr>) = pending s" "editing (s\<lparr>in_read := sem\<rparr>) = editing s"
    by (simp_all add: pending_def editing_def)
  show "in_inv (s\<lparr>in_read := sem\<rparr>) \<longleftrightarrow> ring_at s (length (pending s)) (length (editing s)) \<and>
     sem_inv sem \<and> sval sem \<le> 0 \<and> 10 \<notin> set (editing s)"
    unfolding in_inv_ring_at * by (simp add: ring_at_def)
qed

lemma ring_at_lengths: "ring_at s p q \<Longrightarrow> length (pending s) = p \<and> length (editing s) = q"
  using ring_atD(5,6) by simp

lemma intr_char_store:
  assumes inv: "in_inv s" and room: "length (pending s) + length (editing s) + 1 < INPUT_BUF"
    and c: "c \<noteq> 0" "c \<noteq> 21" "c \<noteq> 127"
  shows "\<exists>t. intr_char c True s = Inr (False, t) \<and> in_inv t \<and> in_lock t = in_lock s \<and>
    (pending t, editing t) = line_edit c (pending s, editing s)"
proof -
  let ?c = "if c = 13 then 10 else c"
  let ?t = "s\<lparr>in_buf := (in_buf s)[in_e s := ?c], in_e := wrap_inc (in_e s)\<rparr>"
  let ?u = "console_put_char (Some ?c) ?t"
  have I: "ring_at s (length (pending s)) (length (editing s))" "sem_inv (in_read s)"
    "sval (in_read s) \<le> 0" "10 \<notin> set (editing s)"
    using inv by (simp_all add: in_inv_ring_at)
  note S = store_char [OF I(1) room, of ?c]
  have u: "pending ?u = pending ?t" "editing ?u = editing ?t" "ring_at ?u p q = ring_at ?t p q" for p q
    by (simp_all add: pending_def editing_def ring_at_def)
  show ?thesis
  proof (cases "?c = 10 \<or> ?c = 4")
    case False
    then have "intr_char c True s = Inr (False, ?u)"
      using c S(4) by (auto simp: intr_char_def Let_def split: if_splits)
    moreover have "in_inv ?u"
      using S(1-3) I False unfolding in_inv_ring_at u by auto
    ultimately show ?thesis
      using S(2,3) c False u by (auto simp: line_edit_def Let_def)
  next
    case True
    let ?v = "?u\<lparr>in_w := in_e ?u\<rparr>"
    have r: "ring_at ?u (length (pending s)) (Suc (length (editing s)))" using S(1) u by simp
    note C = commit_line [OF r]
    obtain sem where sem: "post_all_readers ?v = Inr (?v\<lparr>in_read := sem\<rparr>)" "sem_inv sem" "sval sem \<le> 0"
      using post_all_readers_spec [of ?v] I by auto
    have "intr_char c True s = Inr (False, ?v\<lparr>in_read := sem\<rparr>)"
      using c True sem(1) by (auto simp: intr_char_def Let_def split: if_splits)
    moreover have "in_inv (?v\<lparr>in_read := sem\<rparr>)"
      unfolding in_inv_read using C ring_at_lengths [OF C(1)] sem by simp
    moreover have "pending ?v = pending s @ editing s @ [?c]" "editing ?v = []"
      using C(2,3) S(2,3) u by simp_all
    ultimately show ?thesis
      using True c by (auto simp: in_inv_read line_edit_def Let_def)
  qed
qed

lemma intr_char_spec:
  assumes inv: "in_inv s" and room: "length (pending s) + length (editing s) + 1 < INPUT_BUF" and c: "c \<noteq> 0"
  shows "\<exists>e t. intr_char c True s = Inr (e, t) \<and> in_inv t \<and> in_lock t = in_lock s \<and>
    (pending t, editing t) = line_edit c (pending s, editing s)"
proof -
  have I: "ring_at s (length (pending s)) (length (editing s))" "sem_inv (in_read s)"
    "sval (in_read s) \<le> 0" "10 \<notin> set (editing s)"
    using inv by (simp_all add: in_inv_ring_at)
  consider "c = 21" | "c = 127" | "c \<noteq> 21" "c \<noteq> 127" by blast
  then show ?thesis
  proof cases
    case 1
    have "length (editing s) \<le> INPUT_BUF" using room by simp
    note K = kill_line_all [OF I(1,4) this]
    then have "in_inv (kill_line INPUT_BUF s)"
      using I ring_at_lengths [of "kill_line INPUT_BUF s"] unfolding in_inv_ring_at by auto
    then show ?thesis using K 1 by (auto simp: intr_char_def line_edit_def)
  next
    case 2
    show ?thesis
    proof (cases "editing s")
      case Nil
      then have "in_e s = in_w s"
        using I(1) ring_atD(2-4) [OF I(1)] ring_dist_0 [of "in_w s" "in_e s"] by auto
      then show ?thesis using 2 Nil inv by (auto simp: intr_char_def line_edit_def)
    next
      case (Cons x xs)
      then have r: "ring_at s (length (pending s)) (Suc (length xs))" using I(1) by simp
      let ?t = "console_put_char None (s\<lparr>in_e := wrap_dec (in_e s)\<rparr>)"
      note E = erase_char [OF r]
      have "in_e s \<noteq> in_w s"
        using ring_atD(2-4) [OF r] ring_dist_0 [of "in_w s" "in_e s"] by auto
      moreover have "in_inv ?t"
        using E ring_at_lengths [OF E(1)] I unfolding in_inv_ring_at by (auto dest: in_set_butlastD)
      ultimately show ?thesis using 2 E by (auto simp: intr_char_def line_edit_def)
    qed
  next
    case 3
    then show ?thesis using intr_char_store [OF inv room c] by blast
  qed
qed

section \<open>Reading a line\<close>

text \<open>
  What a read of at most \<^verbatim>\<open>n\<close> bytes takes from the pending characters: up to and with a newline,
  up to and without control-D; \<^verbatim>\<open>None\<close> when it has to wait for more.
\<close>

fun take_line :: "nat \<Rightarrow> u8 list \<Rightarrow> (u8 list \<times> u8 list) option" where
  "take_line 0 xs = Some ([], xs)"
| "take_line (Suc n) [] = None"
| "take_line (Suc n) (c # xs) =
     (if c = 4 then Some ([], c # xs)
      else if c = 10 then Some ([c], xs)
      else map_option (\<lambda>(l, r). (c # l, r)) (take_line n xs))"

lemma read_char:
  assumes "ring_at s (Suc p) q"
  shows "ring_at (s\<lparr>in_r := wrap_inc (in_r s)\<rparr>) p q"
    and "pending s = in_buf s ! in_r s # pending (s\<lparr>in_r := wrap_inc (in_r s)\<rparr>)"
    and "editing (s\<lparr>in_r := wrap_inc (in_r s)\<rparr>) = editing s" and "in_r s \<noteq> in_w s"
proof -
  have r: "in_r s < INPUT_BUF" and w: "in_w s = (in_r s + Suc p) mod INPUT_BUF"
    using assms by (auto simp: ring_at_def)
  have "(wrap_inc (in_r s) + p) mod INPUT_BUF = (in_r s + Suc p) mod INPUT_BUF"
    by (simp add: wrap_inc_def mod_simps)
  then show *: "ring_at (s\<lparr>in_r := wrap_inc (in_r s)\<rparr>) p q"
    using assms by (simp add: ring_at_def wrap_inc_def)
  show "pending s = in_buf s ! in_r s # pending (s\<lparr>in_r := wrap_inc (in_r s)\<rparr>)"
    using ring_atD(5) [OF assms] ring_atD(5) [OF *] segment_Cons [OF r] by simp
  show "editing (s\<lparr>in_r := wrap_inc (in_r s)\<rparr>) = editing s"
    by (simp add: editing_def)
  show "in_r s \<noteq> in_w s"
    using ring_atD(1,3) [OF assms] r ring_dist_0 [of "in_r s" "in_w s"] by auto
qed

lemma console_read_loop_spec:
  assumes "ring_at s p q" and "take_line n (pending s) = Some (l, r)"
  shows "\<exists>t. console_read_loop pr n acc s = (CDone (acc @ l), t) \<and> ring_at t (length r) q \<and>
    pending t = r \<and> editing t = editing s \<and> in_read t = in_read s \<and> in_lock t = in_lock s \<and>
    in_w t = in_w s \<and> in_buf t = in_buf s"
  using assms
proof (induction n arbitrary: s p acc l)
  case 0
  then show ?case using ring_at_lengths [OF 0(1)] by auto
next
  case (Suc n)
  obtain p' where p: "p = Suc p'"
    using Suc.prems ring_at_lengths [OF Suc.prems(1)] by (cases p; cases "pending s") auto
  note R = read_char [OF Suc.prems(1) [unfolded p]]
  let ?c = "in_buf s ! in_r s" and ?t = "s\<lparr>in_r := wrap_inc (in_r s)\<rparr>"
  have len: "length (pending ?t) = p'" "length (pending s) = Suc p'"
    using ring_at_lengths [OF R(1)] R(2) by auto
  consider "?c = 4" | "?c = 10" | "?c \<noteq> 4" "?c \<noteq> 10" by blast
  then show ?case
  proof cases
    case 1
    then have "l = []" "r = pending s" using Suc.prems(2) R(2) by auto
    then show ?thesis using 1 R(4) Suc.prems(1) p len by auto
  next
    case 2
    have "take_line (Suc n) (?c # pending ?t) = Some (l, r)" using Suc.prems(2) R(2) by simp
    then have "l = [10]" "r = pending ?t" using 2 by auto
    then show ?thesis using 2 R len by auto
  next
    case 3
    have "take_line (Suc n) (?c # pending ?t) = Some (l, r)" using Suc.prems(2) R(2) by simp
    then obtain l' where l: "take_line n (pending ?t) = Some (l', r)" "l = ?c # l'"
      using 3 by auto
    then show ?thesis
      using Suc.IH [OF R(1) l(1), of "acc @ [?c]"] 3 R(3,4) by (auto simp: Let_def)
  qed
qed

section \<open>Properties\<close>

text \<open>
  C17: the console is a line editor. Starting from a ring that is not full, a character interrupt
  does to the pending characters and to the current line exactly what the line discipline says:
  a character is appended, control-U clears the current line, delete removes its last character,
  and a newline, a carriage return (as a newline) or control-D makes the line available to
  readers. The ring stays well-formed and the lock is released.
\<close>

theorem console_intr_line_edit:
  assumes "in_inv s" and "length (pending s) + length (editing s) + 1 < INPUT_BUF"
    and "\<not> in_lock s" and "c \<noteq> 0" and "c \<noteq> 255"
  shows "\<exists>t. console_intr [c] s = Inr t \<and> in_inv t \<and> \<not> in_lock t \<and>
    (pending t, editing t) = line_edit c (pending s, editing s)"
proof -
  let ?s = "s\<lparr>in_lock := True\<rparr>"
  have same: "pending (u\<lparr>in_lock := b\<rparr>) = pending u" "editing (u\<lparr>in_lock := b\<rparr>) = editing u"
    "in_inv (u\<lparr>in_lock := b\<rparr>) = in_inv u" for u b
    by (simp_all add: pending_def editing_def in_inv_def)
  obtain e t where t: "intr_char c True ?s = Inr (e, t)" "in_inv t"
    "(pending t, editing t) = line_edit c (pending s, editing s)"
    using intr_char_spec [of ?s c] assms by (auto simp: same)
  then have "console_intr [c] s = Inr (t\<lparr>in_lock := False\<rparr>)"
    using assms(3-5) by (simp add: console_intr_def release_spinlock_def)
  then show ?thesis using t by (simp add: same)
qed

text \<open>
  a read returns the next line. When the pending characters have a newline or control-D, or
  are enough, \<^verbatim>\<open>console_read\<close> copies out exactly what the line discipline says, in the order of
  typing, and keeps the rest for the next read; a control-D that ended the read is dropped.
\<close>

theorem console_read_line:
  assumes "in_inv s" and "\<not> in_lock s" and "take_line n (pending s) = Some (l, r)"
    and "r = [] \<Longrightarrow> in_buf s ! in_w s \<noteq> 4"
  shows "\<exists>t. console_read p n [] s = Inr (CDone l, t) \<and> in_inv t \<and> \<not> in_lock t \<and> editing t = editing s \<and>
    pending t = (if r \<noteq> [] \<and> hd r = 4 then tl r else r)"
proof -
  let ?s = "s\<lparr>in_lock := True\<rparr>"
  have same: "pending (u\<lparr>in_lock := b\<rparr>) = pending u" "editing (u\<lparr>in_lock := b\<rparr>) = editing u"
    "ring_at (u\<lparr>in_lock := b\<rparr>) m k = ring_at u m k" for u b m k
    by (simp_all add: pending_def editing_def ring_at_def)
  have I: "ring_at ?s (length (pending s)) (length (editing s))" "sem_inv (in_read s)"
    "sval (in_read s) \<le> 0" "10 \<notin> set (editing s)"
    using assms(1) by (simp_all add: in_inv_ring_at same)
  obtain t where t: "console_read_loop p n [] ?s = (CDone l, t)" "ring_at t (length r) (length (editing s))"
    "pending t = r" "editing t = editing s" "in_read t = in_read s" "in_w t = in_w s" "in_buf t = in_buf s"
    using console_read_loop_spec [OF I(1), of n l r p "[]"] assms(3) by (auto simp: same)
  let ?u = "if in_buf t ! in_r t = 4 then t\<lparr>in_r := wrap_inc (in_r t)\<rparr> else t"
  have res: "console_read p n [] s = Inr (CDone l, ?u\<lparr>in_lock := False\<rparr>)"
    using assms(2) t(1) by (simp add: console_read_def release_spinlock_def Let_def)
  show ?thesis
  proof (cases r)
    case Nil
    then have "in_r t = in_w t"
      using t(2) ring_atD(1,3) [OF t(2)] ring_dist_0 [of "in_r t" "in_w t"] by (auto simp: ring_at_def)
    then have "?u = t" using assms(4) [OF Nil] t(6,7) by simp
    then show ?thesis
      using res t I Nil by (auto simp: same in_inv_ring_at)
  next
    case (Cons c cs)
    then have r: "ring_at t (Suc (length cs)) (length (editing s))" using t(2) by simp
    note R = read_char [OF r]
    then have c: "in_buf t ! in_r t = c" "pending (t\<lparr>in_r := wrap_inc (in_r t)\<rparr>) = cs"
      using t(3) Cons by auto
    have "in_inv (?u\<lparr>in_lock := False\<rparr>)"
      using t I R(1,3) c Cons ring_at_lengths [OF R(1)] by (auto simp: in_inv_ring_at same)
    then show ?thesis
      using res t(3,4) c R(3) Cons by (intro exI [of _ "?u\<lparr>in_lock := False\<rparr>"]) (auto simp: same)
  qed
qed

definition stale_input :: input where
  "stale_input = cons_input_init\<lparr>in_buf := 4 # replicate 126 97 @ [10], in_r := 1\<rparr>"

text \<open>
  the check for control-D at the end of \<^verbatim>\<open>console_read\<close> also looks at a character that is not
  pending. When a read empties the ring and the slot it stops at holds an old control-D, the read
  index moves past the write index: the ring counts as full again, and the next read returns old
  input a second time.
\<close>

theorem console_read_repeats_input:
  "in_inv stale_input \<and> pending stale_input = replicate 126 97 @ [10] \<and>
   (case console_read 0 127 [] stale_input of
      Inr (CDone l, t) \<Rightarrow> l = replicate 126 97 @ [10] \<and> pending t = replicate 126 97 @ [10]
    | _ \<Rightarrow> False)"
  by code_simp

definition typed_input :: input where
  "typed_input = cons_input_init\<lparr>in_buf := [104, 105, 10] @ replicate 125 0, in_w := 3, in_e := 3\<rparr>"

lemma typed_input_ok: "in_inv typed_input" "pending typed_input = [104, 105, 10]" "\<not> in_lock typed_input"
  by code_simp+

theorem console_intr_line_edit_witness:
  "\<exists>t. console_intr [120] typed_input = Inr t \<and> pending t = [104, 105, 10] \<and> editing t = [120]"
proof -
  have "editing typed_input = []" by code_simp
  then show ?thesis
    using console_intr_line_edit [of typed_input 120] typed_input_ok
    by (auto simp: line_edit_def INPUT_BUF_def)
qed

theorem console_read_line_witness:
  "\<exists>t. console_read 0 100 [] typed_input = Inr (CDone [104, 105, 10], t) \<and> pending t = []"
proof -
  have "take_line 100 (pending typed_input) = Some ([104, 105, 10], [])" by code_simp
  moreover have "in_buf typed_input ! in_w typed_input \<noteq> 4" by code_simp
  ultimately show ?thesis
    using console_read_line [OF typed_input_ok(1,3), of 100 "[104, 105, 10]" "[]" 0] by auto
qed

end
