(* ===== verification/Kstring.thy ===== *)
theory Kstring
  imports Kernel_Prelude "HOL-Library.Sublist"
begin

text \<open>
  \<^verbatim>\<open>src/src/common/string.c\<close> and \<^verbatim>\<open>format.c\<close>. Memory is a function from addresses to bytes, so that
  overlapping ranges are what they are in C; a string argument that is only read is the function
  of its bytes. \<^verbatim>\<open>char\<close> is unsigned on this target.
\<close>

type_synonym mem = "nat \<Rightarrow> u8"

section \<open>Memory\<close>

definition memset :: "nat \<Rightarrow> u8 \<Rightarrow> nat \<Rightarrow> mem \<Rightarrow> mem" where
  "memset s c n m = fold (\<lambda>i m. m(s + i := c)) [0..<n] m"

definition memcpy :: "nat \<Rightarrow> nat \<Rightarrow> nat \<Rightarrow> mem \<Rightarrow> mem" where
  "memcpy d s n m = fold (\<lambda>i m. m(d + i := m (s + i))) [0..<n] m"

fun memcmp_from :: "nat \<Rightarrow> mem \<Rightarrow> nat \<Rightarrow> nat \<Rightarrow> nat \<Rightarrow> int" where
  "memcmp_from 0 m s1 s2 i = 0"
| "memcmp_from (Suc n) m s1 s2 i =
     (let c1 = uint (m (s1 + i)); c2 = uint (m (s2 + i))
      in if c1 \<noteq> c2 then c1 - c2 else memcmp_from n m s1 s2 (i + 1))"

definition memcmp :: "nat \<Rightarrow> nat \<Rightarrow> nat \<Rightarrow> mem \<Rightarrow> int" where
  "memcmp s1 s2 n m = memcmp_from n m s1 s2 0"

definition memmove :: "nat \<Rightarrow> nat \<Rightarrow> nat \<Rightarrow> mem \<Rightarrow> mem" where
  "memmove d s n m =
     (if s < d \<and> d - s < n
      then fold (\<lambda>i m. m(d + i := m (s + i))) (rev [0..<n]) m
      else fold (\<lambda>i m. m(d + i := m (s + i))) [0..<n] m)"

section \<open>Strings\<close>

text \<open>The two loops of \<^verbatim>\<open>strncpy\<close> on the bytes of \<^verbatim>\<open>dest\<close>.\<close>

fun copy_str :: "nat \<Rightarrow> nat \<Rightarrow> mem \<Rightarrow> mem \<Rightarrow> nat \<times> mem" where
  "copy_str 0 i src dest = (i, dest)"
| "copy_str (Suc k) i src dest =
     (if src i \<noteq> 0 then copy_str k (i + 1) src (dest(i := src i)) else (i, dest))"

definition strncpy :: "mem \<Rightarrow> mem \<Rightarrow> nat \<Rightarrow> mem" where
  "strncpy dest src n =
     (let (i, dest) = copy_str n 0 src dest in fold (\<lambda>j d. d(j := 0)) [i..<n] dest)"

definition strncpy_fast :: "mem \<Rightarrow> mem \<Rightarrow> nat \<Rightarrow> mem" where
  "strncpy_fast dest src n =
     (let (i, dest) = copy_str n 0 src dest in if i < n then dest(i := 0) else dest)"

fun strncmp_from :: "nat \<Rightarrow> mem \<Rightarrow> mem \<Rightarrow> nat \<Rightarrow> int" where
  "strncmp_from 0 s1 s2 i = 0"
| "strncmp_from (Suc n) s1 s2 i =
     (if s1 i \<noteq> s2 i then uint (s1 i) - uint (s2 i)
      else if s1 i = 0 \<or> s2 i = 0 then 0
      else strncmp_from n s1 s2 (i + 1))"

definition strncmp :: "mem \<Rightarrow> mem \<Rightarrow> nat \<Rightarrow> int" where
  "strncmp s1 s2 n = strncmp_from n s1 s2 0"

partial_function (option) strlen_from :: "mem \<Rightarrow> nat \<Rightarrow> nat option" where
  "strlen_from s i = (if s i \<noteq> 0 then strlen_from s (i + 1) else Some i)"

definition strlen :: "mem \<Rightarrow> nat option" where
  "strlen s = strlen_from s 0"

text \<open>The bytes of a string constant or of a string of known length.\<close>

definition cstr :: "u8 list \<Rightarrow> mem" where
  "cstr xs = (\<lambda>i. if i < length xs then xs ! i else 0)"

section \<open>Formatted output\<close>

definition digit :: "nat \<Rightarrow> u8" where
  "digit d = (if d < 10 then of_nat (48 + d) else of_nat (87 + d))"

text \<open>The digits in the order of the first loop of \<^verbatim>\<open>_print_int\<close>, least significant first.\<close>

function digits :: "nat \<Rightarrow> nat \<Rightarrow> u8 list" where
  "digits base v =
     (if base < 2 \<or> v div base = 0 then [digit (v mod base)]
      else digit (v mod base) # digits base (v div base))"
  by pat_completeness auto
termination
  by (relation "measure snd") (auto intro!: div_less_dividend simp: div_eq_0_iff)

declare digits.simps [simp del]

definition print_int :: "u64 \<Rightarrow> nat \<Rightarrow> bool \<Rightarrow> u8 list" where
  "print_int u base is_signed =
     (let neg = is_signed \<and> sint u < 0;
          v = (if neg then - u else u)
      in (if neg then [45] else []) @ rev (digits base (unat v)))"

text \<open>The variadic arguments: integers at 64 bits, and strings, which may be null.\<close>

datatype farg = FInt u64 | FStr "u8 list option"

text \<open>The conversions of the table: identifier, width of the argument, base, signedness.\<close>

definition int_cases :: "(u8 list \<times> nat \<times> nat \<times> bool) list" where
  "int_cases =
     [([117], 32, 10, False), ([108, 108, 117], 64, 10, False),
      ([100], 32, 10, True), ([108, 108, 100], 64, 10, True),
      ([120], 32, 16, False), ([108, 108, 120], 64, 16, False),
      ([112], 64, 16, False), ([122, 117], 64, 10, False), ([122, 100], 64, 10, True)]"

definition fetch_int :: "nat \<Rightarrow> bool \<Rightarrow> u64 \<Rightarrow> u64" where
  "fetch_int width is_signed u =
     (if width = 32 then (if is_signed then signed_take_bit 31 u else take_bit 32 u) else u)"

function vformat :: "u8 list \<Rightarrow> farg list \<Rightarrow> u8 list res" where
  "vformat [] args = Inr []"
| "vformat (c # pos) args =
     (if c = 37 \<and> pos \<noteq> [] \<and> hd pos = 37
      then rbind (vformat (tl pos) args) (\<lambda>out. Inr (37 # out))
      else if c = 37 \<and> pos \<noteq> [] \<and> hd pos = 99
      then (case args of
              FInt u # args \<Rightarrow> rbind (vformat (tl pos) args) (\<lambda>out. Inr (ucast u # out))
            | _ \<Rightarrow> Inl Fault)
      else if c = 37 \<and> pos \<noteq> [] \<and> hd pos = 115
      then (case args of
              FStr so # args \<Rightarrow>
                rbind (vformat (tl pos) args) (\<lambda>out.
                  Inr ((case so of None \<Rightarrow> [40, 110, 117, 108, 108, 41] | Some xs \<Rightarrow> xs) @ out))
            | _ \<Rightarrow> Inl Fault)
      else (case (if c = 37 then find (\<lambda>(ident, r). prefix ident pos) int_cases else None) of
              Some (ident, width, base, is_signed) \<Rightarrow>
                (case args of
                   FInt u # args \<Rightarrow>
                     rbind (vformat (drop (length ident) pos) args) (\<lambda>out.
                       Inr (print_int (fetch_int width is_signed u) base is_signed @ out))
                 | _ \<Rightarrow> Inl Fault)
            | None \<Rightarrow> rbind (vformat pos args) (\<lambda>out. Inr (c # out))))"
  by pat_completeness auto
termination
  by (relation "measure (length \<circ> fst)") auto

section \<open>Correctness\<close>

lemma memset_spec: "memset s c n m = (\<lambda>a. if s \<le> a \<and> a < s + n then c else m a)"
  unfolding memset_def by (induction n) (auto simp: fun_eq_iff)

text \<open>A copy in some order of the offsets never reads a byte that it has already changed.\<close>

lemma copy_order:
  fixes s d :: nat and m :: mem
  assumes "distinct is" and "\<And>i j xs ys zs. is = xs @ i # ys @ j # zs \<Longrightarrow> s + j \<noteq> d + i"
  shows "fold (\<lambda>i m. m(d + i := m (s + i))) is m =
    (\<lambda>a. if d \<le> a \<and> a - d \<in> set is then m (s + (a - d)) else m a)"
  using assms
proof (induction "is" arbitrary: m)
  case (Cons i "is")
  let ?m = "m(d + i := m (s + i))"
  have ih: "fold (\<lambda>i m. m(d + i := m (s + i))) is ?m =
    (\<lambda>a. if d \<le> a \<and> a - d \<in> set is then ?m (s + (a - d)) else ?m a)"
  proof (rule Cons.IH)
    show "distinct is" using Cons.prems(1) by simp
    fix k j xs ys zs assume "is = xs @ k # ys @ j # zs"
    then show "s + j \<noteq> d + k" using Cons.prems(2) [of "i # xs" k ys j zs] by simp
  qed
  have keep: "s + j \<noteq> d + i" if "j \<in> set is" for j
    using that Cons.prems(2) [of "[]" i _ j] by (metis append_Nil split_list)
  show ?case
  proof
    fix a
    show "fold (\<lambda>i m. m(d + i := m (s + i))) (i # is) m a =
      (if d \<le> a \<and> a - d \<in> set (i # is) then m (s + (a - d)) else m a)"
      using keep [of "a - d"] Cons.prems(1) by (auto simp: ih)
  qed
qed simp

lemma upt_order: "[0..<n] = xs @ i # ys @ j # zs \<Longrightarrow> i < j"
proof -
  assume e: "[0..<n] = xs @ i # ys @ j # zs"
  have "sorted_wrt (<) [0..<n]" by simp
  then show ?thesis unfolding e by (simp add: sorted_wrt_append)
qed

lemma memmove_spec:
  "memmove d s n m = (\<lambda>a. if d \<le> a \<and> a < d + n then m (s + (a - d)) else m a)"
proof (cases "s < d \<and> d - s < n")
  case True
  have "fold (\<lambda>i m. m(d + i := m (s + i))) (rev [0..<n]) m =
    (\<lambda>a. if d \<le> a \<and> a - d \<in> set (rev [0..<n]) then m (s + (a - d)) else m a)"
  proof (rule copy_order)
    fix i j xs ys zs assume "rev [0..<n] = xs @ i # ys @ j # zs"
    then have "[0..<n] = rev zs @ j # rev ys @ i # rev xs"
      by (metis append.assoc append_Cons append_Nil rev.simps(2) rev_append rev_rev_ident)
    then have "j < i" by (rule upt_order)
    then show "s + j \<noteq> d + i" using True by simp
  qed simp
  then show ?thesis using True by (auto simp: memmove_def fun_eq_iff)
next
  case False
  have "fold (\<lambda>i m. m(d + i := m (s + i))) [0..<n] m =
    (\<lambda>a. if d \<le> a \<and> a - d \<in> set [0..<n] then m (s + (a - d)) else m a)"
  proof (rule copy_order)
    fix i j xs ys zs assume e: "[0..<n] = xs @ i # ys @ j # zs"
    have "j \<in> set [0..<n]" unfolding e by simp
    then show "s + j \<noteq> d + i" using False upt_order [OF e] by auto
  qed simp
  then show ?thesis using False by (auto simp: memmove_def fun_eq_iff)
qed

lemma memcpy_spec:
  assumes "s + n \<le> d \<or> d \<le> s"
  shows "memcpy d s n m = (\<lambda>a. if d \<le> a \<and> a < d + n then m (s + (a - d)) else m a)"
proof -
  have "\<not> (s < d \<and> d - s < n)" using assms by auto
  then show ?thesis using memmove_spec [of d s n m] by (simp only: memcpy_def memmove_def if_False)
qed

lemma memcmp_from_0:
  "memcmp_from n m s1 s2 i = 0 \<longleftrightarrow> (\<forall>k<n. m (s1 + i + k) = m (s2 + i + k))"
proof (induction n arbitrary: i)
  case (Suc n)
  show ?case
    using Suc.IH [of "i + 1"] by (auto simp: Let_def less_Suc_eq_0_disj add.assoc dest: unsigned_word_eqI)
qed simp

lemma strncmp_from_0:
  "strncmp_from n s1 s2 i = 0 \<longleftrightarrow>
   (\<forall>k<n. (\<forall>j<k. s1 (i + j) \<noteq> 0) \<longrightarrow> s1 (i + k) = s2 (i + k))"
proof (induction n arbitrary: i)
  case (Suc n)
  show ?case
  proof (cases "s1 i = s2 i \<and> s1 i \<noteq> 0")
    case True
    then have eq: "s1 i = s2 i" "s2 i \<noteq> 0" by auto
    have "(\<forall>k<Suc n. (\<forall>j<k. s1 (i + j) \<noteq> 0) \<longrightarrow> s1 (i + k) = s2 (i + k)) \<longleftrightarrow>
        (\<forall>k<n. (\<forall>j<k. s1 (i + 1 + j) \<noteq> 0) \<longrightarrow> s1 (i + 1 + k) = s2 (i + 1 + k))"
      using eq by (simp add: All_less_Suc2)
    then show ?thesis using Suc.IH [of "i + 1"] eq by simp
  next
    case False
    then show ?thesis
      by (cases "s1 i = s2 i") (auto simp: All_less_Suc2 dest: unsigned_word_eqI)
  qed
qed simp

lemma strlen_from_spec:
  assumes "s (i + k) = 0" and "\<And>j. j < k \<Longrightarrow> s (i + j) \<noteq> 0"
  shows "strlen_from s i = Some (i + k)"
  using assms
proof (induction k arbitrary: i)
  case 0
  then show ?case by (simp add: strlen_from.simps [of s i])
next
  case (Suc k)
  have "s i \<noteq> 0" using Suc.prems(2) [of 0] by simp
  moreover have "strlen_from s (i + 1) = Some (i + 1 + k)"
    using Suc.IH [of "i + 1"] Suc.prems by (metis Suc_less_eq add_Suc_right add_Suc_shift add.commute plus_1_eq_Suc)
  ultimately show ?case by (simp add: strlen_from.simps [of s i])
qed

lemma cstr_strlen: "0 \<notin> set xs \<Longrightarrow> strlen (cstr xs) = Some (length xs)"
proof -
  assume "0 \<notin> set xs"
  then have "strlen_from (cstr xs) 0 = Some (0 + length xs)"
    by (intro strlen_from_spec) (auto simp: cstr_def in_set_conv_nth)
  then show ?thesis by (simp add: strlen_def)
qed

text \<open>Reading back what \<^verbatim>\<open>_print_int\<close> wrote.\<close>

definition digit_val :: "u8 \<Rightarrow> nat" where
  "digit_val c = (if c < 58 then unat c - 48 else unat c - 87)"

definition parse_digits :: "nat \<Rightarrow> u8 list \<Rightarrow> nat" where
  "parse_digits base cs = foldl (\<lambda>n c. n * base + digit_val c) 0 cs"

lemma digit_val_digit:
  assumes "d < 16"
  shows "digit_val (digit d) = d"
proof -
  have "unat (of_nat (48 + d) :: u8) = 48 + d" and "unat (of_nat (87 + d) :: u8) = 87 + d"
    using assms by (simp_all only: unat_of_nat) simp_all
  then show ?thesis
    by (auto simp: digit_val_def digit_def word_less_nat_alt)
qed

lemma parse_digits_rev:
  assumes "2 \<le> base" and "base \<le> 16"
  shows "parse_digits base (rev (digits base v)) = v"
proof (induction v rule: less_induct)
  case (less v)
  have "v mod base < base" using assms by simp
  then have d: "digit_val (digit (v mod base)) = v mod base"
    using assms(2) by (intro digit_val_digit) linarith
  show ?case
  proof (cases "v div base = 0")
    case True
    then show ?thesis
      using d assms by (simp add: digits.simps [of base v] parse_digits_def div_eq_0_iff)
  next
    case False
    then have "v div base < v" using assms by (intro div_less_dividend) (auto intro: Suc_leI gr0I)
    then show ?thesis
      using less [of "v div base"] False d assms
      by (simp add: digits.simps [of base v] parse_digits_def)
  qed
qed

lemma length_digits:
  assumes "2 \<le> base" and "v < base ^ Suc k"
  shows "length (digits base v) \<le> Suc k"
  using assms(2)
proof (induction k arbitrary: v)
  case 0
  then show ?case by (simp add: digits.simps [of base v])
next
  case (Suc k)
  have "v div base < base ^ Suc k"
    using Suc.prems assms(1) by (simp add: div_less_iff_less_mult mult.commute)
  then show ?case
    using Suc.IH [of "v div base"] by (simp add: digits.simps [of base v])
qed

lemma unat_minus_negative:
  fixes u :: u64
  assumes "sint u < 0"
  shows "int (unat (- u)) = - sint u"
proof -
  have "- (2 ^ 63) \<le> sint u" using sint_greater_eq [of u] by simp
  moreover have "- u = word_of_int (- sint u)" by simp
  ultimately have "uint (- u) = - sint u"
    using assms by (simp only: uint_word_of_int) simp
  then show ?thesis by simp
qed

section \<open>Properties\<close>

text \<open>
  C18: \<^verbatim>\<open>memmove\<close> copies correctly for every pair of ranges, also when they overlap: the destination
  holds what the source held before the call and no other byte changes.
\<close>

theorem memmove_overlap_safe:
  "memmove d s n m (d + i) = (if i < n then m (s + i) else m (d + i)) \<and>
   (a < d \<longrightarrow> memmove d s n m a = m a)"
  by (simp add: memmove_spec)

theorem memmove_overlap_safe_witness:
  "memmove 3 1 4 (\<lambda>a. of_nat a) 5 = 3 \<and> memmove 3 1 4 (\<lambda>a. of_nat a) 2 = 2"
  using memmove_overlap_safe [of 3 1 4 "\<lambda>a. of_nat a" 2 2] by simp

text \<open>
  \<^verbatim>\<open>_print_int\<close> prints the number it is given: reading the digits back in the same base gives
  the argument, also for the most negative 64-bit number, and the digits fit into the buffer of 64
  characters.
\<close>

theorem print_int_roundtrip:
  assumes "base = 10 \<or> base = 16"
  shows "if is_signed \<and> sint u < 0
    then \<exists>ds. print_int u base is_signed = 45 # ds \<and> int (parse_digits base ds) = - sint u \<and> length ds \<le> 64
    else parse_digits base (print_int u base is_signed) = unat u \<and>
      length (print_int u base is_signed) \<le> 64"
proof -
  have "unat w < base ^ Suc 63" for w :: u64
  proof -
    have "unat w < 2 ^ 64" using unsigned_less [of w, where 'a = nat] by simp
    also have "(2 :: nat) ^ 64 \<le> base ^ Suc 63" using assms by auto
    finally show ?thesis .
  qed
  then have len: "length (digits base (unat w)) \<le> 64" for w :: u64
    using length_digits [of base "unat w" 63] assms by auto
  have "parse_digits base (rev (digits base v)) = v" for v
    using parse_digits_rev [of base v] assms by auto
  then show ?thesis
    using len unat_minus_negative [of u] by (auto simp: print_int_def Let_def)
qed

theorem print_int_roundtrip_witness:
  "parse_digits 16 (print_int 48879 16 False) = 48879 \<and>
   (\<exists>ds. print_int (- 7) 10 True = 45 # ds \<and> int (parse_digits 10 ds) = 7)"
  using print_int_roundtrip [of 16 False 48879] print_int_roundtrip [of 10 True "- 7"] by auto

text \<open>
  \<^verbatim>\<open>strncmp\<close> returns zero exactly when the strings agree up to their first terminator or up to
  \<^verbatim>\<open>n\<close> bytes.
\<close>

theorem strncmp_zero_iff:
  "strncmp s1 s2 n = 0 \<longleftrightarrow> (\<forall>k<n. (\<forall>j<k. s1 j \<noteq> 0) \<longrightarrow> s1 k = s2 k)"
  using strncmp_from_0 [of n s1 s2 0] by (simp add: strncmp_def)

theorem strncmp_zero_iff_witness:
  "strncmp (cstr [97, 98]) (cstr [97, 98]) 14 = 0 \<and> strncmp (cstr [97]) (cstr [98]) 14 \<noteq> 0"
  using strncmp_zero_iff [of "cstr [97, 98]" "cstr [97, 98]" 14]
    strncmp_zero_iff [of "cstr [97]" "cstr [98]" 14]
  by (auto simp: cstr_def)

end
