(* ===== verification/Inode.thy ===== *)
theory Inode
  imports Cache_Alloc Console Kstring
begin

text \<open>
  \<^verbatim>\<open>src/src/fs/inode.c\<close>: inodes on top of the block cache, their data blocks, directories and path names.
  The state adds to the cache the in-memory inodes, the tree that finds them by number (the
  red-black tree keyed by \<^verbatim>\<open>inode_no\<close>, here the map it implements) and the list of free inode
  numbers. Structures on the disk are read and written at their byte offsets.
\<close>

section \<open>On-disk structures\<close>

definition INODE_NUM_DIRECT :: nat where "INODE_NUM_DIRECT = 12"
definition INODE_NUM_INDIRECT :: nat where "INODE_NUM_INDIRECT = BLOCK_SIZE div 4"
definition INODE_ENTRY_SIZE :: nat where "INODE_ENTRY_SIZE = 64"
definition INODE_PER_BLOCK :: nat where "INODE_PER_BLOCK = BLOCK_SIZE div INODE_ENTRY_SIZE"
definition INODE_MAX_BLOCKS :: nat where "INODE_MAX_BLOCKS = INODE_NUM_DIRECT + INODE_NUM_INDIRECT"
definition INODE_MAX_BYTES :: nat where "INODE_MAX_BYTES = INODE_MAX_BLOCKS * BLOCK_SIZE"
definition FILE_NAME_MAX_LENGTH :: nat where "FILE_NAME_MAX_LENGTH = 14"
definition DIR_ENTRY_SIZE :: nat where "DIR_ENTRY_SIZE = 16"
definition DIR_PER_BLOCK :: nat where "DIR_PER_BLOCK = BLOCK_SIZE div DIR_ENTRY_SIZE"
definition ROOT_INODE_NO :: nat where "ROOT_INODE_NO = 1"

definition INODE_INVALID :: nat where "INODE_INVALID = 0"
definition INODE_DIRECTORY :: nat where "INODE_DIRECTORY = 1"
definition INODE_REGULAR :: nat where "INODE_REGULAR = 2"
definition INODE_DEVICE :: nat where "INODE_DEVICE = 3"

lemmas inode_consts = INODE_NUM_DIRECT_def INODE_NUM_INDIRECT_def INODE_ENTRY_SIZE_def
  INODE_PER_BLOCK_def INODE_MAX_BLOCKS_def INODE_MAX_BYTES_def FILE_NAME_MAX_LENGTH_def
  DIR_ENTRY_SIZE_def DIR_PER_BLOCK_def ROOT_INODE_NO_def INODE_INVALID_def INODE_DIRECTORY_def
  INODE_REGULAR_def INODE_DEVICE_def fs_consts

record InodeEntry =
  i_type :: nat
  i_major :: nat
  i_minor :: nat
  num_links :: nat
  num_bytes :: nat
  i_addrs :: "nat list"
  indirect :: nat

definition entry_bytes :: "InodeEntry \<Rightarrow> u8 list" where
  "entry_bytes e = le_encode 2 (i_type e) @ le_encode 2 (i_major e) @ le_encode 2 (i_minor e) @
     le_encode 2 (num_links e) @ le_encode 4 (num_bytes e) @
     concat (map (le_encode 4) (i_addrs e)) @ le_encode 4 (indirect e)"

definition entry_of :: "nat \<Rightarrow> u8 list \<Rightarrow> InodeEntry" where
  "entry_of off bs = \<lparr>i_type = rd 2 off bs, i_major = rd 2 (off + 2) bs, i_minor = rd 2 (off + 4) bs,
     num_links = rd 2 (off + 6) bs, num_bytes = rd 4 (off + 8) bs,
     i_addrs = map (\<lambda>i. rd 4 (off + 12 + 4 * i) bs) [0..<INODE_NUM_DIRECT],
     indirect = rd 4 (off + 60) bs\<rparr>"

definition put_bytes :: "nat \<Rightarrow> u8 list \<Rightarrow> u8 list \<Rightarrow> u8 list" where
  "put_bytes off xs bs = take off bs @ xs @ drop (off + length xs) bs"

definition entry0 :: InodeEntry where
  "entry0 = \<lparr>i_type = 0, i_major = 0, i_minor = 0, num_links = 0, num_bytes = 0,
     i_addrs = replicate INODE_NUM_DIRECT 0, indirect = 0\<rparr>"

section \<open>The state\<close>

record Inode =
  ilk :: Semaphore
  irc :: RefCount
  inode_no :: nat
  ivalid :: bool
  entry :: InodeEntry

record inst =
  ibc :: bcst
  ino :: "addr \<Rightarrow> Inode"
  itree :: "nat \<Rightarrow> addr option"
  ilock :: SpinLock
  free_inodes :: "nat list"
  flock :: SpinLock
  ifresh :: addr
  iroot :: "addr option"
  icon :: input

definition set_ino :: "addr \<Rightarrow> (Inode \<Rightarrow> Inode) \<Rightarrow> inst \<Rightarrow> inst" where
  "set_ino a f s = s\<lparr>ino := (ino s)(a := f (ino s a))\<rparr>"

definition set_entry :: "addr \<Rightarrow> (InodeEntry \<Rightarrow> InodeEntry) \<Rightarrow> inst \<Rightarrow> inst" where
  "set_entry a f s = set_ino a (\<lambda>i. i\<lparr>entry := f (entry i)\<rparr>) s"

text \<open>The operations of the block cache on the larger state.\<close>

definition b_acquire :: "nat \<Rightarrow> inst \<Rightarrow> (addr \<times> inst) res" where
  "b_acquire b s = rbind (cache_acquire b (ibc s)) (\<lambda>(a, c). Inr (a, s\<lparr>ibc := c\<rparr>))"

definition b_release :: "addr \<Rightarrow> inst \<Rightarrow> inst res" where
  "b_release a s = rbind (cache_release a (ibc s)) (\<lambda>c. Inr (s\<lparr>ibc := c\<rparr>))"

definition b_sync :: "OpContext option \<Rightarrow> addr \<Rightarrow> inst \<Rightarrow> (OpContext option \<times> inst) res" where
  "b_sync ctx a s = rbind (cache_sync ctx a (ibc s)) (\<lambda>(ctx, c). Inr (ctx, s\<lparr>ibc := c\<rparr>))"

definition b_alloc :: "SuperBlock \<Rightarrow> OpContext option \<Rightarrow> inst \<Rightarrow> (nat \<times> OpContext option \<times> inst) res" where
  "b_alloc sb ctx s = rbind (cache_alloc sb ctx (ibc s)) (\<lambda>(b, ctx, c). Inr (b, ctx, s\<lparr>ibc := c\<rparr>))"

definition b_free :: "SuperBlock \<Rightarrow> OpContext option \<Rightarrow> nat \<Rightarrow> inst \<Rightarrow> (OpContext option \<times> inst) res" where
  "b_free sb ctx b s = rbind (cache_free sb ctx b (ibc s)) (\<lambda>(ctx, c). Inr (ctx, s\<lparr>ibc := c\<rparr>))"

definition b_data :: "addr \<Rightarrow> inst \<Rightarrow> u8 list" where
  "b_data a s = blk_data (blk (ibc s) a)"

definition b_put :: "addr \<Rightarrow> u8 list \<Rightarrow> inst \<Rightarrow> inst" where
  "b_put a d s = s\<lparr>ibc := set_data a d (ibc s)\<rparr>"

section \<open>Free inode numbers\<close>

definition push_free_inode :: "nat \<Rightarrow> inst \<Rightarrow> inst res" where
  "push_free_inode n s =
     rbind (acquire_spinlock (flock s)) (\<lambda>l.
       let s = s\<lparr>flock := l, free_inodes := n # free_inodes s\<rparr>
       in Inr (s\<lparr>flock := release_spinlock (flock s)\<rparr>))"

definition pop_free_inode :: "inst \<Rightarrow> (nat option \<times> inst) res" where
  "pop_free_inode s =
     rbind (acquire_spinlock (flock s)) (\<lambda>l.
       let s = s\<lparr>flock := l\<rparr>
       in case free_inodes s of
            [] \<Rightarrow> Inr (None, s\<lparr>flock := release_spinlock (flock s)\<rparr>)
          | n # ns \<Rightarrow> Inr (Some n, s\<lparr>free_inodes := ns, flock := release_spinlock (flock s)\<rparr>))"

definition to_block_no :: "SuperBlock \<Rightarrow> nat \<Rightarrow> nat" where
  "to_block_no sb n = inode_start sb + n div INODE_PER_BLOCK"

definition get_entry :: "nat \<Rightarrow> nat" where
  "get_entry n = INODE_ENTRY_SIZE * (n mod INODE_PER_BLOCK)"

definition get_addrs :: "u8 list \<Rightarrow> nat \<Rightarrow> nat" where
  "get_addrs bs i = rd 4 (4 * i) bs"

definition init_inode :: Inode where
  "init_inode = \<lparr>ilk = init_sem 1, irc = init_rc, inode_no = 0, ivalid = False, entry = entry0\<rparr>"

section \<open>Allocation\<close>

definition free_entry :: "nat \<Rightarrow> u8 list \<Rightarrow> nat option" where
  "free_entry i bs =
     find (\<lambda>j. \<not> (i = 0 \<and> j = 0) \<and> rd 2 (get_entry j) bs = INODE_INVALID) [0..<INODE_PER_BLOCK]"

fun inode_alloc_scan ::
  "SuperBlock \<Rightarrow> OpContext option \<Rightarrow> nat \<Rightarrow> nat list \<Rightarrow> inst \<Rightarrow> (nat \<times> OpContext option \<times> inst) res" where
  "inode_alloc_scan sb ctx ty [] s = Inl Panic"
| "inode_alloc_scan sb ctx ty (i # is) s =
     rbind (b_acquire (inode_start sb + i) s) (\<lambda>(a, s).
       case free_entry i (b_data a s) of
         Some j \<Rightarrow>
           let s = b_put a (put_bytes (get_entry j) (entry_bytes (entry0\<lparr>i_type := ty\<rparr>)) (b_data a s)) s
           in rbind (b_sync ctx a s) (\<lambda>(ctx, s).
             rbind (b_release a s) (\<lambda>s. Inr (i * INODE_PER_BLOCK + j, ctx, s)))
       | None \<Rightarrow> rbind (b_release a s) (\<lambda>s. inode_alloc_scan sb ctx ty is s))"

definition inode_alloc ::
  "SuperBlock \<Rightarrow> OpContext option \<Rightarrow> nat \<Rightarrow> inst \<Rightarrow> (nat \<times> OpContext option \<times> inst) res" where
  "inode_alloc sb ctx ty s =
     (if ty = INODE_INVALID then Inl Panic
      else rbind (pop_free_inode s) (\<lambda>(fr, s).
        case fr of
          Some n \<Rightarrow>
            rbind (b_acquire (to_block_no sb n) s) (\<lambda>(a, s).
              let s = b_put a (wr 2 (get_entry n) ty (b_data a s)) s
              in rbind (b_sync ctx a s) (\<lambda>(ctx, s).
                rbind (b_release a s) (\<lambda>s. Inr (n, ctx, s))))
        | None \<Rightarrow> inode_alloc_scan sb ctx ty [0..<num_inodes sb div INODE_PER_BLOCK + 1] s))"

section \<open>Locking and synchronisation\<close>

definition load_entry :: "SuperBlock \<Rightarrow> addr \<Rightarrow> inst \<Rightarrow> inst res" where
  "load_entry sb i s =
     rbind (b_acquire (to_block_no sb (inode_no (ino s i))) s) (\<lambda>(a, s).
       let s = set_ino i (\<lambda>n. n\<lparr>entry := entry_of (get_entry (inode_no n)) (b_data a s),
                               ivalid := True\<rparr>) s
       in b_release a s)"

definition inode_lock :: "SuperBlock \<Rightarrow> addr \<Rightarrow> inst \<Rightarrow> inst res" where
  "inode_lock sb i s =
     (if \<not> irc (ino s i) > 0 then Inl Panic
      else rbind (wait_sem_now (ilk (ino s i))) (\<lambda>l.
        let s = set_ino i (\<lambda>n. n\<lparr>ilk := l\<rparr>) s
        in if \<not> ivalid (ino s i) then load_entry sb i s else Inr s))"

definition inode_unlock :: "addr \<Rightarrow> inst \<Rightarrow> inst res" where
  "inode_unlock i s =
     (if \<not> irc (ino s i) > 0 then Inl Panic
      else rbind (post_sem (ilk (ino s i))) (\<lambda>(w, l). Inr (set_ino i (\<lambda>n. n\<lparr>ilk := l\<rparr>) s)))"

definition inode_sync ::
  "SuperBlock \<Rightarrow> OpContext option \<Rightarrow> addr \<Rightarrow> bool \<Rightarrow> inst \<Rightarrow> (OpContext option \<times> inst) res" where
  "inode_sync sb ctx i do_write s =
     (let n = ino s i
      in if do_write \<and> \<not> ivalid n then Inl Panic
         else if do_write
         then rbind (b_acquire (to_block_no sb (inode_no n)) s) (\<lambda>(a, s).
                let s = b_put a (put_bytes (get_entry (inode_no n)) (entry_bytes (entry n)) (b_data a s)) s
                in rbind (b_sync ctx a s) (\<lambda>(ctx, s).
                  rbind (b_release a s) (\<lambda>s. Inr (ctx, s))))
         else if \<not> ivalid n then rbind (load_entry sb i s) (\<lambda>s. Inr (ctx, s))
         else Inr (ctx, s))"

definition inode_get :: "SuperBlock \<Rightarrow> nat \<Rightarrow> inst \<Rightarrow> (addr \<times> inst) res" where
  "inode_get sb n s =
     (if \<not> (n > 0) \<or> \<not> (n < num_inodes sb) then Inl Panic
      else rbind (acquire_spinlock (ilock s)) (\<lambda>l.
        let s = s\<lparr>ilock := l\<rparr>
        in case itree s n of
             Some i \<Rightarrow>
               let s = set_ino i (\<lambda>x. x\<lparr>irc := increment_rc (irc x)\<rparr>) s
               in Inr (i, s\<lparr>ilock := release_spinlock (ilock s)\<rparr>)
           | None \<Rightarrow>
               let i = ifresh s;
                   x = init_inode\<lparr>inode_no := n, irc := increment_rc (irc init_inode)\<rparr>;
                   s = s\<lparr>ifresh := i + 1, ino := (ino s)(i := x), itree := (itree s)(n \<mapsto> i)\<rparr>
               in Inr (i, s\<lparr>ilock := release_spinlock (ilock s)\<rparr>)))"

definition init_inodes :: "SuperBlock \<Rightarrow> inst \<Rightarrow> inst res" where
  "init_inodes sb s =
     (let s = s\<lparr>ilock := init_spinlock, flock := init_spinlock\<rparr>
      in if ROOT_INODE_NO < num_inodes sb
         then rbind (inode_get sb ROOT_INODE_NO s) (\<lambda>(i, s). Inr (s\<lparr>iroot := Some i\<rparr>))
         else Inr s)"

section \<open>Clearing and dropping inodes\<close>

text \<open>The loop over the direct blocks stops at the first address that is zero.\<close>

fun clear_direct ::
  "SuperBlock \<Rightarrow> OpContext option \<Rightarrow> addr \<Rightarrow> nat list \<Rightarrow> inst \<Rightarrow> (OpContext option \<times> inst) res" where
  "clear_direct sb ctx i [] s = Inr (ctx, s)"
| "clear_direct sb ctx i (k # ks) s =
     (let b = i_addrs (entry (ino s i)) ! k
      in if b \<noteq> 0
         then rbind (b_free sb ctx b s) (\<lambda>(ctx, s).
                clear_direct sb ctx i ks (set_entry i (\<lambda>e. e\<lparr>i_addrs := (i_addrs e)[k := 0]\<rparr>) s))
         else Inr (ctx, s))"

fun clear_indirect ::
  "SuperBlock \<Rightarrow> OpContext option \<Rightarrow> addr \<Rightarrow> nat list \<Rightarrow> inst \<Rightarrow> (OpContext option \<times> inst) res" where
  "clear_indirect sb ctx a [] s = Inr (ctx, s)"
| "clear_indirect sb ctx a (k # ks) s =
     (let b = get_addrs (b_data a s) k
      in if b \<noteq> 0 then rbind (b_free sb ctx b s) (\<lambda>(ctx, s). clear_indirect sb ctx a ks s)
         else Inr (ctx, s))"

definition inode_clear ::
  "SuperBlock \<Rightarrow> OpContext option \<Rightarrow> addr \<Rightarrow> inst \<Rightarrow> (OpContext option \<times> inst) res" where
  "inode_clear sb ctx i s =
     rbind (clear_direct sb ctx i [0..<INODE_NUM_DIRECT] s) (\<lambda>(ctx, s).
       let ind = indirect (entry (ino s i))
       in rbind
            (if ind \<noteq> 0
             then rbind (b_acquire ind s) (\<lambda>(a, s).
                    rbind (clear_indirect sb ctx a [0..<INODE_NUM_INDIRECT] s) (\<lambda>(ctx, s).
                      rbind (b_release a s) (\<lambda>s.
                        rbind (b_free sb ctx ind s) (\<lambda>(ctx, s).
                          Inr (ctx, set_entry i (\<lambda>e. e\<lparr>indirect := 0\<rparr>) s)))))
             else Inr (ctx, s))
            (\<lambda>(ctx, s).
              let s = set_entry i (\<lambda>e. e\<lparr>num_bytes := 0\<rparr>) s
              in if list_ex (\<lambda>b. b \<noteq> 0) (i_addrs (entry (ino s i))) then Inl Panic
                 else if indirect (entry (ino s i)) \<noteq> 0 then Inl Panic
                 else inode_sync sb ctx i True s))"

definition inode_share :: "addr \<Rightarrow> inst \<Rightarrow> inst" where
  "inode_share i s = set_ino i (\<lambda>x. x\<lparr>irc := increment_rc (irc x)\<rparr>) s"

text \<open>\<^verbatim>\<open>kfree\<close> leaves the bytes of the inode in place; its number is read after that.\<close>

definition inode_put ::
  "SuperBlock \<Rightarrow> OpContext option \<Rightarrow> addr \<Rightarrow> inst \<Rightarrow> (OpContext option \<times> inst) res" where
  "inode_put sb ctx i s =
     rbind (acquire_spinlock (ilock s)) (\<lambda>l.
       let s = s\<lparr>ilock := l\<rparr>
       in if irc (ino s i) = 1
          then
            let s = s\<lparr>ilock := release_spinlock (ilock s)\<rparr>
            in rbind (inode_lock sb i s) (\<lambda>s.
              if num_links (entry (ino s i)) = 0
              then if \<not> ivalid (ino s i) then Inl Panic
                   else if irc (ino s i) \<noteq> 1 then Inl Panic
                   else rbind (inode_clear sb ctx i s) (\<lambda>(ctx, s).
                     let s = set_entry i (\<lambda>e. e\<lparr>i_type := INODE_INVALID\<rparr>) s
                     in rbind (inode_sync sb ctx i True s) (\<lambda>(ctx, s).
                       rbind (acquire_spinlock (ilock s)) (\<lambda>l.
                         let s = s\<lparr>ilock := l, itree := (itree s)(inode_no (ino s i) := None)\<rparr>;
                             s = s\<lparr>ilock := release_spinlock (ilock s)\<rparr>
                         in rbind (inode_unlock i s) (\<lambda>s.
                           rbind (push_free_inode (inode_no (ino s i)) s) (\<lambda>s. Inr (ctx, s))))))
              else rbind (inode_unlock i s) (\<lambda>s.
                Inr (ctx, set_ino i (\<lambda>x. x\<lparr>irc := snd (decrement_rc (irc x))\<rparr>) s)))
          else
            let s = set_ino i (\<lambda>x. x\<lparr>irc := snd (decrement_rc (irc x))\<rparr>) s
            in Inr (ctx, s\<lparr>ilock := release_spinlock (ilock s)\<rparr>))"

section \<open>Data blocks\<close>

fun alloc_direct ::
  "SuperBlock \<Rightarrow> OpContext option \<Rightarrow> addr \<Rightarrow> nat list \<Rightarrow> inst \<Rightarrow> (OpContext option \<times> inst) res" where
  "alloc_direct sb ctx i [] s = Inr (ctx, s)"
| "alloc_direct sb ctx i (k # ks) s =
     rbind (b_alloc sb ctx s) (\<lambda>(b, ctx, s).
       alloc_direct sb ctx i ks (set_entry i (\<lambda>e. e\<lparr>i_addrs := (i_addrs e)[k := b]\<rparr>) s))"

fun alloc_indirect ::
  "SuperBlock \<Rightarrow> OpContext option \<Rightarrow> addr \<Rightarrow> nat list \<Rightarrow> inst \<Rightarrow> (OpContext option \<times> inst) res" where
  "alloc_indirect sb ctx a [] s = Inr (ctx, s)"
| "alloc_indirect sb ctx a (k # ks) s =
     rbind (b_alloc sb ctx s) (\<lambda>(b, ctx, s).
       alloc_indirect sb ctx a ks (b_put a (wr 4 (4 * k) b (b_data a s)) s))"

text \<open>Fill the indirect block of the inode at the positions \<^verbatim>\<open>ks\<close>; the last one is the result.\<close>

definition map_indirect ::
  "SuperBlock \<Rightarrow> OpContext option \<Rightarrow> addr \<Rightarrow> nat list \<Rightarrow> nat \<Rightarrow> inst \<Rightarrow> (nat \<times> OpContext option \<times> inst) res"
where
  "map_indirect sb ctx i ks pos s =
     rbind (b_acquire (indirect (entry (ino s i))) s) (\<lambda>(a, s).
       rbind (alloc_indirect sb ctx a ks s) (\<lambda>(ctx, s).
         let block_no = get_addrs (b_data a s) pos
         in rbind (b_sync ctx a s) (\<lambda>(ctx, s).
           rbind (b_release a s) (\<lambda>s. Inr (block_no, ctx, s)))))"

definition inode_block_count :: "InodeEntry \<Rightarrow> nat" where
  "inode_block_count e =
     (let n = (if num_bytes e = 0 then 0 else (num_bytes e - 1) div BLOCK_SIZE + 1)
      in if i_addrs e ! 0 \<noteq> 0 \<and> n = 0 then 1 else n)"

definition inode_map ::
  "SuperBlock \<Rightarrow> OpContext option \<Rightarrow> addr \<Rightarrow> nat \<Rightarrow> inst \<Rightarrow> (nat \<times> OpContext option \<times> inst) res" where
  "inode_map sb ctx i offset s =
     (let need = offset div BLOCK_SIZE + 1;
          have_count = inode_block_count (entry (ino s i))
      in if need > INODE_NUM_DIRECT + INODE_NUM_INDIRECT then Inl Panic
         else if need \<le> have_count
         then if need \<le> INODE_NUM_DIRECT
              then Inr (i_addrs (entry (ino s i)) ! (need - 1), ctx, s)
              else rbind (b_acquire (indirect (entry (ino s i))) s) (\<lambda>(a, s).
                     let result = get_addrs (b_data a s) (need - INODE_NUM_DIRECT - 1)
                     in rbind (b_release a s) (\<lambda>s. Inr (result, ctx, s)))
         else if ctx = None then Inr (0, ctx, s)
         else rbind
           (if need \<le> INODE_NUM_DIRECT
            then rbind (alloc_direct sb ctx i [have_count..<need] s) (\<lambda>(ctx, s).
                   Inr (i_addrs (entry (ino s i)) ! (need - 1), ctx, s))
            else if have_count \<le> INODE_NUM_DIRECT
            then rbind (alloc_direct sb ctx i [have_count..<INODE_NUM_DIRECT] s) (\<lambda>(ctx, s).
                   rbind
                     (if indirect (entry (ino s i)) = 0
                      then rbind (b_alloc sb ctx s) (\<lambda>(b, ctx, s).
                             Inr (ctx, set_entry i (\<lambda>e. e\<lparr>indirect := b\<rparr>) s))
                      else Inr (ctx, s))
                     (\<lambda>(ctx, s).
                       map_indirect sb ctx i [0..<need - INODE_NUM_DIRECT]
                         (need - INODE_NUM_DIRECT - 1) s))
            else map_indirect sb ctx i [have_count - INODE_NUM_DIRECT..<need - INODE_NUM_DIRECT]
                   (need - INODE_NUM_DIRECT - 1) s)
           (\<lambda>(block_no, ctx, s).
             rbind (inode_sync sb ctx i True s) (\<lambda>(ctx, s). Inr (block_no, ctx, s))))"

definition BLOCK_BASE :: "nat \<Rightarrow> nat" where
  "BLOCK_BASE a = a div BLOCK_SIZE * BLOCK_SIZE"

text \<open>The bytes of the block at \<^verbatim>\<open>i\<close> that the loops of \<^verbatim>\<open>inode_read\<close> and \<^verbatim>\<open>inode_write\<close> touch.\<close>

definition chunk :: "nat \<Rightarrow> nat \<Rightarrow> nat" where
  "chunk i end = (if BLOCK_BASE i = BLOCK_BASE end then end - i else BLOCK_SIZE - i mod BLOCK_SIZE)"

lemma next_block_greater: "i < BLOCK_BASE (i + BLOCK_SIZE)"
  using dividend_less_div_times [of BLOCK_SIZE i] by (simp add: BLOCK_BASE_def BLOCK_SIZE_def)

function read_loop :: "SuperBlock \<Rightarrow> addr \<Rightarrow> nat \<Rightarrow> nat \<Rightarrow> inst \<Rightarrow> (u8 list \<times> inst) res" where
  "read_loop sb n i end s =
     (if i < end
      then rbind (inode_map sb None n i s) (\<lambda>(b, ctx, s).
             rbind (b_acquire b s) (\<lambda>(a, s).
               let bs = take (chunk i end) (drop (i mod BLOCK_SIZE) (b_data a s))
               in rbind (b_release a s) (\<lambda>s.
                 rbind (read_loop sb n (BLOCK_BASE (i + BLOCK_SIZE)) end s) (\<lambda>(rest, s).
                   Inr (bs @ rest, s)))))
      else Inr ([], s))"
  by pat_completeness auto
termination
  by (relation "measure (\<lambda>(sb, n, i, end, s). end - i)") (auto intro: diff_less_mono2 next_block_greater)

declare read_loop.simps [simp del]

text \<open>A read of a device waits for input as \<^verbatim>\<open>console_read\<close> does; \<^verbatim>\<open>p\<close> is the running process.\<close>

definition inode_read ::
  "SuperBlock \<Rightarrow> nat \<Rightarrow> addr \<Rightarrow> nat \<Rightarrow> nat \<Rightarrow> inst \<Rightarrow> (u8 list \<times> inst) res" where
  "inode_read sb p i offset count s =
     (let e = entry (ino s i)
      in if i_type e = INODE_DEVICE
         then rbind (console_read p count [] (icon s)) (\<lambda>(r, c).
                case r of CDone bs \<Rightarrow> Inr (bs, s\<lparr>icon := c\<rparr>) | _ \<Rightarrow> Inl Sleep)
         else if offset > num_bytes e then Inl Panic
         else
           let count = (if count + offset > num_bytes e then num_bytes e - offset else count);
               end = offset + count
           in if \<not> ivalid (ino s i) then Inl Panic
              else read_loop sb i offset end s)"

function write_loop ::
  "SuperBlock \<Rightarrow> OpContext option \<Rightarrow> addr \<Rightarrow> u8 list \<Rightarrow> nat \<Rightarrow> nat \<Rightarrow> inst \<Rightarrow> (OpContext option \<times> inst) res"
where
  "write_loop sb ctx n src i end s =
     (if i < end
      then rbind (inode_map sb ctx n i s) (\<lambda>(b, ctx, s).
             rbind (b_acquire b s) (\<lambda>(a, s).
               let s = b_put a (put_bytes (i mod BLOCK_SIZE) (take (chunk i end) src) (b_data a s)) s
               in rbind (b_sync ctx a s) (\<lambda>(ctx, s).
                 rbind (b_release a s) (\<lambda>s.
                   write_loop sb ctx n (drop (chunk i end) src) (BLOCK_BASE (i + BLOCK_SIZE)) end s))))
      else if src = [] then Inr (ctx, s) else Inl Panic)"
  by pat_completeness auto
termination
  by (relation "measure (\<lambda>(sb, ctx, n, src, i, end, s). end - i)")
    (auto intro: diff_less_mono2 next_block_greater)

declare write_loop.simps [simp del]

definition inode_write ::
  "SuperBlock \<Rightarrow> OpContext option \<Rightarrow> addr \<Rightarrow> u8 list \<Rightarrow> nat \<Rightarrow> inst \<Rightarrow> (nat \<times> OpContext option \<times> inst) res"
where
  "inode_write sb ctx i src offset s =
     (let e = entry (ino s i); count = length src; end = offset + count
      in if i_type e = INODE_DEVICE
         then rbind (console_write src (icon s)) (\<lambda>(n, c). Inr (n, ctx, s\<lparr>icon := c\<rparr>))
         else if \<not> (offset \<le> num_bytes e) then Inl Panic
         else if \<not> (end \<le> INODE_MAX_BYTES) then Inl Panic
         else rbind (write_loop sb ctx i src offset end s) (\<lambda>(ctx, s).
           let s = (if end > num_bytes (entry (ino s i)) then set_entry i (\<lambda>e. e\<lparr>num_bytes := end\<rparr>) s else s)
           in rbind (inode_sync sb ctx i True s) (\<lambda>(ctx, s). Inr (count, ctx, s))))"

section \<open>Directories\<close>

definition dirent_no :: "u8 list \<Rightarrow> nat" where
  "dirent_no bs = rd 2 0 bs"

definition dirent_name :: "u8 list \<Rightarrow> mem" where
  "dirent_name bs = (\<lambda>k. if 2 + k < length bs then bs ! (2 + k) else 0)"

text \<open>
  The loop of \<^verbatim>\<open>inode_lookup\<close> over the byte offsets of the entries. An entry that is cut off by the
  end of the file would be compared with bytes that were never written.
\<close>

fun lookup_loop :: "SuperBlock \<Rightarrow> nat \<Rightarrow> addr \<Rightarrow> mem \<Rightarrow> nat list \<Rightarrow> inst \<Rightarrow> (nat \<times> nat option \<times> inst) res" where
  "lookup_loop sb p i name [] s = Inr (0, None, s)"
| "lookup_loop sb p i name (offset # os) s =
     rbind (inode_read sb p i offset DIR_ENTRY_SIZE s) (\<lambda>(bs, s).
       if length bs < DIR_ENTRY_SIZE then Inl Fault
       else if dirent_no bs = 0 then lookup_loop sb p i name os s
       else if strncmp name (dirent_name bs) FILE_NAME_MAX_LENGTH \<noteq> 0 then lookup_loop sb p i name os s
       else Inr (dirent_no bs, Some offset, s))"

definition entry_offsets :: "nat \<Rightarrow> nat list" where
  "entry_offsets n = map (\<lambda>k. k * DIR_ENTRY_SIZE) [0..<(n + DIR_ENTRY_SIZE - 1) div DIR_ENTRY_SIZE]"

text \<open>The inode number (0 when there is none) and the offset stored in \<^verbatim>\<open>*index\<close>.\<close>

definition inode_lookup ::
  "SuperBlock \<Rightarrow> nat \<Rightarrow> addr \<Rightarrow> u8 list \<Rightarrow> inst \<Rightarrow> (nat \<times> nat option \<times> inst) res" where
  "inode_lookup sb p i name s =
     (if i_type (entry (ino s i)) \<noteq> INODE_DIRECTORY then Inl Panic
      else lookup_loop sb p i (cstr name) (entry_offsets (num_bytes (entry (ino s i)))) s)"

text \<open>The new entry on the stack: a name that does not fit with its terminator overruns it.\<close>

definition dirent_bytes :: "u8 list \<Rightarrow> nat \<Rightarrow> u8 list" where
  "dirent_bytes name n = le_encode 2 n @ name @ replicate (FILE_NAME_MAX_LENGTH - length name) 0"

definition inode_insert ::
  "SuperBlock \<Rightarrow> nat \<Rightarrow> OpContext option \<Rightarrow> addr \<Rightarrow> u8 list \<Rightarrow> nat \<Rightarrow> inst \<Rightarrow>
    (nat option \<times> OpContext option \<times> inst) res" where
  "inode_insert sb p ctx i name n s =
     (if i_type (entry (ino s i)) \<noteq> INODE_DIRECTORY then Inl Panic
      else if \<not> ivalid (ino s i) then Inl Panic
      else rbind (inode_lookup sb p i name s) (\<lambda>(found, index, s).
        if found \<noteq> 0 then Inr (None, ctx, s)
        else if length name + 1 > FILE_NAME_MAX_LENGTH then Inl Fault
        else rbind (inode_write sb ctx i (dirent_bytes name n) (num_bytes (entry (ino s i))) s)
          (\<lambda>(cnt, ctx, s). Inr (Some (num_bytes (entry (ino s i)) div DIR_ENTRY_SIZE + 1), ctx, s))))"

definition search_and_set_empty ::
  "SuperBlock \<Rightarrow> OpContext option \<Rightarrow> addr \<Rightarrow> nat \<Rightarrow> inst \<Rightarrow> (nat \<times> OpContext option \<times> inst) res" where
  "search_and_set_empty sb ctx i index s =
     (if \<not> ivalid (ino s i) then Inl Panic
      else if i_type (entry (ino s i)) \<noteq> INODE_DIRECTORY then Inl Panic
      else
        let block_pos = index div DIR_PER_BLOCK; off = DIR_ENTRY_SIZE * (index mod DIR_PER_BLOCK)
        in rbind
             (if block_pos < INODE_NUM_DIRECT
              then rbind (aget (i_addrs (entry (ino s i))) block_pos) (\<lambda>b. Inr (b, s))
              else if block_pos - INODE_NUM_DIRECT \<ge> INODE_NUM_INDIRECT then Inl Fault
              else rbind (b_acquire (indirect (entry (ino s i))) s) (\<lambda>(a, s).
                     let b = get_addrs (b_data a s) (block_pos - INODE_NUM_DIRECT)
                     in rbind (b_release a s) (\<lambda>s. Inr (b, s))))
             (\<lambda>(b, s).
               rbind (b_acquire b s) (\<lambda>(a, s).
                 let n = rd 2 off (b_data a s)
                 in if n = 0 then rbind (b_release a s) (\<lambda>s. Inr (0, ctx, s))
                    else
                      let s = b_put a (wr 2 off 0 (b_data a s)) s
                      in rbind (b_sync ctx a s) (\<lambda>(ctx, s).
                        rbind (b_release a s) (\<lambda>s. Inr (n, ctx, s))))))"

definition inode_remove ::
  "SuperBlock \<Rightarrow> OpContext option \<Rightarrow> addr \<Rightarrow> nat \<Rightarrow> inst \<Rightarrow> (OpContext option \<times> inst) res" where
  "inode_remove sb ctx i index s =
     (if i_type (entry (ino s i)) \<noteq> INODE_DIRECTORY then Inl Panic
      else if \<not> ivalid (ino s i) then Inl Panic
      else rbind (search_and_set_empty sb ctx i index s) (\<lambda>(n, ctx, s). Inr (ctx, s)))"

section \<open>Path names\<close>

definition SLASH :: u8 where "SLASH = 47"

text \<open>\<^verbatim>\<open>skipelem\<close>: the rest of the path, \<^verbatim>\<open>None\<close> for the null pointer, and the buffer \<^verbatim>\<open>name\<close>.\<close>

definition skipelem :: "u8 list \<Rightarrow> u8 list \<Rightarrow> u8 list option \<times> u8 list" where
  "skipelem path name =
     (let path = dropWhile (\<lambda>c. c = SLASH) path
      in if path = [] then (None, name)
         else
           let elem = takeWhile (\<lambda>c. c \<noteq> SLASH) path;
               rest = dropWhile (\<lambda>c. c \<noteq> SLASH) path;
               name = (if length elem \<ge> FILE_NAME_MAX_LENGTH
                       then put_bytes 0 (take FILE_NAME_MAX_LENGTH elem) name
                       else put_bytes 0 (elem @ [0]) name)
           in (Some (dropWhile (\<lambda>c. c = SLASH) rest), name))"

text \<open>The string a buffer holds; one without terminator is read to its end.\<close>

definition str_of :: "u8 list \<Rightarrow> u8 list" where
  "str_of bs = takeWhile (\<lambda>c. c \<noteq> 0) bs"

fun namex_loop ::
  "SuperBlock \<Rightarrow> nat \<Rightarrow> OpContext option \<Rightarrow> nat \<Rightarrow> addr \<Rightarrow> u8 list option \<Rightarrow> u8 list \<Rightarrow> inst \<Rightarrow>
    (addr option \<times> u8 list option \<times> OpContext option \<times> inst) res" where
  "namex_loop sb p ctx 0 result rest cur s = Inr (Some result, rest, ctx, s)"
| "namex_loop sb p ctx (Suc n) result rest cur s =
     (case rest of
        None \<Rightarrow> Inl Fault
      | Some path \<Rightarrow>
          let (rest, cur) = skipelem path cur
          in rbind (inode_lock sb result s) (\<lambda>s.
            rbind (inode_lookup sb p result (str_of cur) s) (\<lambda>(no, index, s).
              rbind (inode_unlock result s) (\<lambda>s.
                rbind (inode_put sb ctx result s) (\<lambda>(ctx, s).
                  if no = 0 then Inr (None, rest, ctx, s)
                  else rbind (inode_get sb no s) (\<lambda>(i, s). namex_loop sb p ctx n i rest cur s))))))"

definition slash_rounds :: "u8 list \<Rightarrow> bool \<Rightarrow> nat" where
  "slash_rounds path parent =
     (let n = int (length (filter (\<lambda>c. c = SLASH) path));
          n = (if parent then n - 1 else n);
          n = (if path \<noteq> [] \<and> hd path = SLASH then n else n + 1)
      in nat n)"

definition namex ::
  "SuperBlock \<Rightarrow> nat \<Rightarrow> addr option \<Rightarrow> u8 list \<Rightarrow> bool \<Rightarrow> OpContext option \<Rightarrow> inst \<Rightarrow>
    (addr option \<times> u8 list \<times> OpContext option \<times> inst) res" where
  "namex sb p cwd path parent ctx s =
     (if path = [SLASH] \<and> parent then Inr (None, [], ctx, s)
      else rbind
        (if path \<noteq> [] \<and> hd path = SLASH then inode_get sb ROOT_INODE_NO s
         else case cwd of None \<Rightarrow> Inl Panic | Some i \<Rightarrow> Inr (i, inode_share i s))
        (\<lambda>(i, s).
          rbind (namex_loop sb p ctx (slash_rounds path parent) i (Some path)
                   (replicate FILE_NAME_MAX_LENGTH 0) s) (\<lambda>(result, rest, ctx, s).
            case result of
              None \<Rightarrow> Inr (None, [], ctx, s)
            | Some r \<Rightarrow>
                (case rest of
                   None \<Rightarrow> Inl Fault
                 | Some rest \<Rightarrow>
                     if length rest + 1 > FILE_NAME_MAX_LENGTH then Inl Fault
                     else Inr (Some r, rest, ctx, s)))))"

definition namei ::
  "SuperBlock \<Rightarrow> nat \<Rightarrow> addr option \<Rightarrow> u8 list \<Rightarrow> OpContext option \<Rightarrow> inst \<Rightarrow>
    (addr option \<times> OpContext option \<times> inst) res" where
  "namei sb p cwd path ctx s =
     rbind (namex sb p cwd path False ctx s) (\<lambda>(i, name, ctx, s). Inr (i, ctx, s))"

definition nameiparent ::
  "SuperBlock \<Rightarrow> nat \<Rightarrow> addr option \<Rightarrow> u8 list \<Rightarrow> OpContext option \<Rightarrow> inst \<Rightarrow>
    (addr option \<times> u8 list \<times> OpContext option \<times> inst) res" where
  "nameiparent sb p cwd path ctx s = namex sb p cwd path True ctx s"

record kstat =
  st_dev :: nat
  st_ino :: nat
  st_nlink :: nat
  st_size :: nat
  st_mode :: nat

definition S_IFREG :: nat where "S_IFREG = 32768"
definition S_IFDIR :: nat where "S_IFDIR = 16384"

definition stati :: "Inode \<Rightarrow> kstat res" where
  "stati ip =
     (let st = \<lparr>st_dev = 1, st_ino = inode_no ip, st_nlink = num_links (entry ip),
                st_size = num_bytes (entry ip), st_mode = 0\<rparr>;
          t = i_type (entry ip)
      in if t = INODE_REGULAR then Inr (st\<lparr>st_mode := S_IFREG\<rparr>)
         else if t = INODE_DIRECTORY then Inr (st\<lparr>st_mode := S_IFDIR\<rparr>)
         else if t = INODE_DEVICE then Inr st
         else Inl Panic)"

end
