(* ===== verification/Inode_Data.thy ===== *)
theory Inode_Data
  imports Inode
begin

text \<open>
  What the inode operations of \<^verbatim>\<open>src/src/fs/inode.c\<close> do to the contents of files: the byte layout of
  inodes, the file as the list of its bytes, and reading and writing as operations on this list.
\<close>

section \<open>Byte layout\<close>

lemma length_put_bytes [simp]: "off + length xs \<le> length bs \<Longrightarrow> length (put_bytes off xs bs) = length bs"
  by (simp add: put_bytes_def)

lemma nth_put_bytes:
  assumes "off + length xs \<le> length bs" and "k < length bs"
  shows "put_bytes off xs bs ! k = (if off \<le> k \<and> k < off + length xs then xs ! (k - off) else bs ! k)"
  using assms by (auto simp: put_bytes_def nth_append min_def)

lemma take_drop_put_bytes_same:
  assumes "off + length xs \<le> length bs" and "k + n \<le> length xs"
  shows "take n (drop (off + k) (put_bytes off xs bs)) = take n (drop k xs)"
  by (rule nth_equalityI) (use assms in \<open>auto simp: nth_put_bytes\<close>)

lemma rd_put_bytes_same:
  assumes "off + length xs \<le> length bs" and "k + n \<le> length xs"
  shows "rd n (off + k) (put_bytes off xs bs) = rd n k xs"
  using take_drop_put_bytes_same [OF assms] by (simp add: rd_def)

lemma rd_put_bytes_other:
  assumes "off + length xs \<le> length bs" and "k + n \<le> off \<or> off + length xs \<le> k" and "k + n \<le> length bs"
  shows "rd n k (put_bytes off xs bs) = rd n k bs"
proof -
  have "take n (drop k (put_bytes off xs bs)) = take n (drop k bs)"
    by (rule nth_equalityI) (use assms in \<open>auto simp: nth_put_bytes\<close>)
  then show ?thesis by (simp add: rd_def)
qed

definition entry_ok :: "InodeEntry \<Rightarrow> bool" where
  "entry_ok e \<longleftrightarrow> i_type e < 2 ^ 16 \<and> i_major e < 2 ^ 16 \<and> i_minor e < 2 ^ 16 \<and> num_links e < 2 ^ 16 \<and>
     num_bytes e < 2 ^ 32 \<and> length (i_addrs e) = INODE_NUM_DIRECT \<and>
     (\<forall>b\<in>set (i_addrs e). b < 2 ^ 32) \<and> indirect e < 2 ^ 32"

lemma length_concat_le4: "length (concat (map (le_encode 4) ns)) = 4 * length ns"
  by (induction ns) auto

lemma length_entry_bytes: "length (i_addrs e) = INODE_NUM_DIRECT \<Longrightarrow> length (entry_bytes e) = INODE_ENTRY_SIZE"
  by (simp add: entry_bytes_def length_concat_le4 inode_consts)

lemma rd_append_right: "length xs \<le> off \<Longrightarrow> rd k off (xs @ ys) = rd k (off - length xs) ys"
  by (simp add: rd_def)

lemma rd_le_encode: "rd k 0 (le_encode k n @ ys) = n mod 256 ^ k"
  by (simp add: rd_def)

lemma rd_concat_le4:
  "i < length ns \<Longrightarrow> rd 4 (4 * i) (concat (map (le_encode 4) ns) @ ys) = ns ! i mod 256 ^ 4"
proof (induction ns arbitrary: i)
  case (Cons n ns)
  show ?case
  proof (cases i)
    case 0
    then show ?thesis by (simp add: rd_def)
  next
    case (Suc j)
    then have "rd 4 (4 * i) (concat (map (le_encode 4) (n # ns)) @ ys) =
        rd 4 (4 * j) (concat (map (le_encode 4) ns) @ ys)"
      by (simp add: rd_append_right)
    then show ?thesis using Cons Suc by simp
  qed
qed simp

text \<open>An inode comes back from its bytes.\<close>

lemma entry_of_bytes:
  assumes "entry_ok e"
  shows "entry_of 0 (entry_bytes e) = e"
proof -
  have l: "length (i_addrs e) = 12" using assms by (simp add: entry_ok_def inode_consts)
  have b: "b < 2 ^ 32" if "b \<in> set (i_addrs e)" for b using assms that by (simp add: entry_ok_def)
  have "map (\<lambda>i. rd 4 (12 + 4 * i) (entry_bytes e)) [0..<12] = i_addrs e"
  proof (rule nth_equalityI)
    fix i assume "i < length (map (\<lambda>i. rd 4 (12 + 4 * i) (entry_bytes e)) [0..<12])"
    then have i: "i < 12" by simp
    have "rd 4 (12 + 4 * i) (entry_bytes e) = i_addrs e ! i mod 256 ^ 4"
      using rd_concat_le4 [of i "i_addrs e"] i l by (simp add: entry_bytes_def rd_append_right)
    then show "map (\<lambda>i. rd 4 (12 + 4 * i) (entry_bytes e)) [0..<12] ! i = i_addrs e ! i"
      using i l b [of "i_addrs e ! i"] by simp
  qed (simp add: l)
  moreover have "rd 4 60 (entry_bytes e) = indirect e"
    using assms l by (simp add: entry_bytes_def rd_append_right length_concat_le4 rd_def entry_ok_def)
  ultimately show ?thesis
    using assms by (simp add: entry_of_def entry_ok_def inode_consts)
      (simp add: entry_bytes_def rd_append_right rd_le_encode)
qed

lemma entry_of_put_same:
  assumes "entry_ok e" and "off + INODE_ENTRY_SIZE \<le> length bs"
  shows "entry_of off (put_bytes off (entry_bytes e) bs) = e"
proof -
  have l: "length (entry_bytes e) = 64"
    using assms(1) length_entry_bytes by (simp add: entry_ok_def inode_consts)
  have r: "rd n (off + k) (put_bytes off (entry_bytes e) bs) = rd n k (entry_bytes e)" if "k + n \<le> 64" for n k
    using rd_put_bytes_same [of off "entry_bytes e" bs k n] that l assms(2) by (simp add: inode_consts)
  have "entry_of off (put_bytes off (entry_bytes e) bs) = entry_of 0 (entry_bytes e)"
    using r [of 0 2] r [of 2 2] r [of 4 2] r [of 6 2] r [of 8 4] r [of 60 4] r [of "12 + _" 4]
    by (simp add: entry_of_def inode_consts add.assoc del: add_2_eq_Suc')
  then show ?thesis using entry_of_bytes [OF assms(1)] by simp
qed

lemma entry_of_put_other:
  assumes "length xs = 64" and "off + 64 \<le> length bs" and "off' + 64 \<le> length bs"
    and "off' + 64 \<le> off \<or> off + 64 \<le> off'"
  shows "entry_of off' (put_bytes off xs bs) = entry_of off' bs"
proof -
  have r: "rd n (off' + k) (put_bytes off xs bs) = rd n (off' + k) bs" if "k + n \<le> 64" for n k
    using rd_put_bytes_other [of off xs bs "off' + k" n] assms that by auto
  show ?thesis
    using r [of 0 2] r [of 2 2] r [of 4 2] r [of 6 2] r [of 8 4] r [of 60 4] r [of "12 + _" 4]
    by (simp add: entry_of_def inode_consts add.assoc del: add_2_eq_Suc')
qed

section \<open>The file\<close>

definition fblock :: "(nat \<Rightarrow> u8 list) \<Rightarrow> InodeEntry \<Rightarrow> nat \<Rightarrow> nat" where
  "fblock v e k = (if k < INODE_NUM_DIRECT then i_addrs e ! k
     else get_addrs (v (indirect e)) (k - INODE_NUM_DIRECT))"

definition fbyte :: "(nat \<Rightarrow> u8 list) \<Rightarrow> InodeEntry \<Rightarrow> nat \<Rightarrow> u8" where
  "fbyte v e k = v (fblock v e (k div BLOCK_SIZE)) ! (k mod BLOCK_SIZE)"

definition file_bytes :: "(nat \<Rightarrow> u8 list) \<Rightarrow> InodeEntry \<Rightarrow> u8 list" where
  "file_bytes v e = map (fbyte v e) [0..<num_bytes e]"

text \<open>The blocks a file of this size uses.\<close>

definition nblocks :: "nat \<Rightarrow> nat" where
  "nblocks n = (if n = 0 then 0 else (n - 1) div BLOCK_SIZE + 1)"

definition file_blocks :: "(nat \<Rightarrow> u8 list) \<Rightarrow> InodeEntry \<Rightarrow> nat \<Rightarrow> nat set" where
  "file_blocks v e n = fblock v e ` {..<n} \<union> (if n > INODE_NUM_DIRECT then {indirect e} else {})"

definition quiet :: "inst \<Rightarrow> inst \<Rightarrow> bool" where
  "quiet s t \<longleftrightarrow> t = s\<lparr>ibc := ibc t\<rparr> \<and> bc_inv (ibc t) \<and> view (ibc t) = view (ibc s) \<and>
     bc.same_held (ibc s) (ibc t)"

lemma quiet_refl: "bc_inv (ibc s) \<Longrightarrow> quiet s s"
  by (simp add: quiet_def bc.same_held_refl)

lemma quiet_trans: "quiet s t \<Longrightarrow> quiet t u \<Longrightarrow> quiet s u"
  unfolding quiet_def using bc.same_held_trans by (metis (no_types, lifting) inst.ext_inject inst.surjective inst.update_convs(1))

lemma quietD:
  assumes "quiet s t"
  shows "ino t = ino s" and "bc_inv (ibc t)" and "view (ibc t) = view (ibc s)" and "icon t = icon s"
    and "bc.unheld (ibc t) b = bc.unheld (ibc s) b"
proof -
  have e: "t = s\<lparr>ibc := ibc t\<rparr>" using assms by (simp add: quiet_def)
  show "ino t = ino s" by (subst e) simp
  show "icon t = icon s" by (subst e) simp
  show "bc.unheld (ibc t) b = bc.unheld (ibc s) b"
    using assms bc.same_held_unheld by (simp add: quiet_def)
qed (use assms in \<open>simp_all add: quiet_def\<close>)

lemma b_read:
  assumes "bc_inv (ibc s)" and "bc.unheld (ibc s) b"
  shows "\<exists>a t u. b_acquire b s = Inr (a, t) \<and> b_data a t = view (ibc s) b \<and> b_release a t = Inr u \<and>
    quiet s u \<and> t = s\<lparr>ibc := ibc t\<rparr>"
proof -
  obtain a c d where r: "cache_acquire b (ibc s) = Inr (a, c)" "blk_data (blk c a) = view (ibc s) b"
    "cache_release a c = Inr d" "bc_inv d" "view d = view (ibc s)" "bc.same_held (ibc s) d"
    using read_bracket [OF assms] by blast
  let ?t = "s\<lparr>ibc := c\<rparr>" and ?u = "s\<lparr>ibc := d\<rparr>"
  have "b_acquire b s = Inr (a, ?t)" "b_data a ?t = view (ibc s) b" "b_release a ?t = Inr ?u"
    using r by (simp_all add: b_acquire_def b_data_def b_release_def)
  moreover have "quiet s ?u" using r by (simp add: quiet_def)
  ultimately show ?thesis by (metis inst.select_convs(1) inst.surjective inst.update_convs(1))
qed

section \<open>Reading\<close>

lemma inode_block_count_ge: "nblocks (num_bytes e) \<le> inode_block_count e"
  by (simp add: inode_block_count_def nblocks_def Let_def)

lemma block_in_file: "k < n \<Longrightarrow> k div BLOCK_SIZE < nblocks n"
  by (simp add: nblocks_def div_le_mono less_Suc_eq_le)

lemma inode_map_present:
  assumes inv: "bc_inv (ibc s)" and k: "off div BLOCK_SIZE < inode_block_count (entry (ino s i))"
    "off div BLOCK_SIZE < INODE_MAX_BLOCKS"
    and un: "off div BLOCK_SIZE \<ge> INODE_NUM_DIRECT \<Longrightarrow> bc.unheld (ibc s) (indirect (entry (ino s i)))"
  shows "\<exists>t. inode_map sb ctx i off s = Inr (fblock (view (ibc s)) (entry (ino s i)) (off div BLOCK_SIZE), ctx, t) \<and>
    quiet s t"
proof (cases "off div BLOCK_SIZE < INODE_NUM_DIRECT")
  case True
  then show ?thesis
    using k quiet_refl [OF inv] by (simp add: inode_map_def fblock_def Let_def INODE_MAX_BLOCKS_def)
next
  case False
  then obtain a t u where u: "b_acquire (indirect (entry (ino s i))) s = Inr (a, t)"
    "b_data a t = view (ibc s) (indirect (entry (ino s i)))" "b_release a t = Inr u" "quiet s u"
    using b_read [OF inv] un by (metis not_le)
  then have "inode_map sb ctx i off s =
      Inr (fblock (view (ibc s)) (entry (ino s i)) (off div BLOCK_SIZE), ctx, u)"
    using k False by (simp add: inode_map_def fblock_def Let_def INODE_MAX_BLOCKS_def Suc_le_eq)
  then show ?thesis using u(4) by blast
qed

lemma BLOCK_SIZE_pos [simp]: "0 < BLOCK_SIZE" "BLOCK_SIZE \<noteq> 0"
  by (simp_all add: BLOCK_SIZE_def)

lemma div_next_block [simp]: "(i + BLOCK_SIZE) div BLOCK_SIZE = Suc (i div BLOCK_SIZE)"
  by (simp add: div_add_self2)

lemma BLOCK_BASE_next: "BLOCK_BASE (i + BLOCK_SIZE) = i + (BLOCK_SIZE - i mod BLOCK_SIZE)"
proof -
  have "i mod BLOCK_SIZE < BLOCK_SIZE" by simp
  moreover have "i div BLOCK_SIZE * BLOCK_SIZE + i mod BLOCK_SIZE = i" by simp
  ultimately show ?thesis unfolding BLOCK_BASE_def div_next_block mult_Suc by linarith
qed

text \<open>The part of \<^verbatim>\<open>i..end\<close> in the block of \<^verbatim>\<open>i\<close>.\<close>

lemma chunk_eq:
  assumes "i < end"
  shows "chunk i end = min end (BLOCK_BASE (i + BLOCK_SIZE)) - i"
proof (cases "BLOCK_BASE i = BLOCK_BASE end")
  case True
  then have "i div BLOCK_SIZE = end div BLOCK_SIZE" by (simp add: BLOCK_BASE_def)
  then have "end < BLOCK_BASE (i + BLOCK_SIZE)"
    using dividend_less_div_times [of BLOCK_SIZE "end"] by (simp add: BLOCK_BASE_def)
  then show ?thesis using True assms by (simp add: chunk_def)
next
  case False
  then have "i div BLOCK_SIZE \<noteq> end div BLOCK_SIZE" by (auto simp: BLOCK_BASE_def)
  then have "Suc (i div BLOCK_SIZE) \<le> end div BLOCK_SIZE"
    using assms div_le_mono [of i "end" BLOCK_SIZE] by simp
  then have "Suc (i div BLOCK_SIZE) * BLOCK_SIZE \<le> end div BLOCK_SIZE * BLOCK_SIZE"
    by (rule mult_le_mono1)
  also have "\<dots> \<le> end" by simp
  finally have "BLOCK_BASE (i + BLOCK_SIZE) \<le> end" by (simp add: BLOCK_BASE_def)
  then show ?thesis
    using False BLOCK_BASE_next [of i] by (simp add: chunk_def)
qed

lemma chunk_bounds:
  assumes "i < end"
  shows "0 < chunk i end" and "i mod BLOCK_SIZE + chunk i end \<le> BLOCK_SIZE" and "i + chunk i end \<le> end"
    and "BLOCK_BASE (i + BLOCK_SIZE) < end \<Longrightarrow> i + chunk i end = BLOCK_BASE (i + BLOCK_SIZE)"
    and "\<not> BLOCK_BASE (i + BLOCK_SIZE) < end \<Longrightarrow> i + chunk i end = end"
proof -
  define r where "r = BLOCK_SIZE - i mod BLOCK_SIZE"
  have r: "0 < r" "i mod BLOCK_SIZE + r = BLOCK_SIZE" by (simp_all add: r_def)
  have n: "BLOCK_BASE (i + BLOCK_SIZE) = i + r" by (simp only: BLOCK_BASE_next r_def)
  have c: "chunk i end = min end (i + r) - i" using chunk_eq [OF assms] n by simp
  show "0 < chunk i end" and "i + chunk i end \<le> end" and "i mod BLOCK_SIZE + chunk i end \<le> BLOCK_SIZE"
    using assms r unfolding c by linarith+
  show "BLOCK_BASE (i + BLOCK_SIZE) < end \<Longrightarrow> i + chunk i end = BLOCK_BASE (i + BLOCK_SIZE)"
    and "\<not> BLOCK_BASE (i + BLOCK_SIZE) < end \<Longrightarrow> i + chunk i end = end"
    using assms r unfolding c n by linarith+
qed

lemma div_mod_add_chunk:
  assumes "i mod BLOCK_SIZE + k < BLOCK_SIZE"
  shows "(i + k) div BLOCK_SIZE = i div BLOCK_SIZE" and "(i + k) mod BLOCK_SIZE = i mod BLOCK_SIZE + k"
proof -
  have "k < BLOCK_SIZE" using assms by simp
  then show "(i + k) div BLOCK_SIZE = i div BLOCK_SIZE"
    using assms div_add1_eq [of i k BLOCK_SIZE] by simp
  show "(i + k) mod BLOCK_SIZE = i mod BLOCK_SIZE + k"
    using assms by (metis mod_add_left_eq mod_less)
qed

lemma block_slice:
  assumes "i < end" and "end \<le> num_bytes e" and "length (v (fblock v e (i div BLOCK_SIZE))) = BLOCK_SIZE"
  shows "take (chunk i end) (drop (i mod BLOCK_SIZE) (v (fblock v e (i div BLOCK_SIZE)))) =
    take (chunk i end) (drop i (file_bytes v e))"
proof (rule nth_equalityI)
  note C = chunk_bounds [OF assms(1)]
  show "length (take (chunk i end) (drop (i mod BLOCK_SIZE) (v (fblock v e (i div BLOCK_SIZE))))) =
      length (take (chunk i end) (drop i (file_bytes v e)))"
    using C(2,3) assms by (auto simp: file_bytes_def)
  fix k assume "k < length (take (chunk i end) (drop (i mod BLOCK_SIZE) (v (fblock v e (i div BLOCK_SIZE)))))"
  then have k: "k < chunk i end" "i mod BLOCK_SIZE + k < BLOCK_SIZE" "i + k < num_bytes e"
    using C(2,3) assms by auto
  show "take (chunk i end) (drop (i mod BLOCK_SIZE) (v (fblock v e (i div BLOCK_SIZE)))) ! k =
      take (chunk i end) (drop i (file_bytes v e)) ! k"
    using k assms div_mod_add_chunk [OF k(2)] by (simp add: file_bytes_def fbyte_def)
qed

definition readable :: "inst \<Rightarrow> addr \<Rightarrow> bool" where
  "readable s i \<longleftrightarrow> bc_inv (ibc s) \<and> num_bytes (entry (ino s i)) \<le> INODE_MAX_BYTES \<and>
     (\<forall>b \<in> file_blocks (view (ibc s)) (entry (ino s i)) (nblocks (num_bytes (entry (ino s i)))).
        bc.unheld (ibc s) b)"

lemma readable_quiet: "quiet s t \<Longrightarrow> readable s i \<Longrightarrow> readable t i"
  using quietD [of s t] by (simp add: readable_def)

lemma nblocks_max: "n \<le> INODE_MAX_BYTES \<Longrightarrow> nblocks n \<le> INODE_MAX_BLOCKS"
  by (auto simp: nblocks_def inode_consts)

lemma read_loop_spec:
  assumes "readable s n" and "end \<le> num_bytes (entry (ino s n))" and "i \<le> end"
  shows "\<exists>t. read_loop sb n i end s =
      Inr (take (end - i) (drop i (file_bytes (view (ibc s)) (entry (ino s n)))), t) \<and> quiet s t"
  using assms
proof (induction "end - i" arbitrary: i s rule: less_induct)
  case less
  let ?e = "entry (ino s n)" and ?v = "view (ibc s)"
  have inv: "bc_inv (ibc s)" using less.prems(1) by (simp add: readable_def)
  show ?case
  proof (cases "i < end")
    case False
    then show ?thesis using less.prems quiet_refl [OF inv] by (simp add: read_loop.simps)
  next
    case True
    let ?k = "i div BLOCK_SIZE" and ?j = "BLOCK_BASE (i + BLOCK_SIZE)"
    have k: "?k < nblocks (num_bytes ?e)" using True less.prems(2) by (intro block_in_file) simp
    have km: "?k < INODE_MAX_BLOCKS"
      using k nblocks_max [of "num_bytes ?e"] less.prems(1) by (simp add: readable_def)
    have un: "bc.unheld (ibc s) (fblock ?v ?e ?k)"
      "?k \<ge> INODE_NUM_DIRECT \<Longrightarrow> bc.unheld (ibc s) (indirect ?e)"
      using less.prems(1) k by (auto simp: readable_def file_blocks_def)
    obtain t where t: "inode_map sb None n i s = Inr (fblock ?v ?e ?k, None, t)" "quiet s t"
      using inode_map_present [OF inv _ km un(2)] k inode_block_count_ge [of ?e] by fastforce
    obtain a u w where w: "b_acquire (fblock ?v ?e ?k) t = Inr (a, u)" "b_data a u = ?v (fblock ?v ?e ?k)"
      "b_release a u = Inr w" "quiet t w"
      using b_read [of t "fblock ?v ?e ?k"] quietD [OF t(2)] un(1) by auto
    have sw: "quiet s w" by (rule quiet_trans [OF t(2) w(4)])
    let ?bs = "take (chunk i end) (drop (i mod BLOCK_SIZE) (?v (fblock ?v ?e ?k)))"
    note C = chunk_bounds [OF True]
    have slice: "?bs = take (chunk i end) (drop i (file_bytes ?v ?e))"
      using block_slice [OF True less.prems(2)] bc.view_length [OF inv] by simp
    show ?thesis
    proof (cases "?j < end")
      case False
      have "read_loop sb n ?j end w = Inr ([], w)" using False by (simp add: read_loop.simps)
      moreover have "chunk i end = end - i" using C(5) [OF False] by simp
      ultimately have "read_loop sb n i end s = Inr (take (end - i) (drop i (file_bytes ?v ?e)), w)"
        using True t(1) w(1-3) slice by (subst read_loop.simps) (simp add: Let_def)
      then show ?thesis using sw by blast
    next
      case j: True
      have "end - ?j < end - i" using next_block_greater [of i] j by simp
      then obtain x where x: "read_loop sb n ?j end w =
          Inr (take (end - ?j) (drop ?j (file_bytes ?v ?e)), x)" "quiet w x"
        using less.hyps [of ?j w] readable_quiet [OF sw less.prems(1)] quietD(1,3) [OF sw] less.prems(2) j
        by auto
      have "end - i = chunk i end + (end - ?j)" and "chunk i end + i = ?j"
        using C(4) [OF j] j by linarith+
      then have "take (end - i) (drop i (file_bytes ?v ?e)) =
          take (chunk i end) (drop i (file_bytes ?v ?e)) @ take (end - ?j) (drop ?j (file_bytes ?v ?e))"
        using take_add [of "chunk i end" "end - ?j" "drop i (file_bytes ?v ?e)"]
        by (simp only: drop_drop)
      then have "read_loop sb n i end s = Inr (take (end - i) (drop i (file_bytes ?v ?e)), x)"
        using True t(1) w(1-3) x(1) slice by (subst read_loop.simps) (simp add: Let_def)
      then show ?thesis using quiet_trans [OF sw x(2)] by blast
    qed
  qed
qed

lemma inode_read_spec:
  assumes "readable s i" and "ivalid (ino s i)" and "i_type (entry (ino s i)) \<noteq> INODE_DEVICE"
    and "offset \<le> num_bytes (entry (ino s i))"
  shows "\<exists>t. inode_read sb p i offset count s =
      Inr (take count (drop offset (file_bytes (view (ibc s)) (entry (ino s i)))), t) \<and> quiet s t"
proof -
  let ?n = "num_bytes (entry (ino s i))" and ?f = "file_bytes (view (ibc s)) (entry (ino s i))"
  let ?c = "if count + offset > ?n then ?n - offset else count"
  have le: "offset + ?c \<le> ?n" using assms(4) by simp
  obtain t where t: "read_loop sb i offset (offset + ?c) s = Inr (take ?c (drop offset ?f), t)" "quiet s t"
    using read_loop_spec [OF assms(1) le, of offset sb] by auto
  moreover have "take ?c (drop offset ?f) = take count (drop offset ?f)"
    using assms(4) by (simp add: file_bytes_def)
  ultimately show ?thesis
    using assms(2-4) by (auto simp: inode_read_def Let_def)
qed

section \<open>Writing\<close>

definition wrote :: "inst \<Rightarrow> inst \<Rightarrow> (nat \<Rightarrow> u8 list) \<Rightarrow> bool" where
  "wrote s t v \<longleftrightarrow> t = s\<lparr>ibc := ibc t\<rparr> \<and> bc_inv (ibc t) \<and> view (ibc t) = v \<and> bc.same_held (ibc s) (ibc t)"

lemma quiet_wrote: "quiet s t = wrote s t (view (ibc s))"
  by (auto simp: quiet_def wrote_def)

lemma wroteD:
  assumes "wrote s t v"
  shows "ino t = ino s" and "bc_inv (ibc t)" and "view (ibc t) = v" and "icon t = icon s"
    and "bc.unheld (ibc t) b = bc.unheld (ibc s) b"
proof -
  have e: "t = s\<lparr>ibc := ibc t\<rparr>" using assms by (simp add: wrote_def)
  show "ino t = ino s" by (subst e) simp
  show "icon t = icon s" by (subst e) simp
  show "bc.unheld (ibc t) b = bc.unheld (ibc s) b"
    using assms bc.same_held_unheld by (simp add: wrote_def)
qed (use assms in \<open>simp_all add: wrote_def\<close>)

lemma wrote_trans:
  assumes "wrote s t v" and "wrote t u w"
  shows "wrote s u w"
proof -
  have t: "t = s\<lparr>ibc := ibc t\<rparr>" and u: "u = t\<lparr>ibc := ibc u\<rparr>"
    using assms by (simp_all add: wrote_def)
  have "u = s\<lparr>ibc := ibc u\<rparr>" by (subst u, subst t) simp
  then show ?thesis
    using assms bc.same_held_trans [of "ibc s" "ibc t" "ibc u"] by (auto simp: wrote_def)
qed

lemma b_write:
  assumes "bc_inv (ibc s)" and "bc.unheld (ibc s) b" and "ctx_ok ctx" and "0 < budget ctx"
    and "length d = BLOCK_SIZE"
  shows "\<exists>a t ctx' u w. b_acquire b s = Inr (a, t) \<and> b_data a t = view (ibc s) b \<and>
    b_sync (Some ctx) a (b_put a d t) = Inr (Some ctx', u) \<and> b_release a u = Inr w \<and>
    ctx_ok ctx' \<and> budget ctx \<le> budget ctx' + 1 \<and> wrote s w ((view (ibc s))(b := d))"
proof -
  obtain a c ctx' x y where r: "cache_acquire b (ibc s) = Inr (a, c)" "blk_data (blk c a) = view (ibc s) b"
    "cache_sync (Some ctx) a (set_data a d c) = Inr (Some ctx', x)" "cache_release a x = Inr y"
    "ctx_ok ctx'" "budget ctx \<le> budget ctx' + 1" "bc_inv y" "view y = (view (ibc s))(b := d)"
    "bc.same_held (ibc s) y"
    using write_bracket [OF assms(1-3), of "\<lambda>_. d"] assms(4,5) unfolding set_data_def [symmetric] by blast
  let ?t = "s\<lparr>ibc := c\<rparr>" and ?u = "s\<lparr>ibc := x\<rparr>" and ?w = "s\<lparr>ibc := y\<rparr>"
  have "b_acquire b s = Inr (a, ?t)" "b_data a ?t = view (ibc s) b"
    "b_sync (Some ctx) a (b_put a d ?t) = Inr (Some ctx', ?u)" "b_release a ?u = Inr ?w"
    using r by (simp_all add: b_acquire_def b_data_def b_sync_def b_put_def b_release_def)
  moreover have "wrote s ?w ((view (ibc s))(b := d))" using r by (simp add: wrote_def)
  ultimately show ?thesis using r(5,6) by blast
qed

text \<open>No two of the first \<^verbatim>\<open>n\<close> blocks of the file are the same.\<close>

definition blocks_ok :: "(nat \<Rightarrow> u8 list) \<Rightarrow> InodeEntry \<Rightarrow> nat \<Rightarrow> bool" where
  "blocks_ok v e n \<longleftrightarrow> n \<le> INODE_MAX_BLOCKS \<and> inj_on (fblock v e) {..<n} \<and>
     (n > INODE_NUM_DIRECT \<longrightarrow> indirect e \<notin> fblock v e ` {..<n})"

lemma fblock_other:
  assumes "blocks_ok v e n" and "k < n" and "\<And>b. b \<notin> fblock v e ` {..<n} \<Longrightarrow> v' b = v b"
  shows "fblock v' e k = fblock v e k"
proof (cases "k < INODE_NUM_DIRECT")
  case False
  then have "n > INODE_NUM_DIRECT" using assms(2) by simp
  then have "v' (indirect e) = v (indirect e)" using assms(1,3) by (simp add: blocks_ok_def)
  then show ?thesis by (simp add: fblock_def)
qed (simp add: fblock_def)

lemma shift_cmp:
  "(k :: nat) = q + y \<Longrightarrow> i = q + x \<Longrightarrow>
   (i \<le> k \<longleftrightarrow> x \<le> y) \<and> (k < i + c \<longleftrightarrow> y < x + c) \<and> k - i = y - x"
  by auto

lemma write_one_block:
  assumes ok: "blocks_ok v e n" and i: "i < end" "end \<le> n * BLOCK_SIZE" and len: "\<And>b. length (v b) = BLOCK_SIZE"
    and src: "length src = end - i" and k: "k < n * BLOCK_SIZE"
    and v': "v' = v(fblock v e (i div BLOCK_SIZE) :=
      put_bytes (i mod BLOCK_SIZE) (take (chunk i end) src) (v (fblock v e (i div BLOCK_SIZE))))"
  shows "fbyte v' e k = (if i \<le> k \<and> k < i + chunk i end then src ! (k - i) else fbyte v e k)"
proof -
  let ?f = "fblock v e (i div BLOCK_SIZE)" and ?c = "chunk i end"
  note C = chunk_bounds [OF i(1)]
  have lt: "length (take ?c src) = ?c" using src C(3) i(1) by simp
  have ib: "i div BLOCK_SIZE < n" and kb: "k div BLOCK_SIZE < n"
    using i k by (simp_all add: less_mult_imp_div_less)
  have fb: "fblock v' e j = fblock v e j" if "j < n" for j
    by (rule fblock_other [OF ok that]) (use ib in \<open>auto simp: v'\<close>)
  show ?thesis
  proof (cases "k div BLOCK_SIZE = i div BLOCK_SIZE")
    case True
    have "k mod BLOCK_SIZE < BLOCK_SIZE" by simp
    then have "fbyte v' e k = (if i mod BLOCK_SIZE \<le> k mod BLOCK_SIZE \<and> k mod BLOCK_SIZE < i mod BLOCK_SIZE + ?c
        then take ?c src ! (k mod BLOCK_SIZE - i mod BLOCK_SIZE) else fbyte v e k)"
      using True fb [OF kb] C(2) lt len [of ?f]
      by (simp add: fbyte_def v' nth_put_bytes)
    moreover have "k = i div BLOCK_SIZE * BLOCK_SIZE + k mod BLOCK_SIZE"
      using div_mult_mod_eq [of k BLOCK_SIZE] True by metis
    note shift = shift_cmp [OF this, of i "i mod BLOCK_SIZE" ?c]
    ultimately show ?thesis using shift by auto
  next
    case False
    then have "fblock v e (k div BLOCK_SIZE) \<noteq> ?f"
      using ok ib kb by (auto simp: blocks_ok_def dest: inj_onD)
    then have "fbyte v' e k = fbyte v e k" using fb [OF kb] by (simp add: fbyte_def v')
    moreover have "\<not> (i \<le> k \<and> k < i + ?c)"
    proof
      assume a: "i \<le> k \<and> k < i + ?c"
      then have "i mod BLOCK_SIZE + (k - i) < BLOCK_SIZE" using C(2) by linarith
      from div_mod_add_chunk(1) [OF this] show False using a False by simp
    qed
    ultimately show ?thesis by auto
  qed
qed

text \<open>Writing where the file already has blocks.\<close>

definition writable :: "inst \<Rightarrow> addr \<Rightarrow> nat \<Rightarrow> bool" where
  "writable s i n \<longleftrightarrow> bc_inv (ibc s) \<and> blocks_ok (view (ibc s)) (entry (ino s i)) n \<and>
     n \<le> inode_block_count (entry (ino s i)) \<and>
     (\<forall>b \<in> file_blocks (view (ibc s)) (entry (ino s i)) n. bc.unheld (ibc s) b)"

lemma write_loop_spec:
  assumes "writable s m n" and "end \<le> n * BLOCK_SIZE" and "i \<le> end" and "length src = end - i"
    and "ctx_ok ctx" and "nblocks end \<le> budget ctx + i div BLOCK_SIZE"
  shows "\<exists>ctx' t v. write_loop sb (Some ctx) m src i end s = Inr (Some ctx', t) \<and> wrote s t v \<and>
    ctx_ok ctx' \<and> budget ctx + i div BLOCK_SIZE \<le> budget ctx' + max (nblocks end) (i div BLOCK_SIZE) \<and>
    (\<forall>b. b \<notin> fblock (view (ibc s)) (entry (ino s m)) ` {..<n} \<longrightarrow> v b = view (ibc s) b) \<and>
    (\<forall>k<n * BLOCK_SIZE. fbyte v (entry (ino s m)) k =
       (if i \<le> k \<and> k < end then src ! (k - i) else fbyte (view (ibc s)) (entry (ino s m)) k))"
  using assms
proof (induction "end - i" arbitrary: i src ctx s rule: less_induct)
  case less
  let ?e = "entry (ino s m)" and ?v = "view (ibc s)"
  note W = less.prems(1) [unfolded writable_def]
  have inv: "bc_inv (ibc s)" using W by blast
  show ?case
  proof (cases "i < end")
    case False
    then have "write_loop sb (Some ctx) m src i end s = Inr (Some ctx, s)"
      using less.prems by (simp add: write_loop.simps)
    moreover have "wrote s s ?v" using inv by (simp add: wrote_def bc.same_held_refl)
    ultimately show ?thesis using False less.prems(5) by (intro exI [of _ ctx] exI [of _ s] exI [of _ ?v]) auto
  next
    case True
    let ?k = "i div BLOCK_SIZE" and ?j = "BLOCK_BASE (i + BLOCK_SIZE)" and ?c = "chunk i end"
    let ?f = "fblock ?v ?e ?k"
    note C = chunk_bounds [OF True]
    have k: "?k < n" using True less.prems(2) by (simp add: less_mult_imp_div_less)
    have un: "bc.unheld (ibc s) ?f" "?k \<ge> INODE_NUM_DIRECT \<Longrightarrow> bc.unheld (ibc s) (indirect ?e)"
      using W k by (auto simp: file_blocks_def)
    have kc: "?k < inode_block_count ?e" "?k < INODE_MAX_BLOCKS" using W k by (auto simp: blocks_ok_def)
    obtain t where t: "inode_map sb (Some ctx) m i s = Inr (?f, Some ctx, t)" "quiet s t"
      using inode_map_present [OF inv kc un(2), of sb "Some ctx"] by auto
    note qt = quietD [OF t(2)]
    let ?d = "put_bytes (i mod BLOCK_SIZE) (take ?c src) (?v ?f)"
    have lsrc: "length (take ?c src) = ?c" using less.prems(4) C(3) True by simp
    have ld: "length ?d = BLOCK_SIZE"
      using C(2) lsrc bc.view_length [OF inv, of ?f] by simp
    have nb: "?k < nblocks end" using block_in_file [OF True] .
    have room: "0 < budget ctx" using less.prems(6) nb by linarith
    obtain a u ctx1 x w where w: "b_acquire ?f t = Inr (a, u)" "b_data a u = ?v ?f"
      "b_sync (Some ctx) a (b_put a ?d u) = Inr (Some ctx1, x)" "b_release a x = Inr w" "ctx_ok ctx1"
      "budget ctx \<le> budget ctx1 + 1" "wrote t w (?v(?f := ?d))"
      using b_write [OF qt(2), of ?f ctx ?d] qt un(1) less.prems(5) room ld by auto
    let ?v1 = "?v(?f := ?d)"
    have sw: "wrote s w ?v1" using wrote_trans [OF _ w(7)] t(2) by (simp add: quiet_wrote)
    note qw = wroteD [OF sw]
    have step: "write_loop sb (Some ctx) m src i end s = write_loop sb (Some ctx1) m (drop ?c src) ?j end w"
      using True t(1) w(1-4) by (subst write_loop.simps) (simp add: Let_def)
    have fb: "fblock ?v1 ?e q = fblock ?v ?e q" if "q < n" for q
      by (rule fblock_other [of _ _ n]) (use W k that in auto)
    then have img: "fblock ?v1 ?e ` {..<n} = fblock ?v ?e ` {..<n}" by auto
    have "inj_on (fblock ?v1 ?e) {..<n} = inj_on (fblock ?v ?e) {..<n}"
      by (rule inj_on_cong) (use fb in auto)
    then have wr: "writable w m n"
      using W img by (auto simp: writable_def blocks_ok_def qw file_blocks_def)
    have byte: "fbyte ?v1 ?e q = (if i \<le> q \<and> q < i + ?c then src ! (q - i) else fbyte ?v ?e q)"
      if "q < n * BLOCK_SIZE" for q
      using write_one_block [where v = ?v, OF _ True less.prems(2) bc.view_length [OF inv] less.prems(4) that refl] W by blast
    show ?thesis
    proof (cases "?j < end")
      case False
      then have "?c = end - i" using C(5) by simp
      then have "write_loop sb (Some ctx1) m (drop ?c src) ?j end w = Inr (Some ctx1, w)"
        using False less.prems(4) by (simp add: write_loop.simps)
      then show ?thesis
        using step sw w(5,6) byte \<open>?c = end - i\<close> True nb k
        by (intro exI [of _ ctx1] exI [of _ w] exI [of _ ?v1]) auto
    next
      case j: True
      have jc: "i + ?c = ?j" by (rule C(4) [OF j])
      have jk: "?j div BLOCK_SIZE = Suc ?k" by (simp add: BLOCK_BASE_def)
      have "end - ?j < end - i" using next_block_greater [of i] j by simp
      moreover have "length (drop ?c src) = end - ?j" using less.prems(4) jc by simp
      ultimately obtain ctx2 y v where y: "write_loop sb (Some ctx1) m (drop ?c src) ?j end w = Inr (Some ctx2, y)"
        "wrote w y v" "ctx_ok ctx2"
        "budget ctx1 + Suc ?k \<le> budget ctx2 + max (nblocks end) (Suc ?k)"
        "\<forall>b. b \<notin> fblock ?v1 ?e ` {..<n} \<longrightarrow> v b = ?v1 b"
        "\<forall>q<n * BLOCK_SIZE. fbyte v ?e q =
          (if ?j \<le> q \<and> q < end then drop ?c src ! (q - ?j) else fbyte ?v1 ?e q)"
        using less.hyps [of ?j w "drop ?c src" ctx1] wr less.prems(2,6) w(5,6) j jk by (auto simp: qw)
      have "fbyte v ?e q = (if i \<le> q \<and> q < end then src ! (q - i) else fbyte ?v ?e q)"
        if q: "q < n * BLOCK_SIZE" for q
      proof (cases "?j \<le> q \<and> q < end")
        case True
        then have "drop ?c src ! (q - ?j) = src ! (q - i)"
          using jc less.prems(4) by (auto intro!: arg_cong [where f = "(!) src"])
        then show ?thesis using y(6) q True jc by auto
      next
        case False
        then show ?thesis using y(6) q byte [OF q] jc C(3) by auto
      qed
      moreover have "v b = ?v b" if "b \<notin> fblock ?v ?e ` {..<n}" for b
        using y(5) that k img by auto
      moreover have "budget ctx + ?k \<le> budget ctx2 + max (nblocks end) ?k"
        using y(4) w(6) nb by linarith
      ultimately show ?thesis
        using step y(1,3) wrote_trans [OF sw y(2)] by auto
    qed
  qed
qed

end
