(* ===== verification/Inode_Props.thy ===== *)
theory Inode_Props
  imports Inode_Data
begin

text \<open>
  What the inode layer promises: writing an inode back and loading it again, writing bytes and
  reading them again, allocating inode numbers and the in-memory inode table
  (\<^verbatim>\<open>fs/inode.c\<close>). One section shows what happens when a single write needs several new blocks.
\<close>

section \<open>Writing an inode back\<close>

definition inode_block :: "SuperBlock \<Rightarrow> Inode \<Rightarrow> nat" where
  "inode_block sb n = to_block_no sb (inode_no n)"

text \<open>The entry of inode number \<^verbatim>\<open>k\<close> on disk.\<close>

definition disk_entry :: "SuperBlock \<Rightarrow> (nat \<Rightarrow> u8 list) \<Rightarrow> nat \<Rightarrow> InodeEntry" where
  "disk_entry sb v k = entry_of (get_entry k) (v (to_block_no sb k))"

lemma get_entry_room: "get_entry k + INODE_ENTRY_SIZE \<le> BLOCK_SIZE"
proof -
  have "k mod 8 < 8" by simp
  then show ?thesis by (simp add: get_entry_def inode_consts)
qed

lemma get_entry_apart:
  assumes "to_block_no sb j = to_block_no sb k" and "j \<noteq> k"
  shows "get_entry j + 64 \<le> get_entry k \<or> get_entry k + 64 \<le> get_entry j"
proof -
  have "j div 8 = k div 8" using assms(1) by (simp add: to_block_no_def inode_consts)
  then have "j mod 8 \<noteq> k mod 8" using assms(2) div_mult_mod_eq [of j 8] div_mult_mod_eq [of k 8] by linarith
  then show ?thesis by (auto simp: get_entry_def inode_consts)
qed

definition with_entry :: "SuperBlock \<Rightarrow> Inode \<Rightarrow> (nat \<Rightarrow> u8 list) \<Rightarrow> nat \<Rightarrow> u8 list" where
  "with_entry sb n v = v(inode_block sb n := put_bytes (get_entry (inode_no n)) (entry_bytes (entry n)) (v (inode_block sb n)))"

lemma disk_entry_with_entry:
  assumes "entry_ok (entry n)" and "\<And>b. length (v b) = BLOCK_SIZE"
  shows "disk_entry sb (with_entry sb n v) (inode_no n) = entry n"
    and "k \<noteq> inode_no n \<Longrightarrow> disk_entry sb (with_entry sb n v) k = disk_entry sb v k"
proof -
  show "disk_entry sb (with_entry sb n v) (inode_no n) = entry n"
    using entry_of_put_same [OF assms(1)] get_entry_room assms(2)
    by (simp add: disk_entry_def with_entry_def inode_block_def)
  assume k: "k \<noteq> inode_no n"
  have l: "length (entry_bytes (entry n)) = 64"
    using assms(1) length_entry_bytes by (simp add: entry_ok_def inode_consts)
  show "disk_entry sb (with_entry sb n v) k = disk_entry sb v k"
  proof (cases "to_block_no sb k = to_block_no sb (inode_no n)")
    case True
    have "get_entry j + 64 \<le> length (v b)" for j b
      using get_entry_room [of j] assms(2) by (simp add: inode_consts)
    then show ?thesis
      using entry_of_put_other [OF l, of "get_entry (inode_no n)" _ "get_entry k"]
        get_entry_apart [OF True k] True by (auto simp: disk_entry_def with_entry_def inode_block_def)
  qed (simp add: disk_entry_def with_entry_def inode_block_def)
qed

lemma inode_sync_spec:
  assumes "bc_inv (ibc s)" and "bc.unheld (ibc s) (inode_block sb (ino s i))" and "ivalid (ino s i)"
    and "ctx_ok ctx" and "0 < budget ctx" and "length (i_addrs (entry (ino s i))) = INODE_NUM_DIRECT"
  shows "\<exists>ctx' t. inode_sync sb (Some ctx) i True s = Inr (Some ctx', t) \<and> ctx_ok ctx' \<and>
    budget ctx \<le> budget ctx' + 1 \<and> wrote s t (with_entry sb (ino s i) (view (ibc s)))"
proof -
  let ?n = "ino s i"
  have "length (put_bytes (get_entry (inode_no ?n)) (entry_bytes (entry ?n)) (view (ibc s) (inode_block sb ?n))) = BLOCK_SIZE"
    using length_entry_bytes [OF assms(6)] get_entry_room bc.view_length [OF assms(1)] by simp
  from b_write [OF assms(1,2,4,5) this] show ?thesis
    using assms(3) by (auto simp: inode_sync_def inode_block_def with_entry_def Let_def)
qed

section \<open>Writing bytes and reading them again\<close>

definition inode_ready :: "SuperBlock \<Rightarrow> inst \<Rightarrow> addr \<Rightarrow> nat \<Rightarrow> bool" where
  "inode_ready sb s i n \<longleftrightarrow> writable s i n \<and> nblocks (num_bytes (entry (ino s i))) \<le> n \<and>
     ivalid (ino s i) \<and> entry_ok (entry (ino s i)) \<and> bc.unheld (ibc s) (inode_block sb (ino s i)) \<and>
     inode_block sb (ino s i) \<notin> file_blocks (view (ibc s)) (entry (ino s i)) n"

lemma fbyte_cong:
  assumes "\<And>b. b \<in> file_blocks v e n \<Longrightarrow> w b = v b" and "k < n * BLOCK_SIZE"
  shows "fbyte w e k = fbyte v e k"
proof -
  have k: "k div BLOCK_SIZE < n" using assms(2) by (simp add: less_mult_imp_div_less)
  then have "fblock w e (k div BLOCK_SIZE) = fblock v e (k div BLOCK_SIZE)"
    using assms(1) by (auto simp: fblock_def file_blocks_def)
  then show ?thesis using assms(1) k by (simp add: fbyte_def file_blocks_def)
qed

lemma fblock_num_bytes [simp]: "fblock v (e\<lparr>num_bytes := m\<rparr>) = fblock v e"
  and fbyte_num_bytes [simp]: "fbyte v (e\<lparr>num_bytes := m\<rparr>) = fbyte v e"
  and file_blocks_num_bytes [simp]: "file_blocks v (e\<lparr>num_bytes := m\<rparr>) = file_blocks v e"
  by (auto simp: fblock_def fbyte_def file_blocks_def fun_eq_iff)

lemma nblocks_le: "m \<le> n * BLOCK_SIZE \<Longrightarrow> nblocks m \<le> n"
  by (auto simp: nblocks_def Suc_le_eq intro: less_mult_imp_div_less)

lemma le_nblocks: "nblocks m \<le> n \<Longrightarrow> m \<le> n * BLOCK_SIZE"
proof (cases "m = 0")
  case False
  assume "nblocks m \<le> n"
  then have "(m - 1) div BLOCK_SIZE < n" using False by (simp add: nblocks_def)
  then have "m - 1 < n * BLOCK_SIZE" by (simp add: div_less_iff_less_mult)
  then show ?thesis by simp
qed simp

lemma inode_block_count_mono:
  assumes "num_bytes e \<le> m"
  shows "inode_block_count e \<le> inode_block_count (e\<lparr>num_bytes := m\<rparr>)"
proof -
  have "(num_bytes e - 1) div BLOCK_SIZE \<le> (m - 1) div BLOCK_SIZE" using assms by (simp add: div_le_mono)
  then show ?thesis using assms by (auto simp: inode_block_count_def Let_def)
qed

lemma file_bytes_patch:
  assumes "off \<le> num_bytes e" and "num_bytes e' = max (num_bytes e) (off + length src)"
    and "\<And>k. k < num_bytes e' \<Longrightarrow> fbyte w e' k = (if off \<le> k \<and> k < off + length src then src ! (k - off) else fbyte v e k)"
  shows "file_bytes w e' = take off (file_bytes v e) @ src @ drop (off + length src) (file_bytes v e)"
proof (rule nth_equalityI)
  show "length (file_bytes w e') = length (take off (file_bytes v e) @ src @ drop (off + length src) (file_bytes v e))"
    using assms(1,2) by (simp add: file_bytes_def)
  fix k assume "k < length (file_bytes w e')"
  then have "k < num_bytes e'" by (simp add: file_bytes_def)
  then show "file_bytes w e' ! k = (take off (file_bytes v e) @ src @ drop (off + length src) (file_bytes v e)) ! k"
    using assms by (auto simp: file_bytes_def nth_append)
qed

lemma inode_ready_update:
  assumes R: "inode_ready sb s i n" and t: "ino t i = (ino s i)\<lparr>entry := (entry (ino s i))\<lparr>num_bytes := m\<rparr>\<rparr>"
    and inv: "bc_inv (ibc t)" and un: "\<And>b. bc.unheld (ibc t) b = bc.unheld (ibc s) b"
    and m: "num_bytes (entry (ino s i)) \<le> m" "m \<le> n * BLOCK_SIZE"
    and fb: "\<And>k. k < n \<Longrightarrow> fblock (view (ibc t)) (entry (ino s i)) k = fblock (view (ibc s)) (entry (ino s i)) k"
  shows "inode_ready sb t i n"
proof -
  let ?e = "entry (ino s i)"
  note R' = R [unfolded inode_ready_def writable_def]
  have im: "fblock (view (ibc t)) ?e ` {..<n} = fblock (view (ibc s)) ?e ` {..<n}" using fb by auto
  have "inj_on (fblock (view (ibc t)) ?e) {..<n} = inj_on (fblock (view (ibc s)) ?e) {..<n}"
    by (rule inj_on_cong) (use fb in auto)
  moreover have "n \<le> inode_block_count (?e\<lparr>num_bytes := m\<rparr>)"
    using R' inode_block_count_mono [OF m(1)] by simp
  moreover have n: "n \<le> INODE_MAX_BLOCKS" using R' by (simp add: blocks_ok_def)
  moreover have "entry_ok (?e\<lparr>num_bytes := m\<rparr>)"
    using R' m(2) n by (auto simp: entry_ok_def inode_consts)
  ultimately show ?thesis
    using R' inv nblocks_le [OF m(2)]
    by (simp add: inode_ready_def writable_def t un blocks_ok_def file_blocks_def im inode_block_def)
qed

lemma inode_write_spec:
  assumes R: "inode_ready sb s i n" and dev: "i_type (entry (ino s i)) \<noteq> INODE_DEVICE"
    and off: "offset \<le> num_bytes (entry (ino s i))" and fin: "offset + length src \<le> n * BLOCK_SIZE"
    and ctx: "ctx_ok ctx" "nblocks (offset + length src) < budget ctx + offset div BLOCK_SIZE" "0 < budget ctx"
  shows "\<exists>ctx' t. inode_write sb (Some ctx) i src offset s = Inr (length src, Some ctx', t) \<and> ctx_ok ctx' \<and>
    inode_ready sb t i n \<and>
    entry (ino t i) = (entry (ino s i))\<lparr>num_bytes := max (num_bytes (entry (ino s i))) (offset + length src)\<rparr> \<and>
    inode_no (ino t i) = inode_no (ino s i) \<and>
    disk_entry sb (view (ibc t)) (inode_no (ino s i)) = entry (ino t i) \<and>
    file_bytes (view (ibc t)) (entry (ino t i)) =
      take offset (file_bytes (view (ibc s)) (entry (ino s i))) @ src @
      drop (offset + length src) (file_bytes (view (ibc s)) (entry (ino s i)))"
proof -
  let ?e = "entry (ino s i)" and ?v = "view (ibc s)" and ?fin = "offset + length src"
  let ?m = "max (num_bytes ?e) ?fin" and ?ib = "inode_block sb (ino s i)"
  note R' = R [unfolded inode_ready_def]
  have W: "writable s i n" using R' by blast
  note W' = W [unfolded writable_def]
  have n: "n \<le> INODE_MAX_BLOCKS" using W' by (simp add: blocks_ok_def)
  have fin2: "?fin \<le> INODE_MAX_BYTES"
    unfolding INODE_MAX_BYTES_def by (rule le_trans [OF fin mult_le_mono1 [OF n]])
  obtain c1 t v where t: "write_loop sb (Some ctx) i src offset ?fin s = Inr (Some c1, t)" "wrote s t v"
    "ctx_ok c1" "budget ctx + offset div BLOCK_SIZE \<le> budget c1 + max (nblocks ?fin) (offset div BLOCK_SIZE)"
    "\<forall>b. b \<notin> fblock ?v ?e ` {..<n} \<longrightarrow> v b = ?v b"
    "\<forall>k<n * BLOCK_SIZE. fbyte v ?e k = (if offset \<le> k \<and> k < ?fin then src ! (k - offset) else fbyte ?v ?e k)"
    using write_loop_spec [OF W fin, of offset src ctx sb] ctx by auto
  note T = wroteD [OF t(2)]
  let ?e' = "?e\<lparr>num_bytes := ?m\<rparr>"
  define u where "u = set_entry i (\<lambda>_. ?e') t"
  have u: "(if ?fin > num_bytes (entry (ino t i)) then set_entry i (\<lambda>e. e\<lparr>num_bytes := ?fin\<rparr>) t else t) = u"
    by (auto simp: u_def set_entry_def set_ino_def T max_def fun_upd_idem_iff)
  have U: "ibc u = ibc t" "ino u i = (ino s i)\<lparr>entry := ?e'\<rparr>"
    by (simp_all add: u_def set_entry_def set_ino_def T)
  have room: "0 < budget c1" using t(4) ctx(2,3) by (auto simp: max_def split: if_splits)
  have sync: "bc_inv (ibc u)" "bc.unheld (ibc u) (inode_block sb (ino u i))" "ivalid (ino u i)"
    "length (i_addrs (entry (ino u i))) = INODE_NUM_DIRECT"
    using R' T by (auto simp: U inode_block_def entry_ok_def)
  obtain c2 w where w: "inode_sync sb (Some c1) i True u = Inr (Some c2, w)" "ctx_ok c2"
    "wrote u w (with_entry sb (ino u i) v)"
    using inode_sync_spec [OF sync(1-3) t(3) room sync(4)] U T by auto
  note X = wroteD [OF w(3)]
  have res: "inode_write sb (Some ctx) i src offset s = Inr (length src, Some c2, w)"
    using dev off fin2 t(1) u w(1) by (simp add: inode_write_def Let_def)
  let ?v' = "with_entry sb (ino u i) v"
  have ib: "?ib \<notin> fblock ?v ?e ` {..<n}" "n > INODE_NUM_DIRECT \<Longrightarrow> ?ib \<noteq> indirect ?e"
    using R' by (auto simp: file_blocks_def)
  have fb: "fblock v ?e k = fblock ?v ?e k" if "k < n" for k
    by (rule fblock_other) (use W' t(5) that in auto)
  have fbs: "file_blocks v ?e n = file_blocks ?v ?e n" using fb by (auto simp: file_blocks_def)
  have v': "?v' b = v b" if "b \<in> file_blocks ?v ?e n" for b
    using that R' by (auto simp: with_entry_def U inode_block_def)
  have fb': "fblock ?v' ?e k = fblock ?v ?e k" if "k < n" for k
    using fb [OF that] v' [of "indirect ?e"] that by (auto simp: fblock_def file_blocks_def)
  have m: "?m \<le> n * BLOCK_SIZE" using fin R' le_nblocks by simp
  have byte: "fbyte ?v' ?e k = (if offset \<le> k \<and> k < ?fin then src ! (k - offset) else fbyte ?v ?e k)"
    if "k < ?m" for k
    using fbyte_cong [of v ?e n ?v' k] v' fbs that m t(6) by auto
  have eok: "entry_ok ?e'"
    using R' m n by (auto simp: entry_ok_def inode_consts)
  have "inode_ready sb w i n"
    by (rule inode_ready_update [OF R, of _ ?m]) (use X T U m fb' in auto)
  moreover have "disk_entry sb ?v' (inode_no (ino s i)) = ?e'"
    using disk_entry_with_entry(1) [of "ino u i" v sb] eok bc.view_length [OF T(2)] by (simp add: U T)
  moreover have "file_bytes ?v' ?e' = take offset (file_bytes ?v ?e) @ src @ drop ?fin (file_bytes ?v ?e)"
    by (rule file_bytes_patch) (use off byte in auto)
  ultimately show ?thesis using res w(2) by (auto simp: X U)
qed

lemma inode_ready_readable: "inode_ready sb s i n \<Longrightarrow> readable s i"
  unfolding inode_ready_def writable_def readable_def
proof (elim conjE, intro conjI)
  assume n: "nblocks (num_bytes (entry (ino s i))) \<le> n" and b: "blocks_ok (view (ibc s)) (entry (ino s i)) n"
  have "num_bytes (entry (ino s i)) \<le> n * BLOCK_SIZE" by (rule le_nblocks [OF n])
  also have "\<dots> \<le> INODE_MAX_BYTES" using b by (simp add: blocks_ok_def INODE_MAX_BYTES_def)
  finally show "num_bytes (entry (ino s i)) \<le> INODE_MAX_BYTES" .
  assume "\<forall>b\<in>file_blocks (view (ibc s)) (entry (ino s i)) n. bc.unheld (ibc s) b"
  then show "\<forall>b\<in>file_blocks (view (ibc s)) (entry (ino s i)) (nblocks (num_bytes (entry (ino s i)))). bc.unheld (ibc s) b"
    using n by (auto simp: file_blocks_def split: if_splits)
qed


text \<open>
  C20: writing and reading back. When the blocks of the file already reach to the end of the range,
  \<^verbatim>\<open>inode_write\<close> replaces the bytes of the range and no other, extends the file if the range ends
  behind it, and stores the inode with its new size in the inode area; \<^verbatim>\<open>inode_read\<close> of the range
  then returns the bytes written.
\<close>

theorem inode_write_read:
  assumes "inode_ready sb s i n" and "i_type (entry (ino s i)) \<noteq> INODE_DEVICE"
    and "offset \<le> num_bytes (entry (ino s i))" and "offset + length src \<le> n * BLOCK_SIZE"
    and "ctx_ok ctx" and "nblocks (offset + length src) < budget ctx + offset div BLOCK_SIZE" and "0 < budget ctx"
  shows "\<exists>ctx' t u. inode_write sb (Some ctx) i src offset s = Inr (length src, Some ctx', t) \<and>
    num_bytes (entry (ino t i)) = max (num_bytes (entry (ino s i))) (offset + length src) \<and>
    disk_entry sb (view (ibc t)) (inode_no (ino s i)) = entry (ino t i) \<and>
    file_bytes (view (ibc t)) (entry (ino t i)) =
      take offset (file_bytes (view (ibc s)) (entry (ino s i))) @ src @
      drop (offset + length src) (file_bytes (view (ibc s)) (entry (ino s i))) \<and>
    inode_read sb p i offset (length src) t = Inr (src, u)"
proof -
  let ?f = "file_bytes (view (ibc s)) (entry (ino s i))"
  obtain ctx' t where t: "inode_write sb (Some ctx) i src offset s = Inr (length src, Some ctx', t)"
    "inode_ready sb t i n"
    "entry (ino t i) = (entry (ino s i))\<lparr>num_bytes := max (num_bytes (entry (ino s i))) (offset + length src)\<rparr>"
    "disk_entry sb (view (ibc t)) (inode_no (ino s i)) = entry (ino t i)"
    "file_bytes (view (ibc t)) (entry (ino t i)) = take offset ?f @ src @ drop (offset + length src) ?f"
    using inode_write_spec [OF assms] by blast
  have "length ?f = num_bytes (entry (ino s i))" by (simp add: file_bytes_def)
  then have "take (length src) (drop offset (file_bytes (view (ibc t)) (entry (ino t i)))) = src"
    using assms(3) by (simp add: t(5))
  moreover have "ivalid (ino t i)" "i_type (entry (ino t i)) \<noteq> INODE_DEVICE" "offset \<le> num_bytes (entry (ino t i))"
    using t(2,3) assms(2,3) by (auto simp: inode_ready_def)
  ultimately obtain u where "inode_read sb p i offset (length src) t = Inr (src, u)"
    using inode_read_spec [OF inode_ready_readable [OF t(2)], of offset sb p "length src"] by auto
  then show ?thesis using t by auto
qed

definition demo_in :: inst where
  "demo_in = \<lparr>ibc = alloc_bc,
     ino = (\<lambda>_. init_inode\<lparr>inode_no := 5, irc := 1, ivalid := True,
       entry := entry0\<lparr>i_type := 2, num_links := 1, num_bytes := 700, i_addrs := [200, 201] @ replicate 10 0\<rparr>\<rparr>),
     itree = [5 \<mapsto> 0], ilock = False, free_inodes = [], flock = False, ifresh = 1, iroot = None,
     icon = cons_input_init\<rparr>"

lemma demo_in_simps:
  "entry (ino demo_in i) = entry0\<lparr>i_type := 2, num_links := 1, num_bytes := 700, i_addrs := [200, 201] @ replicate 10 0\<rparr>"
  "inode_no (ino demo_in i) = 5" "ivalid (ino demo_in i)" "ibc demo_in = alloc_bc"
  by (simp_all add: demo_in_def)

lemma alloc_bc_unheld: "bc.unheld alloc_bc b"
  by (simp add: bc.unheld_def holds_def alloc_bc_def)

lemma demo_in_ready: "inode_ready alloc_sb demo_in 0 2"
proof -
  have "inj_on (fblock (view alloc_bc) (entry (ino demo_in 0))) {..<2}"
    by (auto simp: inj_on_def fblock_def demo_in_simps inode_consts less_2_cases_iff)
  then have "blocks_ok (view alloc_bc) (entry (ino demo_in 0)) 2"
    by (simp add: blocks_ok_def inode_consts)
  moreover have "inode_block alloc_sb (ino demo_in 0) = 65"
    by (simp add: inode_block_def to_block_no_def demo_in_simps alloc_sb_def inode_consts)
  moreover have "65 \<notin> file_blocks (view alloc_bc) (entry (ino demo_in 0)) 2"
    by (auto simp: file_blocks_def fblock_def demo_in_simps inode_consts less_2_cases_iff)
  moreover have "entry_ok (entry (ino demo_in 0))"
    by (simp add: demo_in_simps entry_ok_def entry0_def inode_consts)
  ultimately show ?thesis
    using alloc_bc_ok(1) alloc_bc_unheld
    by (auto simp: inode_ready_def writable_def demo_in_simps(2-4))
      (simp_all add: demo_in_simps inode_block_count_def nblocks_def BLOCK_SIZE_def)
qed


theorem inode_write_read_witness:
  "\<exists>ctx' t u. inode_write alloc_sb (Some init_ctx) 0 [1, 2, 3] 699 demo_in = Inr (3, Some ctx', t) \<and>
     num_bytes (entry (ino t 0)) = 702 \<and> inode_read alloc_sb 0 0 699 3 t = Inr ([1, 2, 3], u)"
  using inode_write_read [OF demo_in_ready, of 699 "[1, 2, 3]" init_ctx 0] init_ctx_ok budget_init_ctx
  by (auto simp: demo_in_simps inode_consts nblocks_def numeral_3_eq_3)

section \<open>A write that needs several new blocks\<close>

definition free_blocks :: "SuperBlock \<Rightarrow> (nat \<Rightarrow> u8 list) \<Rightarrow> nat set" where
  "free_blocks sb v = {b. b < num_blocks sb \<and> \<not> used sb v b}"

text \<open>What a transaction needs to go on allocating \<^verbatim>\<open>k\<close> blocks and writing the inode back.\<close>

definition can_alloc :: "SuperBlock \<Rightarrow> nat \<Rightarrow> inst \<Rightarrow> addr \<Rightarrow> bool" where
  "can_alloc sb k s i \<longleftrightarrow> bc_inv (ibc s) \<and> allocatable sb (ibc s) \<and> k \<le> card (free_blocks sb (view (ibc s))) \<and>
     ivalid (ino s i) \<and> length (i_addrs (entry (ino s i))) = INODE_NUM_DIRECT \<and>
     inode_block sb (ino s i) \<notin> bitmap_area sb \<and> bc.unheld (ibc s) (inode_block sb (ino s i))"

lemma used_cong:
  assumes "\<And>b. b \<in> bitmap_area sb \<Longrightarrow> w b = v b" and "b < num_blocks sb"
  shows "used sb w b = used sb v b"
  using assms(1) bitmap_block_in_area [OF assms(2)] by (simp add: used_def)

lemma allocatable_cong:
  assumes "\<And>b. b < num_blocks sb \<Longrightarrow> used sb (view t) b = used sb (view s) b \<or> used sb (view t) b"
    and "bc.same_held s t" and "allocatable sb s"
  shows "allocatable sb t"
  using assms bc.same_held_unheld [OF assms(2)] by (auto simp: allocatable_def)

lemma b_alloc_spec:
  assumes "can_alloc sb (Suc k) s i" and "ctx_ok ctx" and "2 \<le> budget ctx"
  shows "\<exists>b ctx' t. b_alloc sb (Some ctx) s = Inr (b, Some ctx', t) \<and> t = s\<lparr>ibc := ibc t\<rparr> \<and>
    can_alloc sb k t i \<and> ctx_ok ctx' \<and> budget ctx \<le> budget ctx' + 2 \<and> b < num_blocks sb \<and>
    \<not> used sb (view (ibc s)) b \<and>
    (\<forall>j<num_blocks sb. used sb (view (ibc t)) j \<longleftrightarrow> used sb (view (ibc s)) j \<or> j = b)"
proof -
  note A = assms(1) [unfolded can_alloc_def]
  have "free_blocks sb (view (ibc s)) \<noteq> {}" using A by auto
  then have some: "\<exists>b<num_blocks sb. \<not> used sb (view (ibc s)) b" by (auto simp: free_blocks_def)
  obtain b ctx' c where c: "cache_alloc sb (Some ctx) (ibc s) = Inr (b, Some ctx', c)" "bc_inv c" "ctx_ok ctx'"
    "budget ctx \<le> budget ctx' + 2" "bc.same_held (ibc s) c" "b < num_blocks sb" "\<not> used sb (view (ibc s)) b"
    "b \<notin> bitmap_area sb"
    "view c = (view (ibc s))(bitmap_start sb + b div BIT_PER_BLOCK :=
        bitmap_set (view (ibc s) (bitmap_start sb + b div BIT_PER_BLOCK)) (b mod BIT_PER_BLOCK),
      b := replicate BLOCK_SIZE 0)"
    using cache_alloc_spec [OF _ _ assms(2,3) some] A by blast
  have u: "used sb (view c) j \<longleftrightarrow> used sb (view (ibc s)) j \<or> j = b" if "j < num_blocks sb" for j
    using used_bitmap_set [OF c(6) bc.view_length c(8) that c(9)] A by blast
  then have "free_blocks sb (view c) = free_blocks sb (view (ibc s)) - {b}"
    by (auto simp: free_blocks_def)
  moreover have "b \<in> free_blocks sb (view (ibc s))" using c(6,7) by (simp add: free_blocks_def)
  moreover have "Suc k \<le> card (free_blocks sb (view (ibc s)))" using A by blast
  ultimately have "k \<le> card (free_blocks sb (view c))" by simp
  moreover have "allocatable sb c" using allocatable_cong [OF _ c(5)] u A by blast
  ultimately have "can_alloc sb k (s\<lparr>ibc := c\<rparr>) i"
    using A c(2) bc.same_held_unheld [OF c(5)] by (simp add: can_alloc_def)
  then show ?thesis
    using c u by (intro exI [of _ b] exI [of _ ctx'] exI [of _ "s\<lparr>ibc := c\<rparr>"]) (auto simp: b_alloc_def)
qed

lemma can_alloc_entry:
  "can_alloc sb k s i \<Longrightarrow> length (i_addrs (f (entry (ino s i)))) = INODE_NUM_DIRECT \<Longrightarrow>
   can_alloc sb k (set_entry i f s) i"
  by (simp add: can_alloc_def set_entry_def set_ino_def inode_block_def)

lemma inode_sync_can_alloc:
  assumes "can_alloc sb k s i" and "ctx_ok ctx" and "0 < budget ctx"
  shows "\<exists>ctx' t. inode_sync sb (Some ctx) i True s = Inr (Some ctx', t) \<and> ctx_ok ctx' \<and>
    budget ctx \<le> budget ctx' + 1 \<and> can_alloc sb k t i \<and> ino t = ino s \<and>
    (\<forall>j<num_blocks sb. used sb (view (ibc t)) j = used sb (view (ibc s)) j)"
proof -
  note A = assms(1) [unfolded can_alloc_def]
  obtain ctx' t where t: "inode_sync sb (Some ctx) i True s = Inr (Some ctx', t)" "ctx_ok ctx'"
    "budget ctx \<le> budget ctx' + 1" "wrote s t (with_entry sb (ino s i) (view (ibc s)))"
    using inode_sync_spec [OF _ _ _ assms(2,3)] A by blast
  note T = wroteD [OF t(4)]
  have u: "used sb (view (ibc t)) j = used sb (view (ibc s)) j" if "j < num_blocks sb" for j
    by (rule used_cong [OF _ that]) (use A in \<open>auto simp: T with_entry_def\<close>)
  then have "free_blocks sb (view (ibc t)) = free_blocks sb (view (ibc s))"
    by (auto simp: free_blocks_def)
  moreover have "allocatable sb (ibc t)"
    using allocatable_cong [of sb "ibc t" "ibc s"] u t(4) A by (simp add: wrote_def)
  ultimately show ?thesis using t(1-3) A u T by (auto simp: can_alloc_def)
qed

text \<open>One round of the allocation loop of \<^verbatim>\<open>inode_map\<close>.\<close>

definition placed :: "SuperBlock \<Rightarrow> addr \<Rightarrow> nat \<Rightarrow> nat \<Rightarrow> inst \<Rightarrow> inst \<Rightarrow> bool" where
  "placed sb i k b s t \<longleftrightarrow>
     entry (ino t i) = (entry (ino s i))\<lparr>i_addrs := (i_addrs (entry (ino s i)))[k := b]\<rparr> \<and>
     b < num_blocks sb \<and> \<not> used sb (view (ibc s)) b \<and>
     (\<forall>j<num_blocks sb. used sb (view (ibc t)) j \<longleftrightarrow> used sb (view (ibc s)) j \<or> j = b)"

lemma alloc_direct_step:
  assumes "can_alloc sb (Suc m) s i" and "ctx_ok ctx" and "2 \<le> budget ctx"
  shows "\<exists>b ctx' t. alloc_direct sb (Some ctx) i (k # ks) s = alloc_direct sb (Some ctx') i ks t \<and>
    can_alloc sb m t i \<and> ctx_ok ctx' \<and> budget ctx \<le> budget ctx' + 2 \<and> placed sb i k b s t"
proof -
  obtain b ctx' t where t: "b_alloc sb (Some ctx) s = Inr (b, Some ctx', t)" "t = s\<lparr>ibc := ibc t\<rparr>"
    "can_alloc sb m t i" "ctx_ok ctx'" "budget ctx \<le> budget ctx' + 2" "b < num_blocks sb"
    "\<not> used sb (view (ibc s)) b"
    "\<forall>j<num_blocks sb. used sb (view (ibc t)) j \<longleftrightarrow> used sb (view (ibc s)) j \<or> j = b"
    using b_alloc_spec [OF assms] by blast
  let ?u = "set_entry i (\<lambda>e. e\<lparr>i_addrs := (i_addrs e)[k := b]\<rparr>) t"
  have "can_alloc sb m ?u i" using t(3) by (intro can_alloc_entry) (auto simp: can_alloc_def)
  moreover have "ino t = ino s" by (subst t(2)) simp
  then have "placed sb i k b s ?u" using t(6-8) by (simp add: placed_def set_entry_def set_ino_def)
  ultimately show ?thesis using t by (intro exI [of _ b] exI [of _ ctx'] exI [of _ ?u]) auto
qed

lemma can_alloc_weaken: "can_alloc sb k s i \<Longrightarrow> m \<le> k \<Longrightarrow> can_alloc sb m s i"
  by (simp add: can_alloc_def)

lemma map_new_direct:
  assumes "can_alloc sb (Suc m) s i" and "ctx_ok ctx" and "3 \<le> budget ctx"
    and "inode_block_count (entry (ino s i)) = n" and "n < INODE_NUM_DIRECT"
  shows "\<exists>b ctx' t. inode_map sb (Some ctx) i (n * BLOCK_SIZE) s = Inr (b, Some ctx', t) \<and>
    can_alloc sb m t i \<and> ctx_ok ctx' \<and> budget ctx \<le> budget ctx' + 3 \<and> placed sb i n b s t"
proof -
  obtain b c1 t where t: "alloc_direct sb (Some ctx) i [n] s = Inr (Some c1, t)"
    "can_alloc sb m t i" "ctx_ok c1" "budget ctx \<le> budget c1 + 2" "placed sb i n b s t"
    using alloc_direct_step [OF assms(1,2), of n "[]"] assms(3) by auto
  obtain c2 u where u: "inode_sync sb (Some c1) i True t = Inr (Some c2, u)" "ctx_ok c2"
    "budget c1 \<le> budget c2 + 1" "can_alloc sb m u i" "ino u = ino t"
    "\<forall>j<num_blocks sb. used sb (view (ibc u)) j = used sb (view (ibc t)) j"
    using inode_sync_can_alloc [OF t(2,3)] t(4) assms(3) by auto
  have "placed sb i n b s u" using t(5) u(5,6) by (auto simp: placed_def)
  moreover have "i_addrs (entry (ino t i)) ! n = b"
    using t(5) assms(1,5) by (simp add: placed_def can_alloc_def)
  then have "inode_map sb (Some ctx) i (n * BLOCK_SIZE) s = Inr (b, Some c2, u)"
    using assms(4,5) t(1) u(1) by (simp add: inode_map_def Let_def)
  ultimately show ?thesis using u t by auto
qed

lemma map_new_direct2:
  assumes "can_alloc sb 2 s i" and "ctx_ok ctx" and "5 \<le> budget ctx"
    and "inode_block_count (entry (ino s i)) = n" and "Suc n < INODE_NUM_DIRECT"
  shows "\<exists>b b' ctx' r t. inode_map sb (Some ctx) i (Suc n * BLOCK_SIZE) s = Inr (b', Some ctx', t) \<and>
    placed sb i n b s r \<and> placed sb i (Suc n) b' r t"
proof -
  have l: "[n..<Suc (Suc n)] = [n, Suc n]" by simp
  have two: "can_alloc sb (Suc 1) s i" using assms(1) by (simp add: numeral_2_eq_2)
  obtain b c1 r where r: "alloc_direct sb (Some ctx) i [n, Suc n] s = alloc_direct sb (Some c1) i [Suc n] r"
    "can_alloc sb (Suc 0) r i" "ctx_ok c1" "budget ctx \<le> budget c1 + 2" "placed sb i n b s r"
    using alloc_direct_step [OF two assms(2), of n "[Suc n]"] assms(3) by auto
  obtain b' c2 t where t: "alloc_direct sb (Some c1) i [Suc n] r = Inr (Some c2, t)"
    "can_alloc sb 0 t i" "ctx_ok c2" "budget c1 \<le> budget c2 + 2" "placed sb i (Suc n) b' r t"
    using alloc_direct_step [OF r(2,3), of "Suc n" "[]"] assms(3) r(4) by auto
  obtain c3 u where u: "inode_sync sb (Some c2) i True t = Inr (Some c3, u)" "ino u = ino t"
    "\<forall>j<num_blocks sb. used sb (view (ibc u)) j = used sb (view (ibc t)) j"
    using inode_sync_can_alloc [OF t(2,3)] t(4) r(4) assms(3) by auto
  have "placed sb i (Suc n) b' r u" using t(5) u(2,3) by (auto simp: placed_def)
  moreover have "i_addrs (entry (ino t i)) ! Suc n = b'"
    using t(5) r(2) assms(5) by (simp add: placed_def can_alloc_def)
  then have "inode_map sb (Some ctx) i (Suc n * BLOCK_SIZE) s = Inr (b', Some c3, u)"
    using assms(4,5) t(1) r(1) u(1) l by (simp add: inode_map_def Let_def del: upt_Suc)
  ultimately show ?thesis using r(5) by blast
qed


lemma alloc_bc_bits:
  "used alloc_sb (view alloc_bc) 200" "used alloc_sb (view alloc_bc) 201"
  "b \<in> {997, 998, 999} \<Longrightarrow> \<not> used alloc_sb (view alloc_bc) b"
proof -
  have v: "view alloc_bc b = replicate 100 255 @ replicate 412 0" for b
    by (simp add: view_def alloc_bc_def)
  have "take 8 (drop 24 (replicate 100 255 @ replicate 412 0 :: u8 list)) = [255, 255, 255, 255, 255, 255, 255, 255]"
    by (simp add: numeral_eq_Suc)
  then have c: "bitmap_cell (replicate 100 255 @ replicate 412 0) 3 = - 1"
    by (simp add: bitmap_cell_def rd_def)
  have "take 8 (drop 120 (replicate 100 255 @ replicate 412 0 :: u8 list)) = replicate 8 0"
    by simp
  then have d: "bitmap_cell (replicate 100 255 @ replicate 412 0) 15 = 0"
    by (simp add: bitmap_cell_def rd_def numeral_eq_Suc)
  show "used alloc_sb (view alloc_bc) 200" "used alloc_sb (view alloc_bc) 201"
    using c by (simp_all add: used_def v bitmap_get_bit fs_consts)
  show "\<not> used alloc_sb (view alloc_bc) b" if "b \<in> {997, 998, 999}"
    using d that by (auto simp: used_def v bitmap_get_bit fs_consts)
qed


section \<open>The table of in-memory inodes\<close>

definition itable_inv :: "inst \<Rightarrow> bool" where
  "itable_inv s \<longleftrightarrow> (\<forall>n i. itree s n = Some i \<longrightarrow> i < ifresh s \<and> inode_no (ino s i) = n)"

text \<open>Everything below the table leaves it alone.\<close>

definition table_of :: "inst \<Rightarrow> (nat \<Rightarrow> addr option) \<times> addr \<times> (addr \<Rightarrow> nat)" where
  "table_of s = (itree s, ifresh s, \<lambda>a. inode_no (ino s a))"

lemma table_of_simps [simp]:
  "table_of (s\<lparr>ibc := c\<rparr>) = table_of s" "table_of (s\<lparr>ilock := l\<rparr>) = table_of s"
  "table_of (s\<lparr>flock := l\<rparr>) = table_of s" "table_of (s\<lparr>free_inodes := f\<rparr>) = table_of s"
  "table_of (b_put a d s) = table_of s"
  "table_of (set_entry i g s) = table_of s" "table_of (set_ino i (\<lambda>n. n\<lparr>ilk := q\<rparr>) s) = table_of s"
  "table_of (set_ino i (\<lambda>n. n\<lparr>irc := r n\<rparr>) s) = table_of s"
  "table_of (set_ino i (\<lambda>n. n\<lparr>entry := h n, ivalid := z\<rparr>) s) = table_of s"
  by (auto simp: table_of_def b_put_def set_entry_def set_ino_def fun_eq_iff)

lemma b_table:
  "b_acquire b s = Inr (a, t) \<Longrightarrow> table_of t = table_of s"
  "b_release a s = Inr t \<Longrightarrow> table_of t = table_of s"
  "b_sync ctx a s = Inr (ctx', t) \<Longrightarrow> table_of t = table_of s"
  "b_free sb ctx b s = Inr (ctx', t) \<Longrightarrow> table_of t = table_of s"
  by (auto simp: b_acquire_def b_release_def b_sync_def b_free_def)

lemma clear_direct_table: "clear_direct sb ctx i ks s = Inr (ctx', t) \<Longrightarrow> table_of t = table_of s"
  by (induction ks arbitrary: ctx s) (fastforce simp: Let_def split: if_splits dest!: b_table(4))+

lemma clear_indirect_table: "clear_indirect sb ctx a ks s = Inr (ctx', t) \<Longrightarrow> table_of t = table_of s"
  by (induction ks arbitrary: ctx s) (fastforce simp: Let_def split: if_splits dest!: b_table(4))+

lemma load_entry_table: "load_entry sb i s = Inr t \<Longrightarrow> table_of t = table_of s"
  by (auto simp: load_entry_def Let_def dest!: b_table)

lemma inode_sync_table: "inode_sync sb ctx i w s = Inr (ctx', t) \<Longrightarrow> table_of t = table_of s"
  by (auto simp: inode_sync_def Let_def split: if_splits dest!: b_table load_entry_table)

lemma inode_lock_table: "inode_lock sb i s = Inr t \<Longrightarrow> table_of t = table_of s"
  by (auto simp: inode_lock_def Let_def split: if_splits dest!: load_entry_table)

lemma inode_unlock_table: "inode_unlock i s = Inr t \<Longrightarrow> table_of t = table_of s"
  by (auto simp: inode_unlock_def split: if_splits)

lemma push_free_inode_table: "push_free_inode n s = Inr t \<Longrightarrow> table_of t = table_of s"
  by (auto simp: push_free_inode_def Let_def table_of_def)

lemma inode_clear_table: "inode_clear sb ctx i s = Inr (ctx', t) \<Longrightarrow> table_of t = table_of s"
  by (auto simp: inode_clear_def Let_def split: if_splits
      dest!: clear_direct_table clear_indirect_table inode_sync_table b_table)

lemmas inode_table = inode_sync_table inode_lock_table inode_unlock_table push_free_inode_table inode_clear_table

lemma inode_put_table:
  assumes "inode_put sb ctx i s = Inr (ctx', t)"
  shows "table_of t = table_of s \<or>
    table_of t = ((itree s)(inode_no (ino s i) := None), ifresh s, \<lambda>a. inode_no (ino s a))"
proof -
  have upd: "table_of (u\<lparr>itree := (itree u)(inode_no (ino u j) := None)\<rparr>) =
      ((itree s)(inode_no (ino s j) := None), ifresh s, \<lambda>a. inode_no (ino s a))"
    if "table_of u = table_of s" for u j
    using that by (auto simp: table_of_def fun_eq_iff)
  show ?thesis
    using assms
    by (auto simp: inode_put_def Let_def upd split: if_splits dest!: inode_table)
qed



end
