(* ===== verification/Pipe.thy ===== *)
theory Pipe
  imports Sync
begin

text \<open>
  \<^verbatim>\<open>src/src/fs/pipe.c\<close>: a pipe is a ring of 512 bytes with two 32-bit counters that are never reset and
  wrap around. A call of \<^verbatim>\<open>pipeRead\<close> or \<^verbatim>\<open>pipeWrite\<close> runs under the lock of the pipe until it returns
  or goes to sleep on one of the two semaphores; the model has one function for the part up to the
  first sleep and one for what happens after a wake-up. The last section runs these parts in any
  order.
\<close>

definition PIPESIZE :: nat where
  "PIPESIZE = 512"

record Pipe =
  plock :: SpinLock
  wlock :: Semaphore
  rlock :: Semaphore
  pdata :: "u8 list"
  nread :: u32
  nwrite :: u32
  readopen :: bool
  writeopen :: bool

definition init_pipe :: "u8 list \<Rightarrow> Pipe" where
  "init_pipe garbage = \<lparr>plock = init_spinlock, wlock = init_sem 0, rlock = init_sem 0, pdata = garbage,
     nread = 0, nwrite = 0, readopen = True, writeopen = True\<rparr>"

text \<open>\<^verbatim>\<open>post_all_sem\<close> for its effect on the semaphore.\<close>

definition wake_all :: "Semaphore \<Rightarrow> Semaphore res" where
  "wake_all sem =
     (case post_all_sem sem of
        None \<Rightarrow> Inl Spin
      | Some r \<Rightarrow> rbind r (\<lambda>(n, woken, sem). Inr sem))"

text \<open>The second test runs without the lock, and \<^verbatim>\<open>kfree\<close> makes the pipe unusable (the first result).\<close>

definition pipeClose :: "bool \<Rightarrow> Pipe \<Rightarrow> (bool \<times> Pipe) res" where
  "pipeClose writable pi =
     rbind (acquire_spinlock (plock pi)) (\<lambda>l.
       let pi = pi\<lparr>plock := l\<rparr>
       in rbind
            (if writable
             then let pi = pi\<lparr>writeopen := False\<rparr>;
                      pi = pi\<lparr>plock := release_spinlock (plock pi)\<rparr>
                  in rbind (post_sem (rlock pi)) (\<lambda>(w, sem). Inr (pi\<lparr>rlock := sem\<rparr>))
             else let pi = pi\<lparr>readopen := False\<rparr>;
                      pi = pi\<lparr>plock := release_spinlock (plock pi)\<rparr>
                  in rbind (post_sem (wlock pi)) (\<lambda>(w, sem). Inr (pi\<lparr>wlock := sem\<rparr>)))
            (\<lambda>pi. if \<not> readopen pi \<and> \<not> writeopen pi
                  then Inr (True, pi\<lparr>plock := release_spinlock (plock pi)\<rparr>)
                  else Inr (False, pi)))"

text \<open>
  \<^verbatim>\<open>WDone\<close>: all bytes are written. \<^verbatim>\<open>WError\<close>: the call returns -1. \<^verbatim>\<open>WWait\<close>: the process sleeps on
  \<^verbatim>\<open>wlock\<close> with these bytes still to write. \<^verbatim>\<open>WRetry\<close>: the semaphore had a token, and the loop goes on
  at once.
\<close>

datatype wres = WDone | WError | WWait "u8 list" | WRetry "u8 list"

fun write_from :: "nat \<Rightarrow> bool \<Rightarrow> u8 list \<Rightarrow> Pipe \<Rightarrow> (wres \<times> Pipe) res" where
  "write_from p killed [] pi =
     rbind (wake_all (rlock pi)) (\<lambda>sem.
       let pi = pi\<lparr>rlock := sem\<rparr> in Inr (WDone, pi\<lparr>plock := release_spinlock (plock pi)\<rparr>))"
| "write_from p killed (c # cs) pi =
     (if nwrite pi = nread pi + of_nat PIPESIZE
      then
        if \<not> readopen pi \<or> killed
        then Inr (WError, pi\<lparr>plock := release_spinlock (plock pi)\<rparr>)
        else
          let pi = pi\<lparr>wlock := snd (get_all_sem (wlock pi))\<rparr>
          in rbind (wake_all (rlock pi)) (\<lambda>sem.
               let pi = pi\<lparr>rlock := sem\<rparr>;
                   pi = pi\<lparr>plock := release_spinlock (plock pi)\<rparr>;
                   (ok, sem) = wait_sem_enter p (wlock pi);
                   pi = pi\<lparr>wlock := sem\<rparr>
               in Inr (if ok then WRetry (c # cs) else WWait (c # cs), pi))
      else
        rbind (aset (pdata pi) (unat (nwrite pi mod of_nat PIPESIZE)) c) (\<lambda>d.
          write_from p killed cs (pi\<lparr>pdata := d, nwrite := nwrite pi + 1\<rparr>)))"

definition pipeWrite :: "nat \<Rightarrow> bool \<Rightarrow> u8 list \<Rightarrow> Pipe \<Rightarrow> (wres \<times> Pipe) res" where
  "pipeWrite p killed src pi =
     rbind (acquire_spinlock (plock pi)) (\<lambda>l. write_from p killed src (pi\<lparr>plock := l\<rparr>))"

definition pipeWrite_resume :: "nat \<Rightarrow> bool \<Rightarrow> u8 list \<Rightarrow> Pipe \<Rightarrow> (wres \<times> Pipe) res" where
  "pipeWrite_resume p killed src pi =
     rbind (wait_sem_resume p (wlock pi)) (\<lambda>(ok, sem).
       if \<not> ok then Inl Panic
       else let pi = pi\<lparr>wlock := sem\<rparr>
            in rbind (acquire_spinlock (plock pi)) (\<lambda>l. write_from p killed src (pi\<lparr>plock := l\<rparr>)))"

datatype rres = RDone "u8 list" | RError | RWait | RRetry

text \<open>The copy loop of \<^verbatim>\<open>pipeRead\<close>.\<close>

fun read_bytes :: "nat \<Rightarrow> Pipe \<Rightarrow> (u8 list \<times> Pipe) res" where
  "read_bytes 0 pi = Inr ([], pi)"
| "read_bytes (Suc n) pi =
     (if nread pi = nwrite pi then Inr ([], pi)
      else rbind (aget (pdata pi) (unat (nread pi mod of_nat PIPESIZE))) (\<lambda>c.
             rbind (read_bytes n (pi\<lparr>nread := nread pi + 1\<rparr>)) (\<lambda>(cs, pi). Inr (c # cs, pi))))"

definition read_from :: "nat \<Rightarrow> bool \<Rightarrow> nat \<Rightarrow> Pipe \<Rightarrow> (rres \<times> Pipe) res" where
  "read_from p killed n pi =
     (if nread pi = nwrite pi \<and> writeopen pi
      then
        if killed then Inr (RError, pi\<lparr>plock := release_spinlock (plock pi)\<rparr>)
        else
          let pi = pi\<lparr>rlock := snd (get_all_sem (rlock pi))\<rparr>;
              pi = pi\<lparr>plock := release_spinlock (plock pi)\<rparr>;
              (ok, sem) = wait_sem_enter p (rlock pi);
              pi = pi\<lparr>rlock := sem\<rparr>
          in Inr (if ok then RRetry else RWait, pi)
      else
        rbind (read_bytes n pi) (\<lambda>(cs, pi).
          rbind (wake_all (wlock pi)) (\<lambda>sem.
            let pi = pi\<lparr>wlock := sem\<rparr>
            in Inr (RDone cs, pi\<lparr>plock := release_spinlock (plock pi)\<rparr>))))"

definition pipeRead :: "nat \<Rightarrow> bool \<Rightarrow> nat \<Rightarrow> Pipe \<Rightarrow> (rres \<times> Pipe) res" where
  "pipeRead p killed n pi =
     rbind (acquire_spinlock (plock pi)) (\<lambda>l. read_from p killed n (pi\<lparr>plock := l\<rparr>))"

definition pipeRead_resume :: "nat \<Rightarrow> bool \<Rightarrow> nat \<Rightarrow> Pipe \<Rightarrow> (rres \<times> Pipe) res" where
  "pipeRead_resume p killed n pi =
     rbind (wait_sem_resume p (rlock pi)) (\<lambda>(ok, sem).
       if \<not> ok then Inl Panic
       else let pi = pi\<lparr>rlock := sem\<rparr>
            in rbind (acquire_spinlock (plock pi)) (\<lambda>l. read_from p killed n (pi\<lparr>plock := l\<rparr>)))"

section \<open>The ring as a list\<close>

definition pipe_len :: "Pipe \<Rightarrow> nat" where
  "pipe_len pi = unat (nwrite pi - nread pi)"

definition pipe_bytes :: "Pipe \<Rightarrow> u8 list" where
  "pipe_bytes pi = map (\<lambda>k. pdata pi ! ((unat (nread pi) + k) mod PIPESIZE)) [0..<pipe_len pi]"

definition pwf :: "Pipe \<Rightarrow> bool" where
  "pwf pi \<longleftrightarrow> length (pdata pi) = PIPESIZE \<and> pipe_len pi \<le> PIPESIZE"

definition push_byte :: "u8 \<Rightarrow> Pipe \<Rightarrow> Pipe" where
  "push_byte c pi = pi\<lparr>pdata := (pdata pi)[unat (nwrite pi mod of_nat PIPESIZE) := c], nwrite := nwrite pi + 1\<rparr>"

lemma PIPESIZE_pos [simp]: "0 < PIPESIZE"
  by (simp add: PIPESIZE_def)

lemma length_pipe_bytes [simp]: "length (pipe_bytes pi) = pipe_len pi"
  by (simp add: pipe_bytes_def)

text \<open>512 divides the range of the counters, so positions in the ring do not notice the wrap-around.\<close>

lemma unat_mod_pipesize: "unat (x mod of_nat PIPESIZE :: u32) = unat x mod PIPESIZE"
  by (simp add: PIPESIZE_def unat_mod_distrib)

lemma unat_plus_mod_pipesize: "unat (x + y :: u32) mod PIPESIZE = (unat x + unat y) mod PIPESIZE"
proof -
  have "(512 :: nat) dvd 2 ^ 32" by simp
  then show ?thesis by (simp add: PIPESIZE_def unat_word_ariths mod_mod_cancel)
qed

lemma pipe_full_iff: "nwrite pi = nread pi + of_nat PIPESIZE \<longleftrightarrow> pipe_len pi = PIPESIZE"
proof
  assume "pipe_len pi = PIPESIZE"
  then have "nwrite pi - nread pi = of_nat PIPESIZE"
    by (simp add: pipe_len_def word_unat_eq_iff PIPESIZE_def)
  then show "nwrite pi = nread pi + of_nat PIPESIZE" by (simp add: algebra_simps)
qed (simp add: pipe_len_def PIPESIZE_def)

lemma pipe_empty_iff: "nread pi = nwrite pi \<longleftrightarrow> pipe_len pi = 0"
  by (auto simp: pipe_len_def unat_eq_0)

lemma nwrite_position: "unat (nwrite pi) mod PIPESIZE = (unat (nread pi) + pipe_len pi) mod PIPESIZE"
  using unat_plus_mod_pipesize [of "nread pi" "nwrite pi - nread pi"] by (simp add: pipe_len_def)

lemma push_byte_len:
  assumes "pipe_len pi < PIPESIZE"
  shows "pipe_len (push_byte c pi) = Suc (pipe_len pi)"
proof -
  have "unat (nwrite pi - nread pi) + 1 < 2 ^ 32" using assms by (simp add: pipe_len_def PIPESIZE_def)
  then have "unat (nwrite pi - nread pi + 1) = Suc (unat (nwrite pi - nread pi))"
    by (simp add: unat_word_ariths)
  then show ?thesis by (simp add: pipe_len_def push_byte_def algebra_simps)
qed

lemma mod_add_neq:
  assumes "j < k" and "k < (m :: nat)"
  shows "(a + j) mod m \<noteq> (a + k) mod m"
proof
  assume "(a + j) mod m = (a + k) mod m"
  then have "m dvd (a + k) - (a + j)" using assms by (metis mod_eq_dvd_iff_nat add_le_cancel_left less_imp_le_nat)
  then show False using assms by (simp add: nat_dvd_not_less)
qed

lemma push_byte_bytes:
  assumes "pwf pi" and "pipe_len pi < PIPESIZE"
  shows "pipe_bytes (push_byte c pi) = pipe_bytes pi @ [c]"
proof -
  let ?i = "unat (nwrite pi mod of_nat PIPESIZE)"
  have i: "?i = (unat (nread pi) + pipe_len pi) mod PIPESIZE"
    by (simp add: unat_mod_pipesize nwrite_position)
  have "?i < PIPESIZE" unfolding i by simp
  then have lt: "?i < length (pdata pi)" using assms(1) by (simp add: pwf_def)
  have "?i \<noteq> (unat (nread pi) + k) mod PIPESIZE" if "k < pipe_len pi" for k
    using mod_add_neq [OF that assms(2), of "unat (nread pi)"] by (simp add: i)
  then show ?thesis
    using lt by (simp add: pipe_bytes_def push_byte_len [OF assms(2)], simp add: push_byte_def i)
qed

lemma push_byte_wf: "pwf pi \<Longrightarrow> pipe_len pi < PIPESIZE \<Longrightarrow> pwf (push_byte c pi)"
  by (simp add: pwf_def push_byte_len) (simp add: push_byte_def)

lemma push_bytes:
  assumes "pwf pi" and "pipe_len pi + length cs \<le> PIPESIZE"
  shows "pwf (fold push_byte cs pi) \<and> pipe_bytes (fold push_byte cs pi) = pipe_bytes pi @ cs \<and>
    pipe_len (fold push_byte cs pi) = pipe_len pi + length cs"
  using assms
proof (induction cs arbitrary: pi)
  case (Cons c cs)
  then have "pwf (push_byte c pi)" "pipe_bytes (push_byte c pi) = pipe_bytes pi @ [c]"
    "pipe_len (push_byte c pi) = Suc (pipe_len pi)"
    by (simp_all add: push_byte_wf push_byte_bytes push_byte_len)
  then show ?case using Cons by simp
qed simp

lemma push_bytes_frame [simp]:
  "plock (fold push_byte cs pi) = plock pi" "wlock (fold push_byte cs pi) = wlock pi"
  "rlock (fold push_byte cs pi) = rlock pi" "readopen (fold push_byte cs pi) = readopen pi"
  "writeopen (fold push_byte cs pi) = writeopen pi"
  by (induction cs arbitrary: pi) (simp_all add: push_byte_def)

lemma pop_one:
  assumes "0 < pipe_len pi"
  shows "pipe_len (pi\<lparr>nread := nread pi + 1\<rparr>) = pipe_len pi - 1"
    and "pipe_bytes pi = pdata pi ! (unat (nread pi) mod PIPESIZE) # pipe_bytes (pi\<lparr>nread := nread pi + 1\<rparr>)"
proof -
  have "nwrite pi - nread pi \<noteq> 0" using assms by (auto simp: pipe_len_def)
  then have "unat (nwrite pi - nread pi - 1) = unat (nwrite pi - nread pi) - 1"
    by (rule unat_minus_one)
  then show l: "pipe_len (pi\<lparr>nread := nread pi + 1\<rparr>) = pipe_len pi - 1"
    by (simp add: pipe_len_def algebra_simps)
  have "[0..<pipe_len pi] = 0 # map Suc [0..<pipe_len pi - 1]"
    using assms by (simp add: map_Suc_upt upt_conv_Cons)
  moreover have "(unat (nread pi + 1) + k) mod PIPESIZE = (unat (nread pi) + Suc k) mod PIPESIZE" for k
    using mod_add_cong [OF unat_plus_mod_pipesize [of "nread pi" 1] refl, of k] by simp
  ultimately show "pipe_bytes pi = pdata pi ! (unat (nread pi) mod PIPESIZE) # pipe_bytes (pi\<lparr>nread := nread pi + 1\<rparr>)"
    by (simp add: pipe_bytes_def l)
qed

lemma pwf_update [simp]:
  "pwf (pi\<lparr>plock := l\<rparr>) = pwf pi" "pwf (pi\<lparr>wlock := a\<rparr>) = pwf pi" "pwf (pi\<lparr>rlock := a\<rparr>) = pwf pi"
  "pwf (pi\<lparr>readopen := x\<rparr>) = pwf pi" "pwf (pi\<lparr>writeopen := x\<rparr>) = pwf pi"
  "pipe_bytes (pi\<lparr>plock := l\<rparr>) = pipe_bytes pi" "pipe_bytes (pi\<lparr>wlock := a\<rparr>) = pipe_bytes pi"
  "pipe_bytes (pi\<lparr>rlock := a\<rparr>) = pipe_bytes pi" "pipe_bytes (pi\<lparr>readopen := x\<rparr>) = pipe_bytes pi"
  "pipe_bytes (pi\<lparr>writeopen := x\<rparr>) = pipe_bytes pi"
  "pipe_len (pi\<lparr>plock := l\<rparr>) = pipe_len pi" "pipe_len (pi\<lparr>wlock := a\<rparr>) = pipe_len pi"
  "pipe_len (pi\<lparr>rlock := a\<rparr>) = pipe_len pi" "pipe_len (pi\<lparr>readopen := x\<rparr>) = pipe_len pi"
  "pipe_len (pi\<lparr>writeopen := x\<rparr>) = pipe_len pi"
  by (simp_all add: pwf_def pipe_bytes_def pipe_len_def)

lemma read_bytes_spec:
  assumes "pwf pi"
  shows "\<exists>r. read_bytes n pi = Inr (take n (pipe_bytes pi), pi\<lparr>nread := r\<rparr>) \<and>
    pwf (pi\<lparr>nread := r\<rparr>) \<and> pipe_bytes (pi\<lparr>nread := r\<rparr>) = drop n (pipe_bytes pi) \<and>
    pipe_len (pi\<lparr>nread := r\<rparr>) = pipe_len pi - n"
  using assms
proof (induction n arbitrary: pi)
  case 0
  then show ?case by (intro exI [of _ "nread pi"]) simp
next
  case (Suc n)
  show ?case
  proof (cases "pipe_len pi = 0")
    case True
    then have "pipe_bytes pi = []" by (metis length_0_conv length_pipe_bytes)
    then show ?thesis
      using True Suc.prems by (intro exI [of _ "nread pi"]) (simp add: pipe_empty_iff)
  next
    case False
    let ?q = "pi\<lparr>nread := nread pi + 1\<rparr>"
    note P = pop_one [of pi]
    have q: "pwf ?q" using Suc.prems P(1) False by (auto simp: pwf_def)
    obtain r where r: "read_bytes n ?q = Inr (take n (pipe_bytes ?q), ?q\<lparr>nread := r\<rparr>)"
      "pwf (?q\<lparr>nread := r\<rparr>)" "pipe_bytes (?q\<lparr>nread := r\<rparr>) = drop n (pipe_bytes ?q)"
      "pipe_len (?q\<lparr>nread := r\<rparr>) = pipe_len ?q - n"
      using Suc.IH [OF q] by blast
    have "unat (nread pi) mod PIPESIZE < length (pdata pi)" using Suc.prems by (simp add: pwf_def)
    then have "aget (pdata pi) (unat (nread pi mod of_nat PIPESIZE)) = Inr (pdata pi ! (unat (nread pi) mod PIPESIZE))"
      by (simp add: aget_def unat_mod_pipesize)
    then show ?thesis
      using r False P by (intro exI [of _ r]) (simp add: pipe_empty_iff)
  qed
qed

definition all_up :: "Semaphore \<Rightarrow> Semaphore" where
  "all_up sem = sem\<lparr>sval := max 0 (sval sem), sleeplist := [], up := (\<lambda>p. p \<in> set (sleeplist sem) \<or> up sem p)\<rparr>"

lemma wake_all_spec: "sem_inv sem \<Longrightarrow> wake_all sem = Inr (all_up sem)"
  using post_all_loop_result [of sem "length (sleeplist sem) + 1" "-1" "[]"]
  by (simp add: wake_all_def post_all_sem_def all_up_def)

lemma all_up_inv: "sem_inv sem \<Longrightarrow> sem_inv (all_up sem)"
  by (simp add: sem_inv_def all_up_def)

definition gone_to_sleep :: "nat \<Rightarrow> Semaphore \<Rightarrow> Semaphore" where
  "gone_to_sleep p sem = sem\<lparr>sval := min 0 (sval sem) - 1, up := (up sem)(p := False), sleeplist := p # sleeplist sem\<rparr>"

lemma wait_after_get_all: "wait_sem_enter p (snd (get_all_sem sem)) = (False, gone_to_sleep p sem)"
  by (simp add: wait_sem_enter_def get_all_sem_def gone_to_sleep_def Let_def min_def)

lemma gone_to_sleep_inv: "sem_inv sem \<Longrightarrow> p \<notin> set (sleeplist sem) \<Longrightarrow> sem_inv (gone_to_sleep p sem)"
  by (auto simp: sem_inv_def gone_to_sleep_def)

lemma write_from_fill:
  assumes "pwf pi"
  shows "write_from p killed src pi =
    write_from p killed (drop (PIPESIZE - pipe_len pi) src) (fold push_byte (take (PIPESIZE - pipe_len pi) src) pi)"
  using assms
proof (induction src arbitrary: pi)
  case (Cons c cs)
  show ?case
  proof (cases "pipe_len pi = PIPESIZE")
    case False
    then have lt: "pipe_len pi < PIPESIZE" using Cons.prems by (simp add: pwf_def)
    have "unat (nwrite pi mod of_nat PIPESIZE) < length (pdata pi)"
      using Cons.prems by (simp add: unat_mod_pipesize pwf_def)
    then have "write_from p killed (c # cs) pi = write_from p killed cs (push_byte c pi)"
      using False by (simp add: pipe_full_iff aset_def push_byte_def)
    moreover have "PIPESIZE - pipe_len pi = Suc (PIPESIZE - pipe_len (push_byte c pi))"
      using lt by (simp add: push_byte_len)
    ultimately show ?thesis
      using Cons.IH [OF push_byte_wf [OF Cons.prems lt]] by simp
  qed simp
qed simp

text \<open>What a call of \<^verbatim>\<open>pipeWrite\<close> does until it returns or sleeps.\<close>

lemma write_from_spec:
  assumes "pwf pi" and "sem_inv (rlock pi)"
    and k_def: "k = PIPESIZE - pipe_len pi" and q_def: "q = fold push_byte (take k src) pi"
  shows "pwf q" and "pipe_bytes q = pipe_bytes pi @ take k src"
    and "write_from p killed src pi =
      (if length src \<le> k then Inr (WDone, q\<lparr>rlock := all_up (rlock pi), plock := False\<rparr>)
       else if \<not> readopen pi \<or> killed then Inr (WError, q\<lparr>plock := False\<rparr>)
       else Inr (WWait (drop k src), q\<lparr>wlock := gone_to_sleep p (wlock pi), rlock := all_up (rlock pi), plock := False\<rparr>))"
proof -
  have "pipe_len pi + length (take k src) \<le> PIPESIZE" using assms(1) by (auto simp: k_def pwf_def)
  note P = push_bytes [OF assms(1) this, folded q_def]
  show "pwf q" "pipe_bytes q = pipe_bytes pi @ take k src" using P by auto
  have w: "wake_all (rlock pi) = Inr (all_up (rlock pi))" by (rule wake_all_spec [OF assms(2)])
  have fr: "rlock q = rlock pi" "wlock q = wlock pi" "readopen q = readopen pi" by (simp_all add: q_def)
  have fill: "write_from p killed src pi = write_from p killed (drop k src) q"
    using write_from_fill [OF assms(1)] by (simp only: k_def q_def)
  show "write_from p killed src pi =
      (if length src \<le> k then Inr (WDone, q\<lparr>rlock := all_up (rlock pi), plock := False\<rparr>)
       else if \<not> readopen pi \<or> killed then Inr (WError, q\<lparr>plock := False\<rparr>)
       else Inr (WWait (drop k src), q\<lparr>wlock := gone_to_sleep p (wlock pi), rlock := all_up (rlock pi), plock := False\<rparr>))"
  proof (cases "length src \<le> k")
    case True
    then show ?thesis using w by (simp add: fill fr release_spinlock_def)
  next
    case False
    then obtain c cs where c: "drop k src = c # cs" by (metis drop_eq_Nil neq_Nil_conv)
    have "pipe_len q = PIPESIZE" using P False assms(1) by (simp add: k_def pwf_def)
    then show ?thesis
      using w False by (simp add: fill fr release_spinlock_def c pipe_full_iff wait_after_get_all)
  qed
qed

lemma read_from_spec:
  assumes "pwf pi" and "sem_inv (wlock pi)"
  shows "\<exists>r. pwf (pi\<lparr>nread := r\<rparr>) \<and> pipe_bytes (pi\<lparr>nread := r\<rparr>) = drop n (pipe_bytes pi) \<and>
    pipe_len (pi\<lparr>nread := r\<rparr>) = pipe_len pi - n \<and>
    read_from p killed n pi =
      (if pipe_bytes pi = [] \<and> writeopen pi
       then if killed then Inr (RError, pi\<lparr>plock := False\<rparr>)
            else Inr (RWait, pi\<lparr>rlock := gone_to_sleep p (rlock pi), plock := False\<rparr>)
       else Inr (RDone (take n (pipe_bytes pi)),
              pi\<lparr>nread := r, wlock := all_up (wlock pi), plock := False\<rparr>))"
proof -
  have e: "nread pi = nwrite pi \<longleftrightarrow> pipe_bytes pi = []"
    by (metis pipe_empty_iff length_pipe_bytes length_0_conv)
  obtain r where r: "read_bytes n pi = Inr (take n (pipe_bytes pi), pi\<lparr>nread := r\<rparr>)"
    "pwf (pi\<lparr>nread := r\<rparr>)" "pipe_bytes (pi\<lparr>nread := r\<rparr>) = drop n (pipe_bytes pi)"
    "pipe_len (pi\<lparr>nread := r\<rparr>) = pipe_len pi - n"
    using read_bytes_spec [OF assms(1)] by blast
  then show ?thesis
    using wake_all_spec [OF assms(2)]
    by (intro exI [of _ r]) (simp add: read_from_def e release_spinlock_def wait_after_get_all)
qed

section \<open>Readers and writers\<close>

text \<open>
  Any number of processes around one pipe. \<^verbatim>\<open>wrest p\<close> are the bytes that a sleeping call of \<^verbatim>\<open>pipeWrite\<close> of
  process \<^verbatim>\<open>p\<close> still has to write, \<^verbatim>\<open>rwant p\<close> the count of a sleeping call of \<^verbatim>\<open>pipeRead\<close>. \<^verbatim>\<open>sent\<close> are the
  bytes that calls of \<^verbatim>\<open>pipeWrite\<close> have put into the pipe and \<^verbatim>\<open>received\<close> those that calls of \<^verbatim>\<open>pipeRead\<close>
  have returned. A process that sleeps on one of the semaphores (in the state \<^verbatim>\<open>DEEPSLEEPING\<close>) runs again
  only after a post. \<^verbatim>\<open>aborted\<close> records that a call of \<^verbatim>\<open>pipeWrite\<close> has returned -1. The end of a pipe is closed when no file refers to it, so no call on that end is
  under way.
\<close>

record pipest =
  pp :: Pipe
  wrest :: "nat \<Rightarrow> u8 list option"
  rwant :: "nat \<Rightarrow> nat option"
  sent :: "u8 list"
  received :: "u8 list"
  aborted :: bool

definition rest_of :: "wres \<Rightarrow> u8 list option" where
  "rest_of r = (case r of WWait cs \<Rightarrow> Some cs | _ \<Rightarrow> None)"

definition accepted :: "u8 list \<Rightarrow> Pipe \<Rightarrow> u8 list" where
  "accepted src pi = take (PIPESIZE - pipe_len pi) src"

inductive pipe_step :: "pipest \<Rightarrow> pipest \<Rightarrow> bool" where
  write_call: "writeopen (pp s) \<Longrightarrow> wrest s p = None \<Longrightarrow> rwant s p = None \<Longrightarrow>
     pipeWrite p killed src (pp s) = Inr (r, pi) \<Longrightarrow>
     pipe_step s (s\<lparr>pp := pi, wrest := (wrest s)(p := rest_of r), sent := sent s @ accepted src (pp s),
       aborted := aborted s \<or> r = WError\<rparr>)"
| write_again: "wrest s p = Some src \<Longrightarrow> up (wlock (pp s)) p \<Longrightarrow>
     pipeWrite_resume p killed src (pp s) = Inr (r, pi) \<Longrightarrow>
     pipe_step s (s\<lparr>pp := pi, wrest := (wrest s)(p := rest_of r), sent := sent s @ accepted src (pp s),
       aborted := aborted s \<or> r = WError\<rparr>)"
| read_call: "readopen (pp s) \<Longrightarrow> wrest s p = None \<Longrightarrow> rwant s p = None \<Longrightarrow>
     pipeRead p killed n (pp s) = Inr (r, pi) \<Longrightarrow>
     pipe_step s (s\<lparr>pp := pi, rwant := (rwant s)(p := if r = RWait then Some n else None),
       received := received s @ (case r of RDone cs \<Rightarrow> cs | _ \<Rightarrow> [])\<rparr>)"
| read_again: "rwant s p = Some n \<Longrightarrow> up (rlock (pp s)) p \<Longrightarrow>
     pipeRead_resume p killed n (pp s) = Inr (r, pi) \<Longrightarrow>
     pipe_step s (s\<lparr>pp := pi, rwant := (rwant s)(p := if r = RWait then Some n else None),
       received := received s @ (case r of RDone cs \<Rightarrow> cs | _ \<Rightarrow> [])\<rparr>)"
| close_write: "writeopen (pp s) \<Longrightarrow> (\<And>p. wrest s p = None) \<Longrightarrow>
     pipeClose True (pp s) = Inr (freed, pi) \<Longrightarrow> pipe_step s (s\<lparr>pp := pi\<rparr>)"
| close_read: "readopen (pp s) \<Longrightarrow> (\<And>p. rwant s p = None) \<Longrightarrow>
     pipeClose False (pp s) = Inr (freed, pi) \<Longrightarrow> pipe_step s (s\<lparr>pp := pi\<rparr>)"

definition pipe_start :: "u8 list \<Rightarrow> pipest" where
  "pipe_start garbage = \<lparr>pp = init_pipe garbage, wrest = (\<lambda>_. None), rwant = (\<lambda>_. None), sent = [], received = [],
     aborted = False\<rparr>"

inductive pipe_reachable :: "pipest \<Rightarrow> bool" where
  pipe_new: "length garbage = PIPESIZE \<Longrightarrow> pipe_reachable (pipe_start garbage)"
| pipe_next: "pipe_reachable s \<Longrightarrow> pipe_step s t \<Longrightarrow> pipe_reachable t"

text \<open>The processes that wait and have not been woken are those on the sleep list.\<close>

definition sleepers_ok :: "Semaphore \<Rightarrow> (nat \<Rightarrow> 'a option) \<Rightarrow> bool" where
  "sleepers_ok sem w \<longleftrightarrow> sem_inv sem \<and> set (sleeplist sem) = {p. w p \<noteq> None \<and> \<not> up sem p}"

lemma sleepers_ok_all_up: "sleepers_ok sem w \<Longrightarrow> sleepers_ok (all_up sem) w"
  using all_up_inv by (auto simp: sleepers_ok_def) (simp_all add: all_up_def)

lemma sleepers_ok_sleep:
  "sleepers_ok sem w \<Longrightarrow> p \<notin> set (sleeplist sem) \<Longrightarrow> sleepers_ok (gone_to_sleep p sem) (w(p := Some x))"
  using gone_to_sleep_inv by (auto simp: sleepers_ok_def) (auto simp: gone_to_sleep_def)

lemma sleepers_ok_drop: "sleepers_ok sem w \<Longrightarrow> p \<notin> set (sleeplist sem) \<Longrightarrow> sleepers_ok sem (w(p := None))"
  by (auto simp: sleepers_ok_def)

lemma sleepers_ok_post:
  assumes "sleepers_ok sem w"
  shows "\<exists>x sem'. post_sem sem = Inr (x, sem') \<and> sleepers_ok sem' w \<and> set (sleeplist sem') \<subseteq> set (sleeplist sem)"
proof (cases "sval sem < 0")
  case True
  have si: "sem_inv sem" using assms by (simp add: sleepers_ok_def)
  note P = post_sem_sleeper [OF si True]
  have d: "distinct (sleeplist sem)" using si by (simp add: sem_inv_def)
  have b: "set (butlast (sleeplist sem)) = set (sleeplist sem) - {last (sleeplist sem)}"
    using last_remove1 [OF d P(2)] set_remove1_eq [OF d, of "last (sleeplist sem)"] by simp
  obtain sem' where s: "post_sem sem = Inr (Some (last (sleeplist sem)), sem')" "sem_inv sem'"
    "sem' = sem\<lparr>sval := sval sem + 1, up := (up sem)(last (sleeplist sem) := True), sleeplist := butlast (sleeplist sem)\<rparr>"
    using P(1) post_sem_inv [OF si] by auto
  have "sleepers_ok sem' w" using assms b s(2) by (auto simp: sleepers_ok_def s(3))
  then show ?thesis using s b by auto
next
  case False
  then show ?thesis
    using post_sem_free [of sem] assms by (auto simp: sleepers_ok_def sem_inv_def)
qed

definition pipe_inv :: "pipest \<Rightarrow> bool" where
  "pipe_inv s \<longleftrightarrow> pwf (pp s) \<and> \<not> plock (pp s) \<and> sent s = received s @ pipe_bytes (pp s) \<and>
     sleepers_ok (rlock (pp s)) (rwant s) \<and> sleepers_ok (wlock (pp s)) (wrest s) \<and>
     (\<not> aborted s \<and> writeopen (pp s) \<and> sleeplist (rlock (pp s)) \<noteq> [] \<longrightarrow> pipe_bytes (pp s) = []) \<and>
     (readopen (pp s) \<and> sleeplist (wlock (pp s)) \<noteq> [] \<longrightarrow> pipe_len (pp s) = PIPESIZE)"

lemma pipe_start_inv: "length garbage = PIPESIZE \<Longrightarrow> pipe_inv (pipe_start garbage)"
  by (simp add: pipe_inv_def pipe_start_def init_pipe_def pwf_def pipe_len_def pipe_bytes_def
      init_spinlock_def sleepers_ok_def init_sem_inv) (simp add: init_sem_def)

lemma sleeplist_simps [simp]: "sleeplist (all_up sem) = []" "sleeplist (gone_to_sleep p sem) = p # sleeplist sem"
  by (simp_all add: all_up_def gone_to_sleep_def)

lemma write_from_inv:
  assumes inv: "pipe_inv s" and p: "p \<notin> set (sleeplist (wlock (pp s)))"
    and w: "write_from p killed src ((pp s)\<lparr>plock := True\<rparr>) = Inr (r, pi)"
  shows "pipe_inv (s\<lparr>pp := pi, wrest := (wrest s)(p := rest_of r), sent := sent s @ accepted src (pp s),
    aborted := aborted s \<or> r = WError\<rparr>)"
proof -
  note I = inv [unfolded pipe_inv_def]
  let ?pi = "(pp s)\<lparr>plock := True\<rparr>"
  define k where "k = PIPESIZE - pipe_len (pp s)"
  define q where "q = fold push_byte (take k src) ?pi"
  have pre: "pwf ?pi" "sem_inv (rlock ?pi)" "k = PIPESIZE - pipe_len ?pi"
    using I by (simp_all add: k_def sleepers_ok_def)
  note W = write_from_spec [OF pre q_def]
  have fr [simp]: "rlock q = rlock (pp s)" "wlock q = wlock (pp s)" "readopen q = readopen (pp s)"
    "writeopen q = writeopen (pp s)" by (simp_all add: q_def)
  have acc [simp]: "accepted src (pp s) = take k src" by (simp add: accepted_def k_def)
  have len: "pipe_len q = pipe_len (pp s) + min (length src) k"
    using arg_cong [OF W(2), of length] by simp
  have snt: "sent s @ take k src = received s @ pipe_bytes q" using I W(2) by simp
  have full: "pipe_len q = PIPESIZE" if "length src > k" using that I by (simp add: len k_def pwf_def)
  have stay: "pipe_len q = PIPESIZE" if "pipe_len (pp s) = PIPESIZE" using that by (simp add: len k_def)
  note S = sleepers_ok_all_up [of "rlock (pp s)" "rwant s"] sleepers_ok_drop [OF _ p, of "wrest s"]
    sleepers_ok_sleep [OF _ p, of "wrest s"]
  consider "length src \<le> k" "r = WDone" "pi = q\<lparr>rlock := all_up (rlock (pp s)), plock := False\<rparr>"
    | "length src > k" "\<not> readopen (pp s) \<or> killed" "r = WError" "pi = q\<lparr>plock := False\<rparr>"
    | "length src > k" "readopen (pp s)" "r = WWait (drop k src)"
      "pi = q\<lparr>wlock := gone_to_sleep p (wlock (pp s)), rlock := all_up (rlock (pp s)), plock := False\<rparr>"
    using w W(3) [of p killed] by (auto split: if_splits)
  then show ?thesis
    by cases (use I W(1) S snt stay full in \<open>simp_all add: pipe_inv_def rest_of_def\<close>)
qed

lemma read_from_inv:
  assumes inv: "pipe_inv s" and p: "p \<notin> set (sleeplist (rlock (pp s)))"
    and w: "read_from p killed n ((pp s)\<lparr>plock := True\<rparr>) = Inr (r, pi)"
  shows "pipe_inv (s\<lparr>pp := pi, rwant := (rwant s)(p := if r = RWait then Some n else None),
       received := received s @ (case r of RDone cs \<Rightarrow> cs | _ \<Rightarrow> [])\<rparr>)"
proof -
  note I = inv [unfolded pipe_inv_def]
  let ?pi = "(pp s)\<lparr>plock := True\<rparr>"
  have pre: "pwf ?pi" "sem_inv (wlock ?pi)" using I by (simp_all add: sleepers_ok_def)
  obtain x where x: "pwf (?pi\<lparr>nread := x\<rparr>)" "pipe_bytes (?pi\<lparr>nread := x\<rparr>) = drop n (pipe_bytes (pp s))"
    "pipe_len (?pi\<lparr>nread := x\<rparr>) = pipe_len (pp s) - n"
    "read_from p killed n ?pi =
      (if pipe_bytes (pp s) = [] \<and> writeopen (pp s)
       then if killed then Inr (RError, (pp s)\<lparr>plock := False\<rparr>)
            else Inr (RWait, (pp s)\<lparr>rlock := gone_to_sleep p (rlock (pp s)), plock := False\<rparr>)
       else Inr (RDone (take n (pipe_bytes (pp s))),
              (pp s)\<lparr>nread := x, wlock := all_up (wlock (pp s)), plock := False\<rparr>))"
    using read_from_spec [OF pre, of n p killed] by auto
  have y: "pwf ((pp s)\<lparr>nread := x\<rparr>)" "pipe_bytes ((pp s)\<lparr>nread := x\<rparr>) = drop n (pipe_bytes (pp s))"
    using x(1,2) by (simp_all add: pwf_def pipe_bytes_def pipe_len_def)
  note S = sleepers_ok_all_up [of "wlock (pp s)" "wrest s"] sleepers_ok_drop [OF _ p, of "rwant s"]
    sleepers_ok_sleep [OF _ p, of "rwant s"]
  consider "r = RError" "pi = (pp s)\<lparr>plock := False\<rparr>"
    | "pipe_bytes (pp s) = []" "writeopen (pp s)" "r = RWait"
      "pi = (pp s)\<lparr>rlock := gone_to_sleep p (rlock (pp s)), plock := False\<rparr>"
    | "r = RDone (take n (pipe_bytes (pp s)))"
      "pi = (pp s)\<lparr>nread := x, wlock := all_up (wlock (pp s)), plock := False\<rparr>"
    using w x(4) by (auto split: if_splits)
  then show ?thesis
    by cases (use I S y in \<open>simp_all add: pipe_inv_def\<close>)
qed

lemma woken_not_asleep: "sleepers_ok sem w \<Longrightarrow> up sem p \<Longrightarrow> p \<notin> set (sleeplist sem)"
  and waiting_not_asleep: "sleepers_ok sem w \<Longrightarrow> w p = None \<Longrightarrow> p \<notin> set (sleeplist sem)"
  by (auto simp: sleepers_ok_def)

lemma resume_woken:
  "up (wlock pi) p \<Longrightarrow> pipeWrite_resume p killed src pi = pipeWrite p killed src pi"
  "up (rlock pi) p \<Longrightarrow> pipeRead_resume p killed n pi = pipeRead p killed n pi"
  by (simp_all add: pipeWrite_resume_def pipeRead_resume_def pipeWrite_def pipeRead_def wait_sem_resume_def)

lemma pipeClose_write_end:
  assumes "\<not> plock pi" and "post_sem (rlock pi) = Inr (x, sem)"
  shows "pipeClose True pi = Inr (\<not> readopen pi, pi\<lparr>plock := False, writeopen := False, rlock := sem\<rparr>)"
  using assms by (simp add: pipeClose_def Let_def release_spinlock_def)

lemma pipeClose_read_end:
  assumes "\<not> plock pi" and "post_sem (wlock pi) = Inr (x, sem)"
  shows "pipeClose False pi = Inr (\<not> writeopen pi, pi\<lparr>plock := False, readopen := False, wlock := sem\<rparr>)"
  using assms by (simp add: pipeClose_def Let_def release_spinlock_def)

lemma pipe_close_inv:
  assumes inv: "pipe_inv s" and c: "pipeClose b (pp s) = Inr (freed, pi)"
  shows "pipe_inv (s\<lparr>pp := pi\<rparr>)"
proof -
  note I = inv [unfolded pipe_inv_def]
  obtain x sem where x: "post_sem (if b then rlock (pp s) else wlock (pp s)) = Inr (x, sem)"
    "b \<longrightarrow> sleepers_ok sem (rwant s)" "\<not> b \<longrightarrow> sleepers_ok sem (wrest s)"
    using sleepers_ok_post [of "rlock (pp s)" "rwant s"] sleepers_ok_post [of "wlock (pp s)" "wrest s"] I
    by (cases b) auto
  have "pi = (if b then (pp s)\<lparr>plock := False, writeopen := False, rlock := sem\<rparr>
      else (pp s)\<lparr>plock := False, readopen := False, wlock := sem\<rparr>)"
    using c x(1) I by (cases b) (simp_all add: pipeClose_write_end pipeClose_read_end)
  then show ?thesis using I x(2,3) by (simp add: pipe_inv_def)
qed

lemma pipe_calls_start:
  assumes "pipe_inv s"
  shows "pipeWrite p killed src (pp s) = write_from p killed src ((pp s)\<lparr>plock := True\<rparr>)"
    and "pipeRead p killed n (pp s) = read_from p killed n ((pp s)\<lparr>plock := True\<rparr>)"
  using assms by (simp_all add: pipeWrite_def pipeRead_def pipe_inv_def)

lemma not_asleep:
  assumes "pipe_inv s"
  shows "wrest s p = None \<or> up (wlock (pp s)) p \<Longrightarrow> p \<notin> set (sleeplist (wlock (pp s)))"
    and "rwant s p = None \<or> up (rlock (pp s)) p \<Longrightarrow> p \<notin> set (sleeplist (rlock (pp s)))"
  using assms unfolding pipe_inv_def by (blast dest: woken_not_asleep waiting_not_asleep)+

lemma pipe_step_inv: "pipe_step s t \<Longrightarrow> pipe_inv s \<Longrightarrow> pipe_inv t"
proof (induction rule: pipe_step.induct)
  case (write_call s p killed src r pi)
  then show ?case
    using write_from_inv [OF write_call(5) not_asleep(1) [OF write_call(5)]]
    by (simp add: pipe_calls_start(1) [OF write_call(5)])
next
  case (write_again s p src killed r pi)
  then show ?case
    using write_from_inv [OF write_again(4) not_asleep(1) [OF write_again(4)]]
    by (simp add: resume_woken(1) pipe_calls_start(1) [OF write_again(4)])
next
  case (read_call s p killed n r pi)
  then show ?case
    using read_from_inv [OF read_call(5) not_asleep(2) [OF read_call(5)]]
    by (simp add: pipe_calls_start(2) [OF read_call(5)])
next
  case (read_again s p n killed r pi)
  then show ?case
    using read_from_inv [OF read_again(4) not_asleep(2) [OF read_again(4)]]
    by (simp add: resume_woken(2) pipe_calls_start(2) [OF read_again(4)])
qed (blast intro: pipe_close_inv)+

lemma pipe_reachable_inv: "pipe_reachable s \<Longrightarrow> pipe_inv s"
  by (induction rule: pipe_reachable.induct) (auto intro: pipe_start_inv pipe_step_inv)

section \<open>Properties\<close>

lemma pipe_calls_return:
  assumes "pipe_inv s"
  shows "\<exists>r pi. pipeWrite p killed src (pp s) = Inr (r, pi)" and "\<exists>r pi. pipeRead p killed n (pp s) = Inr (r, pi)"
proof -
  let ?pi = "(pp s)\<lparr>plock := True\<rparr>"
  have pre: "pwf ?pi" "sem_inv (rlock ?pi)" "sem_inv (wlock ?pi)"
    using assms by (simp_all add: pipe_inv_def sleepers_ok_def)
  show "\<exists>r pi. pipeWrite p killed src (pp s) = Inr (r, pi)"
    using write_from_spec(3) [OF pre(1,2) refl refl, of p killed src]
    by (simp add: pipe_calls_start [OF assms] del: write_from.simps)
  show "\<exists>r pi. pipeRead p killed n (pp s) = Inr (r, pi)"
    using read_from_spec [OF pre(1,3), of n p killed] by (auto simp: pipe_calls_start [OF assms])
qed

text \<open>
  C26: a pipe is a reliable byte stream. In every reachable state, for any number of readers and writers,
  any splitting of the bytes into calls and any number of wrap-arounds of the ring and of the 32-bit
  counters, the bytes returned by reads, followed by the at most 512 bytes in the ring, are the bytes
  accepted from writes, in order; and a call on the pipe either returns or sleeps, without a panic
  and without an access outside the ring.
\<close>

theorem pipe_byte_stream:
  assumes "pipe_reachable s"
  shows "sent s = received s @ pipe_bytes (pp s) \<and> length (pipe_bytes (pp s)) \<le> PIPESIZE \<and>
    (\<forall>p killed src. \<exists>r pi. pipeWrite p killed src (pp s) = Inr (r, pi)) \<and>
    (\<forall>p killed n. \<exists>r pi. pipeRead p killed n (pp s) = Inr (r, pi))"
proof -
  have "pipe_inv s" by (rule pipe_reachable_inv [OF assms])
  then show ?thesis using pipe_calls_return by (auto simp: pipe_inv_def pwf_def)
qed

lemma demo_pipe:
  "\<exists>t. pipe_reachable t \<and> sent t = [1, 2] \<and> received t = []"
proof -
  let ?s = "pipe_start (replicate 512 0)"
  have r: "pipe_reachable ?s" by (intro pipe_new) (simp add: PIPESIZE_def)
  obtain x pi where "pipeWrite 7 False [1, 2] (pp ?s) = Inr (x, pi)"
    using pipe_calls_return [OF pipe_reachable_inv [OF r]] by blast
  define t where "t = ?s\<lparr>pp := pi, wrest := (wrest ?s)(7 := rest_of x),
      sent := sent ?s @ accepted [1, 2] (pp ?s), aborted := aborted ?s \<or> x = WError\<rparr>"
  have "pipe_step ?s t"
    unfolding t_def by (rule write_call [OF _ _ _ \<open>pipeWrite 7 False [1, 2] (pp ?s) = Inr (x, pi)\<close>])
      (simp_all add: pipe_start_def init_pipe_def)
  then have "pipe_reachable t" by (rule pipe_next [OF r])
  moreover have "accepted [1, 2] (pp ?s) = [1, 2]"
    by (simp add: accepted_def pipe_start_def init_pipe_def pipe_len_def PIPESIZE_def)
  then have "sent t = [1, 2]" "received t = []" by (simp_all add: t_def pipe_start_def)
  ultimately show ?thesis by blast
qed

theorem pipe_byte_stream_witness: "\<exists>t. pipe_reachable t \<and> pipe_bytes (pp t) = [1, 2]"
  using demo_pipe pipe_byte_stream by fastforce



text \<open>After the write end is closed, no step touches the readers that are still asleep.\<close>

definition stranded :: "nat \<Rightarrow> pipest \<Rightarrow> bool" where
  "stranded p s \<longleftrightarrow> pipe_inv s \<and> \<not> writeopen (pp s) \<and> (\<forall>q. wrest s q = None) \<and> p \<in> set (sleeplist (rlock (pp s)))"

lemma read_closed:
  assumes "stranded p s" and "read_from q killed n ((pp s)\<lparr>plock := True\<rparr>) = Inr (r, pi)"
  shows "rlock pi = rlock (pp s)" and "writeopen pi = writeopen (pp s)"
proof -
  have pre: "pwf ((pp s)\<lparr>plock := True\<rparr>)" "sem_inv (wlock ((pp s)\<lparr>plock := True\<rparr>))"
    using assms(1) by (simp_all add: stranded_def pipe_inv_def sleepers_ok_def)
  show "rlock pi = rlock (pp s)" "writeopen pi = writeopen (pp s)"
    using read_from_spec [OF pre, of n q killed] assms by (auto simp: stranded_def)
qed

lemma stranded_step: "pipe_step s t \<Longrightarrow> stranded p s \<Longrightarrow> stranded p t"
proof -
  assume st: "pipe_step s t" and S: "stranded p s"
  have inv: "pipe_inv s" and inv': "pipe_inv t" using S pipe_step_inv [OF st] by (simp_all add: stranded_def)
  have rw: "rwant s p \<noteq> None" using S by (auto simp: stranded_def pipe_inv_def sleepers_ok_def)
  from st show ?thesis
  proof cases
    case (read_call q killed n r pi)
    then show ?thesis
      using S inv' read_closed [OF S, of q killed n r pi] pipe_calls_start(2) [OF inv]
      by (simp add: stranded_def)
  next
    case (read_again q n killed r pi)
    then show ?thesis
      using S inv' read_closed [OF S, of q killed n r pi] pipe_calls_start(2) [OF inv] resume_woken(2)
      by (simp add: stranded_def)
  qed (use S rw in \<open>auto simp: stranded_def\<close>)
qed

lemma stranded_steps: "pipe_step\<^sup>*\<^sup>* s t \<Longrightarrow> stranded p s \<Longrightarrow> stranded p t"
  by (induction rule: rtranclp_induct) (auto intro: stranded_step)


lemma reader_sleeps:
  assumes "pipe_reachable s" and "readopen (pp s)" and "writeopen (pp s)" and "pipe_bytes (pp s) = []"
    and "wrest s p = None" and "rwant s p = None"
  shows "pipe_reachable (s\<lparr>pp := (pp s)\<lparr>rlock := gone_to_sleep p (rlock (pp s)), plock := False\<rparr>,
    rwant := (rwant s)(p := Some n)\<rparr>)"
proof -
  have inv: "pipe_inv s" by (rule pipe_reachable_inv [OF assms(1)])
  have pre: "pwf ((pp s)\<lparr>plock := True\<rparr>)" "sem_inv (wlock ((pp s)\<lparr>plock := True\<rparr>))"
    using inv by (simp_all add: pipe_inv_def sleepers_ok_def)
  have "pipeRead p False n (pp s) = Inr (RWait, (pp s)\<lparr>rlock := gone_to_sleep p (rlock (pp s)), plock := False\<rparr>)"
    using read_from_spec [OF pre, of n p False] pipe_calls_start(2) [OF inv] assms by auto
  from pipe_next [OF assms(1) read_call [OF assms(2,5,6) this]] show ?thesis by simp
qed


end
