(* ===== verification/Log.thy ===== *)
theory Log
  imports Cache_Inv
begin

text \<open>
  The write-ahead log of \<^verbatim>\<open>src/src/fs/cache.c\<close>: what \<^verbatim>\<open>commit\<close> writes and in which order, and what
  \<^verbatim>\<open>init_bcache\<close> makes of the disk when the machine stopped after any of these writes. A block
  write is atomic, as the SD card promises.
\<close>

section \<open>Sequences of block writes\<close>

definition apply_writes :: "(nat \<times> u8 list) list \<Rightarrow> (nat \<Rightarrow> u8 list) \<Rightarrow> nat \<Rightarrow> u8 list" where
  "apply_writes ws d = fold (\<lambda>(b, x) d. d(b := x)) ws d"

lemma apply_writes_simps [simp]:
  "apply_writes [] d = d"
  "apply_writes ((b, x) # ws) d = apply_writes ws (d(b := x))"
  "apply_writes (ws @ vs) d = apply_writes vs (apply_writes ws d)"
  by (simp_all add: apply_writes_def)

lemma apply_writes_map_of:
  "apply_writes ws d b = (case map_of (rev ws) b of None \<Rightarrow> d b | Some x \<Rightarrow> x)"
  by (induction ws arbitrary: d) (auto simp: map_add_def split: option.splits)

lemma apply_writes_other: "b \<notin> fst ` set ws \<Longrightarrow> apply_writes ws d b = d b"
  by (induction ws arbitrary: d) auto

lemma apply_writes_again:
  assumes "\<And>b. d b \<noteq> d' b \<Longrightarrow> b \<in> fst ` set ws \<or> b \<in> A" and "b \<notin> A"
  shows "apply_writes ws d b = apply_writes ws d' b"
proof (cases "b \<in> fst ` set ws")
  case True
  then obtain x where "map_of (rev ws) b = Some x"
    by (metis map_of_eq_None_iff not_None_eq set_rev)
  then show ?thesis by (simp add: apply_writes_map_of)
next
  case False
  then show ?thesis using assms by (auto simp: apply_writes_other)
qed

lemma apply_writes_prefix:
  "apply_writes (take j ws) d b \<noteq> d b \<Longrightarrow> b \<in> fst ` set ws"
  using apply_writes_other [of b "take j ws" d] set_take_subset [of j ws] by blast

section \<open>The header block\<close>

lemma length_concat_le: "length (concat (map (le_encode k) ns)) = k * length ns"
  by (induction ns) auto

lemma take_drop_concat_le:
  "i < length ns \<Longrightarrow> take k (drop (k * i) (concat (map (le_encode k) ns))) = le_encode k (ns ! i)"
proof (induction ns arbitrary: i)
  case (Cons n ns)
  show ?case
  proof (cases i)
    case (Suc j)
    then show ?thesis using Cons by simp
  qed simp
qed simp

lemma length_header_bytes:
  "length (hdr_block_no h) = LOG_MAX_SIZE \<Longrightarrow> length (header_bytes h) = BLOCK_SIZE"
  by (simp add: header_bytes_def length_concat_le fs_consts)

lemma header_bytes_num: "rd 8 0 (header_bytes h) = hdr_num_blocks h mod 2 ^ 64"
  by (simp add: rd_def header_bytes_def)

lemma header_bytes_no:
  assumes "i < length (hdr_block_no h)"
  shows "rd 8 (8 + 8 * i) (header_bytes h) = hdr_block_no h ! i mod 2 ^ 64"
  using take_drop_concat_le [OF assms, of 8] by (simp add: rd_def header_bytes_def)

text \<open>A header comes back from the disk except for its field \<^verbatim>\<open>valid\<close>.\<close>

lemma header_load_bytes:
  assumes "length (hdr_block_no h) = LOG_MAX_SIZE" and "hdr_num_blocks h < 2 ^ 64"
    and "\<And>n. n \<in> set (hdr_block_no h) \<Longrightarrow> n < 2 ^ 64"
  shows "header_load (header_bytes h) h' = h'\<lparr>hdr_num_blocks := hdr_num_blocks h,
    hdr_block_no := hdr_block_no h\<rparr>"
proof -
  have "map (\<lambda>i. rd 8 (8 + 8 * i) (header_bytes h)) [0..<LOG_MAX_SIZE] = hdr_block_no h"
  proof (rule nth_equalityI)
    fix i assume "i < length (map (\<lambda>i. rd 8 (8 + 8 * i) (header_bytes h)) [0..<LOG_MAX_SIZE])"
    then have i: "i < length (hdr_block_no h)" using assms(1) by simp
    then have "hdr_block_no h ! i < 2 ^ 64" using assms(3) by simp
    then show "map (\<lambda>i. rd 8 (8 + 8 * i) (header_bytes h)) [0..<LOG_MAX_SIZE] ! i = hdr_block_no h ! i"
      using header_bytes_no [OF i] i assms(1) by simp
  qed (simp add: assms(1))
  then show ?thesis
    using assms(2) by (simp add: header_load_def header_bytes_num)
qed

section \<open>What commit writes\<close>

definition pins :: "bcst \<Rightarrow> addr list" where
  "pins s = filter (\<lambda>a. pinned (blk s a)) (cached s)"

definition log_writes :: "SuperBlock \<Rightarrow> bcst \<Rightarrow> (nat \<times> u8 list) list" where
  "log_writes sb s =
     map (\<lambda>i. (log_start sb + 1 + i, blk_data (blk s (pins s ! i)))) [0..<length (pins s)]"

definition data_writes :: "bcst \<Rightarrow> (nat \<times> u8 list) list" where
  "data_writes s = map (\<lambda>a. (bno_of s a, blk_data (blk s a))) (pins s)"

definition commit_nos :: "bcst \<Rightarrow> nat list" where
  "commit_nos s = map (bno_of s) (pins s) @ drop (length (pins s)) (hdr_block_no (header s))"

definition full_header :: "bcst \<Rightarrow> LogHeader" where
  "full_header s = \<lparr>hdr_num_blocks = length (pins s), hdr_block_no = commit_nos s, hdr_valid = True\<rparr>"

definition empty_header :: "bcst \<Rightarrow> LogHeader" where
  "empty_header s = \<lparr>hdr_num_blocks = 0, hdr_block_no = commit_nos s, hdr_valid = False\<rparr>"

definition commit_writes :: "SuperBlock \<Rightarrow> bcst \<Rightarrow> (nat \<times> u8 list) list" where
  "commit_writes sb s = log_writes sb s @ [(log_start sb, header_bytes (full_header s))] @
     data_writes s @ [(log_start sb, header_bytes (empty_header s))]"

definition log_area :: "SuperBlock \<Rightarrow> nat set" where
  "log_area sb = {log_start sb..<log_start sb + num_log_blocks sb}"

text \<open>
  The layout that \<^verbatim>\<open>mkfs\<close> makes, and the state in which \<^verbatim>\<open>cache_end_op\<close> commits: the log on the
  disk is empty, the pinned blocks fit into it and are not blocks of the log, and every changed
  block was synced.
\<close>

definition sb_ok :: "SuperBlock \<Rightarrow> bool" where
  "sb_ok sb \<longleftrightarrow> 1 \<le> num_log_blocks sb \<and> log_start sb + num_log_blocks sb \<le> inode_start sb \<and>
     inode_start sb < 2 ^ 32"

definition log_ready :: "SuperBlock \<Rightarrow> bcst \<Rightarrow> bool" where
  "log_ready sb s \<longleftrightarrow> bc_inv s \<and> sb_ok sb \<and>
     length (pins s) \<le> num_log_blocks sb - 1 \<and> length (pins s) \<le> LOG_MAX_SIZE \<and>
     (\<forall>a\<in>set (pins s). bno_of s a \<notin> log_area sb) \<and>
     (\<forall>a\<in>set (cached s). clean s a) \<and>
     (\<forall>n\<in>set (commit_nos s). n < 2 ^ 64) \<and>
     rd 8 0 (disk s (log_start sb)) = 0"

lemma log_readyD:
  assumes "log_ready sb s"
  shows "bc_inv s" and "sb_ok sb" and "length (pins s) \<le> num_log_blocks sb - 1"
    and "length (pins s) \<le> LOG_MAX_SIZE"
    and "a \<in> set (pins s) \<Longrightarrow> bno_of s a \<notin> log_area sb"
    and "a \<in> set (cached s) \<Longrightarrow> clean s a"
    and "n \<in> set (commit_nos s) \<Longrightarrow> n < 2 ^ 64"
    and "rd 8 0 (disk s (log_start sb)) = 0"
  using assms unfolding log_ready_def by blast+

lemma scan_pinned_eq:
  "length save + length (filter (\<lambda>a. pinned (bl a)) as) \<le> room \<Longrightarrow>
   scan_pinned room bl as save = Inr (save @ filter (\<lambda>a. pinned (bl a)) as)"
  by (induction as arbitrary: save) auto

lemma scan_pinned_room:
  "scan_pinned room bl as save = Inr xs \<Longrightarrow> length save \<le> room \<Longrightarrow> length xs \<le> room"
  by (induction as arbitrary: save) (auto split: if_splits)

definition after_writes :: "(nat \<times> u8 list) list \<Rightarrow> bcst \<Rightarrow> bcst" where
  "after_writes ws s = s\<lparr>disk := apply_writes ws (disk s), writes := writes s @ ws\<rparr>"

lemma after_writes_simps [simp]:
  "after_writes [] s = s"
  "after_writes ws (dev_write b x s) = after_writes ((b, x) # ws) s"
  "after_writes vs (after_writes ws s) = after_writes (ws @ vs) s"
  "blk (after_writes ws s) = blk s" "cached (after_writes ws s) = cached s"
  "header (after_writes ws s) = header s" "disk (after_writes ws s) = apply_writes ws (disk s)"
  "cache_lock (after_writes ws s) = cache_lock s" "log (after_writes ws s) = log s"
  "write_log_count (after_writes ws s) = write_log_count s"
  "writes (after_writes ws s) = writes s @ ws"
  "num_cached_blocks (after_writes ws s) = num_cached_blocks s"
  by (simp_all add: after_writes_def dev_write_def)

lemma dev_write_after: "dev_write b x s = after_writes [(b, x)] s"
  by (simp add: after_writes_def dev_write_def)

lemma write_log_blocks_eq:
  "write_log_blocks sb i as s =
     after_writes (map (\<lambda>j. (log_start sb + 1 + (i + j), blk_data (blk s (as ! j)))) [0..<length as]) s"
proof (induction as arbitrary: i s)
  case (Cons a as)
  have "map (\<lambda>j. (log_start sb + 1 + (i + j), blk_data (blk s ((a # as) ! j)))) [0..<length (a # as)] =
    (log_start sb + 1 + i, blk_data (blk s a)) #
      map (\<lambda>j. (log_start sb + 1 + (i + 1 + j), blk_data (blk s (as ! j)))) [0..<length as]"
    by (simp add: upt_conv_Cons map_Suc_upt [symmetric] comp_def del: upt_Suc map_Suc_upt)
  then show ?case
    using Cons.IH [of "i + 1"] by (simp add: device_write_def dev_write_after)
qed simp

lemma set_header_nos_eq:
  "i + length bs \<le> length ns \<Longrightarrow>
   set_header_nos i bs ns = Inr (take i ns @ bs @ drop (i + length bs) ns)"
proof (induction bs arbitrary: i ns)
  case (Cons b bs)
  have "take (i + 1) (ns[i := b]) = take i ns @ [b]"
    using Cons.prems by (simp add: take_Suc_conv_app_nth)
  then show ?case
    using Cons by (simp add: aset_def)
qed simp

definition unpin :: "addr set \<Rightarrow> (addr \<Rightarrow> Block) \<Rightarrow> addr \<Rightarrow> Block" where
  "unpin A bl = (\<lambda>a. if a \<in> A then (bl a)\<lparr>pinned := False\<rparr> else bl a)"

lemma fold_device_write:
  "fold (\<lambda>a s. device_write (blk s a) s) as s =
     after_writes (map (\<lambda>a. (bno_of s a, blk_data (blk s a))) as) s"
  by (induction as arbitrary: s) (simp_all add: device_write_def dev_write_after)

lemma fold_unpin:
  "fold (\<lambda>a s. set_blk a (\<lambda>b. b\<lparr>pinned := False\<rparr>) s) as s = s\<lparr>blk := unpin (set as) (blk s)\<rparr>"
proof (induction as arbitrary: s)
  case (Cons a as)
  have "unpin (set as) (\<lambda>b. if b = a then (blk s a)\<lparr>pinned := False\<rparr> else blk s b) =
      unpin (set (a # as)) (blk s)"
    by (auto simp: unpin_def fun_eq_iff)
  then show ?case using Cons.IH [of "set_blk a (\<lambda>b. b\<lparr>pinned := False\<rparr>) s"] by (simp add: set_blk_def)
qed (simp add: unpin_def)

lemma sb_ok_room:
  assumes "sb_ok sb"
  shows "u32_sub (num_log_blocks sb) 1 = num_log_blocks sb - 1"
    and "num_log_blocks sb - 1 \<le> u32_sub (u32_sub (inode_start sb) (log_start sb)) 1"
proof -
  have n: "1 \<le> num_log_blocks sb" "log_start sb + num_log_blocks sb \<le> inode_start sb"
    "inode_start sb < 2 ^ 32"
    using assms by (auto simp: sb_ok_def)
  then show "u32_sub (num_log_blocks sb) 1 = num_log_blocks sb - 1"
    using u32_sub_le [of 1 "num_log_blocks sb"] by linarith
  have "u32_sub (inode_start sb) (log_start sb) = inode_start sb - log_start sb"
    using n by (intro u32_sub_le) linarith+
  moreover have "u32_sub (inode_start sb - log_start sb) 1 = inode_start sb - log_start sb - 1"
    using n by (intro u32_sub_le) linarith+
  ultimately show "num_log_blocks sb - 1 \<le> u32_sub (u32_sub (inode_start sb) (log_start sb)) 1"
    using n(2) by simp
qed

lemma write_log_eq:
  assumes "log_ready sb s"
  shows "write_log sb s = Inr ((after_writes (log_writes sb s) s)
    \<lparr>write_log_count := length (pins s), header := full_header s\<rparr>)"
proof -
  note R = log_readyD [OF assms]
  note I = bc_invD [OF R(1)]
  have scan: "scan_pinned (num_log_blocks sb - 1) (blk s) (cached s) [] = Inr (pins s)"
    using scan_pinned_eq [of "[]" "blk s" "cached s"] R(3) by (simp add: pins_def)
  have hdr: "set_header_nos 0 (map (bno_of s) (pins s)) (hdr_block_no (header s)) = Inr (commit_nos s)"
    using set_header_nos_eq [of 0 "map (bno_of s) (pins s)" "hdr_block_no (header s)"] R(4) I(8)
    by (simp add: commit_nos_def)
  have small: "\<not> length (pins s) > u32_sub (u32_sub (inode_start sb) (log_start sb)) 1"
    using R(3) sb_ok_room(2) [OF R(2)] by linarith
  show ?thesis
    using I(1) scan hdr small sb_ok_room(1) [OF R(2)]
    by (simp add: write_log_def release_spinlock_def write_log_blocks_eq Let_def full_header_def)
      (simp add: after_writes_def log_writes_def)
qed

definition committed :: "SuperBlock \<Rightarrow> bcst \<Rightarrow> bcst" where
  "committed sb s = (after_writes (commit_writes sb s) s)
     \<lparr>blk := unpin (set (pins s)) (blk s), header := empty_header s,
      write_log_count := length (pins s), write_data_count := length (pins s)\<rparr>"

text \<open>\<^verbatim>\<open>commit\<close> never panics in such a state, and its effect is known.\<close>

lemma commit_eq:
  assumes "log_ready sb s"
  shows "commit sb s = Inr (committed sb s)"
proof -
  note R = log_readyD [OF assms]
  let ?s1 = "(after_writes (log_writes sb s) s)
    \<lparr>write_log_count := length (pins s), header := full_header s\<rparr>"
  let ?s2 = "write_log_header sb ?s1"
  have s2: "blk ?s2 = blk s" "cached ?s2 = cached s" "cache_lock ?s2 = cache_lock s"
    "write_log_count ?s2 = length (pins s)" "header ?s2 = full_header s"
    by (simp_all add: write_log_header_def write_header_def dev_write_def)
  have scan: "scan_pinned (num_log_blocks sb - 1) (blk s) (cached s) [] = Inr (pins s)"
    using scan_pinned_eq [of "[]" "blk s" "cached s"] R(3) by (simp add: pins_def)
  have "write_data sb ?s2 = Inr ((after_writes (data_writes s) ?s2)
      \<lparr>blk := unpin (set (pins s)) (blk s), write_data_count := length (pins s)\<rparr>)"
    using bc_invD(1) [OF R(1)] scan sb_ok_room(1) [OF R(2)]
    by (simp add: write_data_def s2 release_spinlock_def Let_def fold_device_write fold_unpin)
      (simp add: after_writes_def data_writes_def s2)
  moreover have "erase_log_header sb ((after_writes (data_writes s) ?s2)
      \<lparr>blk := unpin (set (pins s)) (blk s), write_data_count := length (pins s)\<rparr>) = committed sb s"
    by (simp add: erase_log_header_def init_log_header_def write_header_def write_log_header_def
        committed_def commit_writes_def after_writes_def dev_write_def full_header_def empty_header_def)
  ultimately show ?thesis
    by (simp add: commit_def write_log_eq [OF assms] Let_def)
qed

section \<open>Recovery\<close>

lemma restore_loop_eq:
  assumes "\<And>i. i \<in> set is \<Longrightarrow> i < length (hdr_block_no (header s))"
    and "\<And>i. i \<in> set is \<Longrightarrow> hdr_block_no (header s) ! i \<notin> log_area sb"
    and "\<And>i. i \<in> set is \<Longrightarrow> 1 + i < num_log_blocks sb"
  shows "restore_loop sb is s = Inr (after_writes
     (map (\<lambda>i. (hdr_block_no (header s) ! i, disk s (log_start sb + 1 + i))) is) s)"
  using assms
proof (induction "is" arbitrary: s)
  case (Cons i "is")
  let ?b = "hdr_block_no (header s) ! i" and ?d = "disk s (log_start sb + 1 + i)"
  let ?t = "dev_write ?b ?d s"
  have h: "header ?t = header s" by (simp add: dev_write_def)
  have ih: "restore_loop sb is ?t = Inr (after_writes
     (map (\<lambda>i. (hdr_block_no (header ?t) ! i, disk ?t (log_start sb + 1 + i))) is) ?t)"
    by (rule Cons.IH) (use Cons.prems h in auto)
  have "disk ?t (log_start sb + 1 + j) = disk s (log_start sb + 1 + j)" if "j \<in> set is" for j
    using Cons.prems(2) [of i] Cons.prems(3) [of j] that by (auto simp: dev_write_def log_area_def)
  then have m: "map (\<lambda>j. (hdr_block_no (header s) ! j, disk ?t (log_start sb + 1 + j))) is =
      map (\<lambda>j. (hdr_block_no (header s) ! j, disk s (log_start sb + 1 + j))) is"
    by simp
  show ?case
    using ih [unfolded h m] Cons.prems(1) [of i] by (simp add: aget_def Let_def)
qed simp

text \<open>The memory of the machine after power-on: the static variables are zero.\<close>

definition reboot :: "(nat \<Rightarrow> u8 list) \<Rightarrow> bcst" where
  "reboot d = \<lparr>disk = d, writes = [], cache_lock = False, blk = (\<lambda>_. init_block), cached = [],
     num_cached_blocks = 0, fresh = 0,
     header = \<lparr>hdr_num_blocks = 0, hdr_block_no = replicate LOG_MAX_SIZE 0, hdr_valid = False\<rparr>,
     log = init_log, write_log_count = 0, write_data_count = 0\<rparr>"

text \<open>The header the disk holds, and the writes that recovery makes for it.\<close>

definition disk_header :: "SuperBlock \<Rightarrow> (nat \<Rightarrow> u8 list) \<Rightarrow> LogHeader" where
  "disk_header sb d = header_load (d (log_start sb)) (header (reboot d))"

definition replay_writes :: "SuperBlock \<Rightarrow> (nat \<Rightarrow> u8 list) \<Rightarrow> (nat \<times> u8 list) list" where
  "replay_writes sb d = map (\<lambda>i. (hdr_block_no (disk_header sb d) ! i, d (log_start sb + 1 + i)))
     [0..<hdr_num_blocks (disk_header sb d)]"

definition recovery_writes :: "SuperBlock \<Rightarrow> (nat \<Rightarrow> u8 list) \<Rightarrow> (nat \<times> u8 list) list" where
  "recovery_writes sb d = (if hdr_num_blocks (disk_header sb d) = 0 then []
     else replay_writes sb d @
       [(log_start sb, header_bytes ((disk_header sb d)\<lparr>hdr_num_blocks := 0\<rparr>))])"

definition recoverable :: "SuperBlock \<Rightarrow> (nat \<Rightarrow> u8 list) \<Rightarrow> bool" where
  "recoverable sb d \<longleftrightarrow>
     hdr_num_blocks (disk_header sb d) < num_log_blocks sb \<and>
     hdr_num_blocks (disk_header sb d) \<le> LOG_MAX_SIZE \<and>
     (\<forall>i<hdr_num_blocks (disk_header sb d). hdr_block_no (disk_header sb d) ! i \<notin> log_area sb)"

lemma length_disk_header [simp]: "length (hdr_block_no (disk_header sb d)) = LOG_MAX_SIZE"
  by (simp add: disk_header_def header_load_def)

lemma disk_header_valid [simp]: "\<not> hdr_valid (disk_header sb d)"
  by (simp add: disk_header_def header_load_def reboot_def)

lemma header_bytes_valid [simp]: "header_bytes (h\<lparr>hdr_valid := v\<rparr>) = header_bytes h"
  by (simp add: header_bytes_def)

lemma recovery_eq:
  assumes "recoverable sb d"
  shows "\<exists>r. init_bcache sb (reboot d) = Inr r \<and> disk r = apply_writes (recovery_writes sb d) d \<and>
     writes r = recovery_writes sb d \<and> cached r = [] \<and> \<not> cache_lock r \<and> num_cached_blocks r = 0 \<and>
     log r = init_log \<and> hdr_block_no (header r) = hdr_block_no (disk_header sb d)"
proof -
  let ?h = "disk_header sb d"
  let ?s = "(reboot d)\<lparr>header := ?h\<rparr>"
  have rh: "read_header sb (reboot d) = ?s"
    by (simp add: read_header_def disk_header_def reboot_def)
  have b: "(reboot d)\<lparr>cache_lock := init_spinlock, cached := [], num_cached_blocks := 0\<rparr> = reboot d"
    by (simp add: reboot_def init_spinlock_def)
  have "restore_loop sb [0..<hdr_num_blocks ?h] ?s = Inr (after_writes (replay_writes sb d) ?s)"
    using restore_loop_eq [of "[0..<hdr_num_blocks ?h]" ?s sb] assms
    by (auto simp: recoverable_def replay_writes_def reboot_def)
  then show ?thesis
    by (simp add: init_bcache_def b restore_log_def rh recovery_writes_def init_log_header_def
        write_header_def dev_write_def Let_def) (simp add: reboot_def)
qed

lemma recovered_log_empty:
  "rd 8 0 (apply_writes (recovery_writes sb d) d (log_start sb)) = 0"
proof (cases "hdr_num_blocks (disk_header sb d) = 0")
  case True
  then show ?thesis by (simp add: recovery_writes_def disk_header_def header_load_def)
next
  case False
  then show ?thesis by (simp add: recovery_writes_def header_bytes_num)
qed

lemma recovery_outside:
  assumes "sb_ok sb" and "b \<notin> log_area sb"
  shows "apply_writes (recovery_writes sb d) d b = apply_writes (replay_writes sb d) d b"
  using assms by (auto simp: recovery_writes_def replay_writes_def log_area_def sb_ok_def)

section \<open>Crash points\<close>

lemma pins_distinct:
  assumes "bc_inv s"
  shows "distinct (map (bno_of s) (pins s))"
proof -
  have "distinct (pins s)" and "set (pins s) \<subseteq> set (cached s)"
    using bc_invD(2) [OF assms] by (auto simp: pins_def)
  then show ?thesis
    using bc_invD(3) [OF assms] by (simp add: distinct_map inj_on_subset)
qed

text \<open>Writing the pinned blocks brings the disk to the view, when every change was synced.\<close>

lemma data_writes_view:
  assumes inv: "bc_inv s" and cl: "\<And>a. a \<in> set (cached s) \<Longrightarrow> clean s a"
  shows "apply_writes (data_writes s) (disk s) b = view s b"
proof (cases "b \<in> fst ` set (data_writes s)")
  case True
  then obtain a where a: "a \<in> set (pins s)" "b = bno_of s a" by (auto simp: data_writes_def)
  have dist: "distinct (map fst (rev (data_writes s)))"
    using pins_distinct [OF inv] by (simp add: data_writes_def comp_def rev_map [symmetric])
  moreover have "(b, blk_data (blk s a)) \<in> set (rev (data_writes s))"
    using a by (auto simp: data_writes_def)
  ultimately have "map_of (rev (data_writes s)) b = Some (blk_data (blk s a))"
    by (rule map_of_is_SomeI)
  moreover have "a \<in> set (cached s)" using a(1) by (simp add: pins_def)
  ultimately show ?thesis
    using view_cached [OF bc_invD(3) [OF inv]] a(2) by (simp add: apply_writes_map_of)
next
  case False
  have "view s b = disk s b"
  proof (cases "b \<in> nos s")
    case True
    then obtain a where a: "a \<in> set (cached s)" "b = bno_of s a" by (auto simp: nos_def)
    then have "\<not> pinned (blk s a)" using False by (auto simp: data_writes_def pins_def image_image)
    then show ?thesis
      using view_cached [OF bc_invD(3) [OF inv] a(1)] cl [OF a(1)] a(2) by (simp add: clean_def)
  qed (rule view_uncached)
  then show ?thesis using apply_writes_other [OF False] by simp
qed

lemma log_writes_in_area:
  assumes "log_ready sb s"
  shows "fst ` set (log_writes sb s) \<subseteq> log_area sb - {log_start sb}"
  using log_readyD(3) [OF assms] by (auto simp: log_writes_def log_area_def)

lemma log_start_in_area: "sb_ok sb \<Longrightarrow> log_start sb \<in> log_area sb"
  by (simp add: sb_ok_def log_area_def)

text \<open>The first crash points: the header on the disk still says that the log is empty.\<close>

lemma crash_early:
  assumes ready: "log_ready sb s" and d: "d = apply_writes (take k (log_writes sb s)) (disk s)"
  shows "recoverable sb d" and "recovery_writes sb d = []" and "b \<notin> log_area sb \<Longrightarrow> d b = disk s b"
proof -
  have area: "fst ` set (take k (log_writes sb s)) \<subseteq> log_area sb - {log_start sb}"
    using log_writes_in_area [OF ready] set_take_subset [of k "log_writes sb s"] by blast
  then have "d (log_start sb) = disk s (log_start sb)"
    unfolding d by (intro apply_writes_other) auto
  then have n: "hdr_num_blocks (disk_header sb d) = 0"
    using log_readyD(8) [OF ready] by (simp add: disk_header_def header_load_def)
  then show "recoverable sb d" and "recovery_writes sb d = []"
    using log_readyD(2) [OF ready] by (auto simp: recoverable_def recovery_writes_def sb_ok_def)
  show "d b = disk s b" if "b \<notin> log_area sb"
    unfolding d using area that by (intro apply_writes_other) auto
qed

text \<open>
  The later ones: the header names the blocks, the log holds their data, and a part of them may
  be in place.
\<close>

definition logged :: "SuperBlock \<Rightarrow> bcst \<Rightarrow> nat \<Rightarrow> u8 list" where
  "logged sb s = apply_writes (log_writes sb s @ [(log_start sb, header_bytes (full_header s))]) (disk s)"

lemma logged_slot:
  assumes "i < length (pins s)"
  shows "logged sb s (log_start sb + 1 + i) = blk_data (blk s (pins s ! i))"
proof -
  have "distinct (map fst (rev (log_writes sb s)))"
    by (simp add: log_writes_def comp_def rev_map [symmetric] distinct_map inj_on_def)
  moreover have "(log_start sb + 1 + i, blk_data (blk s (pins s ! i))) \<in> set (rev (log_writes sb s))"
    using assms by (auto simp: log_writes_def)
  ultimately have "map_of (rev (log_writes sb s)) (log_start sb + 1 + i) = Some (blk_data (blk s (pins s ! i)))"
    by (rule map_of_is_SomeI)
  then show ?thesis by (simp add: logged_def apply_writes_map_of)
qed

lemma logged_outside:
  assumes "log_ready sb s" and "b \<notin> log_area sb"
  shows "logged sb s b = disk s b"
  unfolding logged_def
  by (rule apply_writes_other)
    (use assms log_writes_in_area [OF assms(1)] log_start_in_area [OF log_readyD(2) [OF assms(1)]] in auto)

lemma full_header_on_disk:
  assumes ready: "log_ready sb s" and d: "d (log_start sb) = header_bytes (full_header s)"
  shows "hdr_num_blocks (disk_header sb d) = length (pins s)"
    and "hdr_block_no (disk_header sb d) = commit_nos s"
proof -
  note R = log_readyD [OF ready]
  have "length (commit_nos s) = LOG_MAX_SIZE"
    using R(4) bc_invD(8) [OF R(1)] by (simp add: commit_nos_def)
  moreover have "length (pins s) < 2 ^ 64"
    using R(4) by (simp add: fs_consts)
  ultimately have "disk_header sb d = (header (reboot d))\<lparr>hdr_num_blocks := length (pins s),
      hdr_block_no := commit_nos s\<rparr>"
    using header_load_bytes [of "full_header s"] R(7) d by (simp add: disk_header_def full_header_def)
  then show "hdr_num_blocks (disk_header sb d) = length (pins s)"
    and "hdr_block_no (disk_header sb d) = commit_nos s" by simp_all
qed

lemma crash_late:
  assumes ready: "log_ready sb s" and d: "\<And>b. b \<in> log_area sb \<Longrightarrow> d b = logged sb s b"
  shows "recoverable sb d" and "replay_writes sb d = data_writes s"
proof -
  note R = log_readyD [OF ready]
  have "d (log_start sb) = header_bytes (full_header s)"
    using d [OF log_start_in_area [OF R(2)]] by (simp add: logged_def)
  note H = full_header_on_disk [OF ready, of d, OF this]
  have nth: "commit_nos s ! i = bno_of s (pins s ! i)" if "i < length (pins s)" for i
    using that by (simp add: commit_nos_def nth_append)
  show "recoverable sb d"
    using R(2,3,4) R(5) by (auto simp: recoverable_def H nth sb_ok_def)
  have slot: "d (log_start sb + 1 + i) = blk_data (blk s (pins s ! i))" if "i < length (pins s)" for i
    using that R(2,3) d [of "log_start sb + 1 + i"] logged_slot [OF that]
    by (auto simp: log_area_def sb_ok_def)
  show "replay_writes sb d = data_writes s"
    by (rule nth_equalityI) (use nth slot in \<open>auto simp: replay_writes_def data_writes_def H\<close>)
qed

definition crash :: "(nat \<times> u8 list) list \<Rightarrow> nat \<Rightarrow> (nat \<Rightarrow> u8 list) \<Rightarrow> nat \<Rightarrow> u8 list" where
  "crash ws k d = apply_writes (take k ws) d"

text \<open>A disk that recovery turns into \<^verbatim>\<open>v\<close>, outside the log.\<close>

definition recovers_to :: "SuperBlock \<Rightarrow> (nat \<Rightarrow> u8 list) \<Rightarrow> (nat \<Rightarrow> u8 list) \<Rightarrow> bool" where
  "recovers_to sb d v \<longleftrightarrow> recoverable sb d \<and>
     (\<forall>b. b \<notin> log_area sb \<longrightarrow> apply_writes (recovery_writes sb d) d b = v b)"

lemma recovers_early:
  assumes ready: "log_ready sb s" and k: "k \<le> length (log_writes sb s)"
  shows "recovers_to sb (crash (commit_writes sb s) k (disk s)) (disk s)"
proof -
  have "crash (commit_writes sb s) k (disk s) = apply_writes (take k (log_writes sb s)) (disk s)"
    using k by (simp add: crash_def commit_writes_def)
  note C = crash_early [OF ready this]
  show ?thesis using C(1) C(2) C(3) by (simp add: recovers_to_def)
qed

lemma data_writes_area: "log_ready sb s \<Longrightarrow> fst ` set (data_writes s) \<inter> log_area sb = {}"
  using log_readyD(5) by (auto simp: data_writes_def)

lemma recovers_middle:
  assumes ready: "log_ready sb s" and d: "d = apply_writes (take j (data_writes s)) (logged sb s)"
  shows "recovers_to sb d (view s)"
proof -
  note R = log_readyD [OF ready]
  have area: "d b = logged sb s b" if "b \<in> log_area sb" for b
    unfolding d using that data_writes_area [OF ready] set_take_subset [of j "data_writes s"]
    by (intro apply_writes_other) blast
  note C = crash_late [OF ready area]
  have diff: "b \<in> fst ` set (data_writes s) \<or> b \<in> log_area sb" if "d b \<noteq> disk s b" for b
    using that apply_writes_prefix [of j "data_writes s" "logged sb s" b] logged_outside [OF ready, of b]
    unfolding d by metis
  have "apply_writes (recovery_writes sb d) d b = view s b" if "b \<notin> log_area sb" for b
  proof -
    have "apply_writes (recovery_writes sb d) d b = apply_writes (data_writes s) d b"
      using recovery_outside [OF R(2) that] C(2) by simp
    also have "\<dots> = apply_writes (data_writes s) (disk s) b"
      using apply_writes_again [OF diff that] .
    also have "\<dots> = view s b"
      by (rule data_writes_view [OF R(1) R(6)])
    finally show ?thesis .
  qed
  then show ?thesis using C(1) by (simp add: recovers_to_def)
qed

lemma committed_disk:
  assumes ready: "log_ready sb s" and d: "d = apply_writes (commit_writes sb s) (disk s)"
  shows "hdr_num_blocks (disk_header sb d) = 0" and "b \<notin> log_area sb \<Longrightarrow> d b = view s b"
proof -
  note R = log_readyD [OF ready]
  show "hdr_num_blocks (disk_header sb d) = 0"
    by (simp add: d commit_writes_def disk_header_def header_load_def header_bytes_num empty_header_def)
  show "d b = view s b" if "b \<notin> log_area sb"
  proof -
    have "d b = apply_writes (data_writes s) (logged sb s) b"
      using that log_start_in_area [OF R(2)] by (auto simp: d commit_writes_def logged_def)
    also have "\<dots> = apply_writes (data_writes s) (disk s) b"
      by (rule apply_writes_again [of _ _ _ "log_area sb"]) (use logged_outside [OF ready] that in auto)
    also have "\<dots> = view s b" by (rule data_writes_view [OF R(1) R(6)])
    finally show ?thesis .
  qed
qed

lemma recovers_empty:
  assumes "sb_ok sb" and "hdr_num_blocks (disk_header sb d) = 0"
    and "\<And>b. b \<notin> log_area sb \<Longrightarrow> d b = v b"
  shows "recovers_to sb d v"
  using assms by (auto simp: recovers_to_def recoverable_def recovery_writes_def sb_ok_def)

lemma commit_crash:
  assumes ready: "log_ready sb s"
  shows "recovers_to sb (crash (commit_writes sb s) k (disk s)) (disk s) \<or>
    recovers_to sb (crash (commit_writes sb s) k (disk s)) (view s)"
proof -
  let ?n = "length (log_writes sb s)" and ?m = "length (data_writes s)"
  consider "k \<le> ?n" | "?n < k" "k \<le> ?n + 1 + ?m" | "?n + 1 + ?m < k" by linarith
  then show ?thesis
  proof cases
    case 1
    then show ?thesis using recovers_early [OF ready] by blast
  next
    case 2
    then have "take k (commit_writes sb s) = log_writes sb s @
        [(log_start sb, header_bytes (full_header s))] @ take (k - ?n - 1) (data_writes s)"
      by (cases "k - ?n") (auto simp: commit_writes_def)
    then have "crash (commit_writes sb s) k (disk s) =
        apply_writes (take (k - ?n - 1) (data_writes s)) (logged sb s)"
      by (simp add: crash_def logged_def)
    then show ?thesis using recovers_middle [OF ready] by blast
  next
    case 3
    then have "crash (commit_writes sb s) k (disk s) = apply_writes (commit_writes sb s) (disk s)"
      by (simp add: crash_def commit_writes_def)
    then show ?thesis
      using committed_disk [OF ready] recovers_empty [OF log_readyD(2) [OF ready]] by metis
  qed
qed

lemma replay_area:
  assumes "recoverable sb d"
  shows "fst ` set (replay_writes sb d) \<inter> log_area sb = {}"
  using assms by (auto simp: recoverable_def replay_writes_def)

text \<open>Recovery may itself be cut short and started again.\<close>

lemma recovery_crash:
  assumes ok: "sb_ok sb" and rec: "recovers_to sb d v"
  shows "recovers_to sb (crash (recovery_writes sb d) j d) v"
proof (cases "hdr_num_blocks (disk_header sb d) = 0 \<or> length (replay_writes sb d) < j")
  case True
  let ?e = "crash (recovery_writes sb d) j d"
  have e: "?e = apply_writes (recovery_writes sb d) d"
    using True by (auto simp: crash_def recovery_writes_def)
  then have "hdr_num_blocks (disk_header sb ?e) = 0"
    using recovered_log_empty [of sb d] by (simp add: disk_header_def header_load_def)
  then show ?thesis
    using recovers_empty [OF ok] rec e by (simp add: recovers_to_def)
next
  case False
  let ?e = "crash (recovery_writes sb d) j d" and ?ws = "replay_writes sb d"
  have r: "recoverable sb d" using rec by (simp add: recovers_to_def)
  have e: "?e = apply_writes (take j ?ws) d"
    using False by (simp add: crash_def recovery_writes_def)
  have area: "?e b = d b" if "b \<in> log_area sb" for b
    unfolding e using that replay_area [OF r] set_take_subset [of j ?ws]
    by (intro apply_writes_other) blast
  have h: "disk_header sb ?e = disk_header sb d"
    using area [OF log_start_in_area [OF ok]] by (simp add: disk_header_def reboot_def)
  have ws: "replay_writes sb ?e = ?ws"
    using r area by (auto simp: replay_writes_def h recoverable_def log_area_def)
  have "apply_writes (recovery_writes sb ?e) ?e b = v b" if b: "b \<notin> log_area sb" for b
  proof -
    have "apply_writes (recovery_writes sb ?e) ?e b = apply_writes ?ws ?e b"
      using recovery_outside [OF ok b, of ?e] ws by simp
    also have "\<dots> = apply_writes ?ws d b"
      by (rule apply_writes_again [of _ _ _ "{}"])
        (use apply_writes_prefix [of j ?ws d] in \<open>auto simp: e\<close>)
    also have "\<dots> = v b"
      using recovery_outside [OF ok b, of d] rec b by (simp add: recovers_to_def)
    finally show ?thesis .
  qed
  moreover have "recoverable sb ?e" using r by (simp add: recoverable_def h)
  ultimately show ?thesis by (simp add: recovers_to_def)
qed

definition crash_boot :: "SuperBlock \<Rightarrow> nat \<Rightarrow> (nat \<Rightarrow> u8 list) \<Rightarrow> nat \<Rightarrow> u8 list" where
  "crash_boot sb j d =
     (case init_bcache sb (reboot d) of Inl e \<Rightarrow> d | Inr r \<Rightarrow> crash (writes r) j d)"

lemma recovery_crashes:
  "sb_ok sb \<Longrightarrow> recovers_to sb d v \<Longrightarrow> recovers_to sb (fold (crash_boot sb) js d) v"
proof (induction js arbitrary: d)
  case (Cons j js)
  have "crash_boot sb j d = crash (recovery_writes sb d) j d"
    using recovery_eq [of sb d] Cons.prems(2) by (auto simp: crash_boot_def recovers_to_def)
  then show ?case
    using Cons.IH [OF Cons.prems(1) recovery_crash [OF Cons.prems]] by simp
qed simp

lemma recovers_to_boot:
  assumes "recovers_to sb d v"
  shows "\<exists>r. init_bcache sb (reboot d) = Inr r \<and> rd 8 0 (disk r (log_start sb)) = 0 \<and>
    (\<forall>b. b \<notin> log_area sb \<longrightarrow> disk r b = v b)"
  using recovery_eq [of sb d] recovered_log_empty [of sb d] assms
  by (auto simp: recovers_to_def)

section \<open>Properties\<close>

text \<open>
  C1: a commit is atomic. It never panics, and when it is done the disk outside the log holds the
  view, that is all synced data. If the machine stops after any number \<^verbatim>\<open>k\<close> of its block writes,
  and again any number of times during the recovery that follows (\<^verbatim>\<open>js\<close>), the next \<^verbatim>\<open>init_bcache\<close>
  succeeds, leaves an empty log, and brings every block outside the log to its content before the
  commit, or every one to its content after it.
\<close>

theorem commit_crash_atomic:
  assumes "log_ready sb s"
  shows "\<exists>t ws. commit sb s = Inr t \<and> writes t = writes s @ ws \<and>
     (\<forall>b. b \<notin> log_area sb \<longrightarrow> disk t b = view s b) \<and>
     (\<forall>k js. \<exists>r. init_bcache sb (reboot (fold (crash_boot sb) js (crash ws k (disk s)))) = Inr r \<and>
        rd 8 0 (disk r (log_start sb)) = 0 \<and>
        ((\<forall>b. b \<notin> log_area sb \<longrightarrow> disk r b = disk s b) \<or>
         (\<forall>b. b \<notin> log_area sb \<longrightarrow> disk r b = view s b)))"
proof -
  have "\<exists>r. init_bcache sb (reboot (fold (crash_boot sb) js (crash (commit_writes sb s) k (disk s)))) = Inr r \<and>
      rd 8 0 (disk r (log_start sb)) = 0 \<and>
      ((\<forall>b. b \<notin> log_area sb \<longrightarrow> disk r b = disk s b) \<or>
       (\<forall>b. b \<notin> log_area sb \<longrightarrow> disk r b = view s b))" for k js
    using commit_crash [OF assms, of k] recovery_crashes [OF log_readyD(2) [OF assms]]
      recovers_to_boot by metis
  moreover have "disk (committed sb s) b = view s b" if "b \<notin> log_area sb" for b
    using committed_disk(2) [OF assms refl that] by (simp add: committed_def)
  moreover have "writes (committed sb s) = writes s @ commit_writes sb s"
    by (simp add: committed_def)
  ultimately show ?thesis
    using commit_eq [OF assms] by blast
qed

definition demo_sb :: SuperBlock where
  "demo_sb = \<lparr>num_blocks = 1000, num_data_blocks = 900, num_inodes = 200, num_log_blocks = 63,
     log_start = 2, inode_start = 65, bitmap_start = 90\<rparr>"

definition demo_bc :: bcst where
  "demo_bc = (reboot (\<lambda>_. replicate BLOCK_SIZE 0))
     \<lparr>cached := [0], num_cached_blocks := 1, fresh := 1,
      blk := (\<lambda>_. init_block\<lparr>block_no := 100, pinned := True, blk_data := replicate BLOCK_SIZE 1\<rparr>)\<rparr>"

lemma rd_zeros: "rd k off (replicate n 0) = 0"
proof -
  have "le_decode (replicate m 0) = 0" for m by (induction m) auto
  then show ?thesis by (simp add: rd_def)
qed

lemma demo_ready: "log_ready demo_sb demo_bc"
  by (simp add: log_ready_def bc_inv_def blk_wf_def sb_ok_def demo_sb_def demo_bc_def reboot_def
      init_block_def init_sem_def pins_def fs_consts log_area_def clean_def commit_nos_def
      rd_zeros [of 8 0 512, simplified])

theorem commit_crash_atomic_witness:
  "log_ready demo_sb demo_bc \<and> disk demo_bc 100 = replicate BLOCK_SIZE 0 \<and>
   (\<exists>t. commit demo_sb demo_bc = Inr t \<and> disk t 100 = replicate BLOCK_SIZE 1)"
proof -
  have "view demo_bc 100 = replicate BLOCK_SIZE 1" and "100 \<notin> log_area demo_sb"
    by (simp_all add: view_def demo_bc_def demo_sb_def log_area_def reboot_def init_block_def)
  moreover have "disk demo_bc 100 = replicate BLOCK_SIZE 0"
    by (simp add: demo_bc_def reboot_def)
  ultimately show ?thesis
    using commit_crash_atomic [OF demo_ready] demo_ready by metis
qed

end
