(* ===== verification/Transactions.thy ===== *)
theory Transactions
  imports Log
begin

text \<open>
  The users of \<^verbatim>\<open>src/src/fs/cache.c\<close>: processes that begin atomic operations, acquire blocks, change and
  sync them, release them and end their operations, in any order. The steps are the operations
  of the cache; a step in which a process would have to wait for a block is not taken until the
  block is free. The invariant ties the counters of the log to the contexts of the running
  operations and to the pinned blocks: every commit finds a log that is large enough.
\<close>

record txst =
  tx_bc :: bcst
  tx_ops :: "(nat \<times> OpContext) list"
  tx_own :: "addr \<Rightarrow> nat option"

inductive tx_step :: "SuperBlock \<Rightarrow> txst \<Rightarrow> txst \<Rightarrow> bool" for sb where
  tx_begin: "p \<notin> fst ` set (tx_ops t) \<Longrightarrow> cache_begin_op sb p (tx_bc t) = Inr (Done, ctx, s) \<Longrightarrow>
     tx_step sb t (t\<lparr>tx_bc := s, tx_ops := (p, ctx) # tx_ops t\<rparr>)"
| tx_begin_wait: "p \<notin> fst ` set (tx_ops t) \<Longrightarrow> p \<notin> set (sleeplist (log_sem (log (tx_bc t)))) \<Longrightarrow>
     cache_begin_op sb p (tx_bc t) = Inr (Asleep, ctx, s) \<Longrightarrow> tx_step sb t (t\<lparr>tx_bc := s\<rparr>)"
| tx_acquire: "b \<notin> log_area sb \<Longrightarrow> b < 2 ^ 64 \<Longrightarrow> cache_acquire b (tx_bc t) = Inr (a, s) \<Longrightarrow>
     tx_step sb t (t\<lparr>tx_bc := s, tx_own := (tx_own t)(a := Some p)\<rparr>)"
| tx_change: "tx_own t a = Some p \<Longrightarrow> p \<in> fst ` set (tx_ops t) \<Longrightarrow> length d = BLOCK_SIZE \<Longrightarrow>
     tx_step sb t (t\<lparr>tx_bc := set_data a d (tx_bc t)\<rparr>)"
| tx_sync: "tx_own t a = Some p \<Longrightarrow> tx_ops t = xs @ (p, ctx) # ys \<Longrightarrow>
     cache_sync (Some ctx) a (tx_bc t) = Inr (Some ctx', s) \<Longrightarrow>
     tx_step sb t (t\<lparr>tx_bc := s, tx_ops := xs @ (p, ctx') # ys\<rparr>)"
| tx_release: "tx_own t a = Some p \<Longrightarrow> clean (tx_bc t) a \<Longrightarrow> cache_release a (tx_bc t) = Inr s \<Longrightarrow>
     tx_step sb t (t\<lparr>tx_bc := s, tx_own := (tx_own t)(a := None)\<rparr>)"
| tx_end: "tx_ops t = xs @ (p, ctx) # ys \<Longrightarrow> Some p \<notin> range (tx_own t) \<Longrightarrow>
     p \<notin> set (sleeplist (end_op_sem (log (tx_bc t)))) \<Longrightarrow>
     cache_end_op sb p ctx (tx_bc t) = Inr (r, s) \<Longrightarrow>
     tx_step sb t (t\<lparr>tx_bc := s, tx_ops := xs @ ys\<rparr>)"

text \<open>The start: \<^verbatim>\<open>init_bcache\<close> on any disk whose log is well-formed.\<close>

definition tx_start :: "SuperBlock \<Rightarrow> txst \<Rightarrow> bool" where
  "tx_start sb t \<longleftrightarrow> sb_ok sb \<and> tx_ops t = [] \<and> tx_own t = (\<lambda>_. None) \<and>
     (\<exists>d. recoverable sb d \<and> (\<forall>b. length (d b) = BLOCK_SIZE) \<and> init_bcache sb (reboot d) = Inr (tx_bc t))"

inductive tx_reachable :: "SuperBlock \<Rightarrow> txst \<Rightarrow> bool" for sb where
  tx_init: "tx_start sb t \<Longrightarrow> tx_reachable sb t"
| tx_next: "tx_reachable sb t \<Longrightarrow> tx_step sb t u \<Longrightarrow> tx_reachable sb u"

section \<open>The invariant\<close>

definition sem_idle :: "Semaphore \<Rightarrow> bool" where
  "sem_idle sem \<longleftrightarrow> sem_inv sem \<and> sval sem \<le> 0"

definition room_left :: "(nat \<times> OpContext) list \<Rightarrow> nat" where
  "room_left ops = sum_list (map (\<lambda>(p, ctx). budget ctx) ops)"

definition log_inv :: "SuperBlock \<Rightarrow> (nat \<times> OpContext) list \<Rightarrow> nat \<Rightarrow> logst \<Rightarrow> bool" where
  "log_inv sb ops n l \<longleftrightarrow> \<not> log_lock l \<and> \<not> is_committing l \<and>
     started_event_count l = int (length ops) \<and>
     operation_count l = int (room_left ops + n) \<and>
     operation_count l \<le> int (num_log_blocks sb - 1) \<and> operation_count l \<le> int LOG_MAX_SIZE \<and>
     sem_idle (log_sem l) \<and> sem_idle (end_op_sem l)"

definition own_inv :: "txst \<Rightarrow> bool" where
  "own_inv t \<longleftrightarrow> (\<forall>a. tx_own t a \<noteq> None \<longleftrightarrow> holds (tx_bc t) a (bno_of (tx_bc t) a)) \<and>
     (\<forall>a. tx_own t a \<noteq> None \<longrightarrow> clean (tx_bc t) a \<or> tx_own t a \<in> Some ` fst ` set (tx_ops t))"

definition disk_inv :: "SuperBlock \<Rightarrow> bcst \<Rightarrow> bool" where
  "disk_inv sb s \<longleftrightarrow> bc_inv s \<and> (\<forall>b\<in>nos s. b \<notin> log_area sb \<and> b < 2 ^ 64) \<and>
     (\<forall>n\<in>set (hdr_block_no (header s)). n < 2 ^ 64) \<and> rd 8 0 (disk s (log_start sb)) = 0"

definition tx_inv :: "SuperBlock \<Rightarrow> txst \<Rightarrow> bool" where
  "tx_inv sb t \<longleftrightarrow> sb_ok sb \<and> disk_inv sb (tx_bc t) \<and> own_inv t \<and>
     (\<forall>(p, ctx)\<in>set (tx_ops t). ctx_ok ctx) \<and>
     log_inv sb (tx_ops t) (card (pinned_nos (tx_bc t))) (log (tx_bc t))"

lemma disk_invD: "disk_inv sb s \<Longrightarrow> bc_inv s"
  by (simp add: disk_inv_def)

lemma room_left_simps [simp]:
  "room_left [] = 0" "room_left ((p, ctx) # ops) = budget ctx + room_left ops"
  "room_left (xs @ ys) = room_left xs + room_left ys"
  by (simp_all add: room_left_def)

lemma card_pinned: "bc_inv s \<Longrightarrow> card (pinned_nos s) = length (pins s)"
  using pins_distinct [of s] distinct_card [of "map (bno_of s) (pins s)"]
  by (simp add: pins_def pinned_nos_def)

lemma cache_acquire_busy:
  assumes inv: "bc_inv s" and h: "holds s a b"
  shows "cache_acquire b s = Inl Sleep"
proof -
  note H = holdsD [OF inv h] and I = bc_invD [OF inv]
  have "find (\<lambda>x. bno_of s x = b) (cached s) = Some a"
    using find_Some_unique [OF I(3) H(1)] H(2) by simp
  moreover have "sval (blk_lock (blk s a)) = 0" using H(3,4) by (simp add: blk_wf_def)
  ultimately show ?thesis
    using I(1) by (simp add: cache_acquire_def lock_block_def wait_sem_now_def Let_def)
qed

section \<open>Steps that leave the log alone\<close>

lemma holds_no: "holds s a b \<Longrightarrow> b \<in> nos s"
  by (auto simp: holds_def nos_def)

lemma nos_view_step:
  assumes "cache_acquire b s = Inr (a, t)" and "bc_inv s"
  shows "nos t \<subseteq> insert b (nos s)"
proof (cases "b \<in> nos s")
  case True
  then obtain x where x: "x \<in> set (cached s)" "b = bno_of s x" by (auto simp: nos_def)
  then have "\<not> acquired (blk s x)"
    using assms cache_acquire_busy [OF assms(2), of x b] by (auto simp: holds_def)
  then have "t = set_blk x own s"
    using cache_acquire_hit [OF assms(2) x(1)] assms(1) x(2) by auto
  then show ?thesis by (auto simp: nos_def own_def)
next
  case False
  then show ?thesis
    using assms(1) cache_acquire_miss [OF assms(2) False]
    by (auto simp: nos_def added_def loaded_def recycle_def own_def split: if_splits option.splits)
qed

lemma nos_release:
  assumes "cache_release a s = Inr t" and "bc_inv s" and "holds s a b"
  shows "nos t \<subseteq> nos s"
  using assms(1) cache_release_eq [OF assms(2,3)] imageI [OF holdsD(1) [OF assms(2,3)], of "bno_of s"]
  by (auto simp: nos_def disown_def Let_def split: if_splits dest: notin_set_remove1)

lemma post_all_eq:
  assumes "sem_idle sem"
  shows "\<exists>sem'. post_all sem = Inr sem' \<and> sem_idle sem'"
  using assms post_all_loop_result [of sem "length (sleeplist sem) + 1"]
  by (auto simp: post_all_def post_all_sem_def sem_idle_def sem_inv_def)

lemma wait_idle:
  assumes "sem_idle sem" and "p \<notin> set (sleeplist sem)"
  shows "\<exists>sem'. wait_sem_enter p sem = (False, sem') \<and> sem_idle sem'"
  using assms wait_sem_enter_inv [of sem p]
  by (auto simp: sem_idle_def wait_sem_enter_def Let_def)

text \<open>The shape shared by the steps that only touch blocks.\<close>

lemma tx_inv_keep_log:
  assumes inv: "tx_inv sb t" and bc: "bc_inv s" and log: "same_log (tx_bc t) s"
    and nos: "\<And>b. b \<in> nos s \<Longrightarrow> b \<in> nos (tx_bc t) \<or> b \<notin> log_area sb \<and> b < 2 ^ 64"
    and pin: "room_left (tx_ops u) + card (pinned_nos s) = room_left (tx_ops t) + card (pinned_nos (tx_bc t))"
    and len: "length (tx_ops u) = length (tx_ops t)" and ok: "\<forall>(p, ctx)\<in>set (tx_ops u). ctx_ok ctx"
    and own: "own_inv u" and u: "tx_bc u = s"
  shows "tx_inv sb u"
proof -
  have "disk_inv sb s"
    using inv bc log nos by (auto simp: tx_inv_def disk_inv_def same_log_def)
  moreover have "log_inv sb (tx_ops u) (card (pinned_nos s)) (log s)"
    using inv log pin len by (simp add: tx_inv_def log_inv_def same_log_def)
  ultimately show ?thesis
    using inv ok own u by (simp add: tx_inv_def)
qed

lemma own_invD:
  assumes "own_inv t"
  shows "tx_own t a = Some p \<Longrightarrow> holds (tx_bc t) a (bno_of (tx_bc t) a)"
    and "holds (tx_bc t) a b \<Longrightarrow> tx_own t a \<noteq> None"
    and "tx_own t a = Some p \<Longrightarrow> clean (tx_bc t) a \<or> p \<in> fst ` set (tx_ops t)"
  using assms unfolding own_inv_def by (metis option.distinct(1), metis holds_def, force)

lemma own_invI:
  assumes "\<And>a p. tx_own t a = Some p \<Longrightarrow> holds (tx_bc t) a (bno_of (tx_bc t) a) \<and>
      (clean (tx_bc t) a \<or> p \<in> fst ` set (tx_ops t))"
    and "\<And>a b. holds (tx_bc t) a b \<Longrightarrow> tx_own t a \<noteq> None"
  shows "own_inv t"
  unfolding own_inv_def using assms by blast

lemma same_blk_clean:
  assumes "same_log s t" and "blk t a = blk s a"
  shows "clean t a = clean s a" and "bno_of t a = bno_of s a"
  using assms by (simp_all add: clean_def same_log_def)

lemma tx_acquire_inv:
  assumes inv: "tx_inv sb t" and b: "b \<notin> log_area sb" "b < 2 ^ 64"
    and acq: "cache_acquire b (tx_bc t) = Inr (a, s)"
  shows "tx_inv sb (t\<lparr>tx_bc := s, tx_own := (tx_own t)(a := Some p)\<rparr>)" (is "tx_inv sb ?u")
proof (rule tx_inv_keep_log [OF inv])
  have bi: "bc_inv (tx_bc t)" and own: "own_inv t" using inv by (auto simp: tx_inv_def disk_inv_def)
  have "\<not> holds (tx_bc t) x b" for x
    using acq cache_acquire_busy [OF bi, of x b] by auto
  then have st: "acquired_step (tx_bc t) b a s"
    using cache_acquire_step [OF bi, of b] acq by auto
  then have st': "bc_inv s" "clean s a" "same_log (tx_bc t) s" "pinned_nos s = pinned_nos (tx_bc t)"
    "\<And>a' b'. holds s a' b' \<longleftrightarrow> holds (tx_bc t) a' b' \<or> a' = a \<and> b' = b"
    "\<And>a' b'. holds (tx_bc t) a' b' \<Longrightarrow> blk s a' = blk (tx_bc t) a'"
    unfolding acquired_step_def by blast+
  show "bc_inv s" "same_log (tx_bc t) s" by fact+
  show "room_left (tx_ops ?u) + card (pinned_nos s) = room_left (tx_ops t) + card (pinned_nos (tx_bc t))"
    using st'(4) by simp
  show "own_inv ?u"
  proof (rule own_invI)
    fix x q assume x: "tx_own ?u x = Some q"
    have ha: "holds s a (bno_of s a)" using st'(5) [of a b] by (auto simp: holds_def)
    show "holds (tx_bc ?u) x (bno_of (tx_bc ?u) x) \<and> (clean (tx_bc ?u) x \<or> q \<in> fst ` set (tx_ops ?u))"
    proof (cases "x = a")
      case True
      then show ?thesis using ha st'(2) by simp
    next
      case False
      then have h: "holds (tx_bc t) x (bno_of (tx_bc t) x)" and q: "tx_own t x = Some q"
        using x own_invD(1) [OF own] by auto
      then show ?thesis
        using st'(5) [of x] same_blk_clean [OF st'(3) st'(6) [OF h]] own_invD(3) [OF own q] by simp
    qed
  next
    fix x y assume "holds (tx_bc ?u) x y"
    then show "tx_own ?u x \<noteq> None" using st'(5) [of x y] own_invD(2) [OF own, of x y] by auto
  qed
qed (use b nos_view_step [OF acq] inv in \<open>auto simp: tx_inv_def disk_inv_def\<close>)

lemma tx_release_inv:
  assumes inv: "tx_inv sb t" and a: "tx_own t a = Some p" "clean (tx_bc t) a"
    and rel: "cache_release a (tx_bc t) = Inr s"
  shows "tx_inv sb (t\<lparr>tx_bc := s, tx_own := (tx_own t)(a := None)\<rparr>)" (is "tx_inv sb ?u")
proof (rule tx_inv_keep_log [OF inv])
  have bi: "bc_inv (tx_bc t)" and own: "own_inv t" using inv by (auto simp: tx_inv_def disk_inv_def)
  note h = own_invD(1) [OF own a(1)]
  have st: "released_step (tx_bc t) a s"
    using cache_release_step [OF bi h a(2)] rel by auto
  then have st': "bc_inv s" "same_log (tx_bc t) s" "pinned_nos s = pinned_nos (tx_bc t)"
    "\<And>a' b'. holds s a' b' \<longleftrightarrow> holds (tx_bc t) a' b' \<and> a' \<noteq> a"
    "\<And>a' b'. holds s a' b' \<Longrightarrow> blk s a' = blk (tx_bc t) a'"
    unfolding released_step_def by blast+
  show "bc_inv s" "same_log (tx_bc t) s" by fact+
  show "room_left (tx_ops ?u) + card (pinned_nos s) = room_left (tx_ops t) + card (pinned_nos (tx_bc t))"
    using st'(3) by simp
  show "b \<in> nos (tx_bc t) \<or> b \<notin> log_area sb \<and> b < 2 ^ 64" if "b \<in> nos s" for b
    using nos_release [OF rel bi h] that by auto
  show "own_inv ?u"
  proof (rule own_invI)
    fix x q assume x: "tx_own ?u x = Some q"
    then have q: "tx_own t x = Some q" "x \<noteq> a" by (auto split: if_splits)
    then have hx: "holds s x (bno_of (tx_bc t) x)"
      using own_invD(1) [OF own, of x q] st'(4) by simp
    then show "holds (tx_bc ?u) x (bno_of (tx_bc ?u) x) \<and> (clean (tx_bc ?u) x \<or> q \<in> fst ` set (tx_ops ?u))"
      using same_blk_clean [OF st'(2) st'(5) [OF hx]] own_invD(3) [OF own q(1)] by simp
  next
    fix x y assume "holds (tx_bc ?u) x y"
    then show "tx_own ?u x \<noteq> None" using st'(4) [of x y] own_invD(2) [OF own, of x y] by auto
  qed
qed (use inv in \<open>auto simp: tx_inv_def\<close>)

lemma tx_change_inv:
  assumes inv: "tx_inv sb t" and a: "tx_own t a = Some p" "p \<in> fst ` set (tx_ops t)"
    and d: "length d = BLOCK_SIZE"
  shows "tx_inv sb (t\<lparr>tx_bc := set_data a d (tx_bc t)\<rparr>)" (is "tx_inv sb ?u")
proof (rule tx_inv_keep_log [OF inv])
  have bi: "bc_inv (tx_bc t)" and own: "own_inv t" using inv by (auto simp: tx_inv_def disk_inv_def)
  note S = set_data_step [OF bi own_invD(1) [OF own a(1)] d]
  show "bc_inv (set_data a d (tx_bc t))" "same_log (tx_bc t) (set_data a d (tx_bc t))" by fact+
  show "room_left (tx_ops ?u) + card (pinned_nos (set_data a d (tx_bc t))) =
      room_left (tx_ops t) + card (pinned_nos (tx_bc t))"
    using S(7) by simp
  show "b \<in> nos (tx_bc t) \<or> b \<notin> log_area sb \<and> b < 2 ^ 64" if "b \<in> nos (set_data a d (tx_bc t))" for b
    using that by (auto simp: nos_def set_data_def)
  show "own_inv ?u"
  proof (rule own_invI)
    fix x q assume x: "tx_own ?u x = Some q"
    then have q: "tx_own t x = Some q" by simp
    have bn: "bno_of (tx_bc ?u) x = bno_of (tx_bc t) x" by (simp add: set_data_def)
    have "clean (tx_bc ?u) x \<or> q \<in> fst ` set (tx_ops ?u)"
      using same_blk_clean(1) [OF S(6) S(4)] own_invD(3) [OF own q] a q by (cases "x = a") auto
    then show "holds (tx_bc ?u) x (bno_of (tx_bc ?u) x) \<and> (clean (tx_bc ?u) x \<or> q \<in> fst ` set (tx_ops ?u))"
      using own_invD(1) [OF own q] S(3) by (simp add: bn [simplified])
  next
    fix x y assume "holds (tx_bc ?u) x y"
    then show "tx_own ?u x \<noteq> None" using S(3) own_invD(2) [OF own, of x y] by simp
  qed
qed (use inv in \<open>auto simp: tx_inv_def\<close>)

lemma finite_pinned [simp]: "finite (pinned_nos s)"
  by (simp add: pinned_nos_def)

lemma cache_sync_Inr_room:
  assumes "cache_sync (Some ctx) a s = Inr r" and "ctx_ok ctx" and "bc_inv s" and "holds s a b"
  shows "b \<in> pinned_nos s \<or> 0 < budget ctx"
  using assms cache_sync_exhausted [of s a ctx] pinned_nos_held [OF assms(3,4)] by auto

lemma tx_sync_inv:
  assumes inv: "tx_inv sb t" and a: "tx_own t a = Some p" and ops: "tx_ops t = xs @ (p, ctx) # ys"
    and syn: "cache_sync (Some ctx) a (tx_bc t) = Inr (Some ctx', s)"
  shows "tx_inv sb (t\<lparr>tx_bc := s, tx_ops := xs @ (p, ctx') # ys\<rparr>)" (is "tx_inv sb ?u")
proof (rule tx_inv_keep_log [OF inv])
  have bi: "bc_inv (tx_bc t)" and own: "own_inv t" using inv by (auto simp: tx_inv_def disk_inv_def)
  have ok: "ctx_ok ctx" using inv ops by (auto simp: tx_inv_def)
  let ?b = "bno_of (tx_bc t) a"
  note h = own_invD(1) [OF own a]
  have S: "ctx_ok ctx'" "budget ctx' + of_bool (?b \<notin> pinned_nos (tx_bc t)) = budget ctx"
    "bc_inv s" "\<And>a' b'. holds s a' b' = holds (tx_bc t) a' b'" "clean s a"
    "\<And>a'. a' \<noteq> a \<Longrightarrow> blk s a' = blk (tx_bc t) a'" "same_log (tx_bc t) s"
    "pinned_nos s = insert ?b (pinned_nos (tx_bc t))"
    using cache_sync_step [OF bi h ok cache_sync_Inr_room [OF syn ok bi h]] syn by auto
  show "bc_inv s" "same_log (tx_bc t) s" by fact+
  show "room_left (tx_ops ?u) + card (pinned_nos s) = room_left (tx_ops t) + card (pinned_nos (tx_bc t))"
    using S(2) by (auto simp: S(8) ops card_insert_if insert_absorb)
  show "\<forall>(p, ctx)\<in>set (tx_ops ?u). ctx_ok ctx" using inv ops S(1) by (auto simp: tx_inv_def)
  have bn: "bno_of s x = bno_of (tx_bc t) x" "cached s = cached (tx_bc t)" for x
    using syn by (auto simp: cache_sync_def Let_def split: if_splits)
  show "b \<in> nos (tx_bc t) \<or> b \<notin> log_area sb \<and> b < 2 ^ 64" if "b \<in> nos s" for b
    using that bn by (simp add: nos_def)
  show "own_inv ?u"
  proof (rule own_invI)
    fix x q assume x: "tx_own ?u x = Some q"
    then have q: "tx_own t x = Some q" by simp
    have "clean s x \<or> q \<in> fst ` set (tx_ops ?u)"
      using same_blk_clean(1) [OF S(7) S(6)] own_invD(3) [OF own q] S(5) by (cases "x = a") (auto simp: ops)
    then show "holds (tx_bc ?u) x (bno_of (tx_bc ?u) x) \<and> (clean (tx_bc ?u) x \<or> q \<in> fst ` set (tx_ops ?u))"
      using own_invD(1) [OF own q] S(4) by (simp add: bn(1))
  next
    fix x y assume "holds (tx_bc ?u) x y"
    then show "tx_own ?u x \<noteq> None" using S(4) own_invD(2) [OF own, of x y] by simp
  qed
qed (simp_all add: ops)

section \<open>Begin\<close>

lemma not_log_full:
  assumes "sb_ok sb" and "\<not> log_full sb init_ctx l"
    and "0 \<le> operation_count l" and "operation_count l \<le> int LOG_MAX_SIZE"
  shows "\<not> is_committing l" and "operation_count l + 10 \<le> int (num_log_blocks sb - 1)"
    and "operation_count l + 10 \<le> int LOG_MAX_SIZE"
proof -
  have "uint (of_int (operation_count l) + 10 :: u64) = operation_count l + 10"
    using assms(3,4) by (simp add: uint_word_ariths uint_word_of_int fs_consts)
  then show "\<not> is_committing l" and "operation_count l + 10 \<le> int (num_log_blocks sb - 1)"
    and "operation_count l + 10 \<le> int LOG_MAX_SIZE"
    using assms(2) sb_ok_room(1) [OF assms(1)]
    by (auto simp: log_full_def init_ctx_def OP_MAX_NUM_BLOCKS_def)
qed

lemma cache_begin_op_eq:
  assumes "\<not> log_lock (log s)"
  shows "cache_begin_op sb p s =
    (if log_full sb init_ctx (log s)
     then let (ok, sem) = wait_sem_enter p (log_sem (log s))
          in Inr (if ok then Retry else Asleep, init_ctx, s\<lparr>log := (log s)\<lparr>log_sem := sem\<rparr>\<rparr>)
     else Inr (Done, init_ctx, s\<lparr>log := (log s)\<lparr>started_event_count := started_event_count (log s) + 1,
            operation_count := operation_count (log s) + 10\<rparr>\<rparr>))"
  using assms
  by (simp add: cache_begin_op_def Let_def release_spinlock_def log_full_def init_ctx_def
      OP_MAX_NUM_BLOCKS_def split: prod.splits)

lemma log_only:
  assumes "bc_inv s"
  shows "bc_inv (s\<lparr>log := l\<rparr>)" and "view (s\<lparr>log := l\<rparr>) = view s"
    and "holds (s\<lparr>log := l\<rparr>) a b = holds s a b" and "clean (s\<lparr>log := l\<rparr>) a = clean s a"
    and "nos (s\<lparr>log := l\<rparr>) = nos s" and "pinned_nos (s\<lparr>log := l\<rparr>) = pinned_nos s"
  using assms
  by (simp_all add: bc_inv_def view_def [abs_def] holds_def clean_def nos_def pinned_nos_def
      cong: option.case_cong)

lemma tx_log_inv:
  assumes inv: "tx_inv sb t" and l: "log_inv sb ops (card (pinned_nos (tx_bc t))) l"
    and ok: "\<forall>(p, ctx)\<in>set ops. ctx_ok ctx"
    and own: "\<And>p. p \<in> fst ` set (tx_ops t) \<Longrightarrow> p \<in> fst ` set ops \<or> Some p \<notin> range (tx_own t)"
  shows "tx_inv sb (t\<lparr>tx_bc := (tx_bc t)\<lparr>log := l\<rparr>, tx_ops := ops\<rparr>)"
proof -
  have bi: "bc_inv (tx_bc t)" and oi: "own_inv t" using inv by (auto simp: tx_inv_def disk_inv_def)
  have "own_inv (t\<lparr>tx_bc := (tx_bc t)\<lparr>log := l\<rparr>, tx_ops := ops\<rparr>)"
  proof (rule own_invI)
    fix a p assume "tx_own (t\<lparr>tx_bc := (tx_bc t)\<lparr>log := l\<rparr>, tx_ops := ops\<rparr>) a = Some p"
    then have p: "tx_own t a = Some p" by simp
    then have "Some p \<in> range (tx_own t)" by (metis rangeI)
    then show "holds (tx_bc (t\<lparr>tx_bc := (tx_bc t)\<lparr>log := l\<rparr>, tx_ops := ops\<rparr>)) a
        (bno_of (tx_bc (t\<lparr>tx_bc := (tx_bc t)\<lparr>log := l\<rparr>, tx_ops := ops\<rparr>)) a) \<and>
        (clean (tx_bc (t\<lparr>tx_bc := (tx_bc t)\<lparr>log := l\<rparr>, tx_ops := ops\<rparr>)) a \<or>
         p \<in> fst ` set (tx_ops (t\<lparr>tx_bc := (tx_bc t)\<lparr>log := l\<rparr>, tx_ops := ops\<rparr>)))"
      using own_invD(1,3) [OF oi p] own [of p] by (auto simp: log_only [OF bi])
  qed (use own_invD(2) [OF oi] in \<open>auto simp: log_only [OF bi]\<close>)
  then show ?thesis
    using inv l ok by (simp add: tx_inv_def disk_inv_def log_only)
qed

lemma tx_begin_inv:
  assumes inv: "tx_inv sb t" and p: "p \<notin> fst ` set (tx_ops t)"
    and beg: "cache_begin_op sb p (tx_bc t) = Inr (Done, ctx, s)"
  shows "tx_inv sb (t\<lparr>tx_bc := s, tx_ops := (p, ctx) # tx_ops t\<rparr>)"
proof -
  let ?l = "log (tx_bc t)"
  have L: "sb_ok sb" "log_inv sb (tx_ops t) (card (pinned_nos (tx_bc t))) ?l"
    "\<forall>(p, ctx)\<in>set (tx_ops t). ctx_ok ctx"
    using inv by (auto simp: tx_inv_def)
  then have lk: "\<not> log_lock ?l" by (simp add: log_inv_def)
  have nf: "\<not> log_full sb init_ctx ?l"
    using beg cache_begin_op_eq [OF lk] by (auto split: if_splits prod.splits)
  then have s: "s = (tx_bc t)\<lparr>log := ?l\<lparr>started_event_count := started_event_count ?l + 1,
      operation_count := operation_count ?l + 10\<rparr>\<rparr>" "ctx = init_ctx"
    using beg cache_begin_op_eq [OF lk] by auto
  note F = not_log_full [OF L(1) nf]
  have "log_inv sb ((p, init_ctx) # tx_ops t) (card (pinned_nos (tx_bc t)))
     (?l\<lparr>started_event_count := started_event_count ?l + 1, operation_count := operation_count ?l + 10\<rparr>)"
    using L(2) F by (auto simp: log_inv_def budget_init_ctx OP_MAX_NUM_BLOCKS_def)
  then show ?thesis
    using tx_log_inv [OF inv, of "(p, init_ctx) # tx_ops t"] L(3) init_ctx_ok unfolding s by auto
qed

lemma tx_begin_wait_inv:
  assumes inv: "tx_inv sb t" and p: "p \<notin> set (sleeplist (log_sem (log (tx_bc t))))"
    and beg: "cache_begin_op sb p (tx_bc t) = Inr (Asleep, ctx, s)"
  shows "tx_inv sb (t\<lparr>tx_bc := s\<rparr>)"
proof -
  let ?l = "log (tx_bc t)"
  have L: "log_inv sb (tx_ops t) (card (pinned_nos (tx_bc t))) ?l" "\<forall>(p, ctx)\<in>set (tx_ops t). ctx_ok ctx"
    using inv by (auto simp: tx_inv_def)
  then have lk: "\<not> log_lock ?l" and si: "sem_idle (log_sem ?l)" by (simp_all add: log_inv_def)
  obtain sem where w: "wait_sem_enter p (log_sem ?l) = (False, sem)" "sem_idle sem"
    using wait_idle [OF si p] by blast
  have s: "s = (tx_bc t)\<lparr>log := ?l\<lparr>log_sem := sem\<rparr>\<rparr>"
    using beg cache_begin_op_eq [OF lk] w(1) by (auto split: if_splits)
  have "log_inv sb (tx_ops t) (card (pinned_nos (tx_bc t))) (?l\<lparr>log_sem := sem\<rparr>)"
    using L(1) w(2) by (simp add: log_inv_def)
  then show ?thesis
    using tx_log_inv [OF inv, of "tx_ops t"] L(2) unfolding s by simp
qed

section \<open>End\<close>

lemma apply_writes_length:
  assumes "\<And>b x. (b, x) \<in> set ws \<Longrightarrow> length x = n" and "\<And>b. length (d b) = n"
  shows "length (apply_writes ws d b) = n"
proof (cases "map_of (rev ws) b")
  case (Some x)
  then have "(b, x) \<in> set ws" using map_of_SomeD by fastforce
  then show ?thesis using Some assms(1) by (simp add: apply_writes_map_of)
qed (simp add: apply_writes_map_of assms(2))

lemma set_pins: "set (pins s) \<subseteq> set (cached s)"
  by (auto simp: pins_def)

lemma commit_nos_length: "log_ready sb s \<Longrightarrow> length (commit_nos s) = LOG_MAX_SIZE"
  using log_readyD(1,4) [of sb s] bc_invD(8) [of s] by (simp add: commit_nos_def)

lemma commit_writes_length:
  assumes "log_ready sb s" and "(b, x) \<in> set (commit_writes sb s)"
  shows "length x = BLOCK_SIZE"
proof -
  have "length (blk_data (blk s a)) = BLOCK_SIZE" if "a \<in> set (pins s)" for a
    using bc_invD(6) [OF log_readyD(1) [OF assms(1)], of a] that set_pins [of s] by (auto simp: blk_wf_def)
  moreover have "length (header_bytes (full_header s)) = BLOCK_SIZE"
    and "length (header_bytes (empty_header s)) = BLOCK_SIZE"
    using commit_nos_length [OF assms(1)]
    by (auto intro!: length_header_bytes simp: full_header_def empty_header_def)
  ultimately show ?thesis
    using assms(2) by (auto simp: commit_writes_def log_writes_def data_writes_def)
qed

lemma committed_simps [simp]:
  "cached (committed sb s) = cached s" "log (committed sb s) = log s"
  "disk (committed sb s) = apply_writes (commit_writes sb s) (disk s)"
  "header (committed sb s) = empty_header s" "fresh (committed sb s) = fresh s"
  "cache_lock (committed sb s) = cache_lock s" "num_cached_blocks (committed sb s) = num_cached_blocks s"
  "blk (committed sb s) = unpin (set (pins s)) (blk s)"
  by (simp_all add: committed_def after_writes_def)

lemma unpin_simps [simp]:
  "block_no (unpin A bl a) = block_no (bl a)" "blk_data (unpin A bl a) = blk_data (bl a)"
  "acquired (unpin A bl a) = acquired (bl a)" "pinned (unpin A bl a) \<longleftrightarrow> pinned (bl a) \<and> a \<notin> A"
  "refcnt (unpin A bl a) = refcnt (bl a)" "blk_lock (unpin A bl a) = blk_lock (bl a)"
  by (simp_all add: unpin_def)

lemma committed_inv:
  assumes ready: "log_ready sb s" and di: "disk_inv sb s"
  shows "disk_inv sb (committed sb s)" and "pinned_nos (committed sb s) = {}"
    and "holds (committed sb s) a b = holds s a b" and "clean (committed sb s) a' \<or> a' \<notin> set (cached s)"
    and "b \<notin> log_area sb \<Longrightarrow> view (committed sb s) b = view s b"
proof -
  let ?t = "committed sb s"
  note I = bc_invD [OF log_readyD(1) [OF ready]]
  have dk: "disk ?t (bno_of s a) = blk_data (blk s a)" if "a \<in> set (cached s)" for a
    using committed_disk(2) [OF ready refl, of "bno_of s a"] view_cached [OF I(3) that]
      di nosI [OF that] by (simp add: disk_inv_def)
  have inv: "bc_inv ?t"
    unfolding bc_inv_def
  proof (intro conjI ballI allI)
    fix a assume a: "a \<in> set (cached ?t)"
    then show "a < fresh ?t" and "blk_wf (disk ?t (bno_of ?t a)) (blk ?t a)"
      using I(5,6) [of a] dk [of a] by (auto simp: blk_wf_def)
  next
    show "inj_on (bno_of ?t) (set (cached ?t))"
      using I(3) by (simp add: inj_on_def)
    show "length (disk ?t b) = BLOCK_SIZE" for b
      using apply_writes_length [OF commit_writes_length [OF ready] I(7)] by simp
  qed (use I commit_nos_length [OF ready] in \<open>auto simp: empty_header_def\<close>)
  have "set (hdr_block_no (empty_header s)) = set (commit_nos s)" by (simp add: empty_header_def)
  moreover have "nos ?t = nos s" by (simp add: nos_def)
  moreover have "rd 8 0 (disk ?t (log_start sb)) = 0"
    by (simp add: commit_writes_def header_bytes_num empty_header_def)
  ultimately show "disk_inv sb ?t"
    using inv di log_readyD(7) [OF ready] by (auto simp: disk_inv_def)
  show "pinned_nos ?t = {}" by (auto simp: pinned_nos_def pins_def)
  show "holds ?t a b = holds s a b" by (simp add: holds_def)
  show "clean ?t a' \<or> a' \<notin> set (cached s)"
    using dk [of a'] by (auto simp: clean_def)
  show "view ?t b = view s b" if "b \<notin> log_area sb"
  proof (cases "b \<in> nos s")
    case True
    then obtain x where x: "x \<in> set (cached s)" "b = bno_of s x" by (auto simp: nos_def)
    then show ?thesis
      using view_cached [OF bc_invD(3) [OF inv], of x] view_cached [OF I(3) x(1)] by simp
  next
    case False
    then have "b \<notin> nos ?t" by (simp add: nos_def)
    then show ?thesis
      using view_uncached [of b ?t] committed_disk(2) [OF ready refl that] by simp
  qed
qed

lemma unheld_clean: "bc_inv s \<Longrightarrow> a \<in> set (cached s) \<Longrightarrow> \<not> acquired (blk s a) \<Longrightarrow> clean s a"
  using bc_invD(6) [of s a] by (auto simp: blk_wf_def clean_def)

text \<open>When the last running operation ends, everything is ready for the commit.\<close>

lemma tx_commit_ready:
  assumes inv: "tx_inv sb t" and ops: "tx_ops t = [(p, ctx)]" and free: "Some p \<notin> range (tx_own t)"
  shows "log_ready sb ((tx_bc t)\<lparr>log := l\<rparr>)"
proof -
  let ?s = "tx_bc t"
  have di: "disk_inv sb ?s" and own: "own_inv t" and ok: "sb_ok sb"
    and l: "log_inv sb (tx_ops t) (card (pinned_nos ?s)) (log ?s)"
    using inv by (auto simp: tx_inv_def)
  note bi = disk_invD [OF di]
  have cl: "clean ?s a" if "a \<in> set (cached ?s)" for a
  proof (cases "acquired (blk ?s a)")
    case True
    then have "holds ?s a (bno_of ?s a)" using that by (simp add: holds_def)
    then obtain q where q: "tx_own t a = Some q" using own_invD(2) [OF own] by blast
    then have "q \<noteq> p" using free by (metis rangeI)
    then show ?thesis using own_invD(3) [OF own q] ops by simp
  qed (use unheld_clean [OF bi that] in simp)
  have "length (pins ?s) \<le> num_log_blocks sb - 1" and "length (pins ?s) \<le> LOG_MAX_SIZE"
    using l card_pinned [OF bi] by (simp_all add: log_inv_def)
  moreover have "bno_of ?s a \<notin> log_area sb \<and> bno_of ?s a < 2 ^ 64" if "a \<in> set (pins ?s)" for a
    using that set_pins [of ?s] di nosI [of a ?s] by (auto simp: disk_inv_def)
  ultimately have "log_ready sb ?s"
    using ok di bi cl by (auto simp: log_ready_def disk_inv_def commit_nos_def dest: in_set_dropD)
  then show ?thesis
    using log_only [OF bi] by (simp add: log_ready_def pins_def commit_nos_def)
qed

lemma tx_end_last:
  assumes inv: "tx_inv sb t" and ops: "tx_ops t = [(p, ctx)]" and free: "Some p \<notin> range (tx_own t)"
  shows "\<exists>s. cache_end_op sb p ctx (tx_bc t) = Inr (Done, s) \<and>
    tx_inv sb (t\<lparr>tx_bc := s, tx_ops := []\<rparr>) \<and>
    (\<forall>b. b \<notin> log_area sb \<longrightarrow> disk s b = view (tx_bc t) b \<and> view s b = view (tx_bc t) b)"
proof -
  let ?s = "tx_bc t"
  let ?l = "log ?s"
  let ?l1 = "?l\<lparr>started_event_count := 0, operation_count := operation_count ?l - uint (rm ctx),
    is_committing := True, log_lock := False\<rparr>"
  let ?s1 = "?s\<lparr>log := ?l1\<rparr>"
  have di: "disk_inv sb ?s" and own: "own_inv t" and ok: "sb_ok sb"
    and l: "log_inv sb [(p, ctx)] (card (pinned_nos ?s)) ?l"
    using inv ops by (auto simp: tx_inv_def)
  note bi = disk_invD [OF di]
  have ready: "log_ready sb ?s1" by (rule tx_commit_ready [OF inv ops free])
  have di1: "disk_inv sb ?s1" using di by (simp add: disk_inv_def log_only)
  let ?c = "committed sb ?s1"
  note C = committed_inv [OF ready di1]
  obtain sem1 sem2 where sem: "post_all (log_sem ?l) = Inr sem1" "sem_idle sem1"
    "post_all (end_op_sem ?l) = Inr sem2" "sem_idle sem2"
    using l post_all_eq by (auto simp: log_inv_def) metis
  let ?l2 = "?l1\<lparr>is_committing := False, operation_count := 0, log_sem := sem1, end_op_sem := sem2,
    log_lock := False\<rparr>"
  let ?r = "?c\<lparr>log := ?l2\<rparr>"
  have fin: "cache_end_op sb p ctx ?s = Inr (Done, ?r)"
    using l commit_eq [OF ready] sem
    by (simp add: cache_end_op_def log_inv_def release_spinlock_def Let_def)
  have bc: "bc_inv ?c" by (rule disk_invD [OF C(1)])
  have v: "disk ?r b = view ?s b \<and> view ?r b = view ?s b" if "b \<notin> log_area sb" for b
    using committed_disk(2) [OF ready refl that] C(5) [OF that] by (simp add: log_only [OF bc] log_only [OF bi])
  have "own_inv (t\<lparr>tx_bc := ?r, tx_ops := []\<rparr>)"
  proof (rule own_invI)
    fix a q assume "tx_own (t\<lparr>tx_bc := ?r, tx_ops := []\<rparr>) a = Some q"
    then have h: "holds ?s a (bno_of ?s a)" using own_invD(1) [OF own] by simp
    then show "holds (tx_bc (t\<lparr>tx_bc := ?r, tx_ops := []\<rparr>)) a
        (bno_of (tx_bc (t\<lparr>tx_bc := ?r, tx_ops := []\<rparr>)) a) \<and>
        (clean (tx_bc (t\<lparr>tx_bc := ?r, tx_ops := []\<rparr>)) a \<or> q \<in> fst ` set (tx_ops (t\<lparr>tx_bc := ?r, tx_ops := []\<rparr>)))"
      using C(3) C(4) [of a] by (simp add: log_only [OF bc] log_only [OF bi]) (simp add: holds_def)
  qed (use own_invD(2) [OF own] C(3) in \<open>auto simp: log_only [OF bc] log_only [OF bi]\<close>)
  moreover have "log_inv sb [] 0 ?l2" using l sem by (simp add: log_inv_def)
  ultimately have "tx_inv sb (t\<lparr>tx_bc := ?r, tx_ops := []\<rparr>)"
    using C(1,2) ok by (simp add: tx_inv_def disk_inv_def log_only)
  then show ?thesis using fin v by blast
qed

lemma tx_end_other:
  assumes inv: "tx_inv sb t" and ops: "tx_ops t = xs @ (p, ctx) # ys" "xs @ ys \<noteq> []"
    and free: "Some p \<notin> range (tx_own t)"
    and p: "p \<notin> set (sleeplist (end_op_sem (log (tx_bc t))))"
  shows "\<exists>s. cache_end_op sb p ctx (tx_bc t) = Inr (opres.Asleep, s) \<and>
    tx_inv sb (t\<lparr>tx_bc := s, tx_ops := xs @ ys\<rparr>)"
proof -
  let ?s = "tx_bc t"
  let ?l = "log ?s"
  have l: "log_inv sb (tx_ops t) (card (pinned_nos ?s)) ?l" and oks: "\<forall>(p, ctx)\<in>set (tx_ops t). ctx_ok ctx"
    using inv by (auto simp: tx_inv_def)
  obtain sem1 where s1: "post_all (log_sem ?l) = Inr sem1" "sem_idle sem1"
    using l post_all_eq by (auto simp: log_inv_def)
  obtain sem2 where s2: "wait_sem_enter p (end_op_sem ?l) = (False, sem2)" "sem_idle sem2"
    using l wait_idle [OF _ p] by (auto simp: log_inv_def)
  let ?l1 = "?l\<lparr>started_event_count := started_event_count ?l - 1,
    operation_count := operation_count ?l - uint (rm ctx), log_sem := sem1, log_lock := False,
    end_op_sem := sem2\<rparr>"
  have "int (length (tx_ops t)) - 1 \<noteq> 0" using ops by (cases xs) auto
  then have "cache_end_op sb p ctx ?s = Inr (opres.Asleep, ?s\<lparr>log := ?l1\<rparr>)"
    using l s1 s2 by (simp add: cache_end_op_def log_inv_def release_spinlock_def Let_def)
  moreover have "uint (rm ctx) = int (budget ctx)" by (simp add: budget_def)
  then have "log_inv sb (xs @ ys) (card (pinned_nos ?s)) ?l1"
    using l s1 s2 ops(1) by (auto simp: log_inv_def)
  then have "tx_inv sb (t\<lparr>tx_bc := ?s\<lparr>log := ?l1\<rparr>, tx_ops := xs @ ys\<rparr>)"
    by (rule tx_log_inv [OF inv]) (use oks ops free in auto)
  ultimately show ?thesis by blast
qed

section \<open>Reachable states\<close>

lemma recovery_writes_length:
  assumes "\<And>b. length (d b) = BLOCK_SIZE" and "(b, x) \<in> set (recovery_writes sb d)"
  shows "length x = BLOCK_SIZE"
proof -
  have "length (header_bytes ((disk_header sb d)\<lparr>hdr_num_blocks := 0\<rparr>)) = BLOCK_SIZE"
    by (rule length_header_bytes) simp
  then show ?thesis
    using assms by (auto simp: recovery_writes_def replay_writes_def split: if_splits)
qed

lemma tx_start_inv:
  assumes "tx_start sb t"
  shows "tx_inv sb t"
proof -
  obtain d where d: "recoverable sb d" "\<And>b. length (d b) = BLOCK_SIZE"
    "init_bcache sb (reboot d) = Inr (tx_bc t)"
    using assms by (auto simp: tx_start_def)
  let ?r = "tx_bc t"
  have r: "disk ?r = apply_writes (recovery_writes sb d) d" "cached ?r = []" "\<not> cache_lock ?r"
    "num_cached_blocks ?r = 0" "log ?r = init_log"
    "hdr_block_no (header ?r) = hdr_block_no (disk_header sb d)"
    using recovery_eq [OF d(1)] d(3) by auto
  have "length (disk ?r b) = BLOCK_SIZE" for b
    unfolding r(1)
    by (rule apply_writes_length) (use recovery_writes_length [of d] d(2) in blast)+
  moreover have "n < 2 ^ 64" if "n \<in> set (hdr_block_no (disk_header sb d))" for n
    using that rd_less [of 8] by (auto simp: disk_header_def header_load_def)
  ultimately have "disk_inv sb ?r"
    using recovered_log_empty [of sb d] r(2-6)
    by (simp add: disk_inv_def bc_inv_def nos_def) (simp add: r(1))
  moreover have "log_inv sb [] 0 init_log"
    by (simp add: log_inv_def init_log_def init_spinlock_def sem_idle_def init_sem_inv) (simp add: init_sem_def)
  moreover have "own_inv t"
    using assms r(2) by (simp add: own_inv_def tx_start_def holds_def)
  ultimately show ?thesis
    using assms r(2,5) by (simp add: tx_inv_def tx_start_def pinned_nos_def)
qed

lemma tx_step_inv:
  assumes "tx_step sb t u" and "tx_inv sb t"
  shows "tx_inv sb u"
  using assms
proof (induction rule: tx_step.induct)
  case (tx_end t xs p ctx ys r s)
  then show ?case
    using tx_end_last [of sb t p ctx] tx_end_other [of sb t xs p ctx ys]
    by (cases "xs @ ys = []") auto
qed (simp_all add: tx_begin_inv tx_begin_wait_inv tx_acquire_inv tx_change_inv tx_sync_inv tx_release_inv)

lemma tx_reachable_inv: "tx_reachable sb t \<Longrightarrow> tx_inv sb t"
  by (induction rule: tx_reachable.induct) (auto intro: tx_start_inv tx_step_inv)

section \<open>Properties\<close>

text \<open>
  C2: in every interleaving of operations, the log has room for what it will have to hold: the
  pinned blocks and the blocks that the running operations may still pin add up to the counter
  \<^verbatim>\<open>operation_count\<close>, which exceeds neither the log on the disk nor the entries of its header; no
  lock is left taken between two calls.
\<close>

theorem log_space_reserved:
  assumes "tx_reachable sb t"
  shows "operation_count (log (tx_bc t)) = int (room_left (tx_ops t) + length (pins (tx_bc t))) \<and>
    operation_count (log (tx_bc t)) \<le> int (min (num_log_blocks sb - 1) LOG_MAX_SIZE) \<and>
    started_event_count (log (tx_bc t)) = int (length (tx_ops t)) \<and>
    \<not> is_committing (log (tx_bc t)) \<and> \<not> log_lock (log (tx_bc t)) \<and> \<not> cache_lock (tx_bc t)"
  using tx_reachable_inv [OF assms] card_pinned [of "tx_bc t"] bc_invD(1) [of "tx_bc t"]
  by (auto simp: tx_inv_def log_inv_def disk_inv_def)

text \<open>
  C3: the end of an operation never panics. When other operations are running, the caller goes to
  sleep until the group commit; the end of the last one commits, and returns with every block
  outside the log on the disk as the processes see it.
\<close>

theorem end_op_commits:
  assumes "tx_reachable sb t" and "tx_ops t = xs @ (p, ctx) # ys" and "Some p \<notin> range (tx_own t)"
    and "p \<notin> set (sleeplist (end_op_sem (log (tx_bc t))))"
  shows "\<exists>s. cache_end_op sb p ctx (tx_bc t) = Inr (if xs @ ys = [] then Done else opres.Asleep, s) \<and>
    (xs @ ys = [] \<longrightarrow> (\<forall>b. b \<notin> log_area sb \<longrightarrow> disk s b = view (tx_bc t) b))"
  using tx_end_last [OF tx_reachable_inv [OF assms(1)], of p ctx]
    tx_end_other [OF tx_reachable_inv [OF assms(1)] assms(2) _ assms(3,4)] assms(2,3)
  by (cases "xs @ ys = []") auto

definition demo_disk :: "nat \<Rightarrow> u8 list" where
  "demo_disk = (\<lambda>_. replicate BLOCK_SIZE 0)"

lemma demo_recoverable: "recoverable demo_sb demo_disk" "recovery_writes demo_sb demo_disk = []"
  by (simp_all add: recoverable_def disk_header_def header_load_def demo_disk_def rd_zeros
      recovery_writes_def demo_sb_def)

definition demo_tx :: txst where
  "demo_tx = \<lparr>tx_bc = projr (init_bcache demo_sb (reboot demo_disk)), tx_ops = [], tx_own = (\<lambda>_. None)\<rparr>"

lemma demo_tx_start: "tx_start demo_sb demo_tx" "log (tx_bc demo_tx) = init_log"
  using recovery_eq [OF demo_recoverable(1)] demo_recoverable(1)
  by (auto simp: tx_start_def demo_tx_def sb_ok_def demo_sb_def demo_disk_def)

text \<open>One operation, of process 7, has begun.\<close>

definition demo_tx1 :: txst where
  "demo_tx1 = demo_tx\<lparr>tx_bc := (tx_bc demo_tx)\<lparr>log := init_log\<lparr>started_event_count := 1,
     operation_count := 10\<rparr>\<rparr>, tx_ops := [(7, init_ctx)]\<rparr>"

lemma demo_tx1_reachable: "tx_reachable demo_sb demo_tx1"
proof -
  have "\<not> log_full demo_sb init_ctx init_log"
    using sb_ok_room(1) [of demo_sb]
    by (simp add: log_full_def init_log_def init_ctx_def fs_consts sb_ok_def demo_sb_def)
  then have "cache_begin_op demo_sb 7 (tx_bc demo_tx) = Inr (Done, init_ctx, tx_bc demo_tx1)"
    using demo_tx_start(2) cache_begin_op_eq [of "tx_bc demo_tx" demo_sb 7]
    by (simp add: demo_tx1_def init_log_def init_spinlock_def)
  then have "tx_step demo_sb demo_tx (demo_tx\<lparr>tx_bc := tx_bc demo_tx1, tx_ops := (7, init_ctx) # tx_ops demo_tx\<rparr>)"
    by (intro tx_step.tx_begin) (auto simp: demo_tx_def)
  then show ?thesis
    using demo_tx_start(1) by (auto simp: demo_tx1_def demo_tx_def intro: tx_reachable.intros)
qed

theorem log_space_reserved_witness:
  "tx_reachable demo_sb demo_tx1 \<and> room_left (tx_ops demo_tx1) + length (pins (tx_bc demo_tx1)) = 10"
  using demo_tx1_reachable log_space_reserved [OF demo_tx1_reachable] by (simp add: demo_tx1_def)

theorem end_op_commits_witness:
  "tx_reachable demo_sb demo_tx1 \<and> (\<exists>s. cache_end_op demo_sb 7 init_ctx (tx_bc demo_tx1) = Inr (Done, s))"
  using demo_tx1_reachable
    end_op_commits [OF demo_tx1_reachable, of "[]" 7 init_ctx "[]"]
  by (auto simp: demo_tx1_def demo_tx_def init_log_def init_sem_def)

end
