(* ===== verification/File.thy ===== *)
theory File
  imports Inode_Props Pipe Transactions
begin

text \<open>
  \<^verbatim>\<open>src/src/fs/file.c\<close> and \<^verbatim>\<open>pipeAlloc\<close> of \<^verbatim>\<open>src/src/fs/pipe.c\<close>: the table of open files, over the inode
  layer and the pipes. A call that has to wait for another process is the result \<^verbatim>\<open>Sleep\<close>.
\<close>

definition NFILE :: nat where "NFILE = 65536"
definition NOFILE :: nat where "NOFILE = 64"

datatype fdtype = FD_NONE | FD_PIPE | FD_INODE

text \<open>\<^verbatim>\<open>fobj\<close> is the union of \<^verbatim>\<open>pipe\<close> and \<^verbatim>\<open>ip\<close>; \<^verbatim>\<open>None\<close> is the null pointer.\<close>

record File =
  ftype :: fdtype
  fref :: int
  freadable :: bool
  fwritable :: bool
  fobj :: "addr option"
  foff :: nat

text \<open>
  \<^verbatim>\<open>kfiles\<close>, \<^verbatim>\<open>file_count\<close> and \<^verbatim>\<open>ft_lock\<close> are the fields of \<^verbatim>\<open>ftable\<close>; a \<^verbatim>\<open>File *\<close> is an index of
  \<^verbatim>\<open>ftable.files\<close>.
\<close>

record kst =
  kin :: inst
  kfiles :: "nat \<Rightarrow> File"
  file_count :: nat
  ft_lock :: SpinLock
  pipes :: "addr \<Rightarrow> Pipe"
  pfresh :: addr

definition set_file :: "nat \<Rightarrow> (File \<Rightarrow> File) \<Rightarrow> kst \<Rightarrow> kst" where
  "set_file f g s = s\<lparr>kfiles := (kfiles s)(f := g (kfiles s f))\<rparr>"

definition lock_ft :: "kst \<Rightarrow> kst res" where
  "lock_ft s = rbind (acquire_spinlock (ft_lock s)) (\<lambda>l. Inr (s\<lparr>ft_lock := l\<rparr>))"

definition unlock_ft :: "kst \<Rightarrow> kst" where
  "unlock_ft s = s\<lparr>ft_lock := release_spinlock (ft_lock s)\<rparr>"

definition init_ftable :: "kst \<Rightarrow> kst" where
  "init_ftable s = s\<lparr>file_count := 0, ft_lock := init_spinlock,
     kfiles := (\<lambda>i. if i < NFILE then (kfiles s i)\<lparr>fref := 0\<rparr> else kfiles s i)\<rparr>"

definition init_file :: File where
  "init_file = \<lparr>ftype = FD_NONE, fref = 1, freadable = False, fwritable = False, fobj = None, foff = 0\<rparr>"

text \<open>\<^verbatim>\<open>init_oftable\<close>: the loop runs to \<^verbatim>\<open>NFILE\<close> over an array of \<^verbatim>\<open>NOFILE\<close> entries.\<close>

fun null_files :: "nat list \<Rightarrow> nat option list \<Rightarrow> nat option list res" where
  "null_files [] tab = Inr tab"
| "null_files (i # is) tab = rbind (aset tab i None) (null_files is)"

definition init_oftable :: "nat option list \<Rightarrow> nat option list res" where
  "init_oftable tab = null_files [0..<NFILE] tab"

definition file_alloc :: "kst \<Rightarrow> (nat \<times> kst) res" where
  "file_alloc s =
     rbind (lock_ft s) (\<lambda>s.
       if file_count s < NFILE
       then let s = s\<lparr>file_count := file_count s + 1\<rparr>;
                s = set_file (file_count s - 1) (\<lambda>_. init_file) s;
                s = unlock_ft s
            in Inr (file_count s - 1, s)
       else case find (\<lambda>i. fref (kfiles s i) = 0) [0..<NFILE] of
              Some i \<Rightarrow> Inr (i, unlock_ft (set_file i (\<lambda>_. init_file) s))
            | None \<Rightarrow> Inl Panic)"

definition file_dup :: "nat \<Rightarrow> kst \<Rightarrow> (nat \<times> kst) res" where
  "file_dup f s =
     rbind (lock_ft s) (\<lambda>s. Inr (f, unlock_ft (set_file f (\<lambda>x. x\<lparr>fref := fref x + 1\<rparr>) s)))"

section \<open>The layers below on the larger state\<close>

definition f_begin_op :: "SuperBlock \<Rightarrow> nat \<Rightarrow> kst \<Rightarrow> (OpContext option \<times> kst) res" where
  "f_begin_op sb p s =
     rbind (cache_begin_op sb p (ibc (kin s))) (\<lambda>(r, ctx, c).
       if r = Done then Inr (Some ctx, s\<lparr>kin := (kin s)\<lparr>ibc := c\<rparr>\<rparr>) else Inl Sleep)"

definition f_end_op :: "SuperBlock \<Rightarrow> nat \<Rightarrow> OpContext option \<Rightarrow> kst \<Rightarrow> kst res" where
  "f_end_op sb p ctx s =
     (case ctx of
        None \<Rightarrow> Inl Fault
      | Some ctx \<Rightarrow>
          rbind (cache_end_op sb p ctx (ibc (kin s))) (\<lambda>(r, c).
            if r = Done then Inr (s\<lparr>kin := (kin s)\<lparr>ibc := c\<rparr>\<rparr>) else Inl Sleep))"

definition obj :: "nat \<Rightarrow> kst \<Rightarrow> addr res" where
  "obj f s = (case fobj (kfiles s f) of None \<Rightarrow> Inl Fault | Some a \<Rightarrow> Inr a)"

definition file_close :: "SuperBlock \<Rightarrow> nat \<Rightarrow> nat \<Rightarrow> kst \<Rightarrow> kst res" where
  "file_close sb p f s =
     rbind (lock_ft s) (\<lambda>s.
       let s = set_file f (\<lambda>x. x\<lparr>fref := fref x - 1\<rparr>) s
       in if fref (kfiles s f) = 0
          then
            let s = unlock_ft s
            in rbind (f_begin_op sb p s) (\<lambda>(ctx, s).
              rbind
                (case ftype (kfiles s f) of
                   FD_INODE \<Rightarrow>
                     rbind (obj f s) (\<lambda>i. rbind (inode_put sb ctx i (kin s)) (\<lambda>(ctx, n). Inr (ctx, s\<lparr>kin := n\<rparr>)))
                 | FD_PIPE \<Rightarrow>
                     rbind (obj f s) (\<lambda>a. rbind (pipeClose (fwritable (kfiles s f)) (pipes s a)) (\<lambda>(freed, pi).
                       Inr (ctx, s\<lparr>pipes := (pipes s)(a := pi)\<rparr>)))
                 | FD_NONE \<Rightarrow> Inl Panic)
                (\<lambda>(ctx, s). f_end_op sb p ctx s))
          else Inr (unlock_ft s))"

fun free_oftable :: "SuperBlock \<Rightarrow> nat \<Rightarrow> nat option list \<Rightarrow> kst \<Rightarrow> kst res" where
  "free_oftable sb p [] s = Inr s"
| "free_oftable sb p (None # fs) s = free_oftable sb p fs s"
| "free_oftable sb p (Some f # fs) s = rbind (file_close sb p f s) (free_oftable sb p fs)"

definition file_stat :: "SuperBlock \<Rightarrow> nat \<Rightarrow> kst \<Rightarrow> (kstat option \<times> kst) res" where
  "file_stat sb f s =
     rbind (lock_ft s) (\<lambda>s.
       if ftype (kfiles s f) \<noteq> FD_INODE then Inl Panic
       else case fobj (kfiles s f) of
              None \<Rightarrow> Inr (None, unlock_ft s)
            | Some i \<Rightarrow>
                let s = unlock_ft s
                in rbind (inode_lock sb i (kin s)) (\<lambda>n.
                  rbind (stati (ino n i)) (\<lambda>st.
                    rbind (inode_unlock i n) (\<lambda>n. Inr (Some st, s\<lparr>kin := n\<rparr>)))))"

text \<open>The result is \<^verbatim>\<open>None\<close> for -1 and otherwise the bytes stored at \<^verbatim>\<open>addr\<close>; their number is returned.\<close>

definition file_read :: "SuperBlock \<Rightarrow> nat \<Rightarrow> bool \<Rightarrow> nat \<Rightarrow> nat \<Rightarrow> kst \<Rightarrow> (u8 list option \<times> kst) res" where
  "file_read sb p killed f n s =
     rbind (lock_ft s) (\<lambda>s.
       if \<not> freadable (kfiles s f) then Inr (None, s)
       else
         let s = unlock_ft s
         in rbind (obj f s) (\<lambda>a.
           if ftype (kfiles s f) = FD_PIPE
           then rbind (pipeRead p killed n (pipes s a)) (\<lambda>(r, pi).
                  let s = s\<lparr>pipes := (pipes s)(a := pi)\<rparr>
                  in case r of RDone bs \<Rightarrow> Inr (Some bs, s) | RError \<Rightarrow> Inr (None, s) | _ \<Rightarrow> Inl Sleep)
           else rbind (inode_lock sb a (kin s)) (\<lambda>m.
                  rbind (inode_read sb p a (foff (kfiles s f)) n m) (\<lambda>(bs, m).
                    rbind (inode_unlock a m) (\<lambda>m.
                      Inr (Some bs, set_file f (\<lambda>x. x\<lparr>foff := foff x + length bs\<rparr>) (s\<lparr>kin := m\<rparr>)))))))"

definition file_write :: "SuperBlock \<Rightarrow> nat \<Rightarrow> bool \<Rightarrow> nat \<Rightarrow> u8 list \<Rightarrow> kst \<Rightarrow> (nat option \<times> kst) res" where
  "file_write sb p killed f src s =
     rbind (lock_ft s) (\<lambda>s.
       if \<not> fwritable (kfiles s f) then Inr (None, s)
       else
         let s = unlock_ft s
         in rbind (f_begin_op sb p s) (\<lambda>(ctx, s).
           rbind (obj f s) (\<lambda>a.
             rbind
               (if ftype (kfiles s f) = FD_PIPE
                then rbind (pipeWrite p killed src (pipes s a)) (\<lambda>(r, pi).
                       let s = s\<lparr>pipes := (pipes s)(a := pi)\<rparr>
                       in case r of WDone \<Rightarrow> Inr (Some (length src), ctx, s)
                                  | WError \<Rightarrow> Inr (None, ctx, s) | _ \<Rightarrow> Inl Sleep)
                else rbind (inode_lock sb a (kin s)) (\<lambda>m.
                       rbind (inode_write sb ctx a src (foff (kfiles s f)) m) (\<lambda>(k, ctx, m).
                         rbind (inode_sync sb ctx a True m) (\<lambda>(ctx, m).
                           rbind (inode_unlock a m) (\<lambda>m.
                             Inr (Some k, ctx, set_file f (\<lambda>x. x\<lparr>foff := foff x + k\<rparr>) (s\<lparr>kin := m\<rparr>)))))))
               (\<lambda>(r, ctx, s). rbind (f_end_op sb p ctx s) (\<lambda>s. Inr (r, s))))))"

section \<open>Pipes as files\<close>

definition init_pipe_file :: "bool \<Rightarrow> bool \<Rightarrow> addr \<Rightarrow> File \<Rightarrow> File" where
  "init_pipe_file r w a f =
     f\<lparr>ftype := FD_PIPE, fref := 1, freadable := r, fwritable := w, fobj := Some a, foff := 0\<rparr>"

text \<open>\<^verbatim>\<open>m\<close>: whether \<^verbatim>\<open>kalloc\<close> finds memory for the pipe, and the bytes that are there.\<close>

definition pipeAlloc :: "u8 list option \<Rightarrow> kst \<Rightarrow> ((nat \<times> nat) option \<times> kst) res" where
  "pipeAlloc m s =
     (case m of
        None \<Rightarrow> Inr (None, s)
      | Some garbage \<Rightarrow>
          let a = pfresh s; s = s\<lparr>pfresh := a + 1\<rparr>
          in rbind (file_alloc s) (\<lambda>(f0, s).
            rbind (file_alloc s) (\<lambda>(f1, s).
              let s = set_file f0 (init_pipe_file True False a) s;
                  s = set_file f1 (init_pipe_file False True a) s
              in Inr (Some (f0, f1), s\<lparr>pipes := (pipes s)(a := init_pipe garbage)\<rparr>))))"

section \<open>The file table\<close>

text \<open>Entries from \<^verbatim>\<open>file_count\<close> on have never been handed out.\<close>

definition ft_inv :: "kst \<Rightarrow> bool" where
  "ft_inv s \<longleftrightarrow> \<not> ft_lock s \<and> file_count s \<le> NFILE \<and> (\<forall>i<NFILE. 0 \<le> fref (kfiles s i)) \<and>
     (\<forall>i<NFILE. file_count s \<le> i \<longrightarrow> fref (kfiles s i) = 0)"

lemma init_ftable_inv: "ft_inv (init_ftable s)"
  by (simp add: ft_inv_def init_ftable_def init_spinlock_def)

lemma file_alloc_result:
  assumes inv: "ft_inv s"
  shows "if file_count s = NFILE \<and> (\<forall>i<NFILE. fref (kfiles s i) \<noteq> 0) then file_alloc s = Inl Panic
    else \<exists>f t. file_alloc s = Inr (f, t) \<and> f < NFILE \<and> fref (kfiles s f) = 0 \<and>
      kfiles t = (kfiles s)(f := init_file) \<and> ft_inv t \<and> kin t = kin s \<and> pipes t = pipes s \<and> pfresh t = pfresh s"
proof (cases "file_count s < NFILE")
  case True
  then show ?thesis
    using inv by (auto simp: file_alloc_def lock_ft_def unlock_ft_def set_file_def release_spinlock_def ft_inv_def
        init_file_def Let_def)
next
  case False
  then have c: "file_count s = NFILE" using inv by (simp add: ft_inv_def)
  have l: "lock_ft s = Inr (s\<lparr>ft_lock := True\<rparr>)" using inv by (simp add: lock_ft_def ft_inv_def)
  show ?thesis
  proof (cases "find (\<lambda>i. fref (kfiles s i) = 0) [0..<NFILE]")
    case None
    then have "\<forall>i<NFILE. fref (kfiles s i) \<noteq> 0" by (simp add: find_None_iff)
    then show ?thesis using c l None by (simp add: file_alloc_def)
  next
    case (Some i)
    then have "i < NFILE" "fref (kfiles s i) = 0" by (auto simp: find_Some_iff)
    then show ?thesis
      using c l Some inv
      by (auto simp: file_alloc_def unlock_ft_def set_file_def release_spinlock_def ft_inv_def init_file_def)
  qed
qed

text \<open>
  \<^verbatim>\<open>file_alloc\<close> hands out an entry of the file table that nobody refers to, with one reference, and
  changes no other entry; it panics exactly when all 65536 entries are in use, and never looks for
  an entry in vain before every entry has been handed out once.
\<close>

theorem file_alloc_unused:
  assumes "ft_inv s"
  shows "if file_count s = NFILE \<and> (\<forall>i<NFILE. fref (kfiles s i) \<noteq> 0) then file_alloc s = Inl Panic
    else \<exists>f t. file_alloc s = Inr (f, t) \<and> f < NFILE \<and> fref (kfiles s f) = 0 \<and> fref (kfiles t f) = 1 \<and>
      (\<forall>g. g \<noteq> f \<longrightarrow> kfiles t g = kfiles s g) \<and> ft_inv t"
  using file_alloc_result [OF assms] by (auto simp: init_file_def split: if_splits)

definition demo_k :: kst where
  "demo_k = init_ftable \<lparr>kin = demo_in\<lparr>ibc := tx_bc demo_tx\<rparr>, kfiles = (\<lambda>_. init_file), file_count = 7, ft_lock = True,
     pipes = (\<lambda>_. init_pipe []), pfresh = 100\<rparr>"

lemma demo_k_simps: "ft_inv demo_k" "file_count demo_k = 0" "pfresh demo_k = 100" "ibc (kin demo_k) = tx_bc demo_tx" "\<not> ft_lock demo_k"
  using init_ftable_inv by (simp_all add: demo_k_def) (simp_all add: init_ftable_def init_spinlock_def)

theorem file_alloc_unused_witness: "\<exists>f t. file_alloc demo_k = Inr (f, t) \<and> fref (kfiles t f) = 1"
  using file_alloc_unused [OF demo_k_simps(1)] by (auto simp: demo_k_simps NFILE_def)

text \<open>
  C29: \<^verbatim>\<open>file_read\<close> and \<^verbatim>\<open>file_write\<close> return -1 with the lock of the file table held when the file is not
  open for reading or writing. From then on every operation on any file, by any process, spins
  forever.
\<close>

theorem file_wrong_mode_deadlocks:
  assumes "\<not> ft_lock s" and "\<not> freadable (kfiles s f)" and "\<not> fwritable (kfiles s g)"
  shows "\<exists>t u. file_read sb p k f n s = Inr (None, t) \<and> file_write sb p k g src s = Inr (None, u) \<and>
    (\<forall>v\<in>{t, u}. file_alloc v = Inl Spin \<and> (\<forall>h. file_dup h v = Inl Spin \<and> (\<forall>sb p. file_close sb p h v = Inl Spin) \<and>
      (\<forall>sb p k n. file_read sb p k h n v = Inl Spin) \<and> (\<forall>sb p k src. file_write sb p k h src v = Inl Spin) \<and>
      (\<forall>sb. file_stat sb h v = Inl Spin)))"
  using assms
  by (simp add: file_read_def file_write_def file_alloc_def file_dup_def file_close_def file_stat_def lock_ft_def)

theorem file_wrong_mode_deadlocks_witness:
  "\<exists>t. file_read alloc_sb 0 False 3 10 demo_k = Inr (None, t) \<and> file_dup 5 t = Inl Spin"
proof -
  have "\<not> freadable (kfiles demo_k 3)" "\<not> fwritable (kfiles demo_k 4)"
    by (simp_all add: demo_k_def init_ftable_def init_file_def)
  from file_wrong_mode_deadlocks [OF demo_k_simps(5) this] show ?thesis by blast
qed

lemma null_files_fault: "length tab \<le> n \<Longrightarrow> n \<in> set is \<Longrightarrow> null_files is tab = Inl Fault"
proof (induction "is" arbitrary: tab)
  case (Cons i "is")
  then show ?case by (cases "i < length tab") (auto simp: aset_def)
qed simp

text \<open>
  \<^verbatim>\<open>init_oftable\<close> clears \<^verbatim>\<open>NFILE\<close> entries of a table that has \<^verbatim>\<open>NOFILE\<close> of them and writes past its end.
\<close>

theorem init_oftable_overruns: "length tab = NOFILE \<Longrightarrow> init_oftable tab = Inl Fault"
  unfolding init_oftable_def by (rule null_files_fault [of _ NOFILE]) (simp_all add: NFILE_def NOFILE_def)

theorem init_oftable_overruns_witness: "init_oftable (replicate NOFILE None) = Inl Fault"
  by (rule init_oftable_overruns) simp

section \<open>Reading and writing through the file table\<close>

definition fs_idle :: "SuperBlock \<Rightarrow> nat \<Rightarrow> kst \<Rightarrow> bool" where
  "fs_idle sb p s \<longleftrightarrow>
     (case cache_begin_op sb p (ibc (kin s)) of
        Inr (r, ctx, c) \<Rightarrow> r = Done \<and> (case cache_end_op sb p ctx c of Inr (r, d) \<Rightarrow> r = Done | Inl _ \<Rightarrow> False)
      | Inl _ \<Rightarrow> False)"

lemma fs_idleE:
  assumes "fs_idle sb p s"
  obtains ctx c d where "cache_begin_op sb p (ibc (kin s)) = Inr (Done, ctx, c)" "cache_end_op sb p ctx c = Inr (Done, d)"
proof -
  obtain r ctx c where b: "cache_begin_op sb p (ibc (kin s)) = Inr (r, ctx, c)"
    using assms by (auto simp: fs_idle_def split: sum.splits)
  then obtain r' d where "cache_end_op sb p ctx c = Inr (r', d)"
    using assms by (cases "cache_end_op sb p ctx c") (auto simp: fs_idle_def)
  with b show thesis using assms that by (simp add: fs_idle_def)
qed

lemma file_alloc_early:
  assumes "\<not> ft_lock s" and "file_count s < NFILE"
  shows "file_alloc s = Inr (file_count s, s\<lparr>file_count := file_count s + 1,
    kfiles := (kfiles s)(file_count s := init_file), ft_lock := False\<rparr>)"
  using assms by (simp add: file_alloc_def lock_ft_def unlock_ft_def set_file_def release_spinlock_def Let_def)

lemma pipeAlloc_early:
  assumes "\<not> ft_lock s" and "file_count s + 2 \<le> NFILE"
  shows "pipeAlloc (Some garbage) s = Inr (Some (file_count s, file_count s + 1),
    s\<lparr>pfresh := pfresh s + 1, file_count := file_count s + 2, ft_lock := False,
      kfiles := (kfiles s)(file_count s := init_pipe_file True False (pfresh s) init_file,
        file_count s + 1 := init_pipe_file False True (pfresh s) init_file),
      pipes := (pipes s)(pfresh s := init_pipe garbage)\<rparr>)"
  using assms by (simp add: pipeAlloc_def file_alloc_early set_file_def fun_upd_twist Let_def)

lemma init_pipe_ok:
  assumes "length garbage = PIPESIZE"
  shows "pwf (init_pipe garbage)" "pipe_bytes (init_pipe garbage) = []" "pipe_len (init_pipe garbage) = 0"
    "\<not> plock (init_pipe garbage)" "sem_inv (rlock (init_pipe garbage))" "sem_inv (wlock (init_pipe garbage))"
  using assms by (simp_all add: pwf_def init_pipe_def pipe_bytes_def pipe_len_def init_spinlock_def init_sem_inv)

text \<open>A first write into a new pipe, and a read of it.\<close>

lemma new_pipe_roundtrip:
  assumes "length garbage = PIPESIZE" and "src \<noteq> []" and "length src \<le> PIPESIZE"
  shows "\<exists>pi pi'. pipeWrite p killed src (init_pipe garbage) = Inr (WDone, pi) \<and>
    pipeRead q killed n pi = Inr (RDone (take n src), pi') \<and> pipe_bytes pi' = drop n src"
proof -
  let ?pi = "(init_pipe garbage)\<lparr>plock := True\<rparr>"
  note P = init_pipe_ok [OF assms(1)]
  have pre: "pwf ?pi" "sem_inv (rlock ?pi)" "PIPESIZE = PIPESIZE - pipe_len ?pi" using P by simp_all
  define w where "w = fold push_byte (take PIPESIZE src) ?pi"
  note W = write_from_spec [OF pre w_def]
  let ?x = "w\<lparr>rlock := all_up (rlock ?pi), plock := False\<rparr>"
  have "write_from p killed src ?pi = Inr (WDone, ?x)" using W(3) [of p killed] assms(3) by simp
  then have a: "pipeWrite p killed src (init_pipe garbage) = Inr (WDone, ?x)" using P(4) by (simp add: pipeWrite_def)
  have b: "pipe_bytes ?x = src" using W(2) P(2) assms(3) by simp
  have pre2: "pwf (?x\<lparr>plock := True\<rparr>)" "sem_inv (wlock (?x\<lparr>plock := True\<rparr>))"
    using W(1) P(6) by (simp_all add: w_def)
  from read_from_spec [OF pre2, of n q killed]
  obtain r where r: "pipe_bytes ((?x\<lparr>plock := True\<rparr>)\<lparr>nread := r\<rparr>) = drop n src"
    "read_from q killed n (?x\<lparr>plock := True\<rparr>) =
      Inr (RDone (take n src), (?x\<lparr>plock := True\<rparr>)\<lparr>nread := r, wlock := all_up (wlock ?x), plock := False\<rparr>)"
    using b assms(2) by auto
  let ?y = "(?x\<lparr>plock := True\<rparr>)\<lparr>nread := r, wlock := all_up (wlock ?x), plock := False\<rparr>"
  have "pipeRead q killed n ?x = Inr (RDone (take n src), ?y)"
    using r(2) by (simp add: pipeRead_def)
  moreover have "pipe_bytes ?y = drop n src" using r(1) by (simp add: pipe_bytes_def pipe_len_def)
  ultimately show ?thesis using a by blast
qed

text \<open>
  C30: a pipe between two files. \<^verbatim>\<open>pipeAlloc\<close> returns two new files; what is then written to the second,
  up to the size of the ring, is what reads of the first return, cut at the requested count, and
  the rest stays for the next read.
\<close>

theorem pipe_file_roundtrip:
  assumes "ft_inv s" and "file_count s + 2 \<le> NFILE" and "length garbage = PIPESIZE" and "fs_idle sb p s"
    and "src \<noteq> []" and "length src \<le> PIPESIZE"
  shows "\<exists>f0 f1 t u v. pipeAlloc (Some garbage) s = Inr (Some (f0, f1), t) \<and> f0 \<noteq> f1 \<and>
    file_write sb p killed f1 src t = Inr (Some (length src), u) \<and>
    file_read sb q killed f0 n u = Inr (Some (take n src), v) \<and>
    pipe_bytes (pipes v (pfresh s)) = drop n src"
proof -
  have ft: "\<not> ft_lock s" using assms(1) by (simp add: ft_inv_def)
  note A = pipeAlloc_early [OF ft assms(2), of garbage]
  obtain pi pi' where P: "pipeWrite p killed src (init_pipe garbage) = Inr (WDone, pi)"
    "pipeRead q killed n pi = Inr (RDone (take n src), pi')" "pipe_bytes pi' = drop n src"
    using new_pipe_roundtrip [OF assms(3,5,6)] by blast
  obtain ctx c d where O: "cache_begin_op sb p (ibc (kin s)) = Inr (Done, ctx, c)" "cache_end_op sb p ctx c = Inr (Done, d)"
    using fs_idleE [OF assms(4)] by blast
  let ?f0 = "file_count s" and ?f1 = "file_count s + 1"
  let ?t = "s\<lparr>pfresh := pfresh s + 1, file_count := file_count s + 2, ft_lock := False,
      kfiles := (kfiles s)(?f0 := init_pipe_file True False (pfresh s) init_file,
        ?f1 := init_pipe_file False True (pfresh s) init_file),
      pipes := (pipes s)(pfresh s := init_pipe garbage)\<rparr>"
  have "\<exists>u. file_write sb p killed ?f1 src ?t = Inr (Some (length src), u) \<and> \<not> ft_lock u \<and>
      kfiles u = kfiles ?t \<and> pipes u (pfresh s) = pi"
    using O P(1) by (simp add: file_write_def lock_ft_def unlock_ft_def release_spinlock_def f_begin_op_def
        f_end_op_def obj_def init_pipe_file_def)
  then obtain u where u: "file_write sb p killed ?f1 src ?t = Inr (Some (length src), u)" "\<not> ft_lock u"
    "kfiles u = kfiles ?t" "pipes u (pfresh s) = pi" by blast
  have "\<exists>v. file_read sb q killed ?f0 n u = Inr (Some (take n src), v) \<and> pipes v (pfresh s) = pi'"
    using u(2-4) P(2) by (simp add: file_read_def lock_ft_def unlock_ft_def release_spinlock_def obj_def init_pipe_file_def)
  then show ?thesis using A u(1) P(3) by auto
qed

lemma demo_k_idle: "fs_idle demo_sb 7 demo_k"
proof -
  have "\<not> log_full demo_sb init_ctx init_log"
    using sb_ok_room(1) [of demo_sb]
    by (simp add: log_full_def init_log_def init_ctx_def fs_consts sb_ok_def demo_sb_def)
  then have "cache_begin_op demo_sb 7 (tx_bc demo_tx) = Inr (Done, init_ctx, tx_bc demo_tx1)"
    using demo_tx_start(2) cache_begin_op_eq [of "tx_bc demo_tx" demo_sb 7]
    by (simp add: demo_tx1_def init_log_def init_spinlock_def)
  moreover have "\<exists>s. cache_end_op demo_sb 7 init_ctx (tx_bc demo_tx1) = Inr (Done, s)"
    using tx_end_last [OF tx_reachable_inv [OF demo_tx1_reachable], of 7 init_ctx]
    by (auto simp: demo_tx1_def demo_tx_def)
  ultimately show ?thesis by (auto simp: fs_idle_def demo_k_simps)
qed

theorem pipe_file_roundtrip_witness:
  "\<exists>f0 f1 t u v. pipeAlloc (Some (replicate 512 0)) demo_k = Inr (Some (f0, f1), t) \<and>
    file_write demo_sb 7 False f1 [5, 6, 7] t = Inr (Some 3, u) \<and>
    file_read demo_sb 1 False f0 2 u = Inr (Some [5, 6], v)"
  using pipe_file_roundtrip [OF demo_k_simps(1) _ _ demo_k_idle, of "replicate 512 0" "[5, 6, 7]" False 1 2]
  by (auto simp: demo_k_simps NFILE_def PIPESIZE_def numeral_3_eq_3)

end
