(* ===== verification/Mem.thy ===== *)
theory Mem
  imports Sync
begin

text \<open>
  The memory allocator: pages (\<^verbatim>\<open>kalloc_page\<close>, \<^verbatim>\<open>kfree_page\<close>) and blocks within pages (\<^verbatim>\<open>kalloc\<close>, \<^verbatim>\<open>kfree\<close>)
  of \<^verbatim>\<open>src/src/kernel/mem.c\<close>, with the block headers of \<^verbatim>\<open>src/src/kernel/myheader.c\<close> and the table of free
  lists of \<^verbatim>\<open>src/src/kernel/mydata.c\<close>. A block starts with a header, eight bytes; a free block holds a
  list node behind its header, an allocated one the caller's bytes. Headers, nodes and page headers
  are kept as fields indexed by their address. The list of free pages is the lock-free stack of
  \<^verbatim>\<open>list.c\<close>, used here by one thread at a time.
\<close>

section \<open>Headers\<close>

text \<open>Conversion to the 16-bit type \<^verbatim>\<open>short\<close>.\<close>

definition to_short :: "int \<Rightarrow> int" where
  "to_short n = sint (word_of_int n :: u16)"

record BlockHeader =
  endOffsetAndStatus :: u16
  preBlockOffset :: int
  inUse :: bool

definition sizeof_BlockHeader :: int where "sizeof_BlockHeader = 6"
definition sizeof_PageHeader :: int where "sizeof_PageHeader = 2"
definition sizeof_HashNode :: int where "sizeof_HashNode = 16"

definition sizeOfFreeHeader :: int where
  "sizeOfFreeHeader = (sizeof_BlockHeader + 7) div 8 * 8 + sizeof_HashNode"

definition sizeOfOccupiedHeader :: int where
  "sizeOfOccupiedHeader = (sizeof_BlockHeader + 7) div 8 * 8"

definition sizeOfPageHeader :: int where
  "sizeOfPageHeader = (sizeof_PageHeader + 7) div 8 * 8"

definition NUM_ENTRIES :: nat where "NUM_ENTRIES = 512"
definition PHYSTOP :: nat where "PHYSTOP = 0x3f000000"
definition KSPACE_MASK :: nat where "KSPACE_MASK = 0xffff000000000000"
definition MY_PAGE_COUNT :: nat where "MY_PAGE_COUNT = PHYSTOP div PAGE_SIZE"

text \<open>The conversions between kernel and physical addresses are 64-bit arithmetic.\<close>

definition K2P :: "addr \<Rightarrow> nat" where "K2P a = (a + 2 ^ 64 - KSPACE_MASK) mod 2 ^ 64"
definition P2K :: "nat \<Rightarrow> addr" where "P2K a = (a + KSPACE_MASK) mod 2 ^ 64"

text \<open>
  \<^verbatim>\<open>hdr\<close>, \<^verbatim>\<open>hnext\<close> and \<^verbatim>\<open>hprev\<close> are the headers and list nodes in memory, \<^verbatim>\<open>allocCount\<close> the field of the
  page headers, \<^verbatim>\<open>free_pages\<close> the stack \<^verbatim>\<open>pages\<close> and \<^verbatim>\<open>page_ref\<close> the array \<^verbatim>\<open>pages_ref_array\<close>.
\<close>

record heap =
  hdr :: "addr \<Rightarrow> BlockHeader"
  hnext :: "addr \<Rightarrow> addr"
  hprev :: "addr \<Rightarrow> addr"
  hashTable :: "addr list"
  allocCount :: "addr \<Rightarrow> int"
  mlock :: SpinLock
  free_pages :: "addr list"
  page_ref :: "nat \<Rightarrow> RefCount"
  alloc_page_cnt :: RefCount
  shared_zero_page :: addr

definition getPageAddr :: "addr \<Rightarrow> addr" where
  "getPageAddr a = a - a mod PAGE_SIZE"

definition getAddrOffset :: "addr \<Rightarrow> int" where
  "getAddrOffset a = to_short (int (a mod PAGE_SIZE))"

definition initPageHeader :: "addr \<Rightarrow> heap \<Rightarrow> heap" where
  "initPageHeader a h = h\<lparr>allocCount := (allocCount h)(a := 0)\<rparr>"

definition getEndOffset :: "BlockHeader \<Rightarrow> int" where
  "getEndOffset b = uint (endOffsetAndStatus b AND 0x1fff)"

definition hasNextHeader :: "BlockHeader \<Rightarrow> bool" where
  "hasNextHeader b = (getEndOffset b \<noteq> 0x1000)"

definition hasPreHeader :: "BlockHeader \<Rightarrow> bool" where
  "hasPreHeader b = (preBlockOffset b \<noteq> 0)"

definition isFree :: "BlockHeader \<Rightarrow> bool" where
  "isFree b = (endOffsetAndStatus b AND 0x2000 \<noteq> 0)"

definition isUsed :: "BlockHeader \<Rightarrow> bool" where
  "isUsed b = inUse b"

definition getPreBlockHeader :: "addr \<Rightarrow> heap \<Rightarrow> addr" where
  "getPreBlockHeader a h = nat (int (getPageAddr a) + preBlockOffset (hdr h a))"

definition getBlockSize :: "addr \<Rightarrow> heap \<Rightarrow> int" where
  "getBlockSize a h = to_short (getEndOffset (hdr h a) - getAddrOffset a)"

definition getBlockHashNode :: "addr \<Rightarrow> addr" where
  "getBlockHashNode a = nat (int a + (sizeof_BlockHeader + 7) div 8 * 8)"

definition getValidSpaceAddr :: "addr \<Rightarrow> addr" where
  "getValidSpaceAddr a = nat (int a + (sizeof_BlockHeader + 7) div 8 * 8)"

definition setFree :: "BlockHeader \<Rightarrow> BlockHeader" where
  "setFree b = b\<lparr>endOffsetAndStatus := endOffsetAndStatus b OR 0x2000\<rparr>"

definition setOccupied :: "BlockHeader \<Rightarrow> BlockHeader" where
  "setOccupied b = b\<lparr>endOffsetAndStatus := endOffsetAndStatus b AND 0x1fff\<rparr>"

definition set_hdr :: "addr \<Rightarrow> (BlockHeader \<Rightarrow> BlockHeader) \<Rightarrow> heap \<Rightarrow> heap" where
  "set_hdr a f h = h\<lparr>hdr := (hdr h)(a := f (hdr h a))\<rparr>"

definition setBlockHeaderWithoutPre :: "addr \<Rightarrow> bool \<Rightarrow> int \<Rightarrow> heap \<Rightarrow> heap" where
  "setBlockHeaderWithoutPre a free endOffset h =
     set_hdr a (\<lambda>b.
       let b = b\<lparr>endOffsetAndStatus := word_of_int endOffset\<rparr>;
           b = (if free then setFree b else setOccupied b)
       in b\<lparr>inUse := False\<rparr>) h"

definition setBlockHeader :: "addr \<Rightarrow> bool \<Rightarrow> int \<Rightarrow> int \<Rightarrow> heap \<Rightarrow> heap" where
  "setBlockHeader a free endOffset pre h =
     set_hdr a (\<lambda>b.
       let b = b\<lparr>endOffsetAndStatus := word_of_int endOffset\<rparr>;
           b = (if free then setFree b else setOccupied b)
       in b\<lparr>preBlockOffset := pre, inUse := False\<rparr>) h"

definition setBlockEndOffset :: "addr \<Rightarrow> int \<Rightarrow> heap \<Rightarrow> heap" where
  "setBlockEndOffset a offset h =
     set_hdr a (\<lambda>b.
       b\<lparr>endOffsetAndStatus := word_of_int offset OR (endOffsetAndStatus b AND 0xe000)\<rparr>) h"

definition header_of_node :: "addr \<Rightarrow> addr" where
  "header_of_node n = nat (int n - sizeOfOccupiedHeader)"

definition setUsed :: "addr \<Rightarrow> heap \<Rightarrow> heap" where
  "setUsed n = set_hdr (header_of_node n) (\<lambda>b. b\<lparr>inUse := True\<rparr>)"

definition setNotUsed :: "addr \<Rightarrow> heap \<Rightarrow> heap" where
  "setNotUsed n = set_hdr (header_of_node n) (\<lambda>b. b\<lparr>inUse := False\<rparr>)"

definition getPageAlcCount :: "addr \<Rightarrow> heap \<Rightarrow> int" where
  "getPageAlcCount a h = allocCount h (getPageAddr a)"

definition isEmptyPage :: "addr \<Rightarrow> heap \<Rightarrow> bool" where
  "isEmptyPage a h = (getPageAlcCount a h = 0)"

definition incPageAlcCount :: "addr \<Rightarrow> heap \<Rightarrow> heap" where
  "incPageAlcCount a h = h\<lparr>allocCount := (allocCount h)(getPageAddr a := to_short (allocCount h (getPageAddr a) + 1))\<rparr>"

definition decPageAlcCount :: "addr \<Rightarrow> heap \<Rightarrow> heap" where
  "decPageAlcCount a h = h\<lparr>allocCount := (allocCount h)(getPageAddr a := to_short (allocCount h (getPageAddr a) - 1))\<rparr>"

section \<open>Free lists\<close>

definition getNodeWithIdx :: "nat \<Rightarrow> heap \<Rightarrow> addr res" where
  "getNodeWithIdx idx h = aget (hashTable h) idx"

definition deleteHeadNode :: "nat \<Rightarrow> heap \<Rightarrow> (addr \<times> heap) res" where
  "deleteHeadNode idx h =
     rbind (aget (hashTable h) idx) (\<lambda>target.
       if target = 0 then Inl Fault
       else
         let h = (if hnext h target \<noteq> 0 then h\<lparr>hprev := (hprev h)(hnext h target := 0)\<rparr> else h)
         in rbind (aset (hashTable h) idx (hnext h target)) (\<lambda>t.
              let h = h\<lparr>hashTable := t\<rparr>
              in Inr (target, h\<lparr>hnext := (hnext h)(target := 0)\<rparr>)))"

definition deleteNode :: "addr \<Rightarrow> nat \<Rightarrow> heap \<Rightarrow> (addr \<times> heap) res" where
  "deleteNode n idx h =
     rbind
       (if hprev h n = 0
        then rbind (aset (hashTable h) idx (hnext h n)) (\<lambda>t. Inr (h\<lparr>hashTable := t\<rparr>))
        else Inr (h\<lparr>hnext := (hnext h)(hprev h n := hnext h n)\<rparr>))
       (\<lambda>h. let h = (if hnext h n \<noteq> 0 then h\<lparr>hprev := (hprev h)(hnext h n := hprev h n)\<rparr> else h)
            in Inr (n, h))"

definition insertToHead :: "nat \<Rightarrow> addr \<Rightarrow> heap \<Rightarrow> heap res" where
  "insertToHead idx n h =
     (let h = h\<lparr>hprev := (hprev h)(n := 0)\<rparr>
      in rbind (aget (hashTable h) idx) (\<lambda>t.
        let h = h\<lparr>hnext := (hnext h)(n := t)\<rparr>;
            h = (if t \<noteq> 0 then h\<lparr>hprev := (hprev h)(t := n)\<rparr> else h)
        in rbind (aset (hashTable h) idx n) (\<lambda>t. Inr (h\<lparr>hashTable := t\<rparr>))))"

section \<open>Pages\<close>

definition page_index :: "addr \<Rightarrow> nat res" where
  "page_index a = (if K2P a div PAGE_SIZE < MY_PAGE_COUNT then Inr (K2P a div PAGE_SIZE) else Inl Fault)"

text \<open>The effect of \<^verbatim>\<open>memset(addr, 0, PAGE_SIZE)\<close> on the structures that may lie in the page.\<close>

definition clear_page :: "addr \<Rightarrow> heap \<Rightarrow> heap" where
  "clear_page p h =
     h\<lparr>hdr := (\<lambda>a. if getPageAddr a = p then \<lparr>endOffsetAndStatus = 0, preBlockOffset = 0, inUse = False\<rparr> else hdr h a),
       hnext := (\<lambda>a. if getPageAddr a = p then 0 else hnext h a),
       hprev := (\<lambda>a. if getPageAddr a = p then 0 else hprev h a),
       allocCount := (allocCount h)(p := 0)\<rparr>"

definition kalloc_page :: "heap \<Rightarrow> (addr \<times> heap) res" where
  "kalloc_page h =
     (let h = h\<lparr>alloc_page_cnt := increment_rc (alloc_page_cnt h)\<rparr>
      in if alloc_page_cnt h > int MY_PAGE_COUNT then Inl Panic
         else case free_pages h of
                [] \<Rightarrow> Inl Fault
              | p # ps \<Rightarrow>
                  let h = clear_page p (h\<lparr>free_pages := ps\<rparr>)
                  in rbind (page_index p) (\<lambda>i.
                       Inr (p, h\<lparr>page_ref := (page_ref h)(i := increment_rc (page_ref h i))\<rparr>)))"

definition kfree_page :: "addr \<Rightarrow> heap \<Rightarrow> heap res" where
  "kfree_page p h =
     rbind (page_index p) (\<lambda>i.
       let h = h\<lparr>page_ref := (page_ref h)(i := snd (decrement_rc (page_ref h i)))\<rparr>
       in if page_ref h i = 0
          then Inr (h\<lparr>free_pages := p # free_pages h, alloc_page_cnt := snd (decrement_rc (alloc_page_cnt h))\<rparr>)
          else Inr h)"

text \<open>The initialisers; \<^verbatim>\<open>e\<close> is the address of the linker symbol \<^verbatim>\<open>end\<close>.\<close>

definition all_pages :: "addr \<Rightarrow> addr list" where
  "all_pages e =
     (let first = e - e mod PAGE_SIZE + PAGE_SIZE
      in map (\<lambda>k. first + k * PAGE_SIZE) [0..<(P2K PHYSTOP - first + PAGE_SIZE - 1) div PAGE_SIZE])"

definition init_pages :: "addr \<Rightarrow> heap \<Rightarrow> heap" where
  "init_pages e h = h\<lparr>page_ref := (\<lambda>_. 0), alloc_page_cnt := init_rc, free_pages := fold (#) (all_pages e) [],
     mlock := init_spinlock, hashTable := replicate NUM_ENTRIES 0\<rparr>"

definition init_shared_zero_page :: "heap \<Rightarrow> heap res" where
  "init_shared_zero_page h = rbind (kalloc_page h) (\<lambda>(p, h). Inr (clear_page p (h\<lparr>shared_zero_page := p\<rparr>)))"

definition get_zero_page :: "heap \<Rightarrow> addr res" where
  "get_zero_page h = (if shared_zero_page h = 0xffff00003efff000 then Inr (shared_zero_page h) else Inl Panic)"

definition left_page_cnt :: "addr \<Rightarrow> heap \<Rightarrow> int" where
  "left_page_cnt e h = int ((P2K PHYSTOP - (e - e mod PAGE_SIZE)) div PAGE_SIZE) - 1 - alloc_page_cnt h"

section \<open>Blocks\<close>

text \<open>The division of C rounds towards zero.\<close>

definition cdiv :: "int \<Rightarrow> int \<Rightarrow> int" where
  "cdiv n d = (if n < 0 then - (- n div d) else n div d)"

definition getCeilDivEight :: "int \<Rightarrow> int" where
  "getCeilDivEight sz = to_short (cdiv (sz - 1) 8 + 1)"

definition insert_locked :: "int \<Rightarrow> addr \<Rightarrow> heap \<Rightarrow> heap res" where
  "insert_locked idx n h =
     rbind (acquire_spinlock (mlock h)) (\<lambda>l.
       if idx < 0 then Inl Fault
       else rbind (insertToHead (nat idx) n (h\<lparr>mlock := l\<rparr>)) (\<lambda>h.
              Inr (h\<lparr>mlock := release_spinlock (mlock h)\<rparr>)))"

definition doAllocPage :: "int \<Rightarrow> heap \<Rightarrow> (addr \<times> heap) res" where
  "doAllocPage sz h =
     rbind (kalloc_page h) (\<lambda>(p, h).
       let endoffset = to_short (sizeOfPageHeader + getCeilDivEight (sz + sizeOfOccupiedHeader) * 8);
           endoffset = (if endoffset < sizeOfFreeHeader then to_short sizeOfFreeHeader else endoffset);
           a = nat (int p + sizeOfPageHeader);
           h = setBlockHeader a False endoffset 0 h
       in if getEndOffset (hdr h a) \<ge> 4096 - sizeOfFreeHeader
          then Inr (getValidSpaceAddr a, setBlockEndOffset a 4096 h)
          else
            let r = nat (int p + getEndOffset (hdr h a));
                h = setBlockHeader r True 4096 sizeOfPageHeader h;
                idx = getBlockSize r h div 8 - 1
            in rbind (insert_locked idx (getBlockHashNode r) h) (\<lambda>h.
                 Inr (getValidSpaceAddr a, h)))"

definition getNextBlockHeader :: "addr \<Rightarrow> heap \<Rightarrow> addr" where
  "getNextBlockHeader a h = nat (int (getPageAddr a) + getEndOffset (hdr h a))"

definition doAllocBlock :: "addr \<Rightarrow> int \<Rightarrow> int \<Rightarrow> int \<Rightarrow> heap \<Rightarrow> (addr \<times> heap) res" where
  "doAllocBlock nodeAddr hashIdx foundIdx sz h =
     (let a = header_of_node nodeAddr;
          split = (hashIdx \<le> foundIdx - 3);
          endOffset = to_short (getAddrOffset a + getCeilDivEight (sz + sizeOfOccupiedHeader) * 8 +
            (if split then 0 else (foundIdx - hashIdx) * 8));
          oriEndOffset = getEndOffset (hdr h a);
          h = setBlockHeaderWithoutPre a False endOffset h
      in if split
         then
           let r = getNextBlockHeader a h;
               h = setBlockHeader r True oriEndOffset (getAddrOffset a) h;
               idx = getBlockSize r h div 8 - 1;
               h = (if hasNextHeader (hdr h r)
                    then set_hdr (getNextBlockHeader r h) (\<lambda>b. b\<lparr>preBlockOffset := getAddrOffset r\<rparr>) h
                    else h)
           in rbind (insert_locked idx (getBlockHashNode r) h) (\<lambda>h.
                Inr (getValidSpaceAddr a, setNotUsed nodeAddr h))
         else Inr (getValidSpaceAddr a, h))"

definition kalloc :: "int \<Rightarrow> heap \<Rightarrow> (addr \<times> heap) res" where
  "kalloc sz h =
     (let sz = (if sz + sizeOfOccupiedHeader < sizeOfFreeHeader
                  then sizeOfFreeHeader - sizeOfOccupiedHeader else sz);
          hashIdx = getCeilDivEight (sz + sizeOfOccupiedHeader) - 1
      in rbind (acquire_spinlock (mlock h)) (\<lambda>l.
        let h = h\<lparr>mlock := l\<rparr>
        in if hashIdx < 0 then Inl Fault
           else case find (\<lambda>i. hashTable h ! i \<noteq> 0) [nat hashIdx..<512] of
             None \<Rightarrow> doAllocPage sz (h\<lparr>mlock := release_spinlock (mlock h)\<rparr>)
           | Some i \<Rightarrow>
               let nodeAddr = hashTable h ! i;
                   h = incPageAlcCount nodeAddr h
               in rbind (deleteHeadNode i h) (\<lambda>(n, h).
                    doAllocBlock nodeAddr hashIdx (int i) sz (h\<lparr>mlock := release_spinlock (mlock h)\<rparr>))))"

definition kfree :: "addr \<Rightarrow> heap \<Rightarrow> heap res" where
  "kfree p h =
     (let a = header_of_node p;
          endOffset = getEndOffset (hdr h a);
          h = setBlockHeaderWithoutPre a True endOffset h;
          idx = getBlockSize a h div 8 - 1
      in insert_locked idx (getBlockHashNode a) h)"

section \<open>Arithmetic of headers\<close>

lemma header_sizes [simp]: "sizeOfFreeHeader = 24" "sizeOfOccupiedHeader = 8" "sizeOfPageHeader = 8"
  by (simp_all add: sizeOfFreeHeader_def sizeOfOccupiedHeader_def sizeOfPageHeader_def sizeof_BlockHeader_def
      sizeof_PageHeader_def sizeof_HashNode_def)

lemma node_of_header [simp]: "getBlockHashNode a = a + 8" "getValidSpaceAddr a = a + 8"
  by (simp_all add: getBlockHashNode_def getValidSpaceAddr_def sizeof_BlockHeader_def nat_plus_as_int)

lemma header_of_node [simp]: "header_of_node (a + 8) = a"
  by (simp add: header_of_node_def)

lemma to_short_id: "- 32768 \<le> n \<Longrightarrow> n < 32768 \<Longrightarrow> to_short n = n"
  by (simp add: to_short_def int_word_sint)

lemma getAddrOffset_eq: "getAddrOffset a = int (a mod PAGE_SIZE)"
proof -
  have "a mod PAGE_SIZE < 4096" by (simp add: PAGE_SIZE_def)
  then show ?thesis unfolding getAddrOffset_def by (intro to_short_id) simp_all
qed

text \<open>The end offset and the status in one 16-bit field.\<close>

lemma end_field:
  fixes e :: int
  assumes "0 \<le> e" and "e \<le> 4096"
  shows "uint ((word_of_int e OR 0x2000 :: u16) AND 0x1fff) = e" and "uint ((word_of_int e AND 0x1fff :: u16) AND 0x1fff) = e"
    and "(word_of_int e OR 0x2000 :: u16) AND 0x2000 \<noteq> 0" and "(word_of_int e AND 0x1fff :: u16) AND 0x2000 = 0"
    and "uint ((word_of_int 4096 OR ((word_of_int e AND 0x1fff :: u16) AND 0xe000)) AND 0x1fff) = 4096"
    and "((word_of_int 4096 OR ((word_of_int e AND 0x1fff :: u16) AND 0xe000)) AND 0x2000) = 0"
proof -
  let ?w = "word_of_int e :: u16"
  have m: "?w AND 0x1fff = take_bit 13 ?w" by (simp add: take_bit_eq_mask mask_eq_exp_minus_1)
  have u: "uint (take_bit 13 ?w) = e"
    using assms by (simp add: unsigned_take_bit_eq uint_word_of_int_eq take_bit_int_eq_self)
  show "uint ((?w OR 0x2000) AND 0x1fff) = e" by (simp add: bit.conj_disj_distrib2 m u)
  show "uint ((?w AND 0x1fff) AND 0x1fff) = e" by (subst and.assoc) (simp add: m u)
  show "(?w OR 0x2000) AND 0x2000 \<noteq> 0" by (simp add: bit.conj_disj_distrib2 or_eq_0_iff)
  show "(?w AND 0x1fff) AND 0x2000 = 0" by (simp add: and.assoc)
  show "uint ((word_of_int 4096 OR ((?w AND 0x1fff) AND 0xe000)) AND 0x1fff) = 4096" by (simp add: and.assoc)
  show "((word_of_int 4096 OR ((?w AND 0x1fff) AND 0xe000)) AND 0x2000) = 0" by (simp add: and.assoc)
qed

definition eo :: "heap \<Rightarrow> addr \<Rightarrow> nat" where
  "eo h a = nat (getEndOffset (hdr h a))"

definition isfree :: "heap \<Rightarrow> addr \<Rightarrow> bool" where
  "isfree h a = isFree (hdr h a)"

lemma getEndOffset_eo: "getEndOffset (hdr h a) = int (eo h a)"
  by (simp add: eo_def getEndOffset_def)

text \<open>What the functions that write headers do to them.\<close>

lemma setBlockHeaderWithoutPre_eo:
  assumes "0 \<le> e" and "e \<le> 4096"
  shows "eo (setBlockHeaderWithoutPre a f e h) = (eo h)(a := nat e)"
    and "isfree (setBlockHeaderWithoutPre a f e h) = (isfree h)(a := f)"
  using end_field [OF assms]
  by (auto simp: eo_def isfree_def setBlockHeaderWithoutPre_def set_hdr_def setFree_def setOccupied_def
      getEndOffset_def isFree_def Let_def fun_eq_iff simp del: nat_uint_eq)

lemma setBlockHeader_eo:
  assumes "0 \<le> e" and "e \<le> 4096"
  shows "eo (setBlockHeader a f e pre h) = (eo h)(a := nat e)"
    and "isfree (setBlockHeader a f e pre h) = (isfree h)(a := f)"
  using end_field [OF assms]
  by (auto simp: eo_def isfree_def setBlockHeader_def set_hdr_def setFree_def setOccupied_def
      getEndOffset_def isFree_def Let_def fun_eq_iff simp del: nat_uint_eq)

lemma set_hdr_other_fields:
  "eo (set_hdr a (\<lambda>b. b\<lparr>preBlockOffset := x\<rparr>) h) = eo h" "isfree (set_hdr a (\<lambda>b. b\<lparr>preBlockOffset := x\<rparr>) h) = isfree h"
  "eo (setNotUsed n h) = eo h" "isfree (setNotUsed n h) = isfree h"
  by (auto simp: eo_def isfree_def set_hdr_def setNotUsed_def getEndOffset_def isFree_def fun_eq_iff)

text \<open>Everything but the headers.\<close>

definition rest_of_heap :: "heap \<Rightarrow> heap" where
  "rest_of_heap h = h\<lparr>hdr := (\<lambda>_. \<lparr>endOffsetAndStatus = 0, preBlockOffset = 0, inUse = False\<rparr>)\<rparr>"

lemma rest_of_heap_simps [simp]:
  "rest_of_heap (set_hdr a f h) = rest_of_heap h"
  "rest_of_heap (setBlockHeaderWithoutPre a b e h) = rest_of_heap h"
  "rest_of_heap (setBlockHeader a b e pre h) = rest_of_heap h"
  "rest_of_heap (setBlockEndOffset a e h) = rest_of_heap h"
  "rest_of_heap (setNotUsed n h) = rest_of_heap h"
  by (simp_all add: rest_of_heap_def set_hdr_def setBlockHeaderWithoutPre_def setBlockHeader_def
      setBlockEndOffset_def setNotUsed_def)

lemma rest_of_heapD:
  assumes "rest_of_heap h = rest_of_heap h'"
  shows "hnext h = hnext h'" "hprev h = hprev h'" "hashTable h = hashTable h'" "mlock h = mlock h'"
    "free_pages h = free_pages h'" "page_ref h = page_ref h'" "alloc_page_cnt h = alloc_page_cnt h'"
  using assms by (auto simp: rest_of_heap_def dest: arg_cong [where f = hnext] arg_cong [where f = hprev]
      arg_cong [where f = hashTable] arg_cong [where f = mlock] arg_cong [where f = free_pages]
      arg_cong [where f = page_ref] arg_cong [where f = alloc_page_cnt])

section \<open>The free lists as lists\<close>

fun chain :: "heap \<Rightarrow> addr \<Rightarrow> addr \<Rightarrow> addr list \<Rightarrow> bool" where
  "chain h pr c [] \<longleftrightarrow> c = 0"
| "chain h pr c (x # xs) \<longleftrightarrow> c = x \<and> x \<noteq> 0 \<and> hprev h x = pr \<and> chain h x (hnext h x) xs"

lemma chain_cong:
  assumes "\<And>x. x \<in> set xs \<Longrightarrow> hnext h' x = hnext h x \<and> hprev h' x = hprev h x"
  shows "chain h' pr c xs = chain h pr c xs"
  using assms by (induction xs arbitrary: pr c) auto

definition lists_ok :: "heap \<Rightarrow> (nat \<Rightarrow> addr list) \<Rightarrow> bool" where
  "lists_ok h L \<longleftrightarrow> length (hashTable h) = NUM_ENTRIES \<and>
     (\<forall>i<NUM_ENTRIES. chain h 0 (hashTable h ! i) (L i) \<and> distinct (L i)) \<and>
     (\<forall>i<NUM_ENTRIES. \<forall>j<NUM_ENTRIES. i \<noteq> j \<longrightarrow> set (L i) \<inter> set (L j) = {})"

lemma chain_head: "chain h pr c xs \<Longrightarrow> c = (case xs of [] \<Rightarrow> 0 | x # _ \<Rightarrow> x)"
  by (cases xs) auto

lemma chain_nonnull: "chain h pr c xs \<Longrightarrow> 0 \<notin> set xs"
  by (induction xs arbitrary: pr c) auto

definition same_rest :: "heap \<Rightarrow> heap \<Rightarrow> bool" where
  "same_rest h h' \<longleftrightarrow> h' = h\<lparr>hnext := hnext h', hprev := hprev h', hashTable := hashTable h'\<rparr>"

lemma insertToHead_spec:
  assumes ok: "lists_ok h L" and i: "i < NUM_ENTRIES" and n: "n \<noteq> 0" "\<And>j. j < NUM_ENTRIES \<Longrightarrow> n \<notin> set (L j)"
  shows "\<exists>h'. insertToHead i n h = Inr h' \<and> lists_ok h' (L(i := n # L i)) \<and> same_rest h h'"
proof -
  let ?t = "hashTable h ! i"
  let ?h1 = "h\<lparr>hprev := (hprev h)(n := 0), hnext := (hnext h)(n := ?t)\<rparr>"
  let ?h2 = "if ?t \<noteq> 0 then ?h1\<lparr>hprev := (hprev ?h1)(?t := n)\<rparr> else ?h1"
  let ?h' = "?h2\<lparr>hashTable := (hashTable h)[i := n]\<rparr>"
  have len: "length (hashTable h) = NUM_ENTRIES" using ok by (simp add: lists_ok_def)
  have res: "insertToHead i n h = Inr ?h'"
    using len i by (simp add: insertToHead_def aget_def aset_def Let_def)
  have ci: "chain h 0 ?t (L i)" "distinct (L i)" using ok i by (auto simp: lists_ok_def)
  have new: "chain ?h' 0 n (n # L i)"
  proof (cases "L i")
    case Nil
    then show ?thesis using ci n by simp
  next
    case (Cons x xs)
    have x: "?t = x" "x \<noteq> 0" "chain h x (hnext h x) xs" using ci(1) Cons by auto
    have nx: "n \<noteq> x" "n \<notin> set xs" "x \<notin> set xs" using n(2) [OF i] ci(2) Cons by auto
    have "chain ?h' x (hnext h x) xs = chain h x (hnext h x) xs"
      by (rule chain_cong) (use nx x in auto)
    then show ?thesis using x nx n(1) Cons by simp
  qed
  have other: "chain ?h' 0 (hashTable h ! j) (L j)" if j: "j < NUM_ENTRIES" "j \<noteq> i" for j
  proof -
    have "?t = 0 \<or> ?t \<in> set (L i)" using chain_head [OF ci(1)] by (cases "L i") auto
    moreover have "set (L i) \<inter> set (L j) = {}" using ok i j by (auto simp: lists_ok_def)
    moreover have "0 \<notin> set (L j)" using ok j chain_nonnull by (auto simp: lists_ok_def)
    ultimately have "?t \<notin> set (L j)" by auto
    then have "chain ?h' 0 (hashTable h ! j) (L j) = chain h 0 (hashTable h ! j) (L j)"
      using n(2) [OF j(1)] by (intro chain_cong) auto
    then show ?thesis using ok j by (simp add: lists_ok_def)
  qed
  have "lists_ok ?h' (L(i := n # L i))"
    using ok i n(2) new other len by (auto simp: lists_ok_def)
  moreover have "same_rest h ?h'" by (simp add: same_rest_def)
  ultimately show ?thesis using res by blast
qed

lemma deleteHeadNode_spec:
  assumes ok: "lists_ok h L" and i: "i < NUM_ENTRIES" and l: "L i = n # ns"
  shows "\<exists>h'. deleteHeadNode i h = Inr (n, h') \<and> lists_ok h' (L(i := ns)) \<and> same_rest h h'"
proof -
  have len: "length (hashTable h) = NUM_ENTRIES" using ok by (simp add: lists_ok_def)
  have ci: "hashTable h ! i = n" "n \<noteq> 0" "chain h n (hnext h n) ns" "n \<notin> set ns" "distinct ns"
    using ok i l by (auto simp: lists_ok_def dest!: spec [of _ i])
  obtain h' where h': "deleteHeadNode i h = Inr (n, h')" "hashTable h' = (hashTable h)[i := hnext h n]"
    "hnext h' = (hnext h)(n := 0)" "hprev h' = (if hnext h n \<noteq> 0 then (hprev h)(hnext h n := 0) else hprev h)"
    "same_rest h h'"
    using len i ci(1,2) by (simp add: deleteHeadNode_def aget_def aset_def Let_def same_rest_def)
  have hd: "hnext h n = 0 \<or> hnext h n \<in> set ns" using chain_head [OF ci(3)] by (cases ns) auto
  have new: "chain h' 0 (hnext h n) ns"
  proof (cases ns)
    case Nil
    then show ?thesis using ci(3) by simp
  next
    case (Cons x xs)
    have "chain h' x (hnext h x) xs = chain h x (hnext h x) xs"
      by (rule chain_cong) (use ci Cons in \<open>auto simp: h'(3,4)\<close>)
    then show ?thesis using ci Cons by (simp add: h'(3,4))
  qed
  have other: "chain h' 0 (hashTable h ! j) (L j)" if j: "j < NUM_ENTRIES" "j \<noteq> i" for j
  proof -
    have "set (L i) \<inter> set (L j) = {}" using ok i j by (auto simp: lists_ok_def)
    moreover have "0 \<notin> set (L j)" using ok j chain_nonnull by (auto simp: lists_ok_def)
    ultimately have "hnext h n \<notin> set (L j)" "n \<notin> set (L j)" using hd l by auto
    then have "chain h' 0 (hashTable h ! j) (L j) = chain h 0 (hashTable h ! j) (L j)"
      by (intro chain_cong) (auto simp: h'(3,4))
    then show ?thesis using ok j by (simp add: lists_ok_def)
  qed
  have "set ns \<inter> set (L j) = {} \<and> set (L j) \<inter> set ns = {}" if "j < NUM_ENTRIES" "j \<noteq> i" for j
  proof -
    have "set (L i) \<inter> set (L j) = {}" using ok i that by (auto simp: lists_ok_def)
    then show ?thesis using l by auto
  qed
  then have "lists_ok h' (L(i := ns))"
    using ok i new other len ci(5) by (simp add: lists_ok_def h'(2))
  then show ?thesis using h'(1,5) by blast
qed

lemma lists_ok_cong:
  "hnext h' = hnext h \<Longrightarrow> hprev h' = hprev h \<Longrightarrow> hashTable h' = hashTable h \<Longrightarrow> lists_ok h' L = lists_ok h L"
  using chain_cong [of _ h' h] by (simp add: lists_ok_def)

definition off_list :: "heap \<Rightarrow> (addr \<Rightarrow> BlockHeader) \<times> addr list \<times> (nat \<Rightarrow> RefCount) \<times> RefCount \<times> bool" where
  "off_list h = (hdr h, free_pages h, page_ref h, alloc_page_cnt h, mlock h)"

lemma same_rest_off_list: "same_rest h h' \<Longrightarrow> off_list h' = off_list h"
  unfolding same_rest_def by (drule arg_cong [where f = off_list]) (simp add: off_list_def)

lemma insert_locked_spec:
  assumes "\<not> mlock h" and "lists_ok h L" and "i < NUM_ENTRIES" and "n \<noteq> 0" and "\<And>j. j < NUM_ENTRIES \<Longrightarrow> n \<notin> set (L j)"
  shows "\<exists>h'. insert_locked (int i) n h = Inr h' \<and> lists_ok h' (L(i := n # L i)) \<and> off_list h' = off_list h"
proof -
  have "lists_ok (h\<lparr>mlock := True\<rparr>) L" using assms(2) by (subst lists_ok_cong [of _ h]) simp_all
  from insertToHead_spec [OF this assms(3-5)]
  obtain h' where h': "insertToHead i n (h\<lparr>mlock := True\<rparr>) = Inr h'" "lists_ok h' (L(i := n # L i))"
    "same_rest (h\<lparr>mlock := True\<rparr>) h'" by blast
  have "insert_locked (int i) n h = Inr (h'\<lparr>mlock := False\<rparr>)"
    using assms(1) h'(1) by (simp add: insert_locked_def release_spinlock_def)
  moreover have "lists_ok (h'\<lparr>mlock := False\<rparr>) (L(i := n # L i))"
    using h'(2) by (subst lists_ok_cong [of _ h']) simp_all
  moreover have "off_list (h'\<lparr>mlock := False\<rparr>) = off_list h"
    using same_rest_off_list [OF h'(3)] assms(1) by (simp add: off_list_def)
  ultimately show ?thesis by blast
qed

section \<open>The invariant of the allocator\<close>

definition blk_ok :: "(addr \<Rightarrow> nat) \<Rightarrow> addr \<Rightarrow> bool" where
  "blk_ok e a \<longleftrightarrow> a mod 8 = 0 \<and> 8 \<le> a mod PAGE_SIZE \<and> a mod PAGE_SIZE + 24 \<le> e a \<and> e a \<le> PAGE_SIZE \<and> e a mod 8 = 0"

definition bsize :: "(addr \<Rightarrow> nat) \<Rightarrow> addr \<Rightarrow> nat" where
  "bsize e a = e a - a mod PAGE_SIZE"

text \<open>\<^verbatim>\<open>S\<close> are the addresses of all blocks; no two of them overlap.\<close>

definition geometry :: "(addr \<Rightarrow> nat) \<Rightarrow> addr set \<Rightarrow> bool" where
  "geometry e S \<longleftrightarrow> (\<forall>a\<in>S. blk_ok e a) \<and>
     (\<forall>a\<in>S. \<forall>b\<in>S. a \<noteq> b \<longrightarrow> a + bsize e a \<le> b \<or> b + bsize e b \<le> a)"

text \<open>The lists hold the nodes of the free blocks, by size.\<close>

definition listed :: "(addr \<Rightarrow> nat) \<Rightarrow> (addr \<Rightarrow> bool) \<Rightarrow> addr set \<Rightarrow> (nat \<Rightarrow> addr list) \<Rightarrow> bool" where
  "listed e f S L \<longleftrightarrow> (\<forall>i<NUM_ENTRIES. \<forall>n. n \<in> set (L i) \<longleftrightarrow> (\<exists>a\<in>S. n = a + 8 \<and> f a \<and> bsize e a = 8 * (i + 1)))"

lemma listedD: "listed e f S L \<Longrightarrow> i < NUM_ENTRIES \<Longrightarrow> c + 8 \<in> set (L i) \<Longrightarrow> c \<in> S"
  by (auto simp: listed_def)

lemma listed_memD:
  "listed e f S L \<Longrightarrow> i < NUM_ENTRIES \<Longrightarrow> n \<in> set (L i) \<Longrightarrow> \<exists>a\<in>S. n = a + 8 \<and> f a \<and> bsize e a = 8 * (i + 1)"
  by (simp add: listed_def)

definition pages_ok :: "addr list \<Rightarrow> addr set \<Rightarrow> bool" where
  "pages_ok ps S \<longleftrightarrow> distinct ps \<and> (\<forall>p\<in>set ps. p mod PAGE_SIZE = 0 \<and> K2P p div PAGE_SIZE < MY_PAGE_COUNT) \<and>
     (\<forall>a\<in>S. getPageAddr a \<notin> set ps)"

definition heap_inv :: "heap \<Rightarrow> addr set \<Rightarrow> (nat \<Rightarrow> addr list) \<Rightarrow> bool" where
  "heap_inv h S L \<longleftrightarrow> \<not> mlock h \<and> lists_ok h L \<and> geometry (eo h) S \<and> listed (eo h) (isfree h) S L \<and>
     pages_ok (free_pages h) S"

lemma getBlockSize_eq: "blk_ok (eo h) a \<Longrightarrow> getBlockSize a h = int (bsize (eo h) a)"
proof -
  assume a: "blk_ok (eo h) a"
  have e: "getEndOffset (hdr h a) = int (eo h a)" by (simp add: eo_def getEndOffset_def)
  have "getEndOffset (hdr h a) - getAddrOffset a = int (bsize (eo h) a)"
    using a by (simp add: e getAddrOffset_eq bsize_def blk_ok_def of_nat_diff)
  moreover have "bsize (eo h) a \<le> 4096" using a by (auto simp: bsize_def blk_ok_def PAGE_SIZE_def)
  ultimately show ?thesis unfolding getBlockSize_def by (simp add: to_short_id)
qed

lemma blk_index:
  assumes "blk_ok e a"
  shows "\<exists>i. bsize e a = 8 * (i + 1) \<and> int (bsize e a) div 8 - 1 = int i \<and> i < 511"
proof -
  have "a mod PAGE_SIZE mod 8 = 0"
    using assms by (simp add: blk_ok_def PAGE_SIZE_def mod_mod_cancel)
  then have "8 dvd bsize e a" using assms by (auto simp: bsize_def blk_ok_def mod_eq_0_iff_dvd)
  then obtain k where k: "bsize e a = 8 * k" by blast
  moreover have "bsize e a \<ge> 24" "bsize e a \<le> 4088" using assms by (auto simp: bsize_def blk_ok_def PAGE_SIZE_def)
  ultimately have "k \<ge> 3" "k < 512" by auto
  then show ?thesis using k by (intro exI [of _ "k - 1"]) auto
qed

lemma kfree_spec:
  assumes inv: "heap_inv h S L" and a: "a \<in> S" "\<not> isfree h a"
  shows "\<exists>h' L'. kfree (a + 8) h = Inr h' \<and> heap_inv h' S L' \<and> eo h' = eo h \<and> isfree h' = (isfree h)(a := True)"
proof -
  note I = inv [unfolded heap_inv_def]
  have ok: "blk_ok (eo h) a" using I a by (auto simp: geometry_def)
  have e: "0 \<le> getEndOffset (hdr h a)" "getEndOffset (hdr h a) \<le> 4096" "nat (getEndOffset (hdr h a)) = eo h a"
    using ok by (auto simp: eo_def blk_ok_def PAGE_SIZE_def getEndOffset_def simp del: nat_uint_eq)
  let ?h1 = "setBlockHeaderWithoutPre a True (getEndOffset (hdr h a)) h"
  have h1: "eo ?h1 = eo h" "isfree ?h1 = (isfree h)(a := True)" "rest_of_heap ?h1 = rest_of_heap h"
    using setBlockHeaderWithoutPre_eo [OF e(1,2)] e(3) by (simp_all add: fun_upd_idem_iff)
  note R = rest_of_heapD [OF h1(3)]
  obtain i where i: "bsize (eo h) a = 8 * (i + 1)" "int (bsize (eo h) a) div 8 - 1 = int i" "i < 511"
    using blk_index [OF ok] by blast
  have nin: "a + 8 \<notin> set (L j)" if "j < NUM_ENTRIES" for j
    using I a(2) that by (auto simp: listed_def)
  have pre: "\<not> mlock ?h1" "lists_ok ?h1 L" "i < NUM_ENTRIES" "a + 8 \<noteq> 0"
    using I R lists_ok_cong [of ?h1 h] i(3) by (simp_all add: NUM_ENTRIES_def)
  obtain h' where h': "insert_locked (int i) (a + 8) ?h1 = Inr h'" "lists_ok h' (L(i := (a + 8) # L i))"
    "off_list h' = off_list ?h1"
    using insert_locked_spec [OF pre nin] by blast
  have res: "kfree (a + 8) h = Inr h'"
    using h'(1) getBlockSize_eq [of ?h1 a] ok i(2) by (simp add: kfree_def h1 Let_def)
  have eq: "eo h' = eo h" "isfree h' = (isfree h)(a := True)" "free_pages h' = free_pages h" "\<not> mlock h'"
    using h'(3) h1 R I by (auto simp: off_list_def eo_def isfree_def fun_eq_iff)
  have "listed (eo h) ((isfree h)(a := True)) S (L(i := (a + 8) # L i))"
    using I a i(1) by (auto simp: listed_def)
  then have "heap_inv h' S (L(i := (a + 8) # L i))"
    using I h'(2) eq by (simp add: heap_inv_def)
  then show ?thesis using res eq by blast
qed

section \<open>Splitting a block\<close>

lemma page_parts: "getPageAddr a + a mod PAGE_SIZE = a"
  by (simp add: getPageAddr_def)

lemma mod_page_add:
  assumes "a mod PAGE_SIZE + m < PAGE_SIZE"
  shows "(a + m) mod PAGE_SIZE = a mod PAGE_SIZE + m" and "getPageAddr (a + m) = getPageAddr a"
proof -
  have "(a + m) mod PAGE_SIZE = (a mod PAGE_SIZE + m) mod PAGE_SIZE" by (simp add: mod_add_left_eq)
  then show e: "(a + m) mod PAGE_SIZE = a mod PAGE_SIZE + m" using assms by simp
  show "getPageAddr (a + m) = getPageAddr a" by (simp add: getPageAddr_def e)
qed

lemma geometry_split:
  assumes g: "geometry e S" and a: "a \<in> S" and b: "bsize e a = m + n" "24 \<le> m" "24 \<le> n" "m mod 8 = 0"
  defines "e' \<equiv> e(a := a mod PAGE_SIZE + m, a + m := e a)"
  shows "a + m \<notin> S" and "geometry e' (insert (a + m) S)" and "bsize e' a = m" and "bsize e' (a + m) = n"
    and "\<And>c. c \<in> S \<Longrightarrow> c \<noteq> a \<Longrightarrow> bsize e' c = bsize e c" and "getPageAddr (a + m) = getPageAddr a"
proof -
  have ok: "blk_ok e a" using g a by (simp add: geometry_def)
  have ea: "e a = a mod PAGE_SIZE + m + n" using b(1) ok unfolding bsize_def blk_ok_def by linarith
  have lt: "a mod PAGE_SIZE + m < PAGE_SIZE" using ok ea b(3) by (simp add: blk_ok_def)
  note M = mod_page_add [OF lt]
  have off8: "a mod PAGE_SIZE mod 8 = 0" using ok by (simp add: blk_ok_def PAGE_SIZE_def mod_mod_cancel)
  have m8: "(a mod PAGE_SIZE + m) mod 8 = 0" "(a + m) mod 8 = 0"
    using off8 b(4) ok by (simp_all add: blk_ok_def mod_eq_0_iff_dvd)
  show "getPageAddr (a + m) = getPageAddr a" by (rule M(2))
  show nin: "a + m \<notin> S"
  proof
    assume s: "a + m \<in> S"
    have "a \<noteq> a + m" using b(2) by simp
    then have "a + bsize e a \<le> a + m \<or> a + m + bsize e (a + m) \<le> a"
      using g a s unfolding geometry_def by blast
    then show False using b by simp
  qed
  show ba: "bsize e' a = m" using b(2) by (simp add: e'_def bsize_def)
  show br: "bsize e' (a + m) = n" using ea M(1) by (simp add: e'_def bsize_def)
  show bc: "bsize e' c = bsize e c" if "c \<in> S" "c \<noteq> a" for c
    using that nin by (auto simp: e'_def bsize_def)
  have "blk_ok e' a"
    using ok b ea m8 by (simp add: e'_def blk_ok_def)
  moreover have "blk_ok e' (a + m)"
    using ok b ea m8 M(1) by (simp add: e'_def blk_ok_def)
  moreover have "blk_ok e' c" if "c \<in> S" "c \<noteq> a" for c
    using g that nin by (auto simp: geometry_def blk_ok_def e'_def)
  ultimately have blks: "\<forall>c\<in>insert (a + m) S. blk_ok e' c" by blast
  have far: "c + bsize e c \<le> a \<or> a + m + n \<le> c" if "c \<in> S" "c \<noteq> a" for c
    using g a that b(1) unfolding geometry_def by (metis add.assoc)
  have "c + bsize e' c \<le> d \<or> d + bsize e' d \<le> c"
    if cd: "c \<in> insert (a + m) S" "d \<in> insert (a + m) S" "c \<noteq> d" for c d
  proof -
    consider "c \<in> S" "c \<noteq> a" "d \<in> S" "d \<noteq> a" | "c \<in> S" "c \<noteq> a" "d = a \<or> d = a + m"
      | "c = a \<or> c = a + m" "d \<in> S" "d \<noteq> a" | "c = a \<or> c = a + m" "d = a \<or> d = a + m" using cd by blast
    then show ?thesis
    proof cases
      case 1
      then have "c + bsize e c \<le> d \<or> d + bsize e d \<le> c" using g cd(3) unfolding geometry_def by blast
      then show ?thesis using bc 1 by simp
    next
      case 2
      then show ?thesis using far [of c] bc [of c] ba br by auto
    next
      case 3
      then show ?thesis using far [of d] bc [of d] ba br by auto
    next
      case 4
      then show ?thesis using cd(3) ba by auto
    qed
  qed
  then show "geometry e' (insert (a + m) S)"
    using blks unfolding geometry_def by blast
qed

section \<open>Allocation\<close>

text \<open>The block of the address \<^verbatim>\<open>a\<close> has been handed out, with at least \<^verbatim>\<open>8 * (k + 1)\<close> bytes, every
  other block is as it was, and the blocks that are new are free.\<close>

definition handed_out :: "heap \<Rightarrow> heap \<Rightarrow> addr set \<Rightarrow> addr set \<Rightarrow> addr \<Rightarrow> nat \<Rightarrow> bool" where
  "handed_out h h' S S' a k \<longleftrightarrow> a \<in> S' \<and> \<not> isfree h' a \<and> 8 * (k + 1) \<le> bsize (eo h') a \<and> S \<subseteq> S' \<and>
     (\<forall>c\<in>S - {a}. eo h' c = eo h c \<and> isfree h' c = isfree h c) \<and> (\<forall>c\<in>S' - S - {a}. isfree h' c)"

definition taken_inv :: "heap \<Rightarrow> addr set \<Rightarrow> (nat \<Rightarrow> addr list) \<Rightarrow> addr \<Rightarrow> bool" where
  "taken_inv h S L a \<longleftrightarrow> \<not> mlock h \<and> lists_ok h L \<and> geometry (eo h) S \<and>
     listed (eo h) ((isfree h)(a := False)) S L \<and> pages_ok (free_pages h) S \<and> a \<in> S"

lemma blk_end:
  assumes "blk_ok (eo h) a"
  shows "getEndOffset (hdr h a) = int (eo h a)" and "eo h a \<le> 4096" and "eo h a = a mod PAGE_SIZE + bsize (eo h) a"
  using assms by (auto simp: eo_def blk_ok_def bsize_def getEndOffset_def PAGE_SIZE_def)

lemma doAllocBlock_whole:
  assumes inv: "taken_inv h S L a" and i: "bsize (eo h) a = 8 * (i + 1)" and k: "k \<le> i" "i < k + 3"
    and c: "getCeilDivEight (sz + 8) = int (k + 1)"
  shows "\<exists>h'. doAllocBlock (a + 8) (int k) (int i) sz h = Inr (a + 8, h') \<and> heap_inv h' S L \<and> handed_out h h' S S a k"
proof -
  note I = inv [unfolded taken_inv_def]
  have ok: "blk_ok (eo h) a" using I by (auto simp: geometry_def)
  note E = blk_end [OF ok]
  let ?h' = "setBlockHeaderWithoutPre a False (int (eo h a)) h"
  have off: "to_short (getAddrOffset a + getCeilDivEight (sz + 8) * 8 + (int i - int k) * 8) = int (eo h a)"
    using E(2,3) i k by (subst to_short_id) (simp_all add: c getAddrOffset_eq)
  have res: "doAllocBlock (a + 8) (int k) (int i) sz h = Inr (a + 8, ?h')"
    using k off by (simp add: doAllocBlock_def Let_def)
  have h': "eo ?h' = eo h" "isfree ?h' = (isfree h)(a := False)" "rest_of_heap ?h' = rest_of_heap h"
    using setBlockHeaderWithoutPre_eo [of "int (eo h a)" a False h] E(2) by (simp_all add: fun_upd_idem_iff)
  note R = rest_of_heapD [OF h'(3)]
  have "heap_inv ?h' S L"
    using I lists_ok_cong [of ?h' h] by (simp add: heap_inv_def h' R)
  moreover have "handed_out h ?h' S S a k"
    using I i k by (simp add: handed_out_def h')
  ultimately show ?thesis using res by blast
qed

lemma listed_split:
  assumes l: "listed e f S L" and g: "geometry e S" "a \<in> S" "\<not> f a" and b: "bsize e a = m + n" "24 \<le> m" "24 \<le> n" "m mod 8 = 0"
    and j: "n = 8 * (j + 1)"
  defines "e' \<equiv> e(a := a mod PAGE_SIZE + m, a + m := e a)"
  shows "listed e' (f(a + m := True)) (insert (a + m) S) (L(j := (a + m + 8) # L j))"
proof -
  note G = geometry_split [OF g(1,2) b, folded e'_def]
  have same: "(\<exists>c\<in>S. x = c + 8 \<and> (f(a + m := True)) c \<and> bsize e' c = 8 * (i + 1)) =
      (\<exists>c\<in>S. x = c + 8 \<and> f c \<and> bsize e c = 8 * (i + 1))" for x i
  proof (rule bex_cong [OF refl])
    fix c assume "c \<in> S"
    then show "(x = c + 8 \<and> (f(a + m := True)) c \<and> bsize e' c = 8 * (i + 1)) =
        (x = c + 8 \<and> f c \<and> bsize e c = 8 * (i + 1))"
      using G(1,5) g(3) by (cases "c = a") auto
  qed
  show ?thesis
    unfolding listed_def bex_simps(5) same using l G(4) j by (auto simp: listed_def)
qed

lemma off_list_eo:
  assumes "off_list h' = off_list h"
  shows "eo h' = eo h" "isfree h' = isfree h" "free_pages h' = free_pages h" "mlock h' = mlock h"
  using assms by (simp_all add: off_list_def eo_def isfree_def fun_eq_iff)

text \<open>The headers that \<^verbatim>\<open>doAllocBlock\<close> writes when it cuts \<^verbatim>\<open>m\<close> bytes off the block \<^verbatim>\<open>a\<close>.\<close>

definition cut_block :: "addr \<Rightarrow> nat \<Rightarrow> heap \<Rightarrow> heap" where
  "cut_block a m h =
     setBlockHeader (a + m) True (int (eo h a)) (getAddrOffset a)
       (setBlockHeaderWithoutPre a False (int (a mod PAGE_SIZE + m)) h)"

definition cut_headers :: "addr \<Rightarrow> nat \<Rightarrow> heap \<Rightarrow> heap" where
  "cut_headers a m h =
     (let h = cut_block a m h
      in if hasNextHeader (hdr h (a + m))
         then set_hdr (getNextBlockHeader (a + m) h) (\<lambda>b. b\<lparr>preBlockOffset := getAddrOffset (a + m)\<rparr>) h
         else h)"

lemma cut_headers_spec:
  assumes "blk_ok (eo h) a" and "bsize (eo h) a = m + n"
  shows "eo (cut_block a m h) = (eo h)(a := a mod PAGE_SIZE + m, a + m := eo h a)"
    and "eo (cut_headers a m h) = (eo h)(a := a mod PAGE_SIZE + m, a + m := eo h a)"
    and "isfree (cut_headers a m h) = (isfree h)(a := False, a + m := True)"
    and "rest_of_heap (cut_headers a m h) = rest_of_heap h"
proof -
  note E = blk_end [OF assms(1)]
  let ?h1 = "setBlockHeaderWithoutPre a False (int (a mod PAGE_SIZE + m)) h"
  have mb: "a mod PAGE_SIZE + m \<le> 4096" using E assms(2) by simp
  have H1: "eo ?h1 = (eo h)(a := a mod PAGE_SIZE + m)" "isfree ?h1 = (isfree h)(a := False)"
    using setBlockHeaderWithoutPre_eo [of "int (a mod PAGE_SIZE + m)" a False h] mb by (simp_all add: nat_plus_as_int)
  have H2: "isfree (cut_block a m h) = (isfree h)(a := False, a + m := True)"
    and "eo (cut_block a m h) = (eo h)(a := a mod PAGE_SIZE + m, a + m := eo h a)"
    using setBlockHeader_eo [of "int (eo h a)" "a + m" True "getAddrOffset a" ?h1] E(2) H1 by (simp_all add: cut_block_def)
  then show "eo (cut_block a m h) = (eo h)(a := a mod PAGE_SIZE + m, a + m := eo h a)"
    and "eo (cut_headers a m h) = (eo h)(a := a mod PAGE_SIZE + m, a + m := eo h a)"
    and "isfree (cut_headers a m h) = (isfree h)(a := False, a + m := True)"
    by (simp_all add: cut_headers_def Let_def set_hdr_other_fields)
  show "rest_of_heap (cut_headers a m h) = rest_of_heap h" by (simp add: cut_headers_def cut_block_def Let_def)
qed

lemma doAllocBlock_cut:
  assumes geo: "geometry (eo h) S" "a \<in> S" and b: "bsize (eo h) a = 8 * (k + 1) + 8 * (j + 1)" and k: "2 \<le> k" "2 \<le> j"
    and c: "getCeilDivEight (sz + 8) = int (k + 1)"
  defines "m \<equiv> 8 * (k + 1)"
  shows "doAllocBlock (a + 8) (int k) (int (k + j + 1)) sz h =
    rbind (insert_locked (int j) (a + m + 8) (cut_headers a m h)) (\<lambda>h. Inr (a + 8, setNotUsed (a + 8) h))"
proof -
  have ok: "blk_ok (eo h) a" using geo by (auto simp: geometry_def)
  note E = blk_end [OF ok]
  have b': "bsize (eo h) a = m + 8 * (j + 1)" "24 \<le> m" "24 \<le> 8 * (j + 1)" "m mod 8 = 0"
    using b k by (simp_all add: m_def)
  note G = geometry_split [OF geo b'] and C = cut_headers_spec [OF ok b'(1)]
  have mb: "a mod PAGE_SIZE + m \<le> 4096" using E b'(1) by simp
  let ?h1 = "setBlockHeaderWithoutPre a False (int (a mod PAGE_SIZE + m)) h"
  have "getEndOffset (hdr ?h1 a) = int (a mod PAGE_SIZE + m)"
  proof -
    have "eo ?h1 a = a mod PAGE_SIZE + m"
      using setBlockHeaderWithoutPre_eo(1) [of "int (a mod PAGE_SIZE + m)" a False h] mb by (simp add: nat_plus_as_int)
    then show ?thesis by (simp only: getEndOffset_eo)
  qed
  then have next_r: "getNextBlockHeader a ?h1 = a + m"
    using page_parts [of a] by (simp add: getNextBlockHeader_def nat_plus_as_int)
  have "blk_ok (eo (cut_block a m h)) (a + m)" using G(2) by (simp add: geometry_def C)
  then have idx: "getBlockSize (a + m) (cut_block a m h) div 8 - 1 = int j"
    using getBlockSize_eq G(4) by (simp add: C)
  have off: "to_short (getAddrOffset a + getCeilDivEight (sz + 8) * 8) = int (a mod PAGE_SIZE + m)"
    using mb by (subst to_short_id) (simp_all add: c getAddrOffset_eq m_def)
  have split: "int k \<le> int (k + j + 1) - 3" using k by simp
  show ?thesis
    unfolding doAllocBlock_def Let_def header_of_node header_sizes if_P [OF split] add_0_right off next_r E(1) node_of_header
    by (simp only: cut_block_def [symmetric] idx cut_headers_def Let_def split simp_thms if_True)
qed

lemma doAllocBlock_split:
  assumes inv: "taken_inv h S L a" and b: "bsize (eo h) a = 8 * (k + 1) + 8 * (j + 1)" and k: "2 \<le> k" "2 \<le> j"
    and c: "getCeilDivEight (sz + 8) = int (k + 1)"
  shows "\<exists>h' S' L'. doAllocBlock (a + 8) (int k) (int (k + j + 1)) sz h = Inr (a + 8, h') \<and> heap_inv h' S' L' \<and>
    handed_out h h' S S' a k"
proof -
  note I = inv [unfolded taken_inv_def]
  define m where "m = 8 * (k + 1)"
  have b': "bsize (eo h) a = m + 8 * (j + 1)" "24 \<le> m" "24 \<le> 8 * (j + 1)" "m mod 8 = 0"
    using b k by (simp_all add: m_def)
  have ok: "blk_ok (eo h) a" using I by (auto simp: geometry_def)
  have geo: "geometry (eo h) S" "a \<in> S" using I by auto
  note G = geometry_split [OF geo b'] and C = cut_headers_spec [OF ok b'(1)]
  note R = rest_of_heapD [OF C(4)]
  let ?h3 = "cut_headers a m h"
  have jl: "j < NUM_ENTRIES" using blk_end [OF ok] b by (simp add: NUM_ENTRIES_def)
  have nin: "a + m + 8 \<notin> set (L l)" if "l < NUM_ENTRIES" for l
    using I G(1) that by (auto simp: listed_def)
  have pre: "\<not> mlock ?h3" "lists_ok ?h3 L" "a + m + 8 \<noteq> 0" using I R lists_ok_cong [of ?h3 h] by simp_all
  obtain h4 where h4: "insert_locked (int j) (a + m + 8) ?h3 = Inr h4" "lists_ok h4 (L(j := (a + m + 8) # L j))"
    "off_list h4 = off_list ?h3"
    using insert_locked_spec [OF pre(1,2) jl pre(3) nin] by blast
  define h' where "h' = setNotUsed (a + 8) h4"
  have res: "doAllocBlock (a + 8) (int k) (int (k + j + 1)) sz h = Inr (a + 8, h')"
    using h4(1) unfolding doAllocBlock_cut [OF geo b k c] by (simp add: m_def h'_def)
  have H': "eo h' = (eo h)(a := a mod PAGE_SIZE + m, a + m := eo h a)" "isfree h' = (isfree h)(a := False, a + m := True)"
    using off_list_eo [OF h4(3)] C by (simp_all add: h'_def set_hdr_other_fields)
  have "rest_of_heap h' = rest_of_heap h4" by (simp add: h'_def)
  note R' = rest_of_heapD [OF this]
  have "listed (eo h') (isfree h') (insert (a + m) S) (L(j := (a + m + 8) # L j))"
    unfolding H' by (rule listed_split [OF _ geo _ b' refl]) (use I in auto)
  moreover have "pages_ok (free_pages h') (insert (a + m) S)"
    using I G(6) R R' off_list_eo [OF h4(3)] by (simp add: pages_ok_def)
  ultimately have "heap_inv h' (insert (a + m) S) (L(j := (a + m + 8) # L j))"
    using I h4(2) lists_ok_cong [of h' h4] R' R off_list_eo [OF h4(3)] G(2) by (simp add: heap_inv_def H')
  moreover have "handed_out h h' S (insert (a + m) S) a k"
    using G(1,3) b'(2) geo(2) by (auto simp: handed_out_def H' m_def)
  ultimately show ?thesis using res by blast
qed

text \<open>A page taken from the stack.\<close>

lemma kalloc_page_spec:
  assumes inv: "heap_inv h S L" and p: "free_pages h = p # ps" and n: "alloc_page_cnt h < int MY_PAGE_COUNT"
  shows "\<exists>h1. kalloc_page h = Inr (p, h1) \<and> \<not> mlock h1 \<and> lists_ok h1 L \<and>
    (\<forall>c\<in>S. eo h1 c = eo h c \<and> isfree h1 c = isfree h c) \<and> free_pages h1 = ps"
proof -
  note I = inv [unfolded heap_inv_def]
  define h0 where "h0 = clear_page p (h\<lparr>alloc_page_cnt := increment_rc (alloc_page_cnt h), free_pages := ps\<rparr>)"
  define q where "q = K2P p div PAGE_SIZE"
  define h1 where "h1 = h0\<lparr>page_ref := (page_ref h0)(q := increment_rc (page_ref h0 q))\<rparr>"
  have q: "page_index p = Inr q" using I p by (simp add: pages_ok_def page_index_def q_def)
  have res: "kalloc_page h = Inr (p, h1)"
    using n p q by (simp add: kalloc_page_def Let_def h1_def h0_def increment_rc_def)
  have np: "getPageAddr c \<noteq> p \<and> getPageAddr (c + 8) \<noteq> p" if "c \<in> S" for c
  proof -
    have "getPageAddr c \<noteq> p" using I p that by (auto simp: pages_ok_def)
    moreover have "c mod PAGE_SIZE + 8 < PAGE_SIZE"
      using I that by (auto simp: geometry_def blk_ok_def)
    ultimately show ?thesis using mod_page_add(2) [of c 8] by simp
  qed
  have "lists_ok h1 L"
  proof -
    have "chain h1 pr c (L i) = chain h pr c (L i)" if "i < NUM_ENTRIES" for i pr c
    proof (rule chain_cong)
      fix x assume "x \<in> set (L i)"
      then obtain c where "c \<in> S" "x = c + 8" using I \<open>i < NUM_ENTRIES\<close> by (auto simp: listed_def)
      then show "hnext h1 x = hnext h x \<and> hprev h1 x = hprev h x"
        using np [of c] by (simp add: h1_def h0_def clear_page_def)
    qed
    then show ?thesis using I by (simp add: lists_ok_def h1_def h0_def clear_page_def)
  qed
  moreover have "\<forall>c\<in>S. eo h1 c = eo h c \<and> isfree h1 c = isfree h c"
    using np by (simp add: h1_def h0_def clear_page_def eo_def isfree_def)
  moreover have "\<not> mlock h1" "free_pages h1 = ps" using I by (simp_all add: h1_def h0_def clear_page_def)
  ultimately show ?thesis using res by blast
qed

lemma page_apart:
  fixes p q :: addr
  assumes "p mod PAGE_SIZE = 0" and "q mod PAGE_SIZE = 0" and "p < q"
  shows "p + PAGE_SIZE \<le> q"
proof -
  obtain i j where ij: "p = PAGE_SIZE * i" "q = PAGE_SIZE * j" using assms by (auto simp: mod_eq_0_iff_dvd elim!: dvdE)
  then have "i < j" using assms(3) by simp
  then have "PAGE_SIZE * Suc i \<le> PAGE_SIZE * j" by (intro mult_le_mono2) simp
  then show ?thesis using ij by simp
qed

lemma geometry_page:
  assumes g: "geometry e S" and p: "p mod PAGE_SIZE = 0" and out: "\<And>c. c \<in> S \<Longrightarrow> getPageAddr c \<noteq> p"
  defines "e' \<equiv> e(p + 8 := PAGE_SIZE)"
  shows "p + 8 \<notin> S" and "geometry e' (insert (p + 8) S)" and "bsize e' (p + 8) = 4088"
proof -
  have m: "(p + 8) mod PAGE_SIZE = 8" "getPageAddr (p + 8) = p"
    using mod_page_add [of p 8] p by (simp_all add: PAGE_SIZE_def getPageAddr_def)
  show n: "p + 8 \<notin> S" using out m(2) by blast
  show b: "bsize e' (p + 8) = 4088" by (simp add: e'_def bsize_def m) (simp add: PAGE_SIZE_def)
  have p8: "p mod 8 = 0" using p by (auto simp: PAGE_SIZE_def mod_eq_0_iff_dvd elim: dvd_trans [rotated])
  have "blk_ok e' (p + 8)" using p8 by (simp add: e'_def blk_ok_def m) (simp add: PAGE_SIZE_def mod_eq_0_iff_dvd)
  moreover have same: "bsize e' c = bsize e c" "blk_ok e' c = blk_ok e c" if "c \<in> S" for c
    using that n by (auto simp: e'_def bsize_def blk_ok_def)
  moreover have "c + bsize e c \<le> p + 8 \<or> p + 8 + 4088 \<le> c" if c: "c \<in> S" for c
  proof -
    have ok: "blk_ok e c" using g c by (simp add: geometry_def)
    have "c + bsize e c \<le> getPageAddr c + PAGE_SIZE" using ok page_parts [of c] unfolding blk_ok_def bsize_def by linarith
    moreover have "getPageAddr c < p \<or> p < getPageAddr c" using out [OF c] by linarith
    moreover have "getPageAddr c mod PAGE_SIZE = 0" by (simp add: getPageAddr_def mod_eq_0_iff_dvd dvd_minus_mod)
    ultimately show ?thesis
      using page_apart [of p "getPageAddr c"] page_apart [of "getPageAddr c" p] p page_parts [of c]
      by (auto simp: PAGE_SIZE_def)
  qed
  ultimately show "geometry e' (insert (p + 8) S)"
    using g b unfolding geometry_def by (auto simp: same)
qed

lemma setBlockEndOffset_eo:
  assumes "0 \<le> e" and "e \<le> 4096"
  shows "eo (setBlockEndOffset a 4096 (setBlockHeader a False e pre h)) = (eo h)(a := PAGE_SIZE)"
    and "isfree (setBlockEndOffset a 4096 (setBlockHeader a False e pre h)) = (isfree h)(a := False)"
  using end_field(5,6) [OF assms]
  by (auto simp: eo_def isfree_def setBlockHeader_def setBlockEndOffset_def set_hdr_def setFree_def setOccupied_def
      getEndOffset_def isFree_def Let_def fun_eq_iff PAGE_SIZE_def simp del: nat_uint_eq)

lemma listed_page:
  assumes l: "listed e f S L" and n: "p + 8 \<notin> S" and S: "\<And>c. c \<in> S \<Longrightarrow> e' c = e c \<and> f' c = f c" and a: "\<not> f' (p + 8)"
  shows "listed e' f' (insert (p + 8) S) L"
proof -
  have "(\<exists>c\<in>S. x = c + 8 \<and> f' c \<and> bsize e' c = 8 * (i + 1)) = (\<exists>c\<in>S. x = c + 8 \<and> f c \<and> bsize e c = 8 * (i + 1))" for x i
    using S by (intro bex_cong) (auto simp: bsize_def)
  then show ?thesis using l a by (auto simp: listed_def)
qed

text \<open>The page \<^verbatim>\<open>p\<close> has been taken, its first block \<^verbatim>\<open>p + 8\<close> covers all of it and is in use.\<close>

lemma page_taken:
  assumes inv: "heap_inv h S L" and p: "free_pages h = p # ps"
    and h1: "\<not> mlock h1" "lists_ok h1 L" "\<forall>c\<in>S. eo h1 c = eo h c \<and> isfree h1 c = isfree h c" "free_pages h1 = ps"
  shows "p + 8 \<notin> S" and "geometry ((eo h1)(p + 8 := PAGE_SIZE)) (insert (p + 8) S)"
    and "bsize ((eo h1)(p + 8 := PAGE_SIZE)) (p + 8) = 4088"
    and "listed ((eo h1)(p + 8 := PAGE_SIZE)) ((isfree h1)(p + 8 := False)) (insert (p + 8) S) L"
    and "pages_ok ps (insert (p + 8) S)" and "(p + 8) mod PAGE_SIZE = 8"
proof -
  note I = inv [unfolded heap_inv_def]
  have g1: "geometry (eo h1) S" using I h1(3) by (auto simp: geometry_def blk_ok_def bsize_def)
  have pp: "p mod PAGE_SIZE = 0" "\<And>c. c \<in> S \<Longrightarrow> getPageAddr c \<noteq> p" using I p by (auto simp: pages_ok_def)
  note G = geometry_page [OF g1 pp]
  show "p + 8 \<notin> S" and "geometry ((eo h1)(p + 8 := PAGE_SIZE)) (insert (p + 8) S)"
    and "bsize ((eo h1)(p + 8 := PAGE_SIZE)) (p + 8) = 4088" using G by simp_all
  show "listed ((eo h1)(p + 8 := PAGE_SIZE)) ((isfree h1)(p + 8 := False)) (insert (p + 8) S) L"
    using I h1(3) G(1) by (intro listed_page [of "eo h" "isfree h"]) auto
  show m: "(p + 8) mod PAGE_SIZE = 8" using mod_page_add [of p 8] pp by (simp add: PAGE_SIZE_def)
  have "getPageAddr (p + 8) = p" using m by (simp add: getPageAddr_def)
  then show "pages_ok ps (insert (p + 8) S)" using I p by (auto simp: pages_ok_def)
qed

text \<open>What \<^verbatim>\<open>doAllocPage\<close> does after the header of the block: the rest of the page becomes a free block.\<close>

definition doAllocPage_rest :: "addr \<Rightarrow> heap \<Rightarrow> (addr \<times> heap) res" where
  "doAllocPage_rest p h =
     (let a = p + 8;
          r = nat (int p + getEndOffset (hdr h a));
          h = setBlockHeader r True 4096 sizeOfPageHeader h;
          idx = getBlockSize r h div 8 - 1
      in rbind (insert_locked idx (getBlockHashNode r) h) (\<lambda>h. Inr (getValidSpaceAddr a, h)))"

lemma doAllocPage_rest_spec:
  assumes g: "geometry (e(p + 8 := PAGE_SIZE)) (insert (p + 8) S)" and b: "bsize (e(p + 8 := PAGE_SIZE)) (p + 8) = 4088"
    and l: "listed (e(p + 8 := PAGE_SIZE)) f (insert (p + 8) S) L" "\<not> f (p + 8)"
    and pg: "pages_ok (free_pages h) (insert (p + 8) S)" "(p + 8) mod PAGE_SIZE = 8"
    and h: "\<not> mlock h" "lists_ok h L" "eo h = e(p + 8 := 8 + 8 * (k + 1))" "isfree h = f"
    and j: "4088 = 8 * (k + 1) + 8 * (j + 1)" "2 \<le> j" "2 \<le> k"
  shows "\<exists>h' L'. doAllocPage_rest p h = Inr (p + 8 + 8, h') \<and> heap_inv h' (insert (p + 8 + 8 * (k + 1)) (insert (p + 8) S)) L' \<and>
    eo h' = e(p + 8 := 8 + 8 * (k + 1), p + 8 + 8 * (k + 1) := PAGE_SIZE) \<and> isfree h' = f(p + 8 + 8 * (k + 1) := True) \<and>
    p + 8 + 8 * (k + 1) \<notin> S"
proof -
  let ?a = "p + 8"
  define m where "m = 8 * (k + 1)"
  have b': "bsize (e(?a := PAGE_SIZE)) ?a = m + 8 * (j + 1)" "24 \<le> m" "24 \<le> 8 * (j + 1)" "m mod 8 = 0"
    using b j by (simp_all add: m_def)
  note G = geometry_split [OF g insertI1 b', unfolded pg(2) fun_upd_same fun_upd_upd]
  have ls: "listed (e(?a := 8 + m, ?a + m := PAGE_SIZE)) (f(?a + m := True)) (insert (?a + m) (insert ?a S))
      (L(j := (?a + m + 8) # L j))"
    using listed_split [OF l(1) g insertI1 l(2) b' refl, unfolded pg(2) fun_upd_same fun_upd_upd] .
  have r: "nat (int p + getEndOffset (hdr h ?a)) = ?a + m"
    by (simp add: getEndOffset_eo h(3) m_def nat_plus_as_int)
  let ?h1 = "setBlockHeader (?a + m) True 4096 8 h"
  have H1: "eo ?h1 = e(?a := 8 + m, ?a + m := PAGE_SIZE)" "isfree ?h1 = f(?a + m := True)"
    "rest_of_heap ?h1 = rest_of_heap h"
    using setBlockHeader_eo [of 4096 "?a + m" True 8 h] h(3,4) by (simp_all add: PAGE_SIZE_def m_def)
  note R = rest_of_heapD [OF H1(3)]
  have "blk_ok (eo ?h1) (?a + m)" using G(2) by (simp add: geometry_def H1)
  then have idx: "getBlockSize (?a + m) ?h1 div 8 - 1 = int j" using getBlockSize_eq G(4) by (simp add: H1)
  have nin: "?a + m + 8 \<notin> set (L i)" if "i < NUM_ENTRIES" for i
    using listedD [OF l(1) that] G(1) by blast
  have pre: "\<not> mlock ?h1" "lists_ok ?h1 L" "j < NUM_ENTRIES" "?a + m + 8 \<noteq> 0"
    using h R lists_ok_cong [of ?h1 h] j by (simp_all add: NUM_ENTRIES_def)
  obtain h' where h': "insert_locked (int j) (?a + m + 8) ?h1 = Inr h'" "lists_ok h' (L(j := (?a + m + 8) # L j))"
    "off_list h' = off_list ?h1"
    using insert_locked_spec [OF pre nin] by blast
  have res: "doAllocPage_rest p h = Inr (?a + 8, h')"
    unfolding doAllocPage_rest_def Let_def r header_sizes idx node_of_header h'(1) by simp
  note O = off_list_eo [OF h'(3)]
  have "heap_inv h' (insert (?a + m) (insert ?a S)) (L(j := (?a + m + 8) # L j))"
    using h(1) h'(2) O G(2,6) R pg(1) ls by (simp add: heap_inv_def H1 pages_ok_def)
  moreover have "eo h' = e(?a := 8 + m, ?a + m := PAGE_SIZE)" "isfree h' = f(?a + m := True)" "?a + m \<notin> S"
    using O H1 G(1) by simp_all
  ultimately show ?thesis using res unfolding m_def by blast
qed

lemma doAllocPage_spec:
  assumes inv: "heap_inv h S L" and p: "free_pages h = p # ps" and n: "alloc_page_cnt h < int MY_PAGE_COUNT"
    and c: "getCeilDivEight (sz + 8) = int (k + 1)" and k: "2 \<le> k" "k \<le> 510"
  shows "\<exists>h' S' L'. doAllocPage sz h = Inr (p + 8 + 8, h') \<and> heap_inv h' S' L' \<and> handed_out h h' S S' (p + 8) k \<and> p + 8 \<notin> S"
proof -
  obtain h1 where h1: "kalloc_page h = Inr (p, h1)" "\<not> mlock h1" "lists_ok h1 L"
    "\<forall>c\<in>S. eo h1 c = eo h c \<and> isfree h1 c = isfree h c" "free_pages h1 = ps"
    using kalloc_page_spec [OF inv p n] by blast
  note P = page_taken [OF inv p h1(2-5)]
  define m where "m = 8 * (k + 1)"
  let ?a = "p + 8"
  define h2 where "h2 = setBlockHeader ?a False (int (8 + m)) 0 h1"
  have mb: "8 + m \<le> 4096" using k by (simp add: m_def)
  have off: "to_short (8 + getCeilDivEight (sz + 8) * 8) = int (8 + m)"
    using mb by (subst to_short_id) (simp_all add: c m_def)
  have H2: "eo h2 = (eo h1)(?a := 8 + m)" "isfree h2 = (isfree h1)(?a := False)" "rest_of_heap h2 = rest_of_heap h1"
    using setBlockHeader_eo [of "int (8 + m)" ?a False 0 h1] mb by (simp_all add: nat_plus_as_int h2_def)
  have e2: "getEndOffset (hdr h2 ?a) = int (8 + m)" by (simp only: getEndOffset_eo H2(1) fun_upd_same)
  have a: "nat (int p + 8) = ?a" by simp
  have "16 \<le> m" using k by (simp add: m_def)
  then have res: "doAllocPage sz h =
      (if 4072 \<le> 8 + m then Inr (?a + 8, setBlockEndOffset ?a 4096 h2) else doAllocPage_rest p h2)"
    using h1(1) off e2 by (simp add: doAllocPage_def doAllocPage_rest_def Let_def h2_def a)
  show ?thesis
  proof (cases "4072 \<le> 8 + m")
    case True
    define h' where "h' = setBlockEndOffset ?a 4096 h2"
    have H': "eo h' = (eo h1)(?a := PAGE_SIZE)" "isfree h' = (isfree h1)(?a := False)"
      using setBlockEndOffset_eo [of "int (8 + m)" ?a 0 h1] mb by (simp_all add: h'_def h2_def)
    have "rest_of_heap h' = rest_of_heap h1" by (simp add: h'_def h2_def)
    note R = rest_of_heapD [OF this]
    have "heap_inv h' (insert ?a S) L"
      using h1 P R lists_ok_cong [of h' h1] by (simp add: heap_inv_def H')
    moreover have "handed_out h h' S (insert ?a S) ?a k"
      using h1(4) P(1,3) mb by (auto simp: handed_out_def H' m_def)
    ultimately show ?thesis using res True P(1) unfolding h'_def by auto
  next
    case False
    then have F: "8 + m < 4072" by simp
    have hh: "\<not> mlock h2" "lists_ok h2 L" "free_pages h2 = ps"
      using h1 rest_of_heapD [OF H2(3)] lists_ok_cong [of h2 h1] by simp_all
    define j where "j = 509 - k"
    have j: "4088 = 8 * (k + 1) + 8 * (j + 1)" "2 \<le> j" using F k by (simp_all add: m_def j_def)
    obtain h' L' where h': "doAllocPage_rest p h2 = Inr (?a + 8, h')" "heap_inv h' (insert (?a + m) (insert ?a S)) L'"
      "eo h' = (eo h1)(?a := 8 + m, ?a + m := PAGE_SIZE)" "isfree h' = (isfree h1)(?a := False, ?a + m := True)" "?a + m \<notin> S"
      using doAllocPage_rest_spec [OF P(2-4) _ _ P(6) hh(1,2) _ H2(2) j k(1)] P(5) hh(3) H2(1) unfolding m_def by auto
    have "handed_out h h' S (insert (?a + m) (insert ?a S)) ?a k"
      using h'(5) h1(4) P(1,6) k by (auto simp: handed_out_def h'(3,4) bsize_def m_def)
    then show ?thesis using h'(1,2) P(1) res F by auto
  qed
qed

text \<open>The number of eight byte units of a request.\<close>

definition req_size :: "int \<Rightarrow> int" where
  "req_size sz = (if sz + 8 < 24 then 16 else sz)"

lemma req_units:
  assumes "0 \<le> sz" and "sz \<le> 4080"
  shows "\<exists>k. getCeilDivEight (req_size sz + 8) = int (k + 1) \<and> 2 \<le> k \<and> k \<le> 510 \<and> sz + 8 \<le> 8 * int (k + 1)"
proof -
  let ?q = "(req_size sz + 7) div 8 + 1"
  have r: "16 \<le> req_size sz" "req_size sz \<le> 4080" "sz \<le> req_size sz" using assms by (auto simp: req_size_def)
  have "getCeilDivEight (req_size sz + 8) = ?q"
    using r unfolding getCeilDivEight_def cdiv_def by (subst to_short_id) auto
  moreover have "3 \<le> ?q" "?q \<le> 511" "sz + 8 \<le> 8 * ?q" using r by auto
  ultimately show ?thesis by (intro exI [of _ "nat ?q - 1"]) auto
qed

lemma kalloc_cases:
  assumes inv: "heap_inv h S L" and c: "getCeilDivEight (req_size sz + 8) = int (k + 1)"
  shows "kalloc sz h =
    (case find (\<lambda>i. hashTable h ! i \<noteq> 0) [k..<512] of
       None \<Rightarrow> doAllocPage (req_size sz) h
     | Some i \<Rightarrow> rbind (deleteHeadNode i ((incPageAlcCount (hashTable h ! i) h)\<lparr>mlock := True\<rparr>)) (\<lambda>(n, h').
         doAllocBlock (hashTable h ! i) (int k) (int i) (req_size sz) (h'\<lparr>mlock := False\<rparr>)))"
proof -
  have "\<not> mlock h" using inv by (simp add: heap_inv_def)
  then have l: "acquire_spinlock (mlock h) = Inr True" "h\<lparr>mlock := False\<rparr> = h" by (simp_all)
  have i: "incPageAlcCount n (h\<lparr>mlock := True\<rparr>) = (incPageAlcCount n h)\<lparr>mlock := True\<rparr>" for n
    by (simp add: incPageAlcCount_def)
  have rs: "(if sz + sizeOfOccupiedHeader < sizeOfFreeHeader then sizeOfFreeHeader - sizeOfOccupiedHeader else sz) =
      req_size sz" by (simp add: req_size_def)
  show ?thesis
    unfolding kalloc_def Let_def rs using c l
    by (cases "find (\<lambda>i. hashTable h ! i \<noteq> 0) [k..<512]") (simp_all add: i release_spinlock_def)
qed

lemma taken_head:
  assumes inv: "heap_inv h S L" and i: "i < NUM_ENTRIES" "hashTable h ! i \<noteq> 0"
  shows "\<exists>a h1 L1. hashTable h ! i = a + 8 \<and> isfree h a \<and> bsize (eo h) a = 8 * (i + 1) \<and>
    deleteHeadNode i ((incPageAlcCount (a + 8) h)\<lparr>mlock := True\<rparr>) = Inr (a + 8, h1) \<and>
    taken_inv (h1\<lparr>mlock := False\<rparr>) S L1 a \<and> eo (h1\<lparr>mlock := False\<rparr>) = eo h \<and> isfree (h1\<lparr>mlock := False\<rparr>) = isfree h"
proof -
  note I = inv [unfolded heap_inv_def]
  have ch: "chain h 0 (hashTable h ! i) (L i)" "distinct (L i)" using I i(1) by (auto simp: lists_ok_def)
  obtain n ns where n: "L i = n # ns" "hashTable h ! i = n" using ch(1) i(2) by (cases "L i") auto
  obtain a where a: "a \<in> S" "n = a + 8" "isfree h a" "bsize (eo h) a = 8 * (i + 1)"
    using I i(1) n(1) unfolding listed_def by (metis list.set_intros(1))
  let ?h0 = "(incPageAlcCount n h)\<lparr>mlock := True\<rparr>"
  have "lists_ok ?h0 L" using I by (subst lists_ok_cong [of _ h]) (simp_all add: incPageAlcCount_def)
  from deleteHeadNode_spec [OF this i(1) n(1)]
  obtain h1 where h1: "deleteHeadNode i ?h0 = Inr (n, h1)" "lists_ok h1 (L(i := ns))" "same_rest ?h0 h1" by blast
  have o: "off_list h1 = (hdr h, free_pages h, page_ref h, alloc_page_cnt h, True)"
    using same_rest_off_list [OF h1(3)] by (simp add: off_list_def incPageAlcCount_def)
  define h2 where "h2 = h1\<lparr>mlock := False\<rparr>"
  have H2: "eo h2 = eo h" "isfree h2 = isfree h" "free_pages h2 = free_pages h" "\<not> mlock h2" "lists_ok h2 (L(i := ns))"
    using o h1(2) lists_ok_cong [of h2 h1] by (auto simp: off_list_def eo_def isfree_def fun_eq_iff h2_def)
  have "listed (eo h) ((isfree h)(a := False)) S (L(i := ns))"
    unfolding listed_def
  proof (intro allI impI)
    fix l x assume l: "l < NUM_ENTRIES"
    have "x \<in> set ((L(i := ns)) l) \<longleftrightarrow> x \<in> set (L l) \<and> x \<noteq> a + 8"
      using I l i(1) n ch(2) a(2) by (cases "l = i") (auto simp: lists_ok_def)
    also have "x \<in> set (L l) \<longleftrightarrow> (\<exists>c\<in>S. x = c + 8 \<and> isfree h c \<and> bsize (eo h) c = 8 * (l + 1))"
      using I l by (simp add: listed_def)
    finally show "x \<in> set ((L(i := ns)) l) \<longleftrightarrow>
        (\<exists>c\<in>S. x = c + 8 \<and> ((isfree h)(a := False)) c \<and> bsize (eo h) c = 8 * (l + 1))" by auto
  qed
  then have "taken_inv h2 S (L(i := ns)) a" using I a(1) H2 by (simp add: taken_inv_def)
  then show ?thesis using a n h1(1) H2 unfolding h2_def by blast
qed

lemma kalloc_spec:
  assumes inv: "heap_inv h S L" and sz: "0 \<le> sz" "sz \<le> 4080"
    and room: "free_pages h \<noteq> []" "alloc_page_cnt h < int MY_PAGE_COUNT"
  shows "\<exists>a h' S' L' k. kalloc sz h = Inr (a + 8, h') \<and> heap_inv h' S' L' \<and> handed_out h h' S S' a k \<and>
    (a \<in> S \<longrightarrow> isfree h a) \<and> sz + 8 \<le> 8 * int (k + 1)"
proof -
  obtain k where k: "getCeilDivEight (req_size sz + 8) = int (k + 1)" "2 \<le> k" "k \<le> 510" "sz + 8 \<le> 8 * int (k + 1)"
    using req_units [OF sz] by blast
  obtain p ps where p: "free_pages h = p # ps" using room(1) by (cases "free_pages h") auto
  show ?thesis
  proof (cases "find (\<lambda>i. hashTable h ! i \<noteq> 0) [k..<512]")
    case None
    then have "kalloc sz h = doAllocPage (req_size sz) h" using kalloc_cases [OF inv k(1)] by simp
    then show ?thesis using doAllocPage_spec [OF inv p room(2) k(1-3)] k(4) by metis
  next
    case (Some i)
    then have i: "i < NUM_ENTRIES" "hashTable h ! i \<noteq> 0" "k \<le> i"
      by (auto simp: find_Some_iff NUM_ENTRIES_def)
    obtain a h1 L1 where a: "hashTable h ! i = a + 8" "isfree h a" "bsize (eo h) a = 8 * (i + 1)"
      "deleteHeadNode i ((incPageAlcCount (a + 8) h)\<lparr>mlock := True\<rparr>) = Inr (a + 8, h1)"
      "taken_inv (h1\<lparr>mlock := False\<rparr>) S L1 a" "eo (h1\<lparr>mlock := False\<rparr>) = eo h" "isfree (h1\<lparr>mlock := False\<rparr>) = isfree h"
      using taken_head [OF inv i(1,2)] by blast
    have run: "kalloc sz h = doAllocBlock (a + 8) (int k) (int i) (req_size sz) (h1\<lparr>mlock := False\<rparr>)"
      using Some a(1,4) kalloc_cases [OF inv k(1)] by simp
    have fin: "handed_out (h1\<lparr>mlock := False\<rparr>) h' S S' a k = handed_out h h' S S' a k" for h' S'
      by (simp add: handed_out_def a(6,7))
    show ?thesis
    proof (cases "i < k + 3")
      case True
      have b: "bsize (eo (h1\<lparr>mlock := False\<rparr>)) a = 8 * (i + 1)" using a(3,6) by simp
      show ?thesis
        using doAllocBlock_whole [OF a(5) b i(3) True k(1)] a(2) run k(4) unfolding fin by metis
    next
      case False
      define j where "j = i - k - 1"
      have j: "i = k + j + 1" "2 \<le> j" using False by (simp_all add: j_def)
      have b: "bsize (eo (h1\<lparr>mlock := False\<rparr>)) a = 8 * (k + 1) + 8 * (j + 1)" using a(3,6) j by simp
      show ?thesis
        using doAllocBlock_split [OF a(5) b k(2) j(2) k(1)] a(2) run k(4) unfolding fin j(1) [symmetric] by metis
    qed
  qed
qed

section \<open>What a client sees\<close>

text \<open>The regions handed out and not given back.\<close>

definition regions :: "heap \<Rightarrow> addr set \<Rightarrow> (addr \<times> nat) set" where
  "regions h S = {(a + 8, bsize (eo h) a - 8) | a. a \<in> S \<and> \<not> isfree h a}"

definition heap_ok :: "heap \<Rightarrow> (addr \<times> nat) set \<Rightarrow> bool" where
  "heap_ok h R \<longleftrightarrow> (\<exists>S L. heap_inv h S L \<and> R = regions h S)"

lemma kalloc_new_region:
  assumes "heap_ok h R" and "0 \<le> sz" "sz \<le> 4080" and "free_pages h \<noteq> []" "alloc_page_cnt h < int MY_PAGE_COUNT"
  shows "\<exists>p n h'. kalloc sz h = Inr (p, h') \<and> heap_ok h' (insert (p, n) R) \<and> p mod 8 = 0 \<and> sz \<le> int n \<and>
    (\<forall>(q, m)\<in>R. p + n \<le> q \<or> q + m \<le> p)"
proof -
  obtain S L where inv: "heap_inv h S L" and R: "R = regions h S" using assms(1) by (auto simp: heap_ok_def)
  obtain a h' S' L' k where r: "kalloc sz h = Inr (a + 8, h')" "heap_inv h' S' L'" "handed_out h h' S S' a k"
    "a \<in> S \<longrightarrow> isfree h a" "sz + 8 \<le> 8 * int (k + 1)"
    using kalloc_spec [OF inv assms(2-5)] by blast
  note H = r(3) [unfolded handed_out_def]
  let ?n = "bsize (eo h') a - 8"
  have geo: "geometry (eo h') S'" using r(2) by (simp add: heap_inv_def)
  have used: "(c \<in> S' \<and> \<not> isfree h' c) = (c = a \<or> (c \<in> S \<and> \<not> isfree h c))" for c using H r(4) by auto
  have size: "bsize (eo h') c = bsize (eo h) c" if "c \<in> S" "\<not> isfree h c" for c
  proof -
    have "c \<noteq> a" using that r(4) by blast
    then show ?thesis using H that by (simp add: bsize_def)
  qed
  have reg: "regions h' S' = insert (a + 8, ?n) R"
    unfolding R regions_def used using size by auto
  have apart: "a + 8 + ?n \<le> q \<or> q + m \<le> a + 8" if qm: "(q, m) \<in> R" for q m
  proof -
    obtain c where c: "q = c + 8" "m = bsize (eo h) c - 8" "c \<in> S" "\<not> isfree h c" using qm by (auto simp: R regions_def)
    then have ca: "c \<noteq> a" "c \<in> S'" "a \<in> S'" using r(4) H by auto
    then have "a + bsize (eo h') a \<le> c \<or> c + bsize (eo h') c \<le> a" using geo unfolding geometry_def by blast
    moreover have "24 \<le> bsize (eo h') a" "24 \<le> bsize (eo h') c"
      using geo ca by (auto simp: geometry_def blk_ok_def bsize_def)
    ultimately show ?thesis using c size [of c] ca by auto
  qed
  have "heap_ok h' (insert (a + 8, ?n) R)" using r(2) reg unfolding heap_ok_def by blast
  moreover have "(a + 8) mod 8 = 0" using geo H by (auto simp: geometry_def blk_ok_def)
  moreover have "sz \<le> int ?n" using r(5) H by auto
  moreover have "\<forall>(q, m)\<in>R. a + 8 + ?n \<le> q \<or> q + m \<le> a + 8" using apart by auto
  ultimately show ?thesis using r(1)
    by (intro exI [of _ "a + 8"] exI [of _ ?n] exI [of _ h'] conjI)
qed

text \<open>A page of the kernel's address space and the heap of a system that has only that page.\<close>

definition one_page_heap :: heap where
  "one_page_heap = \<lparr>hdr = (\<lambda>_. \<lparr>endOffsetAndStatus = 0, preBlockOffset = 0, inUse = False\<rparr>), hnext = (\<lambda>_. 0), hprev = (\<lambda>_. 0),
     hashTable = replicate NUM_ENTRIES 0, allocCount = (\<lambda>_. 0), mlock = False, free_pages = [P2K 0x100000],
     page_ref = (\<lambda>_. 0), alloc_page_cnt = 0, shared_zero_page = 0\<rparr>"

lemma empty_heap_inv:
  assumes "hashTable h = replicate NUM_ENTRIES 0" and "\<not> mlock h" and "pages_ok (free_pages h) {}"
  shows "heap_inv h {} (\<lambda>_. [])"
  using assms by (simp add: heap_inv_def lists_ok_def geometry_def listed_def)

lemma one_page_heap_ok: "heap_ok one_page_heap {}"
proof -
  have "heap_inv one_page_heap {} (\<lambda>_. [])"
    by (rule empty_heap_inv) (simp_all add: one_page_heap_def pages_ok_def P2K_def K2P_def KSPACE_MASK_def PAGE_SIZE_def
        MY_PAGE_COUNT_def PHYSTOP_def)
  then show ?thesis by (force simp: heap_ok_def regions_def)
qed

lemma one_page_heap_room: "free_pages one_page_heap \<noteq> []" "alloc_page_cnt one_page_heap < int MY_PAGE_COUNT"
  by (simp_all add: one_page_heap_def MY_PAGE_COUNT_def PHYSTOP_def PAGE_SIZE_def)

text \<open>C31: In a heap that satisfies the allocator's invariant and has a free page left, \<^verbatim>\<open>kalloc\<close> answers
  every request of at most 4080 bytes: the address is a multiple of eight, the region is at least as long as
  the request, it overlaps none of the regions that are handed out, these stay as they are, and the invariant holds
  again.\<close>

theorem kalloc_fresh_region:
  assumes "heap_ok h R" and "0 \<le> sz" "sz \<le> 4080" and "free_pages h \<noteq> []" "alloc_page_cnt h < int MY_PAGE_COUNT"
  shows "\<exists>p n h'. kalloc sz h = Inr (p, h') \<and> heap_ok h' (insert (p, n) R) \<and> p mod 8 = 0 \<and> sz \<le> int n \<and>
    (\<forall>(q, m)\<in>R. p + n \<le> q \<or> q + m \<le> p)"
  using kalloc_new_region [OF assms] .

theorem kalloc_fresh_region_witness:
  "\<exists>p n h'. kalloc 100 one_page_heap = Inr (p, h') \<and> heap_ok h' {(p, n)} \<and> p mod 8 = 0 \<and> 100 \<le> int n"
  using kalloc_fresh_region [OF one_page_heap_ok _ _ one_page_heap_room, of 100] by auto



lemma setBlockHeader_end:
  assumes "0 \<le> e" and "e < 8192"
  shows "getEndOffset (hdr (setBlockHeader a False e pre h) a) = e"
proof -
  have "uint ((word_of_int e AND 0x1fff :: u16) AND 0x1fff) = e"
  proof -
    have m: "(word_of_int e :: u16) AND 0x1fff = take_bit 13 (word_of_int e)" by (simp add: take_bit_eq_mask mask_eq_exp_minus_1)
    have "uint (take_bit 13 (word_of_int e :: u16)) = e"
      using assms by (simp add: unsigned_take_bit_eq uint_word_of_int_eq take_bit_int_eq_self)
    then show ?thesis by (subst and.assoc) (simp add: m)
  qed
  then show ?thesis by (simp add: setBlockHeader_def set_hdr_def setOccupied_def getEndOffset_def)
qed

lemma page_end: "p mod PAGE_SIZE = 0 \<Longrightarrow> p + PAGE_SIZE \<le> x \<Longrightarrow> getPageAddr x \<noteq> p"
  using page_parts [of x] mod_less_divisor [of PAGE_SIZE x] by (auto simp: PAGE_SIZE_def)

lemma kalloc_large:
  assumes inv: "heap_inv h S L" and sz: "4080 < sz" "sz \<le> 8000" and p: "free_pages h = p # ps"
    and n: "alloc_page_cnt h < int MY_PAGE_COUNT"
  shows "\<exists>h'. kalloc sz h = Inr (p + 16, h')"
proof -
  note I = inv [unfolded heap_inv_def]
  define k where "k = nat ((sz + 7) div 8)"
  have r: "req_size sz = sz" using sz by (simp add: req_size_def)
  have "511 \<le> (sz + 7) div 8" "(sz + 7) div 8 \<le> 1000" using sz by auto
  then have k: "511 \<le> k" "k \<le> 1000" "(sz + 7) div 8 = int k" by (auto simp: k_def)
  then have u: "getCeilDivEight (req_size sz + 8) = int (k + 1)"
    unfolding r getCeilDivEight_def cdiv_def using sz by (subst to_short_id) auto
  have none: "find (\<lambda>i. hashTable h ! i \<noteq> 0) [k..<512] = None"
  proof (cases "k = 511")
    case True
    have "L 511 = []"
    proof (rule ccontr)
      assume "L 511 \<noteq> []"
      then obtain n where n: "n \<in> set (L 511)" by (cases "L 511") auto
      have l: "listed (eo h) (isfree h) S L" "511 < NUM_ENTRIES" using I by (simp_all add: NUM_ENTRIES_def)
      obtain a where a: "a \<in> S" "bsize (eo h) a = 8 * (511 + 1)" using listed_memD [OF l n] by blast
      then have "blk_ok (eo h) a" using I by (simp add: geometry_def)
      note B = blk_end(2,3) [OF this] this [unfolded blk_ok_def]
      have "8 \<le> a mod PAGE_SIZE" using B(3) by blast
      moreover have "a mod PAGE_SIZE + 8 * (511 + 1) \<le> 4096" using B(1,2) a(2) by linarith
      ultimately show False by simp
    qed
    moreover have "chain h 0 (hashTable h ! 511) (L 511)" using I by (simp add: lists_ok_def NUM_ENTRIES_def)
    ultimately show ?thesis using True by (simp add: upt_conv_Cons)
  next
    case False
    then show ?thesis using k(1) by simp
  qed
  obtain h1 where h1: "kalloc_page h = Inr (p, h1)" using kalloc_page_spec [OF inv p n] by blast
  have off: "to_short (8 + getCeilDivEight (sz + 8) * 8) = 8 + int (k + 1) * 8"
    using k u by (subst to_short_id) (simp_all add: r)
  have e: "getEndOffset (hdr (setBlockHeader (nat (int p + 8)) False (8 + int (k + 1) * 8) 0 h1) (nat (int p + 8))) =
      8 + int (k + 1) * 8"
    using k by (intro setBlockHeader_end) simp_all
  have "\<exists>h'. doAllocPage sz h = Inr (p + 16, h')"
    using h1 off e k(1) by (simp add: doAllocPage_def Let_def)
  then show ?thesis using kalloc_cases [OF inv u] none r by simp
qed



lemma fold_push: "fold (#) xs ys = rev xs @ ys"
  by (induction xs arbitrary: ys) auto

lemma set_all_pages: "p \<in> set (fold (#) (all_pages e) []) \<longleftrightarrow> p mod PAGE_SIZE = 0 \<and> e < p \<and> p < P2K PHYSTOP"
proof -
  define f where "f = e - e mod PAGE_SIZE + PAGE_SIZE"
  have b: "(e - e mod PAGE_SIZE) mod PAGE_SIZE = 0" by (simp add: mod_eq_0_iff_dvd dvd_minus_mod)
  have f: "f mod PAGE_SIZE = 0" unfolding f_def using b by (simp only: mod_add_self2)
  have ps: "PAGE_SIZE > 0" by (simp add: PAGE_SIZE_def)
  have e: "e < f" "f \<le> e + PAGE_SIZE" using mod_less_divisor [OF ps, of e] mod_less_eq_dividend [of e PAGE_SIZE] by (simp_all add: f_def)
  have lt: "k < (P2K PHYSTOP - f + PAGE_SIZE - 1) div PAGE_SIZE \<longleftrightarrow> f + k * PAGE_SIZE < P2K PHYSTOP" for k
    using ps by (auto simp: less_eq_div_iff_mult_less_eq Suc_le_eq [symmetric])
  have all: "all_pages e = map (\<lambda>k. f + k * PAGE_SIZE) [0..<(P2K PHYSTOP - f + PAGE_SIZE - 1) div PAGE_SIZE]"
    by (simp only: all_pages_def Let_def f_def)
  have "p \<in> set (all_pages e) \<longleftrightarrow> (\<exists>k. k < (P2K PHYSTOP - f + PAGE_SIZE - 1) div PAGE_SIZE \<and> p = f + k * PAGE_SIZE)"
    unfolding all by auto
  then have "p \<in> set (all_pages e) \<longleftrightarrow> (\<exists>k. p = f + k * PAGE_SIZE) \<and> p < P2K PHYSTOP"
    unfolding lt by blast
  moreover have "(\<exists>k. p = f + k * PAGE_SIZE) \<longleftrightarrow> p mod PAGE_SIZE = 0 \<and> e < p"
  proof
    assume "\<exists>k. p = f + k * PAGE_SIZE"
    then show "p mod PAGE_SIZE = 0 \<and> e < p" using f e(1) by auto
  next
    assume p: "p mod PAGE_SIZE = 0 \<and> e < p"
    have "e - e mod PAGE_SIZE < p" using p by linarith
    then have "f \<le> p" using p b page_apart [of "e - e mod PAGE_SIZE" p] by (simp add: f_def)
    moreover have "PAGE_SIZE dvd p - f" using p f by (simp add: mod_eq_0_iff_dvd)
    ultimately show "\<exists>k. p = f + k * PAGE_SIZE" by (metis dvd_div_mult_self le_add_diff_inverse)
  qed
  ultimately show ?thesis by (auto simp: fold_push)
qed

lemma K2P_less:
  assumes "KSPACE_MASK \<le> p" and "p < P2K PHYSTOP"
  shows "K2P p = p - KSPACE_MASK" and "K2P p < PHYSTOP" and "K2P p div PAGE_SIZE < MY_PAGE_COUNT"
proof -
  have b: "p < KSPACE_MASK + PHYSTOP" using assms(2) by (simp add: P2K_def KSPACE_MASK_def PHYSTOP_def)
  have "p + 2 ^ 64 - KSPACE_MASK = (p - KSPACE_MASK) + 2 ^ 64" using assms(1) by simp
  then have "K2P p = (p - KSPACE_MASK) mod 2 ^ 64" unfolding K2P_def by (simp only: mod_add_self2)
  moreover have "p - KSPACE_MASK < PHYSTOP" using b assms(1) by simp
  ultimately show e: "K2P p = p - KSPACE_MASK" by (simp add: PHYSTOP_def)
  show l: "K2P p < PHYSTOP" using e b assms(1) by simp
  then show "K2P p div PAGE_SIZE < MY_PAGE_COUNT" by (simp add: MY_PAGE_COUNT_def PHYSTOP_def PAGE_SIZE_def)
qed

lemma pages_ok_init:
  assumes "KSPACE_MASK \<le> e"
  shows "pages_ok (fold (#) (all_pages e) []) {}"
proof -
  have "distinct (map (\<lambda>k. f + k * PAGE_SIZE) [0..<n])" for f n
    by (simp add: distinct_map inj_on_def PAGE_SIZE_def)
  then have "distinct (all_pages e)" by (simp only: all_pages_def Let_def)
  moreover have "K2P p div PAGE_SIZE < MY_PAGE_COUNT" if "e < p" "p < P2K PHYSTOP" for p
    using that assms by (intro K2P_less) simp_all
  ultimately show ?thesis using set_all_pages by (auto simp: pages_ok_def fold_push)
qed

text \<open>\<^verbatim>\<open>init_pages\<close> leaves an allocator in which nothing is handed out, whatever the memory held before, and every page of it lies between the end of the kernel and the end of the physical memory.\<close>

theorem init_pages_ok:
  assumes "KSPACE_MASK \<le> e"
  shows "heap_ok (init_pages e h) {} \<and> (\<forall>p. p \<in> set (free_pages (init_pages e h)) \<longleftrightarrow> p mod PAGE_SIZE = 0 \<and> e < p \<and> p < P2K PHYSTOP)"
proof (intro conjI allI)
  have "heap_inv (init_pages e h) {} (\<lambda>_. [])"
    by (rule empty_heap_inv) (simp_all add: init_pages_def init_spinlock_def pages_ok_init [OF assms])
  then show "heap_ok (init_pages e h) {}" by (force simp: heap_ok_def regions_def)
qed (simp add: init_pages_def set_all_pages)

theorem init_pages_ok_witness:
  "heap_ok (init_pages (P2K 0x100000) one_page_heap) {} \<and> P2K 0x101000 \<in> set (free_pages (init_pages (P2K 0x100000) one_page_heap))"
  using init_pages_ok [of "P2K 0x100000" one_page_heap]
  by (simp add: P2K_def KSPACE_MASK_def PAGE_SIZE_def PHYSTOP_def)

end
