(* ===== verification/Pt.thy ===== *)
theory Pt
  imports Mem
begin

text \<open>
  The page tables of \<^verbatim>\<open>src/src/kernel/pt.c\<close>: the walk of the four levels (\<^verbatim>\<open>get_pte\<close>), mapping of a page (\<^verbatim>\<open>vmmap\<close>)
  and copying to user memory (\<^verbatim>\<open>copyout\<close>). Page tables live in pages of the allocator of \<^verbatim>\<open>Mem\<close>; their
  entries are a store of 64-bit words, the contents of user pages a store of bytes, both indexed by kernel
  addresses. Invalidation of the TLB has no effect on this state.
\<close>

section \<open>State\<close>

text \<open>
  \<^verbatim>\<open>vheap\<close> is the allocator, \<^verbatim>\<open>ptw\<close> the page table entries, \<^verbatim>\<open>ubyte\<close> the bytes of user pages, and \<^verbatim>\<open>ttbr0\<close> the
  register that holds the physical address of the active page table.
\<close>

record vmem =
  vheap :: heap
  ptw :: "addr \<Rightarrow> u64"
  ubyte :: "addr \<Rightarrow> u8"
  ttbr0 :: nat

text \<open>\<^verbatim>\<open>struct pgdir\<close>; \<^verbatim>\<open>section_head\<close> is the address of the list head in it.\<close>

record pgdir =
  pt :: addr
  pd_lock :: SpinLock
  section_head :: addr

definition PTE_VALID :: u64 where "PTE_VALID = 0x1"
definition PTE_TABLE :: u64 where "PTE_TABLE = 0x3"
definition PTE_PAGE :: u64 where "PTE_PAGE = 0x3"
definition PTE_USER :: u64 where "PTE_USER = push_bit 6 1"
definition PTE_RO :: u64 where "PTE_RO = push_bit 7 1"
definition PTE_RW :: u64 where "PTE_RW = push_bit 7 0"
definition PTE_BSS :: u64 where "PTE_BSS = push_bit 8 1"
definition PTE_NORMAL :: u64 where "PTE_NORMAL = push_bit 2 1 OR push_bit 10 1 OR push_bit 8 2"
definition PTE_USER_DATA :: u64 where "PTE_USER_DATA = PTE_USER OR PTE_NORMAL OR PTE_PAGE"

definition PTE_ADDRESS :: "u64 \<Rightarrow> u64" where
  "PTE_ADDRESS pte = pte AND NOT 0xFFFF000000000FFF"

definition PTE_FLAGS :: "u64 \<Rightarrow> u64" where
  "PTE_FLAGS pte = pte AND 0xFFFF000000000FFF"

definition PAGE_BASE :: "u64 \<Rightarrow> u64" where
  "PAGE_BASE a = a AND NOT 0xFFF"

text \<open>The kernel address of the page an entry points to.\<close>

definition pte_page :: "u64 \<Rightarrow> addr" where
  "pte_page pte = P2K (unat (PTE_ADDRESS pte))"

definition set_pte :: "addr \<Rightarrow> u64 \<Rightarrow> vmem \<Rightarrow> vmem" where
  "set_pte a e s = s\<lparr>ptw := (ptw s)(a := e)\<rparr>"

text \<open>\<^verbatim>\<open>memset(p, 0, PAGE_SIZE)\<close>.\<close>

definition page_zero :: "addr \<Rightarrow> vmem \<Rightarrow> vmem" where
  "page_zero p s =
     s\<lparr>vheap := clear_page p (vheap s),
       ptw := (\<lambda>a. if getPageAddr a = p then 0 else ptw s a),
       ubyte := (\<lambda>a. if getPageAddr a = p then 0 else ubyte s a)\<rparr>"

text \<open>\<^verbatim>\<open>memcpy(p, q, PAGE_SIZE)\<close> between two pages.\<close>

definition page_copy :: "addr \<Rightarrow> addr \<Rightarrow> vmem \<Rightarrow> vmem" where
  "page_copy p q s = s\<lparr>ubyte := (\<lambda>a. if getPageAddr a = p then ubyte s (q + a mod PAGE_SIZE) else ubyte s a)\<rparr>"

text \<open>\<^verbatim>\<open>kalloc_page\<close> and \<^verbatim>\<open>kfree_page\<close> on this state; the former clears the page.\<close>

definition vm_kalloc_page :: "vmem \<Rightarrow> (addr \<times> vmem) res" where
  "vm_kalloc_page s = rbind (kalloc_page (vheap s)) (\<lambda>(p, h). Inr (p, page_zero p (s\<lparr>vheap := h\<rparr>)))"

definition vm_kfree_page :: "addr \<Rightarrow> vmem \<Rightarrow> vmem res" where
  "vm_kfree_page p s = rbind (kfree_page p (vheap s)) (\<lambda>h. Inr (s\<lparr>vheap := h\<rparr>))"

section \<open>Walking the tables\<close>

definition pt_index :: "u64 \<Rightarrow> nat \<Rightarrow> nat" where
  "pt_index va i = unat (drop_bit (39 - i * 9) va AND 0x1ff)"

definition is_table :: "u64 \<Rightarrow> bool" where
  "is_table e \<longleftrightarrow> e AND PTE_TABLE = PTE_TABLE"

text \<open>The inner loop of \<^verbatim>\<open>get_pte\<close>, which builds the missing tables.\<close>

fun alloc_tables :: "nat list \<Rightarrow> addr \<Rightarrow> vmem \<Rightarrow> (addr \<times> vmem) res" where
  "alloc_tables [] tbl s = Inr (tbl, s)"
| "alloc_tables (j # js) tbl s =
     rbind (vm_kalloc_page s) (\<lambda>(t, s).
       let s = page_zero t s;
           e = of_nat (K2P t) OR PTE_TABLE;
           s = set_pte (tbl + 8 * j) e s
       in if unat e < PHYSTOP then alloc_tables js t s else Inl Panic)"

text \<open>The outer loop: \<^verbatim>\<open>None\<close> is the null pointer.\<close>

fun walk_tables :: "bool \<Rightarrow> nat list \<Rightarrow> addr \<Rightarrow> vmem \<Rightarrow> (addr option \<times> vmem) res" where
  "walk_tables al [] tbl s = Inr (Some tbl, s)"
| "walk_tables al (i # is) tbl s =
     (if \<not> is_table (ptw s (tbl + 8 * i))
      then if al then rbind (alloc_tables (i # is) tbl s) (\<lambda>(t, s). Inr (Some t, s)) else Inr (None, s)
      else walk_tables al is (pte_page (ptw s (tbl + 8 * i))) s)"

definition get_pte :: "pgdir \<Rightarrow> u64 \<Rightarrow> bool \<Rightarrow> vmem \<Rightarrow> (addr option \<times> pgdir \<times> vmem) res" where
  "get_pte pd va al s =
     (if pt pd = 0 \<and> \<not> al then Inr (None, pd, s)
      else
        rbind (if pt pd = 0
               then rbind (vm_kalloc_page s) (\<lambda>(t, s). Inr (pd\<lparr>pt := t\<rparr>, page_zero t s))
               else Inr (pd, s)) (\<lambda>(pd, s).
          rbind (walk_tables al [pt_index va 0, pt_index va 1, pt_index va 2] (pt pd) s) (\<lambda>(t, s).
            Inr (map_option (\<lambda>t. t + 8 * pt_index va 3) t, pd, s))))"

definition is_invalid_pte :: "u64 \<Rightarrow> bool" where
  "is_invalid_pte pte \<longleftrightarrow> \<not> is_table pte \<or> unat pte \<ge> PHYSTOP"

definition valid_pte :: "u64 \<Rightarrow> bool" where
  "valid_pte e \<longleftrightarrow> e AND PTE_VALID \<noteq> 0"

text \<open>\<^verbatim>\<open>attach_pgdir\<close>; \<^verbatim>\<open>invalid\<close> is the address of \<^verbatim>\<open>invalid_pt\<close>.\<close>

definition attach_pgdir :: "addr \<Rightarrow> pgdir \<Rightarrow> vmem \<Rightarrow> vmem" where
  "attach_pgdir invalid pd s = s\<lparr>ttbr0 := K2P (if pt pd \<noteq> 0 then pt pd else invalid)\<rparr>"

definition incr_page_ref :: "addr \<Rightarrow> vmem \<Rightarrow> vmem res" where
  "incr_page_ref ka s =
     rbind (page_index ka) (\<lambda>i.
       let h = vheap s in Inr (s\<lparr>vheap := h\<lparr>page_ref := (page_ref h)(i := increment_rc (page_ref h i))\<rparr>\<rparr>))"

definition vmmap :: "pgdir \<Rightarrow> u64 \<Rightarrow> addr \<Rightarrow> u64 \<Rightarrow> vmem \<Rightarrow> (pgdir \<times> vmem) res" where
  "vmmap pd va ka flags s =
     rbind (get_pte pd va True s) (\<lambda>(pte, pd, s).
       case pte of
         None \<Rightarrow> Inl Panic
       | Some a \<Rightarrow>
           rbind (if valid_pte (ptw s a) then vm_kfree_page (pte_page (ptw s a)) s else Inr s) (\<lambda>s.
             rbind (incr_page_ref ka (set_pte a (of_nat (K2P ka) OR flags) s)) (\<lambda>s. Inr (pd, s))))"

text \<open>\<^verbatim>\<open>memcpy\<close> of bytes from a kernel buffer \<^verbatim>\<open>src\<close> to the address \<^verbatim>\<open>ka\<close>; reading past the buffer is a fault.\<close>

definition copy_in :: "addr \<Rightarrow> u8 list \<Rightarrow> nat \<Rightarrow> nat \<Rightarrow> vmem \<Rightarrow> vmem res" where
  "copy_in ka src from n s =
     (if from + n \<le> length src
      then Inr (s\<lparr>ubyte := (\<lambda>a. if ka \<le> a \<and> a < ka + n then src ! (from + (a - ka)) else ubyte s a)\<rparr>)
      else Inl Fault)"

text \<open>
  The loop of \<^verbatim>\<open>copyout\<close>, with \<^verbatim>\<open>n\<close> iterations left; \<^verbatim>\<open>copied\<close> is \<^verbatim>\<open>read_size\<close>. A copy whose last page is
  not the last one of the address space needs at most one iteration more than it has pages.
\<close>

fun copyout_loop :: "nat \<Rightarrow> pgdir \<Rightarrow> u64 \<Rightarrow> u64 \<Rightarrow> u8 list \<Rightarrow> nat \<Rightarrow> vmem \<Rightarrow> (pgdir \<times> vmem) res" where
  "copyout_loop 0 pd va va_end src copied s = Inl Spin"
| "copyout_loop (Suc n) pd va va_end src copied s =
     (if \<not> va < va_end then Inr (pd, s)
      else
        rbind (get_pte pd va False s) (\<lambda>(pte, pd, s).
        rbind (if (case pte of None \<Rightarrow> True | Some a \<Rightarrow> \<not> valid_pte (ptw s a))
               then
                 rbind (vm_kalloc_page s) (\<lambda>(p, s).
                 rbind (vmmap pd va p (PTE_USER_DATA OR PTE_VALID OR PTE_RW) (page_zero p s)) (\<lambda>(pd, s).
                   get_pte pd va False s))
               else Inr (pte, pd, s)) (\<lambda>(pte, pd, s).
          case pte of
            None \<Rightarrow> Inl Panic
          | Some a \<Rightarrow>
              if \<not> valid_pte (ptw s a) then Inl Panic
              else
                let ka = P2K (unat (ptw s a AND 0xfffffffffffff000)) + unat va mod PAGE_SIZE
                in if PAGE_BASE va = PAGE_BASE va_end
                   then rbind (copy_in ka src copied (length src - copied) s) (\<lambda>s.
                          copyout_loop n pd (PAGE_BASE (va + of_nat PAGE_SIZE)) va_end src
                            (copied + (length src - copied)) s)
                   else rbind (copy_in ka src copied (PAGE_SIZE - ka mod PAGE_SIZE) s) (\<lambda>s.
                          copyout_loop n pd (PAGE_BASE (va + of_nat PAGE_SIZE)) va_end src
                            (copied + ka mod PAGE_SIZE) s))))"

definition copyout :: "pgdir \<Rightarrow> u64 \<Rightarrow> u8 list \<Rightarrow> vmem \<Rightarrow> (int \<times> pgdir \<times> vmem) res" where
  "copyout pd va src s =
     rbind (copyout_loop (length src div PAGE_SIZE + 3) pd va (va + of_nat (length src)) src 0 s) (\<lambda>(pd, s).
       Inr (0, pd, s))"

text \<open>
  \<^verbatim>\<open>uvmunmap\<close> of \<^verbatim>\<open>src/src/kernel/vma.c\<close>. The end of the loop is a multiple of the page size away from its start,
  so that \<^verbatim>\<open>npages + 1\<close> tests of the loop condition are enough.
\<close>

fun uvmunmap_loop :: "nat \<Rightarrow> pgdir \<Rightarrow> u64 \<Rightarrow> u64 \<Rightarrow> bool \<Rightarrow> vmem \<Rightarrow> vmem res" where
  "uvmunmap_loop 0 pd a e do_free s = Inl Spin"
| "uvmunmap_loop (Suc n) pd a e do_free s =
     (if \<not> a < e then Inr s
      else
        rbind (get_pte pd a False s) (\<lambda>(pte, pd, s).
        rbind (case pte of
                 None \<Rightarrow> Inr s
               | Some x \<Rightarrow>
                   if \<not> valid_pte (ptw s x) then Inr s
                   else rbind (if do_free then vm_kfree_page (pte_page (ptw s x)) s else Inr s) (\<lambda>s. Inr (set_pte x 0 s)))
          (\<lambda>s. uvmunmap_loop n pd (a + of_nat PAGE_SIZE) e do_free s)))"

definition uvmunmap :: "pgdir \<Rightarrow> u64 \<Rightarrow> u64 \<Rightarrow> bool \<Rightarrow> vmem \<Rightarrow> vmem res" where
  "uvmunmap pd va npages do_free s =
     (if va mod of_nat PAGE_SIZE \<noteq> 0 then Inl Panic
      else uvmunmap_loop (unat npages + 1) pd va (va + npages * of_nat PAGE_SIZE) do_free s)"

section \<open>Entries and kernel pages\<close>

definition kpage :: "addr \<Rightarrow> bool" where
  "kpage t \<longleftrightarrow> t mod PAGE_SIZE = 0 \<and> KSPACE_MASK \<le> t \<and> t < P2K PHYSTOP"

lemma kpage_phys:
  assumes "kpage t"
  shows "K2P t < PHYSTOP" and "K2P t mod PAGE_SIZE = 0" and "K2P t = t - KSPACE_MASK" and "P2K (K2P t) = t"
    and "page_index t = Inr (K2P t div PAGE_SIZE)" and "t \<noteq> 0"
proof -
  have k: "KSPACE_MASK \<le> t" "t < P2K PHYSTOP" "t mod PAGE_SIZE = 0" using assms by (auto simp: kpage_def)
  note K = K2P_less [OF k(1,2)]
  show "K2P t < PHYSTOP" "K2P t = t - KSPACE_MASK" by (fact K)+
  have "PAGE_SIZE dvd t" "PAGE_SIZE dvd KSPACE_MASK" using k(3) by (auto simp: PAGE_SIZE_def KSPACE_MASK_def mod_eq_0_iff_dvd)
  then show "K2P t mod PAGE_SIZE = 0" by (simp add: K(1) mod_eq_0_iff_dvd)
  have "t < 2 ^ 64" using k(2) by (simp add: P2K_def KSPACE_MASK_def PHYSTOP_def)
  then show "P2K (K2P t) = t" using k(1) by (simp add: K(1) P2K_def)
  show "page_index t = Inr (K2P t div PAGE_SIZE)" using K(3) by (simp add: page_index_def)
  show "t \<noteq> 0" using k(1) by (auto simp: KSPACE_MASK_def)
qed

lemma kpage_inj: "kpage t \<Longrightarrow> kpage u \<Longrightarrow> K2P t div PAGE_SIZE = K2P u div PAGE_SIZE \<longleftrightarrow> t = u"
  using kpage_phys(2,4) [of t] kpage_phys(2,4) [of u] by (metis mult_div_mod_eq)

lemma entry_parts:
  assumes "kpage t" and "flags AND NOT 0xFFFF000000000FFF = (0 :: u64)"
  shows "PTE_ADDRESS (of_nat (K2P t) OR flags) = of_nat (K2P t)" and "pte_page (of_nat (K2P t) OR flags) = t"
proof -
  let ?n = "K2P t" and ?w = "of_nat (K2P t) :: u64"
  note K = kpage_phys [OF assms(1)]
  have m: "NOT 0xFFFF000000000FFF = (push_bit 12 (mask 36) :: u64)" by (simp add: mask_eq_exp_minus_1)
  obtain k where k: "?n = 4096 * k" using K(2) by (auto simp: PAGE_SIZE_def)
  have kl: "k < 2 ^ 36" using K(1) k by (simp add: PHYSTOP_def)
  have w: "?w = push_bit 12 (of_nat k)" by (simp add: k push_bit_eq_mult)
  have "(of_nat k :: u64) AND mask 36 = of_nat k"
    using kl by (simp add: take_bit_eq_mask [symmetric] word_unat_eq_iff unsigned_take_bit_eq unat_of_nat take_bit_nat_eq_self
        take_bit_nat_eq_self_iff)
  then have "?w AND NOT 0xFFFF000000000FFF = ?w" unfolding w m by (simp add: push_bit_and [symmetric])
  then show a: "PTE_ADDRESS (?w OR flags) = ?w" using assms(2) by (simp add: PTE_ADDRESS_def bit.conj_disj_distrib2)
  have "unat ?w = ?n" using K(1) by (simp add: unat_of_nat PHYSTOP_def)
  then show "pte_page (?w OR flags) = t" by (simp add: pte_page_def a K(4))
qed

lemma unat_u64: "n < 2 ^ 64 \<Longrightarrow> unat (of_nat n :: u64) = n"
  by (simp add: unat_of_nat)

lemma table_entry:
  assumes "kpage t"
  shows "is_table (of_nat (K2P t) OR PTE_TABLE)" and "pte_page (of_nat (K2P t) OR PTE_TABLE) = t"
    and "unat (of_nat (K2P t) OR PTE_TABLE :: u64) < PHYSTOP"
proof -
  show "is_table (of_nat (K2P t) OR PTE_TABLE)" by (simp add: is_table_def PTE_TABLE_def bit.conj_disj_distrib2)
  show "pte_page (of_nat (K2P t) OR PTE_TABLE) = t" by (rule entry_parts [OF assms]) (simp add: PTE_TABLE_def)
  note K = kpage_phys [OF assms]
  obtain k where k: "K2P t = 4096 * k" using K(2) by (auto simp: PAGE_SIZE_def)
  have "(of_nat (K2P t) :: u64) AND PTE_TABLE = take_bit 2 (push_bit 12 (of_nat k))"
    by (simp add: k push_bit_eq_mult PTE_TABLE_def take_bit_eq_mask mask_eq_exp_minus_1 mult.commute)
  then have "(of_nat (K2P t) :: u64) AND PTE_TABLE = 0" by (simp add: take_bit_push_bit)
  then have "(of_nat (K2P t) :: u64) OR PTE_TABLE = of_nat (K2P t + 3)"
    by (simp add: disjunctive_add_eq_or [symmetric] PTE_TABLE_def)
  moreover have "K2P t + 3 < PHYSTOP" using K(1) k by (simp add: PHYSTOP_def)
  moreover have "unat (of_nat (K2P t + 3) :: u64) = K2P t + 3"
    using calculation(2) by (intro unat_u64) (simp add: PHYSTOP_def)
  ultimately show "unat (of_nat (K2P t) OR PTE_TABLE :: u64) < PHYSTOP" by simp
qed

section \<open>The tree of tables\<close>

text \<open>The table reached from the table \<^verbatim>\<open>t\<close> with the indices of a path.\<close>

fun tpath :: "(addr \<Rightarrow> u64) \<Rightarrow> addr \<Rightarrow> nat list \<Rightarrow> addr option" where
  "tpath w t [] = Some t"
| "tpath w t (i # is) = (if is_table (w (t + 8 * i)) then tpath w (pte_page (w (t + 8 * i))) is else None)"

definition vpath :: "nat list \<Rightarrow> bool" where
  "vpath p \<longleftrightarrow> length p \<le> 3 \<and> (\<forall>i\<in>set p. i < 512)"

text \<open>
  The tables reachable from \<^verbatim>\<open>root\<close> form a tree of pages none of which is in \<^verbatim>\<open>F\<close>, the free pages.
\<close>

definition tree_ok :: "(addr \<Rightarrow> u64) \<Rightarrow> addr \<Rightarrow> addr set \<Rightarrow> bool" where
  "tree_ok w root F \<longleftrightarrow> (\<forall>p a. vpath p \<longrightarrow> tpath w root p = Some a \<longrightarrow> kpage a \<and> a \<notin> F) \<and>
     (\<forall>p q a. vpath p \<longrightarrow> vpath q \<longrightarrow> tpath w root p = Some a \<longrightarrow> tpath w root q = Some a \<longrightarrow> p = q)"

text \<open>The entry of the last level at a path and an index, zero where there is no table.\<close>

definition leaf :: "(addr \<Rightarrow> u64) \<Rightarrow> addr \<Rightarrow> nat list \<times> nat \<Rightarrow> u64" where
  "leaf w root x = (case tpath w root (fst x) of Some t \<Rightarrow> w (t + 8 * snd x) | None \<Rightarrow> 0)"

definition vslot :: "(nat list \<times> nat) set" where
  "vslot = {(q, j). length q = 3 \<and> set q \<subseteq> {..<512} \<and> j < 512}"

lemma tpath_snoc:
  "tpath w t (q @ [j]) = (case tpath w t q of
     Some b \<Rightarrow> if is_table (w (b + 8 * j)) then Some (pte_page (w (b + 8 * j))) else None | None \<Rightarrow> None)"
  by (induction q arbitrary: t) auto

lemma tpath_append: "tpath w t (p @ q) = (case tpath w t p of Some b \<Rightarrow> tpath w b q | None \<Rightarrow> None)"
  by (induction p arbitrary: t) auto

lemma vpath_snoc: "vpath (q @ [j]) \<longleftrightarrow> vpath q \<and> length q \<le> 2 \<and> j < 512"
  by (auto simp: vpath_def)

lemma slot_page: "kpage b \<Longrightarrow> j < 512 \<Longrightarrow> getPageAddr (b + 8 * j) = b"
  using mod_page_add(2) [of b "8 * j"] by (simp add: kpage_def getPageAddr_def PAGE_SIZE_def)

lemma slot_inj: "kpage a \<Longrightarrow> kpage b \<Longrightarrow> i < 512 \<Longrightarrow> j < 512 \<Longrightarrow> a + 8 * i = b + 8 * j \<longleftrightarrow> a = b \<and> i = j"
  using slot_page [of a i] slot_page [of b j] by auto

text \<open>A new table \<^verbatim>\<open>t\<close>, cleared, is entered at index \<^verbatim>\<open>i\<close> of the table \<^verbatim>\<open>a\<close>.\<close>

definition install :: "addr \<Rightarrow> nat \<Rightarrow> addr \<Rightarrow> (addr \<Rightarrow> u64) \<Rightarrow> addr \<Rightarrow> u64" where
  "install a i t w = (\<lambda>x. if getPageAddr x = t then 0 else w x)(a + 8 * i := of_nat (K2P t) OR PTE_TABLE)"

lemma install_path:
  assumes ok: "tree_ok w root F" and a: "tpath w root p = Some a" "vpath (p @ [i])" and t: "t \<in> F" "kpage t" and q: "vpath q"
  shows "tpath (install a i t w) root q =
    (if q = p @ [i] then Some t else if \<exists>r. r \<noteq> [] \<and> q = p @ i # r then None else tpath w root q)"
  using q
proof (induction q rule: rev_induct)
  case Nil
  then show ?case by simp
next
  case (snoc j q)
  let ?w = "install a i t w"
  have q: "vpath q" "length q \<le> 2" "j < 512" using snoc.prems by (auto simp: vpath_snoc)
  have p: "vpath p" "i < 512" using a(2) by (auto simp: vpath_snoc)
  have ka: "kpage a" "a \<noteq> t" using ok a(1) p(1) t by (auto simp: tree_ok_def)
  have ext: "(\<exists>r. r \<noteq> [] \<and> q @ [j] = p @ i # r) \<longleftrightarrow> q = p @ [i] \<or> (\<exists>r. r \<noteq> [] \<and> q = p @ i # r)"
    (is "?l \<longleftrightarrow> ?r")
  proof
    assume ?l
    then obtain r where r: "r \<noteq> []" "q @ [j] = p @ i # r" by blast
    then obtain r' where "r = r' @ [j]" by (metis append_Cons append_assoc append_butlast_last_id last_appendR last_snoc list.distinct(1) last_ConsR)
    then show ?r using r by (cases r') auto
  next
    assume ?r
    then show ?l by (elim disjE exE conjE) auto
  qed
  note IH = snoc.IH [OF q(1)]
  show ?case
  proof (cases "q = p @ [i] \<or> (\<exists>r. r \<noteq> [] \<and> q = p @ i # r)")
    case True
    have "?w (t + 8 * j) = 0" using slot_page [OF t(2) q(3)] slot_inj [OF t(2) ka(1) q(3) p(2)] ka(2) by (auto simp: install_def)
    then have "tpath ?w root (q @ [j]) = None" using True by (auto simp: tpath_snoc IH is_table_def PTE_TABLE_def)
    moreover have "q @ [j] \<noteq> p @ [i]" using True by auto
    ultimately show ?thesis unfolding ext using True by (simp only: if_True if_False simp_thms)
  next
    case False
    then have old: "tpath ?w root q = tpath w root q" using IH by auto
    show ?thesis
    proof (cases "tpath w root q")
      case None
      then have "q \<noteq> p" using a(1) by auto
      then show ?thesis unfolding ext if_not_P [OF False] using None old by (simp add: tpath_snoc)
    next
      case (Some b)
      have kb: "kpage b" "b \<noteq> t" using ok Some q(1) t(1) by (auto simp: tree_ok_def)
      have qp: "q = p" if "b = a" using ok Some a(1) q(1) p(1) that by (auto simp: tree_ok_def)
      have wb: "?w (b + 8 * j) = (if b = a \<and> j = i then of_nat (K2P t) OR PTE_TABLE else w (b + 8 * j))"
        using slot_page [OF kb(1) q(3)] slot_inj [OF kb(1) ka(1) q(3) p(2)] kb(2) by (auto simp: install_def)
      show ?thesis
      proof (cases "b = a \<and> j = i")
        case True
        then show ?thesis using qp wb Some old table_entry [OF t(2)] by (simp add: tpath_snoc)
      next
        case F: False
        then have ne: "q @ [j] \<noteq> p @ [i]" using Some a(1) by auto
        have "tpath ?w root (q @ [j]) = tpath w root (q @ [j])"
          unfolding tpath_snoc old Some option.case wb if_not_P [OF F] ..
        then show ?thesis unfolding ext if_not_P [OF False] if_not_P [OF ne] .
      qed
    qed
  qed
qed


lemma install_tree:
  assumes ok: "tree_ok w root F" and a: "tpath w root p = Some a" "vpath (p @ [i])" and t: "t \<in> F" "kpage t"
    and n: "\<not> is_table (w (a + 8 * i))"
  shows "tree_ok (install a i t w) root (F - {t})" and "tpath (install a i t w) root (p @ [i]) = Some t"
    and "\<And>x. x \<in> vslot \<Longrightarrow> leaf (install a i t w) root x = leaf w root x"
    and "\<And>j. j < 512 \<Longrightarrow> install a i t w (t + 8 * j) = 0"
    and "\<And>q b. vpath q \<Longrightarrow> tpath (install a i t w) root q = Some b \<Longrightarrow> b = t \<or> tpath w root q = Some b"
proof -
  let ?w = "install a i t w"
  note P = install_path [OF ok a t]
  have p: "vpath p" "i < 512" "length p \<le> 2" using a(2) by (auto simp: vpath_snoc)
  have ka: "kpage a" "a \<noteq> t" using ok a(1) p(1) t by (auto simp: tree_ok_def)
  have fresh: "tpath w root q \<noteq> Some t" if "vpath q" for q using ok t(1) that by (auto simp: tree_ok_def)
  show "tpath ?w root (p @ [i]) = Some t" using P [OF a(2)] by simp
  show src: "b = t \<or> tpath w root q = Some b" if "vpath q" "tpath ?w root q = Some b" for q b
    using P [OF that(1)] that(2) by (auto split: if_splits)
  have uniq: "q = p @ [i]" if "vpath q" "tpath ?w root q = Some t" for q
    using P [OF that(1)] that fresh by (auto split: if_splits)
  have old: "tpath w root q = Some b" if "vpath q" "tpath ?w root q = Some b" "b \<noteq> t" for q b
    using src that by auto
  show "tree_ok ?w root (F - {t})"
    unfolding tree_ok_def
  proof (intro conjI allI impI)
    fix q b assume q: "vpath q" "tpath ?w root q = Some b"
    show "kpage b" and "b \<notin> F - {t}" using src [OF q] q(1) ok t by (auto simp: tree_ok_def)
  next
    fix q r b assume q: "vpath q" "vpath r" "tpath ?w root q = Some b" "tpath ?w root r = Some b"
    then show "q = r"
    proof (cases "b = t")
      case True
      then show ?thesis using q uniq by metis
    next
      case False
      then show ?thesis using q old ok unfolding tree_ok_def by metis
    qed
  qed
  show zero: "?w (t + 8 * j) = 0" if "j < 512" for j
    using slot_page [OF t(2) that] slot_inj [OF t(2) ka(1) that p(2)] ka(2) by (auto simp: install_def)
  show "leaf ?w root x = leaf w root x" if x: "x \<in> vslot" for x
  proof -
    obtain q j where q: "x = (q, j)" "length q = 3" "vpath q" "j < 512" using x by (auto simp: vslot_def vpath_def)
    have below: "tpath w root (p @ i # r) = None" for r using n by (simp add: tpath_append a(1))
    show ?thesis
    proof (cases "tpath ?w root q")
      case None
      then have "tpath w root q = None" using P [OF q(3)] below by (auto split: if_splits)
      then show ?thesis using None by (simp add: leaf_def q(1))
    next
      case (Some b)
      show ?thesis
      proof (cases "b = t")
        case True
        then have "q = p @ [i]" using uniq q(3) Some by blast
        then show ?thesis using Some True zero q(4) below [of "[]"] by (simp add: leaf_def q(1))
      next
        case False
        then have b: "tpath w root q = Some b" using old q(3) Some by blast
        then have kb: "kpage b" using ok q(3) by (auto simp: tree_ok_def)
        have "q \<noteq> p" using q(2) p(3) by auto
        then have "b \<noteq> a" using b a(1) q(3) p(1) ok unfolding tree_ok_def by blast
        then have "?w (b + 8 * j) = w (b + 8 * j)"
          using slot_page [OF kb q(4)] slot_inj [OF kb ka(1) q(4) p(2)] False by (auto simp: install_def)
        then show ?thesis using Some b by (simp add: leaf_def q(1))
      qed
    qed
  qed
qed

section \<open>Pages of the allocator\<close>

abbreviation fpages :: "vmem \<Rightarrow> addr set" where
  "fpages s \<equiv> set (free_pages (vheap s))"

definition pref :: "vmem \<Rightarrow> addr \<Rightarrow> RefCount" where
  "pref s p = page_ref (vheap s) (K2P p div PAGE_SIZE)"

definition room :: "nat \<Rightarrow> vmem \<Rightarrow> bool" where
  "room n s \<longleftrightarrow> n \<le> length (free_pages (vheap s)) \<and> alloc_page_cnt (vheap s) + int n \<le> int MY_PAGE_COUNT"

text \<open>The free pages are distinct and nothing refers to them.\<close>

definition pages_inv :: "vmem \<Rightarrow> bool" where
  "pages_inv s \<longleftrightarrow> distinct (free_pages (vheap s)) \<and> (\<forall>t\<in>fpages s. kpage t \<and> pref s t = 0)"

lemma vm_kalloc_page_spec:
  assumes inv: "pages_inv s" and r: "room (Suc n) s"
  shows "\<exists>t s'. vm_kalloc_page s = Inr (t, s') \<and> t \<in> fpages s \<and> kpage t \<and> pages_inv s' \<and> room n s' \<and>
    fpages s' = fpages s - {t} \<and> (\<forall>p. kpage p \<longrightarrow> pref s' p = (if p = t then 1 else pref s p)) \<and>
    ptw s' = (\<lambda>x. if getPageAddr x = t then 0 else ptw s x) \<and>
    ubyte s' = (\<lambda>x. if getPageAddr x = t then 0 else ubyte s x)"
proof -
  obtain t ts where t: "free_pages (vheap s) = t # ts" using r by (cases "free_pages (vheap s)") (auto simp: room_def)
  have k: "kpage t" "pref s t = 0" "t \<notin> set ts" "distinct ts" using inv t by (auto simp: pages_inv_def)
  let ?i = "K2P t div PAGE_SIZE"
  define h where "h = clear_page t ((vheap s)\<lparr>alloc_page_cnt := alloc_page_cnt (vheap s) + 1, free_pages := ts\<rparr>)"
  define s' where "s' = page_zero t (s\<lparr>vheap := h\<lparr>page_ref := (page_ref h)(?i := page_ref h ?i + 1)\<rparr>\<rparr>)"
  have res: "vm_kalloc_page s = Inr (t, s')"
    using r t kpage_phys(5) [OF k(1)]
    by (simp add: vm_kalloc_page_def kalloc_page_def Let_def s'_def h_def room_def increment_rc_def)
  have fs: "free_pages (vheap s') = ts" "alloc_page_cnt (vheap s') = alloc_page_cnt (vheap s) + 1"
    by (simp_all add: s'_def h_def page_zero_def clear_page_def)
  have ref: "pref s' p = (if p = t then 1 else pref s p)" if "kpage p" for p
    using kpage_inj [OF that k(1)] k(2) by (simp add: pref_def s'_def h_def page_zero_def clear_page_def)
  have "pages_inv s'" using inv t k ref by (auto simp: pages_inv_def fs)
  moreover have "room n s'" using r t by (simp add: room_def fs)
  moreover have "fpages s' = fpages s - {t}" using t k(3) by (auto simp: fs)
  moreover have "ptw s' = (\<lambda>x. if getPageAddr x = t then 0 else ptw s x)"
    "ubyte s' = (\<lambda>x. if getPageAddr x = t then 0 else ubyte s x)"
    by (simp_all add: s'_def page_zero_def fun_eq_iff)
  moreover have "t \<in> fpages s" by (simp add: t)
  ultimately show ?thesis using res k(1) ref by blast
qed

lemma page_zero_again:
  assumes "ptw s' = (\<lambda>x. if getPageAddr x = t then 0 else ptw s x)"
    and "ubyte s' = (\<lambda>x. if getPageAddr x = t then 0 else ubyte s x)"
  shows "ptw (page_zero t s') = ptw s'" and "ubyte (page_zero t s') = ubyte s'"
    and "free_pages (vheap (page_zero t s')) = free_pages (vheap s')" and "pref (page_zero t s') = pref s'"
    and "alloc_page_cnt (vheap (page_zero t s')) = alloc_page_cnt (vheap s')"
  by (auto simp: page_zero_def assms pref_def clear_page_def fun_eq_iff)

text \<open>New tables have been added below \<^verbatim>\<open>root\<close>; the entries of the last level are what they were.\<close>

definition grew :: "addr \<Rightarrow> vmem \<Rightarrow> vmem \<Rightarrow> bool" where
  "grew root s s' \<longleftrightarrow> tree_ok (ptw s') root (fpages s') \<and> pages_inv s' \<and> fpages s' \<subseteq> fpages s \<and>
     (\<forall>x\<in>vslot. leaf (ptw s') root x = leaf (ptw s) root x) \<and>
     (\<forall>p. kpage p \<longrightarrow> p \<notin> fpages s \<longrightarrow> pref s' p = pref s p) \<and> (\<forall>p. kpage p \<longrightarrow> pref s p \<le> pref s' p) \<and>
     (\<forall>a. getPageAddr a \<notin> fpages s \<longrightarrow> ubyte s' a = ubyte s a) \<and>
     (\<forall>q b. vpath q \<longrightarrow> tpath (ptw s') root q = Some b \<longrightarrow> b \<in> fpages s - fpages s' \<or> tpath (ptw s) root q = Some b)"

lemma grew_refl: "tree_ok (ptw s) root (fpages s) \<Longrightarrow> pages_inv s \<Longrightarrow> grew root s s"
  by (simp add: grew_def)

lemma grew_trans:
  assumes "grew root s s'" and "grew root s' s''"
  shows "grew root s s''"
proof -
  note A = assms(1) [unfolded grew_def] and B = assms(2) [unfolded grew_def]
  have "fpages s'' \<subseteq> fpages s" using A B by blast
  moreover have "\<forall>p. kpage p \<longrightarrow> p \<notin> fpages s \<longrightarrow> pref s'' p = pref s p" using A B by (metis subsetD)
  moreover have "\<forall>p. kpage p \<longrightarrow> pref s p \<le> pref s'' p" using A B by (metis order_trans)
  moreover have "\<forall>a. getPageAddr a \<notin> fpages s \<longrightarrow> ubyte s'' a = ubyte s a" using A B by (metis subsetD)
  moreover have "b \<in> fpages s - fpages s'' \<or> tpath (ptw s) root q = Some b"
    if q: "vpath q" "tpath (ptw s'') root q = Some b" for q b
  proof -
    have "b \<in> fpages s' - fpages s'' \<or> tpath (ptw s') root q = Some b" using B q by blast
    moreover have "b \<in> fpages s - fpages s' \<or> tpath (ptw s) root q = Some b" if "tpath (ptw s') root q = Some b"
      using A q(1) that by blast
    moreover have "fpages s' \<subseteq> fpages s" "fpages s'' \<subseteq> fpages s'" using A B by blast+
    ultimately show ?thesis by blast
  qed
  ultimately show ?thesis using A B unfolding grew_def by simp
qed

lemma add_table:
  assumes ok: "tree_ok (ptw s) root (fpages s)" "pages_inv s" and r: "room (Suc n) s"
    and a: "tpath (ptw s) root p = Some a" "vpath (p @ [i])" and e: "\<not> is_table (ptw s (a + 8 * i))"
  shows "\<exists>t s1. vm_kalloc_page s = Inr (t, s1) \<and>
    (let s2 = set_pte (a + 8 * i) (of_nat (K2P t) OR PTE_TABLE) (page_zero t s1) in
     unat (of_nat (K2P t) OR PTE_TABLE :: u64) < PHYSTOP \<and> grew root s s2 \<and> room n s2 \<and>
     tpath (ptw s2) root (p @ [i]) = Some t \<and> (\<forall>j<512. ptw s2 (t + 8 * j) = 0))"
proof -
  obtain t s1 where t: "vm_kalloc_page s = Inr (t, s1)" "t \<in> fpages s" "kpage t" "pages_inv s1" "room n s1"
    "fpages s1 = fpages s - {t}" "\<forall>p. kpage p \<longrightarrow> pref s1 p = (if p = t then 1 else pref s p)"
    "ptw s1 = (\<lambda>x. if getPageAddr x = t then 0 else ptw s x)" "ubyte s1 = (\<lambda>x. if getPageAddr x = t then 0 else ubyte s x)"
    using vm_kalloc_page_spec [OF ok(2) r] by blast
  define s2 where "s2 = set_pte (a + 8 * i) (of_nat (K2P t) OR PTE_TABLE) (page_zero t s1)"
  note Z = page_zero_again [OF t(8,9)]
  have w: "ptw s2 = install a i t (ptw s)" by (simp add: s2_def set_pte_def install_def Z(1) t(8))
  have S: "free_pages (vheap s2) = free_pages (vheap s1)" "pref s2 = pref s1" "ubyte s2 = ubyte s1"
    "alloc_page_cnt (vheap s2) = alloc_page_cnt (vheap s1)"
    using Z by (auto simp: s2_def set_pte_def pref_def fun_eq_iff)
  note T = install_tree [OF ok(1) a t(2,3) e]
  have "pages_inv s2" using t(4) by (simp add: pages_inv_def S)
  moreover have "\<forall>q b. vpath q \<longrightarrow> tpath (ptw s2) root q = Some b \<longrightarrow> b \<in> fpages s - fpages s2 \<or> tpath (ptw s) root q = Some b"
    using T(5) t(2,6) unfolding w S(1) by blast
  moreover have "pref s t = 0" using ok(2) t(2) by (simp add: pages_inv_def)
  ultimately have "grew root s s2"
    using T(1,3) t(2,6,7,9) unfolding grew_def w S by (auto simp: S)
  moreover have "room n s2" using t(5) by (simp add: room_def S)
  ultimately show ?thesis
    using t(1) T(2,4) table_entry(3) [OF t(3)] unfolding w [symmetric] by (auto simp: Let_def s2_def [symmetric])
qed

lemma alloc_tables_spec:
  assumes "tree_ok (ptw s) root (fpages s)" "pages_inv s" and "room (length js) s"
    and "tpath (ptw s) root p = Some a" "vpath (p @ js)" and "js \<noteq> [] \<Longrightarrow> \<not> is_table (ptw s (a + 8 * hd js))"
  shows "\<exists>t s'. alloc_tables js a s = Inr (t, s') \<and> grew root s s' \<and> tpath (ptw s') root (p @ js) = Some t"
  using assms
proof (induction js arbitrary: p a s)
  case Nil
  then show ?case by (simp add: grew_refl)
next
  case (Cons i js)
  have vp: "vpath (p @ [i])" "i < 512" using Cons.prems(5) by (auto simp: vpath_def)
  have r: "room (Suc (length js)) s" and e: "\<not> is_table (ptw s (a + 8 * i))" using Cons.prems(3,6) by auto
  obtain t s1 s2 where t: "vm_kalloc_page s = Inr (t, s1)" "unat (of_nat (K2P t) OR PTE_TABLE :: u64) < PHYSTOP"
    and s2: "s2 = set_pte (a + 8 * i) (of_nat (K2P t) OR PTE_TABLE) (page_zero t s1)"
    and g: "grew root s s2" "room (length js) s2" "tpath (ptw s2) root (p @ [i]) = Some t" "\<forall>j<512. ptw s2 (t + 8 * j) = 0"
    using add_table [OF Cons.prems(1,2) r Cons.prems(4) vp(1) e] unfolding Let_def by blast
  have "\<not> is_table (ptw s2 (t + 8 * hd js))" if "js \<noteq> []"
    using g(4) Cons.prems(5) that by (auto simp: vpath_def is_table_def PTE_TABLE_def neq_Nil_conv)
  moreover have "tree_ok (ptw s2) root (fpages s2)" "pages_inv s2" using g(1) by (auto simp: grew_def)
  ultimately obtain t' s' where "alloc_tables js t s2 = Inr (t', s')" "grew root s2 s'" "tpath (ptw s') root (p @ i # js) = Some t'"
    using Cons.IH [of s2 "p @ [i]" t] g(2,3) Cons.prems(5) by auto
  then show ?case using t grew_trans [OF g(1)] by (auto simp: Let_def s2)
qed

lemma walk_tables_spec:
  assumes "tree_ok (ptw s) root (fpages s)" "pages_inv s" and "room (length is) s"
    and "tpath (ptw s) root p = Some a" "vpath (p @ is)"
  shows "\<exists>t s'. walk_tables True is a s = Inr (Some t, s') \<and> grew root s s' \<and> tpath (ptw s') root (p @ is) = Some t"
  using assms(3-5)
proof (induction "is" arbitrary: p a)
  case Nil
  then show ?case using assms(1,2) by (simp add: grew_refl)
next
  case (Cons i js)
  show ?case
  proof (cases "is_table (ptw s (a + 8 * i))")
    case True
    let ?b = "pte_page (ptw s (a + 8 * i))"
    have "tpath (ptw s) root (p @ [i]) = Some ?b" using True Cons.prems(2) by (simp add: tpath_snoc)
    then show ?thesis using Cons.IH [of "p @ [i]" ?b] Cons.prems(1,3) True by (simp add: room_def)
  next
    case False
    have "\<exists>t s'. alloc_tables (i # js) a s = Inr (t, s') \<and> grew root s s' \<and> tpath (ptw s') root (p @ i # js) = Some t"
      using False by (intro alloc_tables_spec [OF assms(1,2) Cons.prems]) simp
    then show ?thesis using False by (auto simp del: alloc_tables.simps)
  qed
qed

text \<open>Without \<^verbatim>\<open>alloc\<close> nothing changes.\<close>

lemma walk_tables_False: "walk_tables False is a s = Inr (tpath (ptw s) a is, s)"
  by (induction "is" arbitrary: a) auto

section \<open>Mapping a page\<close>

definition pidx :: "u64 \<Rightarrow> nat list \<times> nat" where
  "pidx va = ([pt_index va 0, pt_index va 1, pt_index va 2], pt_index va 3)"

lemma pt_index_less: "pt_index va i < 512"
proof -
  have "drop_bit (39 - i * 9) va AND 0x1ff = take_bit 9 (drop_bit (39 - i * 9) va)"
    by (simp add: take_bit_eq_mask mask_eq_exp_minus_1)
  then show ?thesis
    using take_bit_nat_less_exp [of 9] by (simp add: pt_index_def unsigned_take_bit_eq)
qed

lemma pidx_vslot [simp]: "pidx va \<in> vslot"
  using pt_index_less by (simp add: pidx_def vslot_def)

lemma vslotD: "x \<in> vslot \<Longrightarrow> vpath (fst x) \<and> length (fst x) = 3 \<and> snd x < 512"
  by (auto simp: vslot_def vpath_def)

lemma get_pte_False:
  "pt pd \<noteq> 0 \<Longrightarrow> get_pte pd va False s =
    Inr (map_option (\<lambda>t. t + 8 * snd (pidx va)) (tpath (ptw s) (pt pd) (fst (pidx va))), pd, s)"
  by (simp add: get_pte_def walk_tables_False pidx_def del: walk_tables.simps tpath.simps)

lemma get_pte_True:
  assumes "tree_ok (ptw s) (pt pd) (fpages s)" "pages_inv s" and "room 3 s" and "pt pd \<noteq> 0"
  shows "\<exists>t s'. get_pte pd va True s = Inr (Some (t + 8 * snd (pidx va)), pd, s') \<and> grew (pt pd) s s' \<and>
    tpath (ptw s') (pt pd) (fst (pidx va)) = Some t"
proof -
  have "\<exists>t s'. walk_tables True (fst (pidx va)) (pt pd) s = Inr (Some t, s') \<and> grew (pt pd) s s' \<and>
      tpath (ptw s') (pt pd) ([] @ fst (pidx va)) = Some t"
    using assms vslotD [OF pidx_vslot, of va] by (intro walk_tables_spec) (auto simp: pidx_def eval_nat_numeral)
  then show ?thesis using assms(4) by (auto simp: get_pte_def pidx_def simp del: walk_tables.simps tpath.simps)
qed

definition mapset :: "vmem \<Rightarrow> addr \<Rightarrow> addr \<Rightarrow> (nat list \<times> nat) set" where
  "mapset s root p = {x \<in> vslot. valid_pte (leaf (ptw s) root x) \<and> pte_page (leaf (ptw s) root x) = p}"

text \<open>
  The tables form a tree, the pages they map are no tables, and the reference count of a page is at least
  the number of places where it is mapped plus the references \<^verbatim>\<open>E\<close> that are held elsewhere.
\<close>

definition vm_inv :: "(addr \<Rightarrow> nat) \<Rightarrow> addr \<Rightarrow> vmem \<Rightarrow> bool" where
  "vm_inv E root s \<longleftrightarrow> tree_ok (ptw s) root (fpages s) \<and> pages_inv s \<and>
     (\<forall>x\<in>vslot. valid_pte (leaf (ptw s) root x) \<longrightarrow> kpage (pte_page (leaf (ptw s) root x)) \<and>
        (\<forall>q. vpath q \<longrightarrow> tpath (ptw s) root q \<noteq> Some (pte_page (leaf (ptw s) root x)))) \<and>
     (\<forall>p. kpage p \<longrightarrow> int (card (mapset s root p)) + int (E p) \<le> pref s p)"

lemma finite_vslot: "finite vslot"
proof -
  have "vslot = {q. set q \<subseteq> {..<512} \<and> length q = 3} \<times> {..<512}" by (auto simp: vslot_def)
  moreover have "finite ({q. set q \<subseteq> {..<512 :: nat} \<and> length q = 3} \<times> {..<512 :: nat})"
    by (intro finite_cartesian_product finite_lists_length_eq finite_lessThan)
  ultimately show ?thesis by (simp only:)
qed

lemma finite_mapset [simp]: "finite (mapset s root p)"
  using finite_vslot by (simp add: mapset_def)

lemma in_use_not_free:
  assumes "vm_inv E root s" and "kpage p" and "0 < card (mapset s root p) + E p"
  shows "p \<notin> fpages s"
proof
  assume "p \<in> fpages s"
  then have "pref s p = 0" using assms(1) by (auto simp: vm_inv_def pages_inv_def)
  moreover have "int (card (mapset s root p)) + int (E p) \<le> pref s p" using assms(1,2) by (simp add: vm_inv_def)
  ultimately show False using assms(3) by simp
qed

lemma mapped_not_free:
  assumes inv: "vm_inv E root s" and x: "x \<in> vslot" "valid_pte (leaf (ptw s) root x)"
  shows "pte_page (leaf (ptw s) root x) \<notin> fpages s"
proof -
  have "x \<in> mapset s root (pte_page (leaf (ptw s) root x))" using x by (simp add: mapset_def)
  then have "0 < card (mapset s root (pte_page (leaf (ptw s) root x)))" by (auto simp: card_gt_0_iff)
  then show ?thesis using inv x by (intro in_use_not_free [OF inv]) (auto simp: vm_inv_def)
qed

lemma grew_vm_inv:
  assumes inv: "vm_inv E root s" and g: "grew root s s'"
  shows "vm_inv E root s'"
proof -
  note G = g [unfolded grew_def] and I = inv [unfolded vm_inv_def]
  have l: "leaf (ptw s') root x = leaf (ptw s) root x" if "x \<in> vslot" for x using G that by blast
  have m: "mapset s' root p = mapset s root p" for p using l by (auto simp: mapset_def)
  have "tpath (ptw s') root q \<noteq> Some (pte_page (leaf (ptw s) root x))"
    if x: "x \<in> vslot" "valid_pte (leaf (ptw s) root x)" and q: "vpath q" for x q
    using mapped_not_free [OF inv x] G I x q by blast
  moreover have "int (card (mapset s root p)) + int (E p) \<le> pref s' p" if "kpage p" for p
    using I G that by (metis order_trans)
  ultimately show ?thesis using G I by (simp add: vm_inv_def m l)
qed

text \<open>Writing an entry of the last level.\<close>

lemma set_leaf:
  assumes ok: "tree_ok w root F" and t: "tpath w root q0 = Some t" "vpath q0" "length q0 = 3" and j: "j < 512"
  shows "\<And>q. vpath q \<Longrightarrow> tpath (w(t + 8 * j := e)) root q = tpath w root q"
    and "\<And>x. x \<in> vslot \<Longrightarrow> leaf (w(t + 8 * j := e)) root x = (if x = (q0, j) then e else leaf w root x)"
proof -
  have kt: "kpage t" using ok t by (auto simp: tree_ok_def)
  show path: "tpath (w(t + 8 * j := e)) root q = tpath w root q" if "vpath q" for q
    using that
  proof (induction q rule: rev_induct)
    case Nil
    show ?case by simp
  next
    case (snoc i q)
    have q: "vpath q" "length q \<le> 2" "i < 512" using snoc.prems by (auto simp: vpath_snoc)
    have "t + 8 * j \<noteq> b + 8 * i" if b: "tpath w root q = Some b" for b
    proof -
      have "q \<noteq> q0" using q(2) t(3) by auto
      then have "b \<noteq> t" using ok b t q(1) unfolding tree_ok_def by blast
      moreover have "kpage b" using ok b q(1) by (auto simp: tree_ok_def)
      ultimately show ?thesis using slot_inj [OF kt _ j q(3)] by auto
    qed
    then show ?case using snoc.IH [OF q(1)] by (auto simp: tpath_snoc split: option.split)
  qed
  show "leaf (w(t + 8 * j := e)) root x = (if x = (q0, j) then e else leaf w root x)" if x: "x \<in> vslot" for x
  proof -
    have v: "vpath (fst x)" "snd x < 512" using vslotD [OF x] by auto
    show ?thesis
    proof (cases "tpath w root (fst x)")
      case None
      then have "x \<noteq> (q0, j)" using t(1) by auto
      then show ?thesis using None path [OF v(1)] by (simp add: leaf_def)
    next
      case (Some b)
      have kb: "kpage b" using ok Some v(1) by (auto simp: tree_ok_def)
      have "t = b \<longleftrightarrow> fst x = q0" using ok Some t v(1) unfolding tree_ok_def by (metis option.inject)
      then have "t + 8 * j = b + 8 * snd x \<longleftrightarrow> x = (q0, j)"
        using slot_inj [OF kt kb j v(2)] by (cases x) auto
      then show ?thesis using Some path [OF v(1)] by (auto simp: leaf_def)
    qed
  qed
qed

lemma vm_kfree_page_spec:
  assumes "kpage p"
  shows "\<exists>s'. vm_kfree_page p s = Inr s' \<and> ptw s' = ptw s \<and> ubyte s' = ubyte s \<and>
    (\<forall>q. kpage q \<longrightarrow> pref s' q = pref s q - (if q = p then 1 else 0)) \<and>
    free_pages (vheap s') = (if pref s p = 1 then p # free_pages (vheap s) else free_pages (vheap s))"
proof -
  let ?h = "(vheap s)\<lparr>page_ref := (page_ref (vheap s))(K2P p div PAGE_SIZE := pref s p - 1)\<rparr>"
  define s' where "s' = s\<lparr>vheap := if pref s p = 1 then ?h\<lparr>free_pages := p # free_pages (vheap s),
    alloc_page_cnt := alloc_page_cnt (vheap s) - 1\<rparr> else ?h\<rparr>"
  have "vm_kfree_page p s = Inr s'"
    using kpage_phys(5) [OF assms]
    by (simp add: vm_kfree_page_def kfree_page_def Let_def s'_def pref_def decrement_rc_def)
  moreover have "\<forall>q. kpage q \<longrightarrow> pref s' q = pref s q - (if q = p then 1 else 0)"
    using kpage_inj assms by (auto simp: s'_def pref_def)
  moreover have "ptw s' = ptw s" "ubyte s' = ubyte s"
    "free_pages (vheap s') = (if pref s p = 1 then p # free_pages (vheap s) else free_pages (vheap s))"
    by (simp_all add: s'_def)
  ultimately show ?thesis by blast
qed

lemma incr_page_ref_spec:
  assumes "kpage p"
  shows "\<exists>s'. incr_page_ref p s = Inr s' \<and> ptw s' = ptw s \<and> ubyte s' = ubyte s \<and>
    (\<forall>q. kpage q \<longrightarrow> pref s' q = pref s q + (if q = p then 1 else 0)) \<and> free_pages (vheap s') = free_pages (vheap s)"
  using kpage_phys(5) [OF assms] kpage_inj [OF _ assms]
  by (auto simp: incr_page_ref_def increment_rc_def pref_def Let_def)

text \<open>
  The entry at \<^verbatim>\<open>x\<close> is replaced by \<^verbatim>\<open>e\<close>: the page it mapped loses a reference and, when that was the last one, is freed;
  the page that \<^verbatim>\<open>e\<close> maps, if it is valid, gains one.
\<close>

definition gone :: "vmem \<Rightarrow> addr \<Rightarrow> nat list \<times> nat \<Rightarrow> addr \<Rightarrow> int" where
  "gone s root x p = (if valid_pte (leaf (ptw s) root x) \<and> pte_page (leaf (ptw s) root x) = p then 1 else 0)"

definition come :: "u64 \<Rightarrow> addr \<Rightarrow> int" where
  "come e p = (if valid_pte e \<and> pte_page e = p then 1 else 0)"

lemma replace_entry_inv:
  assumes inv: "vm_inv E root s" and x: "x \<in> vslot" "tpath (ptw s) root (fst x) = Some t"
    and e: "valid_pte e \<Longrightarrow> kpage (pte_page e) \<and> 1 \<le> E (pte_page e) \<and> (\<forall>q. vpath q \<longrightarrow> tpath (ptw s) root q \<noteq> Some (pte_page e))"
    and s': "ptw s' = (ptw s)(t + 8 * snd x := e)"
      "\<And>p. kpage p \<Longrightarrow> pref s' p = pref s p - gone s root x p + come e p"
      "distinct (free_pages (vheap s'))" "\<And>p. p \<in> fpages s' \<longleftrightarrow> p \<in> fpages s \<or> (gone s root x p = 1 \<and> pref s p = 1)"
  shows "vm_inv E root s'"
proof -
  note I = inv [unfolded vm_inv_def]
  have v: "vpath (fst x)" "length (fst x) = 3" "snd x < 512" using vslotD [OF x(1)] by auto
  have ok: "tree_ok (ptw s) root (fpages s)" using I by blast
  have leaf': "leaf (ptw s') root y = (if y = x then e else leaf (ptw s) root y)" if "y \<in> vslot" for y
    using set_leaf(2) [OF ok x(2) v that, of e] s'(1) by simp
  have path': "tpath (ptw s') root q = tpath (ptw s) root q" if "vpath q" for q
    using set_leaf(1) [OF ok x(2) v that, of e] s'(1) by simp
  have old: "kpage p \<and> p \<notin> fpages s \<and> (\<forall>q. vpath q \<longrightarrow> tpath (ptw s) root q \<noteq> Some p)" if "gone s root x p = 1" for p
    using I x(1) mapped_not_free [OF inv x(1)] that by (auto simp: gone_def split: if_splits)
  have count: "int (card (mapset s' root p)) = int (card (mapset s root p)) - gone s root x p + come e p" for p
  proof -
    have "y \<in> mapset s' root p \<longleftrightarrow> (if y = x then come e p = 1 else y \<in> mapset s root p)" for y
      using leaf' [of y] x(1) by (cases "y = x") (simp_all add: mapset_def come_def cong: conj_cong)
    then have "mapset s' root p = (if come e p = 1 then insert x (mapset s root p) else mapset s root p - {x})"
      by (auto split: if_splits)
    moreover have "x \<in> mapset s root p \<longleftrightarrow> gone s root x p = 1" using x(1) by (auto simp: mapset_def gone_def)
    moreover have "x \<in> mapset s root p \<Longrightarrow> card (mapset s root p) > 0" by (auto simp: card_gt_0_iff)
    ultimately show ?thesis by (auto simp: card_insert_if gone_def come_def split: if_splits)
  qed
  have refs0: "int (card (mapset s root p)) + int (E p) \<le> pref s p" if "kpage p" for p using I that by blast
  have tree: "tree_ok (ptw s') root (fpages s')"
    unfolding tree_ok_def using ok path' s'(4) old unfolding tree_ok_def by metis
  have new: "come e p = 0 \<or> 1 \<le> E p" for p using e by (auto simp: come_def)
  have pages: "pages_inv s'"
    unfolding pages_inv_def
  proof (intro conjI ballI s'(3))
    fix p assume "p \<in> fpages s'"
    then have p: "p \<in> fpages s \<or> (gone s root x p = 1 \<and> pref s p = 1)" using s'(4) by blast
    show k: "kpage p" using p old I by (auto simp: pages_inv_def)
    show "pref s' p = 0"
    proof (cases "p \<in> fpages s")
      case True
      then have "pref s p = 0" "gone s root x p = 0" using I old [of p] by (auto simp: pages_inv_def gone_def)
      then show ?thesis using refs0 [OF k] new [of p] s'(2) [OF k] by auto
    next
      case False
      then have g: "gone s root x p = 1" "pref s p = 1" using p by auto
      then have "x \<in> mapset s root p" using x(1) by (auto simp: mapset_def gone_def split: if_splits)
      then have "card (mapset s root p) > 0" by (auto simp: card_gt_0_iff)
      then show ?thesis using refs0 [OF k] new [of p] s'(2) [OF k] g by auto
    qed
  qed
  have refs: "int (card (mapset s' root p)) + int (E p) \<le> pref s' p" if "kpage p" for p
  proof -
    show ?thesis using refs0 [OF that] count s'(2) [OF that] by simp
  qed
  have user: "kpage (pte_page (leaf (ptw s') root y)) \<and> (\<forall>q. vpath q \<longrightarrow> tpath (ptw s') root q \<noteq> Some (pte_page (leaf (ptw s') root y)))"
    if y: "y \<in> vslot" "valid_pte (leaf (ptw s') root y)" for y
    using leaf' [OF y(1)] path' e I y by (cases "y = x") auto
  show ?thesis unfolding vm_inv_def using tree pages user refs by blast
qed

lemma vmmap_spec:
  assumes inv: "vm_inv E (pt pd) s" and r: "room 3 s" and pd: "pt pd \<noteq> 0"
    and ka: "kpage ka" "1 \<le> E ka" "\<And>q. vpath q \<Longrightarrow> tpath (ptw s) (pt pd) q \<noteq> Some ka"
    and fl: "flags AND NOT 0xFFFF000000000FFF = 0" "valid_pte flags"
  shows "\<exists>s'. vmmap pd va ka flags s = Inr (pd, s') \<and> vm_inv E (pt pd) s' \<and>
    (\<forall>x\<in>vslot. leaf (ptw s') (pt pd) x = (if x = pidx va then of_nat (K2P ka) OR flags else leaf (ptw s) (pt pd) x)) \<and>
    (\<forall>q b. vpath q \<longrightarrow> tpath (ptw s') (pt pd) q = Some b \<longrightarrow> b \<in> fpages s \<or> tpath (ptw s) (pt pd) q = Some b) \<and>
    tpath (ptw s') (pt pd) (fst (pidx va)) \<noteq> None \<and>
    (\<forall>a. getPageAddr a \<notin> fpages s \<longrightarrow> ubyte s' a = ubyte s a)"
proof -
  let ?root = "pt pd" and ?x = "pidx va" and ?e = "of_nat (K2P ka) OR flags :: u64"
  have ok: "tree_ok (ptw s) ?root (fpages s)" "pages_inv s" using inv by (auto simp: vm_inv_def)
  obtain t s1 where g: "get_pte pd va True s = Inr (Some (t + 8 * snd ?x), pd, s1)" "grew ?root s s1"
    and t: "tpath (ptw s1) ?root (fst ?x) = Some t"
    using get_pte_True [OF ok r pd] by blast
  have inv1: "vm_inv E ?root s1" using grew_vm_inv [OF inv g(2)] .
  have v: "vpath (fst ?x)" "length (fst ?x) = 3" "snd ?x < 512" using vslotD [OF pidx_vslot, of va] by auto
  let ?a = "t + 8 * snd ?x" and ?old = "leaf (ptw s1) ?root ?x"
  have old: "ptw s1 ?a = ?old" using t by (simp add: leaf_def)
  have kf: "ka \<notin> fpages s" using ka inv by (intro in_use_not_free) auto
  have e: "valid_pte ?e" "pte_page ?e = ka"
    using entry_parts(2) [OF ka(1) fl(1)] fl(2) by (auto simp: valid_pte_def bit.conj_disj_distrib2 or_eq_0_iff)
  have kold: "kpage (pte_page ?old)" if "valid_pte ?old" using inv1 that by (simp add: vm_inv_def)
  obtain s2 where s2: "(if valid_pte ?old then vm_kfree_page (pte_page ?old) s1 else Inr s1) = Inr s2"
    "ptw s2 = ptw s1" "ubyte s2 = ubyte s1" "\<And>q. kpage q \<Longrightarrow> pref s2 q = pref s1 q - gone s1 ?root ?x q"
    "free_pages (vheap s2) = (if valid_pte ?old \<and> pref s1 (pte_page ?old) = 1 then pte_page ?old # free_pages (vheap s1)
       else free_pages (vheap s1))"
    using vm_kfree_page_spec [OF kold, of s1] by (cases "valid_pte ?old") (auto simp: gone_def)
  define s3 where "s3 = set_pte ?a ?e s2"
  obtain s4 where s4: "incr_page_ref ka s3 = Inr s4" "ptw s4 = ptw s3" "ubyte s4 = ubyte s3"
    "\<And>q. kpage q \<Longrightarrow> pref s4 q = pref s3 q + (if q = ka then 1 else 0)" "free_pages (vheap s4) = free_pages (vheap s3)"
    using incr_page_ref_spec [OF ka(1)] by blast
  have w4: "ptw s4 = (ptw s1)(?a := ?e)" by (simp add: s4(2) s3_def set_pte_def s2(2))
  have p3: "pref s3 = pref s2" "free_pages (vheap s3) = free_pages (vheap s2)" "ubyte s3 = ubyte s2"
    by (auto simp: s3_def set_pte_def pref_def fun_eq_iff)
  have res: "vmmap pd va ka flags s = Inr (pd, s4)"
    unfolding vmmap_def g(1) rbind_simps prod.case option.case old s2(1) s3_def [symmetric] s4(1) ..
  have nt: "tpath (ptw s1) ?root q \<noteq> Some ka" if "vpath q" for q using g(2) ka(3) kf that unfolding grew_def by blast
  have dist: "distinct (free_pages (vheap s1))" using inv1 by (simp add: vm_inv_def pages_inv_def)
  have nf: "pte_page ?old \<notin> fpages s1" if "valid_pte ?old" using mapped_not_free [OF inv1 pidx_vslot that] .
  have "vm_inv E ?root s4"
  proof (rule replace_entry_inv [OF inv1 pidx_vslot t _ w4])
    show "kpage (pte_page ?e) \<and> 1 \<le> E (pte_page ?e) \<and> (\<forall>q. vpath q \<longrightarrow> tpath (ptw s1) ?root q \<noteq> Some (pte_page ?e))"
      using e ka nt by simp
    show "pref s4 p = pref s1 p - gone s1 ?root ?x p + come ?e p" if "kpage p" for p
      using s4(4) [OF that] s2(4) [OF that] e by (auto simp: p3 come_def)
    show "distinct (free_pages (vheap s4))" using dist nf by (simp add: s4(5) p3 s2(5))
    show "p \<in> fpages s4 \<longleftrightarrow> p \<in> fpages s1 \<or> (gone s1 ?root ?x p = 1 \<and> pref s1 p = 1)" for p
      by (auto simp: s4(5) p3 s2(5) gone_def)
  qed
  moreover have tree1: "tree_ok (ptw s1) ?root (fpages s1)" using inv1 by (simp add: vm_inv_def)
  moreover have "leaf (ptw s4) ?root y = (if y = ?x then ?e else leaf (ptw s) ?root y)" if "y \<in> vslot" for y
    using set_leaf(2) [OF tree1 t v that, of ?e] g(2) that by (simp add: w4 grew_def)
  moreover have path4: "tpath (ptw s4) ?root q = tpath (ptw s1) ?root q" if "vpath q" for q
    using set_leaf(1) [OF tree1 t v that, of ?e] by (simp add: w4)
  moreover have "b \<in> fpages s \<or> tpath (ptw s) ?root q = Some b" if "vpath q" "tpath (ptw s4) ?root q = Some b" for q b
    using path4 that g(2) unfolding grew_def by auto
  moreover have "\<forall>a. getPageAddr a \<notin> fpages s \<longrightarrow> ubyte s4 a = ubyte s a"
    using g(2) by (simp add: grew_def s4(3) p3 s2(3))
  ultimately show ?thesis using res t v(1) by auto
qed

text \<open>A page taken from the allocator, with one reference held by the caller.\<close>

lemma clear_free_page:
  assumes ok: "tree_ok w root F" and t: "t \<in> F"
  defines "w' \<equiv> \<lambda>x. if getPageAddr x = t then 0 else w x"
  shows "\<And>q. vpath q \<Longrightarrow> tpath w' root q = tpath w root q" and "\<And>x. x \<in> vslot \<Longrightarrow> leaf w' root x = leaf w root x"
proof -
  have slot: "w' (b + 8 * i) = w (b + 8 * i)" if "vpath q" "tpath w root q = Some b" "i < 512" for q b i
  proof -
    have "kpage b" "b \<noteq> t" using ok t that by (auto simp: tree_ok_def)
    then show ?thesis using slot_page [of b i] that(3) by (simp add: w'_def)
  qed
  show path: "tpath w' root q = tpath w root q" if "vpath q" for q
    using that
  proof (induction q rule: rev_induct)
    case (snoc i q)
    then show ?case using slot [of q _ i] by (auto simp: tpath_snoc vpath_snoc split: option.split)
  qed simp
  show "leaf w' root x = leaf w root x" if "x \<in> vslot" for x
    using vslotD [OF that] path slot [of "fst x"] by (auto simp: leaf_def split: option.split)
qed

lemma vm_kalloc_page_inv:
  assumes inv: "vm_inv E root s" and r: "room (Suc n) s"
  shows "\<exists>t s'. vm_kalloc_page s = Inr (t, s') \<and> t \<in> fpages s \<and> kpage t \<and> vm_inv (E(t := 1)) root s' \<and> room n s' \<and>
    fpages s' = fpages s - {t} \<and> (\<forall>q. vpath q \<longrightarrow> tpath (ptw s') root q = tpath (ptw s) root q) \<and>
    (\<forall>x\<in>vslot. leaf (ptw s') root x = leaf (ptw s) root x) \<and> mapset s root t = {} \<and>
    (\<forall>q. vpath q \<longrightarrow> tpath (ptw s) root q \<noteq> Some t) \<and>
    ubyte s' = (\<lambda>x. if getPageAddr x = t then 0 else ubyte s x)"
proof -
  note I = inv [unfolded vm_inv_def]
  have pi: "pages_inv s" using I by blast
  obtain t s' where t: "vm_kalloc_page s = Inr (t, s')" "t \<in> fpages s" "kpage t" "pages_inv s'" "room n s'"
    "fpages s' = fpages s - {t}" "\<forall>p. kpage p \<longrightarrow> pref s' p = (if p = t then 1 else pref s p)"
    "ptw s' = (\<lambda>x. if getPageAddr x = t then 0 else ptw s x)" "ubyte s' = (\<lambda>x. if getPageAddr x = t then 0 else ubyte s x)"
    using vm_kalloc_page_spec [OF pi r] by blast
  have tree: "tree_ok (ptw s) root (fpages s)" using I by blast
  note C = clear_free_page [OF tree t(2), folded t(8)]
  have "int (card (mapset s root t)) + int (E t) \<le> 0" using I pi t(2,3) by (metis pages_inv_def)
  then have "card (mapset s root t) = 0" and "E t = 0" by linarith+
  then have none: "mapset s root t = {}" "E t = 0" by simp_all
  have nt: "tpath (ptw s) root q \<noteq> Some t" if "vpath q" for q using tree t(2) that by (auto simp: tree_ok_def)
  have m: "mapset s' root p = mapset s root p" for p using C(2) by (auto simp: mapset_def)
  have "tree_ok (ptw s') root (fpages s')" using tree C(1) t(6) unfolding tree_ok_def by (metis Diff_iff)
  moreover have "int (card (mapset s' root p)) + int ((E(t := 1)) p) \<le> pref s' p" if "kpage p" for p
    using I that t(7) none by (auto simp: m)
  ultimately have "vm_inv (E(t := 1)) root s'"
    using I t(4) C by (simp add: vm_inv_def)
  then show ?thesis using t C none nt by blast
qed

lemma valid_pte_0 [simp]: "\<not> valid_pte 0"
  by (simp add: valid_pte_def)

lemma uvmunmap_page_spec:
  assumes inv: "vm_inv E (pt pd) s" and pd: "pt pd \<noteq> 0" and va: "va mod of_nat PAGE_SIZE = 0" "va < va + of_nat PAGE_SIZE"
    and x: "valid_pte (leaf (ptw s) (pt pd) (pidx va))"
  shows "\<exists>s'. uvmunmap pd va 1 True s = Inr s' \<and> vm_inv E (pt pd) s' \<and>
    (\<forall>x\<in>vslot. leaf (ptw s') (pt pd) x = (if x = pidx va then 0 else leaf (ptw s) (pt pd) x))"
proof -
  let ?root = "pt pd" and ?x = "pidx va"
  note I = inv [unfolded vm_inv_def]
  have tree: "tree_ok (ptw s) ?root (fpages s)" using I by blast
  have v: "vpath (fst ?x)" "length (fst ?x) = 3" "snd ?x < 512" using vslotD [OF pidx_vslot, of va] by auto
  obtain t where t: "tpath (ptw s) ?root (fst ?x) = Some t" using x by (cases "tpath (ptw s) ?root (fst ?x)") (auto simp: leaf_def)
  let ?a = "t + 8 * snd ?x" and ?p = "pte_page (leaf (ptw s) ?root ?x)"
  have old: "ptw s ?a = leaf (ptw s) ?root ?x" using t by (simp add: leaf_def)
  have kp: "kpage ?p" using I x by simp
  obtain s1 where s1: "vm_kfree_page ?p s = Inr s1" "ptw s1 = ptw s"
    "\<And>q. kpage q \<Longrightarrow> pref s1 q = pref s q - (if q = ?p then 1 else 0)"
    "free_pages (vheap s1) = (if pref s ?p = 1 then ?p # free_pages (vheap s) else free_pages (vheap s))"
    using vm_kfree_page_spec [OF kp] by blast
  define s' where "s' = set_pte ?a 0 s1"
  have w: "ptw s' = (ptw s)(?a := 0)" by (simp add: s'_def set_pte_def s1(2))
  have res: "uvmunmap pd va 1 True s = Inr s'"
    using va pd x s1(1) old t by (simp add: uvmunmap_def get_pte_False s'_def eval_nat_numeral)
  have "vm_inv E ?root s'"
  proof (rule replace_entry_inv [OF inv pidx_vslot t _ w])
    show "distinct (free_pages (vheap s'))"
      using I mapped_not_free [OF inv pidx_vslot x] by (simp add: s'_def set_pte_def s1(4) pages_inv_def)
  qed (use x s1(3) in \<open>auto simp: s'_def set_pte_def s1(4) gone_def come_def pref_def\<close>)
  moreover have "leaf (ptw s') ?root y = (if y = ?x then 0 else leaf (ptw s) ?root y)" if "y \<in> vslot" for y
    using set_leaf(2) [OF tree t v that, of 0] by (simp add: w)
  ultimately show ?thesis using res by blast
qed

end
