(* ===== verification/Paging.thy ===== *)
theory Paging
  imports Pt
begin

text \<open>
  The sections of an address space (\<^verbatim>\<open>src/src/kernel/paging.c\<close>) and the creation and destruction of page
  directories (\<^verbatim>\<open>pt.c\<close>): the list of the five sections, \<^verbatim>\<open>sbrk\<close>, and the release of the pages and tables.
  The section list is the pointer list of \<^verbatim>\<open>Klist\<close>, so that the calls of the list functions have the effect
  of the code's. The page fault handler is not modelled.
\<close>

section \<open>Sections\<close>

definition ST_FILE :: u64 where "ST_FILE = 1"
definition ST_RO :: u64 where "ST_RO = push_bit 2 1"
definition ST_HEAP :: u64 where "ST_HEAP = push_bit 3 1"
definition ST_STACK :: u64 where "ST_STACK = push_bit 4 1"
definition ST_TEXT :: u64 where "ST_TEXT = ST_FILE OR ST_RO"
definition ST_DATA :: u64 where "ST_DATA = ST_FILE"
definition ST_BSS :: u64 where "ST_BSS = ST_FILE"
definition STACK_TOP :: u64 where "STACK_TOP = 0x800000"

text \<open>The fields for file-backed sections are not used by any function.\<close>

record sect =
  sflags :: u64
  sbegin :: u64
  send :: u64

definition sizeof_section :: int where "sizeof_section = 64"

text \<open>\<^verbatim>\<open>stnode\<close> follows the three words \<^verbatim>\<open>flags\<close>, \<^verbatim>\<open>begin\<close> and \<^verbatim>\<open>end\<close>.\<close>

definition stnode :: "addr \<Rightarrow> addr" where "stnode sec = sec + 24"
definition sec_of :: "addr \<Rightarrow> addr" where "sec_of node = node - 24"

record pgst =
  vm :: vmem
  slinks :: lheap
  sects :: "addr \<Rightarrow> sect"

definition pg_kalloc :: "int \<Rightarrow> pgst \<Rightarrow> (addr \<times> pgst) res" where
  "pg_kalloc sz s = rbind (kalloc sz (vheap (vm s))) (\<lambda>(p, h). Inr (p, s\<lparr>vm := (vm s)\<lparr>vheap := h\<rparr>\<rparr>))"

definition pg_kfree :: "addr \<Rightarrow> pgst \<Rightarrow> pgst res" where
  "pg_kfree p s = rbind (kfree p (vheap (vm s))) (\<lambda>h. Inr (s\<lparr>vm := (vm s)\<lparr>vheap := h\<rparr>\<rparr>))"

definition pg_vm :: "(vmem \<Rightarrow> vmem res) \<Rightarrow> pgst \<Rightarrow> pgst res" where
  "pg_vm f s = rbind (f (vm s)) (\<lambda>v. Inr (s\<lparr>vm := v\<rparr>))"

definition init_section :: "addr \<Rightarrow> pgst \<Rightarrow> pgst" where
  "init_section sec s = s\<lparr>slinks := init_list_node (stnode sec) (slinks s)\<rparr>"

definition set_sect :: "addr \<Rightarrow> (sect \<Rightarrow> sect) \<Rightarrow> pgst \<Rightarrow> pgst" where
  "set_sect sec f s = s\<lparr>sects := (sects s)(sec := f (sects s sec))\<rparr>"

definition sec_insert :: "addr \<Rightarrow> addr \<Rightarrow> pgst \<Rightarrow> pgst" where
  "sec_insert head sec s = s\<lparr>slinks := snd (insert_into_list head (stnode sec) (slinks s))\<rparr>"

definition init_sections :: "addr \<Rightarrow> pgst \<Rightarrow> pgst res" where
  "init_sections head s =
     rbind (pg_kalloc sizeof_section s) (\<lambda>(txt, s).
     rbind (pg_kalloc sizeof_section s) (\<lambda>(data, s).
     rbind (pg_kalloc sizeof_section s) (\<lambda>(bss, s).
     rbind (pg_kalloc sizeof_section s) (\<lambda>(heap, s).
     rbind (pg_kalloc sizeof_section s) (\<lambda>(stack, s).
       let s = init_section stack (init_section heap (init_section bss (init_section data (init_section txt s))));
           s = set_sect txt (\<lambda>c. c\<lparr>sflags := ST_TEXT\<rparr>) s;
           s = set_sect data (\<lambda>c. c\<lparr>sflags := ST_DATA\<rparr>) s;
           s = set_sect bss (\<lambda>c. c\<lparr>sflags := ST_BSS\<rparr>) s;
           s = set_sect heap (\<lambda>c. c\<lparr>sflags := ST_HEAP\<rparr>) s;
           s = set_sect stack (\<lambda>c. c\<lparr>sflags := ST_STACK\<rparr>) s;
           ps = of_nat PAGE_SIZE;
           s = set_sect txt (\<lambda>c. c\<lparr>sbegin := 0, send := ps\<rparr>) s;
           s = set_sect data (\<lambda>c. c\<lparr>sbegin := ps, send := ps * 2\<rparr>) s;
           s = set_sect bss (\<lambda>c. c\<lparr>sbegin := ps * 2, send := ps * 3\<rparr>) s;
           s = set_sect heap (\<lambda>c. c\<lparr>sbegin := ps * 3, send := ps * 4\<rparr>) s;
           s = set_sect stack (\<lambda>c. c\<lparr>sbegin := send (sects s heap), send := STACK_TOP\<rparr>) s
       in Inr (sec_insert head txt (sec_insert head data (sec_insert head bss
            (sec_insert head heap (sec_insert head stack s))))))))))"

definition nth_section :: "nat \<Rightarrow> addr \<Rightarrow> pgst \<Rightarrow> addr" where
  "nth_section n head s = sec_of ((nxt (slinks s) ^^ Suc n) head)"

record sections_info =
  text_begin :: u64
  text_end :: u64
  data_begin :: u64
  data_end :: u64
  bss_begin :: u64
  bss_end :: u64
  heap_begin :: u64
  heap_end :: u64
  stack_begin :: u64
  stack_end :: u64

definition get_sections :: "pgdir \<Rightarrow> pgst \<Rightarrow> (sections_info \<times> pgdir \<times> pgst) res" where
  "get_sections pd s =
     rbind (acquire_spinlock (pd_lock pd)) (\<lambda>l.
       let pd = pd\<lparr>pd_lock := l\<rparr>;
           sec = (\<lambda>n. sects s (nth_section n (section_head pd) s))
       in Inr (\<lparr>text_begin = sbegin (sec 0), text_end = send (sec 0), data_begin = sbegin (sec 1), data_end = send (sec 1),
                bss_begin = sbegin (sec 2), bss_end = send (sec 2), heap_begin = sbegin (sec 3), heap_end = send (sec 3),
                stack_begin = sbegin (sec 4), stack_end = send (sec 4)\<rparr>,
               pd\<lparr>pd_lock := release_spinlock (pd_lock pd)\<rparr>, s))"

definition set_sections :: "pgdir \<Rightarrow> sections_info \<Rightarrow> pgst \<Rightarrow> (pgdir \<times> pgst) res" where
  "set_sections pd i s =
     rbind (acquire_spinlock (pd_lock pd)) (\<lambda>l.
       let pd = pd\<lparr>pd_lock := l\<rparr>;
           sec = (\<lambda>n. nth_section n (section_head pd) s);
           upd = (\<lambda>n b e. set_sect (sec n) (\<lambda>c. c\<lparr>sbegin := b, send := e\<rparr>));
           s = upd 4 (stack_begin i) (stack_end i) (upd 3 (heap_begin i) (heap_end i)
             (upd 2 (bss_begin i) (bss_end i) (upd 1 (data_begin i) (data_end i)
               (upd 0 (text_begin i) (text_end i) s))))
       in Inr (pd\<lparr>pd_lock := release_spinlock (pd_lock pd)\<rparr>, s))"

definition copy_sections :: "pgdir \<Rightarrow> pgdir \<Rightarrow> pgst \<Rightarrow> (pgdir \<times> pgdir \<times> pgst) res" where
  "copy_sections dst src s =
     rbind (get_sections src s) (\<lambda>(i, src, s).
     rbind (set_sections dst i s) (\<lambda>(dst, s). Inr (dst, src, s)))"

text \<open>
  The search for the section of an address, from the node \<^verbatim>\<open>cur\<close> on; \<^verbatim>\<open>n\<close> bounds the nodes that are visited. It is the loop of
  \<^verbatim>\<open>get_section_by_va\<close> and of the page fault handler.
\<close>

fun find_section :: "nat \<Rightarrow> u64 \<Rightarrow> addr \<Rightarrow> addr \<Rightarrow> pgst \<Rightarrow> addr option res" where
  "find_section 0 va head cur s = Inl Spin"
| "find_section (Suc n) va head cur s =
     (if cur = head then Inr None
      else
        let sec = sects s (sec_of cur)
        in if sbegin sec \<le> va \<and> va < send sec then Inr (Some (sec_of cur))
           else find_section n va head (nxt (slinks s) cur) s)"

definition get_section_by_va :: "nat \<Rightarrow> pgdir \<Rightarrow> u64 \<Rightarrow> pgst \<Rightarrow> (addr option \<times> pgdir) res" where
  "get_section_by_va n pd va s =
     rbind (acquire_spinlock (pd_lock pd)) (\<lambda>l.
       let pd = pd\<lparr>pd_lock := l\<rparr>
       in rbind (find_section n va (section_head pd) (nxt (slinks s) (section_head pd)) s) (\<lambda>r.
            Inr (r, pd\<lparr>pd_lock := release_spinlock (pd_lock pd)\<rparr>)))"

section \<open>Release of pages\<close>

text \<open>What all loops that give back user pages do with one address.\<close>

definition drop_page :: "pgdir \<Rightarrow> u64 \<Rightarrow> vmem \<Rightarrow> vmem res" where
  "drop_page pd va s =
     rbind (get_pte pd va False s) (\<lambda>(pte, pd, s).
       case pte of
         None \<Rightarrow> Inr s
       | Some a \<Rightarrow>
           if valid_pte (ptw s a)
           then rbind (vm_kfree_page (pte_page (ptw s a)) s) (\<lambda>s. Inr (set_pte a 0 s))
           else Inr s)"

text \<open>The pages of a section, up to \<^verbatim>\<open>e\<close>.\<close>

fun drop_range :: "nat \<Rightarrow> pgdir \<Rightarrow> u64 \<Rightarrow> u64 \<Rightarrow> vmem \<Rightarrow> vmem res" where
  "drop_range 0 pd va e s = Inl Spin"
| "drop_range (Suc n) pd va e s =
     (if \<not> va < e then Inr s
      else rbind (drop_page pd va s) (\<lambda>s. drop_range n pd (PAGE_BASE (va + of_nat PAGE_SIZE)) e s))"

definition range_fuel :: "u64 \<Rightarrow> u64 \<Rightarrow> nat" where
  "range_fuel b e = (unat e - unat b) div PAGE_SIZE + 3"

fun free_sections_loop :: "nat \<Rightarrow> pgdir \<Rightarrow> pgst \<Rightarrow> pgst res" where
  "free_sections_loop 0 pd s = Inl Spin"
| "free_sections_loop (Suc n) pd s =
     (let head = section_head pd
      in if empty_list head (slinks s) then Inr s
         else
           let (node, l) = detach_from_list head (slinks s);
               s = s\<lparr>slinks := l\<rparr>;
               sec = sec_of node;
               b = sbegin (sects s sec);
               e = send (sects s sec)
           in rbind (pg_vm (drop_range (range_fuel b e) pd b e) s) (\<lambda>s.
              rbind (pg_kfree sec s) (\<lambda>s. free_sections_loop n pd s)))"

definition free_sections :: "nat \<Rightarrow> pgdir \<Rightarrow> pgst \<Rightarrow> (pgdir \<times> pgst) res" where
  "free_sections n pd s =
     rbind (acquire_spinlock (pd_lock pd)) (\<lambda>l.
       let pd = pd\<lparr>pd_lock := l\<rparr>
       in rbind (free_sections_loop n pd s) (\<lambda>s.
          rbind (pg_vm (drop_page pd STACK_TOP) s) (\<lambda>s.
            Inr (pd\<lparr>pd_lock := release_spinlock (pd_lock pd)\<rparr>, s))))"

text \<open>\<^verbatim>\<open>recycle_sec_page\<close>: the loop condition is \<^verbatim>\<open>i <= end_pd_addr\<close>.\<close>

fun recycle_loop :: "nat \<Rightarrow> pgdir \<Rightarrow> u64 \<Rightarrow> u64 \<Rightarrow> vmem \<Rightarrow> vmem res" where
  "recycle_loop 0 pd i fin s = Inl Spin"
| "recycle_loop (Suc n) pd i fin s =
     (if \<not> i \<le> fin then Inr s
      else rbind (drop_page pd i s) (\<lambda>s. recycle_loop n pd (i + of_nat PAGE_SIZE) fin s))"

definition recycle_sec_page :: "pgdir \<Rightarrow> u64 \<Rightarrow> u64 \<Rightarrow> vmem \<Rightarrow> vmem res" where
  "recycle_sec_page pd cur_end pre_end s =
     (let first = PAGE_BASE (cur_end + of_nat PAGE_SIZE - 1);
          fin = PAGE_BASE (pre_end - 1)
      in recycle_loop ((unat fin - unat first) div PAGE_SIZE + 2) pd first fin s)"

text \<open>\<^verbatim>\<open>sbrk\<close>; the argument is a signed 64-bit number and the result an unsigned one.\<close>

definition sbrk :: "pgdir \<Rightarrow> u64 \<Rightarrow> pgst \<Rightarrow> (u64 \<times> pgdir \<times> pgst) res" where
  "sbrk pd sz s =
     (if sint sz mod int PAGE_SIZE \<noteq> 0 then Inl Panic
      else
        rbind (acquire_spinlock (pd_lock pd)) (\<lambda>l.
          let pd = pd\<lparr>pd_lock := l\<rparr>;
              heap = nth_section 3 (section_head pd) s;
              old = send (sects s heap);
              s = set_sect heap (\<lambda>c. c\<lparr>send := send c + sz\<rparr>) s;
              unlocked = (\<lambda>pd. pd\<lparr>pd_lock := release_spinlock (pd_lock pd)\<rparr>)
          in if 0 \<le> sint sz then Inr (old, unlocked pd, s)
             else if send (sects s heap) < sbegin (sects s heap) then Inr (- 1, unlocked pd, s)
             else rbind (pg_vm (recycle_sec_page pd (send (sects s heap)) old) s) (\<lambda>s. Inr (old, unlocked pd, s))))"

section \<open>Page directories\<close>

definition init_pgdir :: "pgdir \<Rightarrow> pgst \<Rightarrow> (pgdir \<times> pgst) res" where
  "init_pgdir pd s =
     rbind (vm_kalloc_page (vm s)) (\<lambda>(t, v).
       let pd = pd\<lparr>pt := t, pd_lock := init_spinlock\<rparr>;
           s = s\<lparr>vm := page_zero t v, slinks := init_list_node (section_head pd) (slinks s)\<rparr>
       in rbind (init_sections (section_head pd) s) (\<lambda>s. Inr (pd, s)))"

text \<open>
  The three nested loops of \<^verbatim>\<open>free_pgdir\<close>: a table of level \<^verbatim>\<open>d\<close> is freed after the tables it refers to; the pages that the tables
  of level 0 refer to are not freed.
\<close>

fun fold_res :: "('a \<Rightarrow> 's \<Rightarrow> 's res) \<Rightarrow> 'a list \<Rightarrow> 's \<Rightarrow> 's res" where
  "fold_res f [] s = Inr s"
| "fold_res f (x # xs) s = rbind (f x s) (fold_res f xs)"

lemma fold_res_cong [fundef_cong]:
  assumes "xs = ys" and "s = t" and "\<And>x s. x \<in> set ys \<Longrightarrow> f x s = g x s"
  shows "fold_res f xs s = fold_res g ys t"
proof -
  have "fold_res f ys s = fold_res g ys s" for s
    using assms(3)
  proof (induction ys arbitrary: s)
    case (Cons y ys)
    then show ?case by (cases "g y s") (auto)
  qed simp
  then show ?thesis using assms(1,2) by simp
qed

fun free_tables :: "nat \<Rightarrow> addr \<Rightarrow> vmem \<Rightarrow> vmem res" where
  "free_tables 0 t s = vm_kfree_page t s"
| "free_tables (Suc d) t s =
     rbind (fold_res (\<lambda>i s. if is_invalid_pte (ptw s (t + 8 * i)) then Inr s
                            else free_tables d (pte_page (ptw s (t + 8 * i))) s) [0..<512] s) (\<lambda>s.
       vm_kfree_page t s)"

definition free_pgdir :: "nat \<Rightarrow> pgdir \<Rightarrow> pgst \<Rightarrow> (pgdir \<times> pgst) res" where
  "free_pgdir n pd s =
     rbind (free_sections n pd s) (\<lambda>(pd, s).
       if pt pd = 0 then Inr (pd, s)
       else rbind (pg_vm (free_tables 3 (pt pd)) s) (\<lambda>s. Inr (pd\<lparr>pt := 0\<rparr>, s)))"

end
