(* ===== verification/Pt_Props.thy ===== *)
theory Pt_Props
  imports Pt
begin

text \<open>
  Properties of the page tables of \<^verbatim>\<open>Pt\<close>: what \<^verbatim>\<open>get_pte\<close> finds after \<^verbatim>\<open>vmmap\<close>, the life of the pages that are mapped,
  and what \<^verbatim>\<open>copyout\<close> writes.
\<close>

section \<open>Lookup\<close>

text \<open>The entry that \<^verbatim>\<open>get_pte\<close> finds for an address, zero when it returns the null pointer.\<close>

definition lookup_pte :: "pgdir \<Rightarrow> u64 \<Rightarrow> vmem \<Rightarrow> u64" where
  "lookup_pte pd va s = (case get_pte pd va False s of Inr (Some a, _, s) \<Rightarrow> ptw s a | _ \<Rightarrow> 0)"

lemma lookup_leaf: "pt pd \<noteq> 0 \<Longrightarrow> lookup_pte pd va s = leaf (ptw s) (pt pd) (pidx va)"
  by (simp add: lookup_pte_def get_pte_False leaf_def split: option.split)

text \<open>C34: \<^verbatim>\<open>vmmap\<close> of a page to which the caller holds a reference returns whenever three pages are left for
  tables. Afterwards \<^verbatim>\<open>get_pte\<close> finds the new entry at every address with the same four table indices and what it found
  before at all others; and the invariant holds again: the tables are a tree of pages that are not free, and no
  page that is mapped or referenced elsewhere is free.\<close>

theorem vmmap_maps_page:
  assumes "vm_inv E (pt pd) s" and "room 3 s" and "pt pd \<noteq> 0"
    and "kpage ka" "1 \<le> E ka" "\<And>q. vpath q \<Longrightarrow> tpath (ptw s) (pt pd) q \<noteq> Some ka"
    and "flags AND NOT 0xFFFF000000000FFF = 0" "valid_pte flags"
  shows "\<exists>s'. vmmap pd va ka flags s = Inr (pd, s') \<and> vm_inv E (pt pd) s' \<and>
    (\<forall>va'. lookup_pte pd va' s' = (if pidx va' = pidx va then of_nat (K2P ka) OR flags else lookup_pte pd va' s)) \<and>
    (\<forall>va'. valid_pte (lookup_pte pd va' s') \<longrightarrow> pte_page (lookup_pte pd va' s') \<notin> fpages s')"
proof -
  obtain s' where s': "vmmap pd va ka flags s = Inr (pd, s')" "vm_inv E (pt pd) s'"
    "\<forall>x\<in>vslot. leaf (ptw s') (pt pd) x = (if x = pidx va then of_nat (K2P ka) OR flags else leaf (ptw s) (pt pd) x)"
    using vmmap_spec [OF assms] by blast
  then show ?thesis using mapped_not_free [OF s'(2) pidx_vslot] by (simp add: lookup_leaf [OF assms(3)])
qed

text \<open>A page table without entries, five free pages and a page with one reference.\<close>

definition demo_vm :: vmem where
  "demo_vm = \<lparr>vheap = one_page_heap\<lparr>free_pages := [P2K 0x100000, P2K 0x101000, P2K 0x102000, P2K 0x103000, P2K 0x104000],
     page_ref := (\<lambda>i. if i = 0x300 then 1 else 0)\<rparr>, ptw = (\<lambda>_. 0), ubyte = (\<lambda>_. 0), ttbr0 = 0\<rparr>"

definition demo_pd :: pgdir where
  "demo_pd = \<lparr>pt = P2K 0x200000, pd_lock = False, section_head = 1\<rparr>"

lemma tpath_zero: "tpath (\<lambda>_. 0) r q = (if q = [] then Some r else None)"
  by (cases q) (auto simp: is_table_def PTE_TABLE_def)

lemma kpage_P2K: "n mod 4096 = 0 \<Longrightarrow> n < PHYSTOP \<Longrightarrow> kpage (P2K n)"
  by (auto simp: kpage_def P2K_def PHYSTOP_def KSPACE_MASK_def PAGE_SIZE_def mod_eq_0_iff_dvd)

lemma K2P_P2K: "n < PHYSTOP \<Longrightarrow> K2P (P2K n) = n"
  by (simp add: K2P_def P2K_def PHYSTOP_def KSPACE_MASK_def)

lemma demo_vm_inv: "vm_inv ((\<lambda>_. 0)(P2K 0x300000 := 1)) (pt demo_pd) demo_vm"
proof -
  have k: "kpage (P2K 0x200000)" by (simp add: kpage_P2K PHYSTOP_def)
  have w: "ptw demo_vm = (\<lambda>_. 0)" and r: "pt demo_pd = P2K 0x200000" by (simp_all add: demo_vm_def demo_pd_def)
  have f: "fpages demo_vm = {P2K 0x100000, P2K 0x101000, P2K 0x102000, P2K 0x103000, P2K 0x104000}" by (simp add: demo_vm_def)
  have "tree_ok (\<lambda>_. 0) (P2K 0x200000) (fpages demo_vm)"
    using k by (auto simp: tree_ok_def tpath_zero f P2K_def KSPACE_MASK_def split: if_splits)
  moreover have "pages_inv demo_vm"
    by (auto simp: pages_inv_def f pref_def kpage_P2K K2P_P2K PHYSTOP_def PAGE_SIZE_def)
       (auto simp: demo_vm_def P2K_def KSPACE_MASK_def)
  moreover have "leaf (\<lambda>_. 0) root x = 0" for root x by (simp add: leaf_def split: option.split)
  moreover have "0 \<le> pref demo_vm p" "pref demo_vm (P2K 0x300000) = 1" for p
    by (simp_all add: pref_def demo_vm_def K2P_P2K PHYSTOP_def PAGE_SIZE_def)
  ultimately show ?thesis by (auto simp: vm_inv_def w r mapset_def)
qed

lemma demo_room: "room 3 demo_vm" "room 4 demo_vm" "room 5 demo_vm"
  by (simp_all add: room_def demo_vm_def one_page_heap_def MY_PAGE_COUNT_def PHYSTOP_def PAGE_SIZE_def)

lemma demo_pd_pt: "pt demo_pd \<noteq> 0"
  by (simp add: demo_pd_def P2K_def KSPACE_MASK_def)

lemma user_flags: "(PTE_USER_DATA OR PTE_VALID OR PTE_RW) AND NOT 0xFFFF000000000FFF = 0" "valid_pte (PTE_USER_DATA OR PTE_VALID OR PTE_RW)"
  by (simp_all add: PTE_USER_DATA_def PTE_VALID_def PTE_RW_def PTE_USER_def PTE_NORMAL_def PTE_PAGE_def valid_pte_def)

theorem vmmap_maps_page_witness:
  "\<exists>s'. vmmap demo_pd 0x8000 (P2K 0x300000) (PTE_USER_DATA OR PTE_VALID OR PTE_RW) demo_vm = Inr (demo_pd, s') \<and>
    lookup_pte demo_pd 0x8000 s' = of_nat (K2P (P2K 0x300000)) OR (PTE_USER_DATA OR PTE_VALID OR PTE_RW)"
proof -
  have "tpath (ptw demo_vm) (pt demo_pd) q \<noteq> Some (P2K 0x300000)" for q
    by (auto simp: demo_vm_def demo_pd_def tpath_zero P2K_def KSPACE_MASK_def)
  then show ?thesis
    using vmmap_maps_page [OF demo_vm_inv demo_room(1) demo_pd_pt _ _ _ user_flags, where ka = "P2K 0x300000" and va = "0x8000"]
    by (auto simp: kpage_P2K PHYSTOP_def)
qed

section \<open>The life of a user page\<close>

text \<open>C35: A page that is allocated by \<^verbatim>\<open>kalloc_page\<close> and mapped by \<^verbatim>\<open>vmmap\<close>, as \<^verbatim>\<open>copyout\<close>, \<^verbatim>\<open>mmap_handler\<close> and the page fault
  handler do, has two references. \<^verbatim>\<open>uvmunmap\<close> drops only one of them: afterwards the page is mapped nowhere and is
  not among the free pages, so that no later unmapping returns it.\<close>

theorem user_page_leaks:
  assumes inv: "vm_inv (\<lambda>_. 0) (pt pd) s" and r: "room 4 s" and pd: "pt pd \<noteq> 0"
    and fl: "flags AND NOT 0xFFFF000000000FFF = 0" "valid_pte flags"
    and va: "va mod of_nat PAGE_SIZE = 0" "va < va + of_nat PAGE_SIZE"
  shows "\<exists>p s1 s2 s3. vm_kalloc_page s = Inr (p, s1) \<and> vmmap pd va p flags s1 = Inr (pd, s2) \<and>
    uvmunmap pd va 1 True s2 = Inr s3 \<and> p \<in> fpages s \<and> p \<notin> fpages s3 \<and>
    (\<forall>va'. valid_pte (lookup_pte pd va' s3) \<longrightarrow> pte_page (lookup_pte pd va' s3) \<noteq> p)"
proof -
  have r': "room (Suc 3) s" using r by (simp add: eval_nat_numeral)
  obtain p s1 where p: "vm_kalloc_page s = Inr (p, s1)" "p \<in> fpages s" "kpage p" "vm_inv ((\<lambda>_. 0)(p := 1)) (pt pd) s1" "room 3 s1"
    "\<forall>q. vpath q \<longrightarrow> tpath (ptw s1) (pt pd) q = tpath (ptw s) (pt pd) q"
    "\<forall>x\<in>vslot. leaf (ptw s1) (pt pd) x = leaf (ptw s) (pt pd) x" "mapset s (pt pd) p = {}"
    "\<forall>q. vpath q \<longrightarrow> tpath (ptw s) (pt pd) q \<noteq> Some p"
    using vm_kalloc_page_inv [OF inv r'] by blast
  have nt: "tpath (ptw s1) (pt pd) q \<noteq> Some p" if "vpath q" for q using p(6,9) that by simp
  obtain s2 where s2: "vmmap pd va p flags s1 = Inr (pd, s2)" "vm_inv ((\<lambda>_. 0)(p := 1)) (pt pd) s2"
    "\<forall>x\<in>vslot. leaf (ptw s2) (pt pd) x = (if x = pidx va then of_nat (K2P p) OR flags else leaf (ptw s1) (pt pd) x)"
    using vmmap_spec [OF p(4,5) pd p(3) _ nt fl, of va] by auto
  have "valid_pte (of_nat (K2P p) OR flags)" using fl(2) by (simp add: valid_pte_def bit.conj_disj_distrib2 or_eq_0_iff)
  then have "valid_pte (leaf (ptw s2) (pt pd) (pidx va))" using s2(3) by simp
  from uvmunmap_page_spec [OF s2(2) pd va this]
  obtain s3 where s3: "uvmunmap pd va 1 True s2 = Inr s3" "vm_inv ((\<lambda>_. 0)(p := 1)) (pt pd) s3"
    "\<forall>x\<in>vslot. leaf (ptw s3) (pt pd) x = (if x = pidx va then 0 else leaf (ptw s2) (pt pd) x)" by blast
  have "p \<notin> fpages s3" using p(3) by (intro in_use_not_free [OF s3(2)]) simp_all
  moreover have "pte_page (leaf (ptw s3) (pt pd) x) \<noteq> p" if "x \<in> vslot" "valid_pte (leaf (ptw s3) (pt pd) x)" for x
  proof -
    have "leaf (ptw s3) (pt pd) x = (if x = pidx va then 0 else leaf (ptw s) (pt pd) x)" using that(1) s3(3) s2(3) p(7) by simp
    moreover have "x \<notin> mapset s (pt pd) p" using p(8) by simp
    ultimately show ?thesis using that by (auto simp: mapset_def split: if_splits)
  qed
  ultimately show ?thesis using p(1,2) s2(1) s3(1) by (auto simp: lookup_leaf [OF pd])
qed

theorem user_page_leaks_witness:
  "\<exists>p s1 s2 s3. vm_kalloc_page demo_vm = Inr (p, s1) \<and>
    vmmap demo_pd 0x8000 p (PTE_USER_DATA OR PTE_VALID OR PTE_RW) s1 = Inr (demo_pd, s2) \<and>
    uvmunmap demo_pd 0x8000 1 True s2 = Inr s3 \<and> p \<in> fpages demo_vm \<and> p \<notin> fpages s3"
proof -
  have "vm_inv (\<lambda>_. 0) (pt demo_pd) demo_vm" using demo_vm_inv by (force simp: vm_inv_def)
  from user_page_leaks [OF this demo_room(2) demo_pd_pt user_flags, where va = "0x8000"]
  show ?thesis by (auto simp: PAGE_SIZE_def)
qed

section \<open>Copying to user memory\<close>

lemma PAGE_BASE_shift: "PAGE_BASE a = push_bit 12 (drop_bit 12 a)"
proof -
  have "(0xFFF :: u64) = mask 12" by (simp add: mask_eq_exp_minus_1)
  then show ?thesis
    by (simp add: PAGE_BASE_def bit_eq_iff bit_simps) auto
qed

lemma unat_PAGE_BASE: "unat (PAGE_BASE a) = unat a - unat a mod 4096"
proof -
  have "PAGE_BASE a = a - take_bit 12 a" using bits_ident [of 12 a] by (simp add: PAGE_BASE_shift algebra_simps)
  moreover have u: "unat (take_bit 12 a) = unat a mod 4096" by (simp add: take_bit_eq_mod unat_mod_distrib)
  moreover have "take_bit 12 a \<le> a" by (simp add: word_le_nat_alt u)
  ultimately show ?thesis by (simp add: unat_sub)
qed

lemma PAGE_BASE_eq_iff: "PAGE_BASE a = PAGE_BASE b \<longleftrightarrow> unat a div 4096 = unat b div 4096"
proof -
  have "unat a - unat a mod 4096 = unat a div 4096 * 4096" for a :: u64 by (simp add: minus_mod_eq_div_mult)
  then show ?thesis by (simp add: word_unat_eq_iff unat_PAGE_BASE)
qed

lemma entry_frame:
  assumes "e AND 0xFFFF000000000000 = 0"
  shows "P2K (unat (e AND 0xfffffffffffff000)) = pte_page e"
proof -
  have "(0xfffffffffffff000 :: u64) = NOT 0xFFFF000000000FFF OR 0xFFFF000000000000" by simp
  then have "e AND 0xfffffffffffff000 = PTE_ADDRESS e"
    unfolding PTE_ADDRESS_def using assms by (simp only: bit.conj_disj_distrib or.right_neutral)
  then show ?thesis by (simp add: pte_page_def)
qed

text \<open>One round of the loop on an address that is mapped.\<close>

lemma copyout_loop_mapped:
  assumes pd: "pt pd \<noteq> 0" and va: "va < va_end" and e: "valid_pte (lookup_pte pd va s)" "lookup_pte pd va s AND 0xFFFF000000000000 = 0"
    and c: "n = (if PAGE_BASE va = PAGE_BASE va_end then length src - copied else PAGE_SIZE - unat va mod PAGE_SIZE)"
      "copied + n \<le> length src" and k: "kpage (pte_page (lookup_pte pd va s))"
  shows "copyout_loop (Suc m) pd va va_end src copied s =
    (let ka = pte_page (lookup_pte pd va s) + unat va mod PAGE_SIZE;
         s' = s\<lparr>ubyte := (\<lambda>a. if ka \<le> a \<and> a < ka + n then src ! (copied + (a - ka)) else ubyte s a)\<rparr>
     in copyout_loop m pd (PAGE_BASE (va + of_nat PAGE_SIZE)) va_end src
          (if PAGE_BASE va = PAGE_BASE va_end then length src else copied + unat va mod PAGE_SIZE) s')"
proof -
  let ?e = "lookup_pte pd va s"
  obtain t where t: "tpath (ptw s) (pt pd) (fst (pidx va)) = Some t"
    using e(1) by (cases "tpath (ptw s) (pt pd) (fst (pidx va))") (auto simp: lookup_leaf [OF pd] leaf_def)
  have pte: "ptw s (t + 8 * snd (pidx va)) = ?e" using t by (simp add: lookup_leaf [OF pd] leaf_def)
  have off: "(pte_page ?e + unat va mod PAGE_SIZE) mod PAGE_SIZE = unat va mod PAGE_SIZE"
    using k mod_page_add(1) [of "pte_page ?e" "unat va mod PAGE_SIZE"] by (simp add: kpage_def PAGE_SIZE_def)
  show ?thesis
    using va e(1) c
    by (cases "PAGE_BASE va = PAGE_BASE va_end")
       (simp_all add: get_pte_False [OF pd] t pte entry_frame [OF e(2)] off copy_in_def Let_def)
qed

lemma next_page:
  assumes "unat va + 4096 < 2 ^ 64"
  shows "unat (PAGE_BASE (va + of_nat PAGE_SIZE)) = (unat va div 4096 + 1) * 4096"
proof -
  have "unat (va + 0x1000) = unat va + 4096" using assms by (simp add: unat_word_ariths)
  then have "unat (PAGE_BASE (va + of_nat PAGE_SIZE)) = unat va + 4096 - (unat va + 4096) mod 4096"
    by (simp add: unat_PAGE_BASE PAGE_SIZE_def)
  also have "\<dots> = (unat va + 4096) div 4096 * 4096" by (rule minus_mod_eq_div_mult)
  also have "(unat va + 4096) div 4096 = unat va div 4096 + 1" by (rule div_add_self2) simp
  finally show ?thesis .
qed

lemma copyout_loop_done: "\<not> va < va_end \<Longrightarrow> copyout_loop (Suc n) pd va va_end src c s = Inr (pd, s)"
  by simp

text \<open>\<^verbatim>\<open>copyout\<close> of bytes that end before the end of the page of \<^verbatim>\<open>va\<close>, which is mapped, returns zero and writes them at
  the place in the frame that \<^verbatim>\<open>va\<close> is mapped to; it changes no other byte and no page table.\<close>

theorem copyout_one_page:
  assumes pd: "pt pd \<noteq> 0" and e: "valid_pte (lookup_pte pd va s)" "lookup_pte pd va s AND 0xFFFF000000000000 = 0"
      "kpage (pte_page (lookup_pte pd va s))"
    and src: "src \<noteq> []" "unat va mod 4096 + length src < 4096" "unat va + 8192 < 2 ^ 64"
  shows "\<exists>s'. copyout pd va src s = Inr (0, pd, s') \<and> ptw s' = ptw s \<and>
    (\<forall>a. ubyte s' a = (let ka = pte_page (lookup_pte pd va s) + unat va mod 4096
       in if ka \<le> a \<and> a < ka + length src then src ! (a - ka) else ubyte s a))"
proof -
  let ?fin = "va + of_nat (length src)"
  have l: "length src < 4096" using src(2) by simp
  have ue: "unat ?fin = unat va + length src" using src(3) l by (simp add: unat_word_ariths unat_of_nat)
  have div: "unat ?fin div 4096 = unat va div 4096"
  proof -
    have "(unat va + length src) div 4096 = (unat va div 4096 * 4096 + (unat va mod 4096 + length src)) div 4096" by simp
    also have "\<dots> = unat va div 4096" using src(2) by (subst div_mult_self3) simp_all
    finally show ?thesis by (simp add: ue)
  qed
  have same: "PAGE_BASE va = PAGE_BASE ?fin" using div by (simp add: PAGE_BASE_eq_iff)
  have lt: "va < ?fin" using src(1) by (simp add: word_less_nat_alt ue)
  have "unat ?fin < (unat va div 4096 + 1) * 4096" using div div_less_iff_less_mult [of 4096 "unat ?fin" "unat va div 4096 + 1"] by simp
  then have stop: "\<not> PAGE_BASE (va + of_nat PAGE_SIZE) < ?fin"
    using next_page [of va] src(3) by (simp add: word_less_nat_alt)
  let ?ka = "pte_page (lookup_pte pd va s) + unat va mod PAGE_SIZE"
  define s' where "s' = s\<lparr>ubyte := (\<lambda>a. if ?ka \<le> a \<and> a < ?ka + length src then src ! (0 + (a - ?ka)) else ubyte s a)\<rparr>"
  have fuel: "length src div PAGE_SIZE + 3 = Suc (Suc 1)" using l by (simp add: PAGE_SIZE_def)
  have "copyout_loop (Suc (Suc 1)) pd va ?fin src 0 s =
      copyout_loop (Suc 1) pd (PAGE_BASE (va + of_nat PAGE_SIZE)) ?fin src (length src) s'"
    using copyout_loop_mapped [OF pd lt e(1,2) _ _ e(3), of "length src" src 0 "Suc 1"]
    unfolding Let_def if_P [OF same] s'_def [symmetric] by simp
  also have "\<dots> = Inr (pd, s')" by (rule copyout_loop_done [OF stop])
  finally have "copyout pd va src s = Inr (0, pd, s')" unfolding copyout_def fuel by simp
  then show ?thesis by (simp add: s'_def Let_def PAGE_SIZE_def)
qed

text \<open>A page table that maps the pages \<^verbatim>\<open>0x8000\<close> and \<^verbatim>\<open>0x9000\<close> for the user.\<close>

definition demo_vm2 :: vmem where
  "demo_vm2 = demo_vm\<lparr>ptw := (\<lambda>_. 0)(P2K 0x200000 := 0x201003, P2K 0x201000 := 0x202003, P2K 0x202000 := 0x203003,
     P2K 0x203000 + 64 := 0x300647, P2K 0x203000 + 72 := 0x301647)\<rparr>"

lemma demo_vm2_lookup: "lookup_pte demo_pd 0x8010 demo_vm2 = 0x300647" "lookup_pte demo_pd 0x8000 demo_vm2 = 0x300647"
  "lookup_pte demo_pd 0x9000 demo_vm2 = 0x301647"
  by (simp_all add: lookup_leaf demo_pd_pt leaf_def pidx_def pt_index_def demo_pd_def demo_vm2_def P2K_def KSPACE_MASK_def
      is_table_def PTE_TABLE_def pte_page_def PTE_ADDRESS_def)

lemma demo_entry: "pte_page 0x300647 = P2K 0x300000" "pte_page 0x301647 = P2K 0x301000" "valid_pte 0x300647" "valid_pte 0x301647"
  by (simp_all add: pte_page_def PTE_ADDRESS_def valid_pte_def PTE_VALID_def)

theorem copyout_one_page_witness:
  "\<exists>s'. copyout demo_pd 0x8010 [1, 2, 3] demo_vm2 = Inr (0, demo_pd, s') \<and> ubyte s' (P2K 0x300000 + 17) = 2"
  using copyout_one_page [OF demo_pd_pt, of "0x8010" demo_vm2 "[1, 2, 3]"]
  by (auto simp: demo_vm2_lookup demo_entry kpage_P2K PHYSTOP_def Let_def)

text \<open>\<^verbatim>\<open>copyout\<close> of more than a page to a page boundary goes wrong: after the first page it goes on reading at the
  beginning of the source, since it adds the offset in the page and not the number of bytes copied. So the second page
  is filled with the bytes that belong to the first one.\<close>

theorem copyout_repeats_first_page:
  assumes pd: "pt pd \<noteq> 0" and va: "unat va mod 4096 = 0" "unat va + 12288 < 2 ^ 64"
    and e: "valid_pte (lookup_pte pd va s)" "lookup_pte pd va s AND 0xFFFF000000000000 = 0" "kpage (pte_page (lookup_pte pd va s))"
    and f: "valid_pte (lookup_pte pd (va + 0x1000) s)" "lookup_pte pd (va + 0x1000) s AND 0xFFFF000000000000 = 0"
      "kpage (pte_page (lookup_pte pd (va + 0x1000) s))"
    and src: "4096 < length src" "length src < 8192"
  shows "\<exists>s'. copyout pd va src s = Inr (0, pd, s') \<and>
    (\<forall>k<length src. ubyte s' (pte_page (lookup_pte pd (va + 0x1000) s) + k) = src ! k)"
proof -
  let ?fin = "va + of_nat (length src)" and ?va2 = "va + 0x1000"
  have ue: "unat ?fin = unat va + length src" and u2: "unat ?va2 = unat va + 4096"
    using va(2) src by (simp_all add: unat_word_ariths unat_of_nat)
  obtain v where v: "unat va = 4096 * v" using va(1) by (auto simp: mod_eq_0_iff_dvd)
  have div: "unat ?fin div 4096 = v + 1" "unat va div 4096 = v" "unat ?va2 div 4096 = v + 1" "unat ?va2 mod 4096 = 0"
    using v src by (simp_all add: ue u2)
  have diff: "PAGE_BASE va \<noteq> PAGE_BASE ?fin" and same: "PAGE_BASE ?va2 = PAGE_BASE ?fin"
    using div by (simp_all add: PAGE_BASE_eq_iff)
  have "unat va < unat va + length src" "unat va + 4096 < unat va + length src" using src by linarith+
  then have lt: "va < ?fin" "?va2 < ?fin" by (simp_all only: word_less_nat_alt ue u2)
  have n1: "PAGE_BASE (va + of_nat PAGE_SIZE) = ?va2"
    using next_page [of va] va(2) div(2) by (simp add: word_unat_eq_iff u2 v)
  have stop: "\<not> PAGE_BASE (?va2 + of_nat PAGE_SIZE) < ?fin"
    using next_page [of ?va2] va(2) div(3) src by (simp add: word_less_nat_alt ue u2 v)
  let ?p1 = "pte_page (lookup_pte pd va s)" and ?p2 = "pte_page (lookup_pte pd ?va2 s)"
  define s1 where "s1 = s\<lparr>ubyte := (\<lambda>a. if ?p1 + 0 \<le> a \<and> a < ?p1 + 0 + PAGE_SIZE then src ! (0 + (a - (?p1 + 0))) else ubyte s a)\<rparr>"
  have l1: "lookup_pte pd x s1 = lookup_pte pd x s" for x by (simp add: lookup_leaf [OF pd] s1_def)
  define s2 where "s2 = s1\<lparr>ubyte := (\<lambda>a. if ?p2 + 0 \<le> a \<and> a < ?p2 + 0 + length src then src ! (0 + (a - (?p2 + 0))) else ubyte s1 a)\<rparr>"
  have m: "unat va mod PAGE_SIZE = 0" "unat ?va2 mod PAGE_SIZE = 0" using va(1) div(4) by (simp_all add: PAGE_SIZE_def)
  have "copyout_loop (Suc (Suc (Suc 1))) pd va ?fin src 0 s = copyout_loop (Suc (Suc 1)) pd ?va2 ?fin src 0 s1"
    using copyout_loop_mapped [OF pd lt(1) e(1,2) _ _ e(3), of PAGE_SIZE src 0 "Suc (Suc 1)"] src
    unfolding Let_def if_not_P [OF diff] m n1 s1_def [symmetric] by (simp add: PAGE_SIZE_def)
  also have "\<dots> = copyout_loop (Suc 1) pd (PAGE_BASE (?va2 + of_nat PAGE_SIZE)) ?fin src (length src) s2"
    using copyout_loop_mapped [OF pd lt(2), of s1 "length src" src 0 "Suc 1"] f
    unfolding Let_def l1 if_P [OF same] m s2_def [symmetric] by simp
  also have "\<dots> = Inr (pd, s2)" by (rule copyout_loop_done [OF stop])
  finally have loop: "copyout_loop (Suc (Suc (Suc 1))) pd va ?fin src 0 s = Inr (pd, s2)" .
  have fuel: "length src div PAGE_SIZE + 3 = Suc (Suc (Suc 1))" using src by (simp add: PAGE_SIZE_def)
  have "copyout pd va src s = Inr (0, pd, s2)" unfolding copyout_def fuel loop by simp
  then show ?thesis by (simp add: s2_def)
qed

theorem copyout_repeats_first_page_witness:
  "\<exists>s'. copyout demo_pd 0x8000 (replicate 4096 1 @ [2, 3]) demo_vm2 = Inr (0, demo_pd, s') \<and> ubyte s' (P2K 0x301000) = 1"
proof -
  let ?src = "replicate 4096 1 @ [2, 3] :: u8 list"
  have "\<exists>s'. copyout demo_pd 0x8000 ?src demo_vm2 = Inr (0, demo_pd, s') \<and> (\<forall>k<length ?src. ubyte s' (P2K 0x301000 + k) = ?src ! k)"
    using copyout_repeats_first_page [OF demo_pd_pt, of "0x8000" demo_vm2 ?src]
    by (simp add: demo_vm2_lookup demo_entry kpage_P2K PHYSTOP_def)
  then obtain s' where s': "copyout demo_pd 0x8000 ?src demo_vm2 = Inr (0, demo_pd, s')"
    "\<forall>k<length ?src. ubyte s' (P2K 0x301000 + k) = ?src ! k" by blast
  have "ubyte s' (P2K 0x301000 + 0) = ?src ! 0" using s'(2) by (intro s'(2) [rule_format]) simp
  then show ?thesis using s'(1) by (auto simp: nth_append)
qed

end
