(* ===== verification/Paging_Props.thy ===== *)
theory Paging_Props
  imports Paging Pt_Props
begin

text \<open>
  Properties of the sections and page directories of \<^verbatim>\<open>Paging\<close>: which pages the release of an address space gives
  back, and the growth of the heap.
\<close>

section \<open>Giving back pages\<close>

text \<open>Everything of the allocator but its account of pages.\<close>

definition blocks_of :: "heap \<Rightarrow> heap" where
  "blocks_of h = h\<lparr>free_pages := [], page_ref := (\<lambda>_. 0), alloc_page_cnt := 0\<rparr>"

definition same_blocks :: "heap \<Rightarrow> heap \<Rightarrow> bool" where
  "same_blocks h h' \<longleftrightarrow> blocks_of h = blocks_of h'"

lemma same_blocks_refl: "same_blocks h h"
  by (simp add: same_blocks_def)

lemma same_blocks_trans: "same_blocks h h' \<Longrightarrow> same_blocks h' h'' \<Longrightarrow> same_blocks h h''"
  by (simp add: same_blocks_def)

lemma vm_kfree_page_blocks: "vm_kfree_page p s = Inr s' \<Longrightarrow> same_blocks (vheap s) (vheap s')"
  by (auto simp: vm_kfree_page_def kfree_page_def same_blocks_def blocks_of_def Let_def split: if_splits)

lemma kfree_blocks: "kfree p (blocks_of h) = rbind (kfree p h) (\<lambda>h. Inr (blocks_of h))"
proof -
  have hd: "setBlockHeaderWithoutPre a True e (blocks_of h) = blocks_of (setBlockHeaderWithoutPre a True e h)" for a e h
    by (simp add: setBlockHeaderWithoutPre_def set_hdr_def blocks_of_def)
  have sz: "getBlockSize a (blocks_of h) = getBlockSize a h" for a h by (simp add: getBlockSize_def blocks_of_def)
  have ins: "insertToHead i n (blocks_of h) = rbind (insertToHead i n h) (\<lambda>h. Inr (blocks_of h))" for i n h
    by (simp add: insertToHead_def aget_def aset_def blocks_of_def Let_def)
  have "(blocks_of h)\<lparr>mlock := l\<rparr> = blocks_of (h\<lparr>mlock := l\<rparr>)" "mlock (blocks_of h) = mlock h" for h l
    by (simp_all add: blocks_of_def)
  then have lock: "insert_locked i n (blocks_of h) = rbind (insert_locked i n h) (\<lambda>h. Inr (blocks_of h))" for i n h
    by (cases "acquire_spinlock (mlock h)") (auto simp: insert_locked_def ins rbind_assoc)
  have "hdr (blocks_of h) = hdr h" by (simp add: blocks_of_def)
  then show ?thesis by (simp add: kfree_def Let_def hd sz lock)
qed

lemma kfree_same_blocks:
  assumes "kfree p h = Inr h1" and "same_blocks h h'"
  shows "\<exists>h1'. kfree p h' = Inr h1'"
proof -
  have "rbind (kfree p h') (\<lambda>h. Inr (blocks_of h)) = Inr (blocks_of h1)"
    using assms kfree_blocks [of p h] kfree_blocks [of p h'] by (simp add: same_blocks_def)
  then show ?thesis by blast
qed

lemma set_pte_simps [simp]:
  "vheap (set_pte a e s) = vheap s" "ptw (set_pte a e s) = (ptw s)(a := e)" "ubyte (set_pte a e s) = ubyte s"
  "pref (set_pte a e s) = pref s"
  by (simp_all add: set_pte_def pref_def fun_eq_iff)

lemma drop_page_spec:
  assumes inv: "vm_inv E (pt pd) s" and pd: "pt pd \<noteq> 0"
  shows "\<exists>s'. drop_page pd va s = Inr s' \<and> vm_inv E (pt pd) s' \<and> same_blocks (vheap s) (vheap s') \<and>
    (\<forall>x\<in>vslot. x \<noteq> pidx va \<longrightarrow> leaf (ptw s') (pt pd) x = leaf (ptw s) (pt pd) x) \<and>
    \<not> valid_pte (leaf (ptw s') (pt pd) (pidx va))"
proof (cases "valid_pte (leaf (ptw s) (pt pd) (pidx va))")
  case False
  then have "drop_page pd va s = Inr s"
    by (auto simp: drop_page_def get_pte_False [OF pd] leaf_def split: option.split option.splits)
  then show ?thesis using inv False same_blocks_refl by blast
next
  case True
  let ?root = "pt pd" and ?x = "pidx va"
  note I = inv [unfolded vm_inv_def]
  have tree: "tree_ok (ptw s) ?root (fpages s)" using I by blast
  have v: "vpath (fst ?x)" "length (fst ?x) = 3" "snd ?x < 512" using vslotD [OF pidx_vslot, of va] by auto
  obtain t where t: "tpath (ptw s) ?root (fst ?x) = Some t" using True by (cases "tpath (ptw s) ?root (fst ?x)") (auto simp: leaf_def)
  let ?a = "t + 8 * snd ?x" and ?p = "pte_page (leaf (ptw s) ?root ?x)"
  have old: "ptw s ?a = leaf (ptw s) ?root ?x" using t by (simp add: leaf_def)
  have kp: "kpage ?p" using I True by simp
  obtain s1 where s1: "vm_kfree_page ?p s = Inr s1" "ptw s1 = ptw s"
    "\<And>q. kpage q \<Longrightarrow> pref s1 q = pref s q - (if q = ?p then 1 else 0)"
    "free_pages (vheap s1) = (if pref s ?p = 1 then ?p # free_pages (vheap s) else free_pages (vheap s))"
    using vm_kfree_page_spec [OF kp] by blast
  have res: "drop_page pd va s = Inr (set_pte ?a 0 s1)"
    using True s1(1) old t by (simp add: drop_page_def get_pte_False [OF pd])
  have w: "ptw (set_pte ?a 0 s1) = (ptw s)(?a := 0)" by (simp add: s1(2))
  have "vm_inv E ?root (set_pte ?a 0 s1)"
  proof (rule replace_entry_inv [OF inv pidx_vslot t _ w])
    show "distinct (free_pages (vheap (set_pte ?a 0 s1)))"
      using I mapped_not_free [OF inv pidx_vslot True] by (simp add: s1(4) pages_inv_def)
  qed (use True s1(3) in \<open>auto simp: s1(4) gone_def come_def\<close>)
  moreover have "leaf (ptw (set_pte ?a 0 s1)) ?root y = (if y = ?x then 0 else leaf (ptw s) ?root y)" if "y \<in> vslot" for y
    using set_leaf(2) [OF tree t v that, of 0] by (simp add: s1(2))
  moreover have "same_blocks (vheap s) (vheap (set_pte ?a 0 s1))" using vm_kfree_page_blocks [OF s1(1)] by simp
  ultimately show ?thesis using res by auto
qed

lemma pidx_page: "PAGE_BASE a = PAGE_BASE b \<Longrightarrow> pidx a = pidx b"
proof -
  assume "PAGE_BASE a = PAGE_BASE b"
  then have "unat a div 4096 = unat b div 4096" by (simp only: PAGE_BASE_eq_iff)
  then have "drop_bit 12 a = drop_bit 12 b"
    by (simp add: word_unat_eq_iff unat_div_distrib drop_bit_eq_div)
  then have "drop_bit (12 + n) a = drop_bit (12 + n) b" for n by (simp add: add.commute [of 12] flip: drop_bit_drop_bit)
  from this [of 27] this [of 18] this [of 9] this [of 0] show ?thesis by (simp add: pidx_def pt_index_def)
qed

lemma drop_range_spec:
  assumes "vm_inv E (pt pd) s" and pd: "pt pd \<noteq> 0" and e: "unat e + 4096 < 2 ^ 64"
    and "unat e \<le> (unat va div 4096 + n) * 4096"
  shows "\<exists>s'. drop_range (Suc n) pd va e s = Inr s' \<and> vm_inv E (pt pd) s' \<and> same_blocks (vheap s) (vheap s') \<and>
    (\<forall>x\<in>vslot. x \<notin> pidx ` {va..<e} \<longrightarrow> leaf (ptw s') (pt pd) x = leaf (ptw s) (pt pd) x) \<and>
    (\<forall>x\<in>pidx ` {va..<e}. \<not> valid_pte (leaf (ptw s') (pt pd) x))"
  using assms(1,4)
proof (induction n arbitrary: va s)
  case 0
  then have "\<not> va < e" using div_times_less_eq_dividend [of "unat va" 4096] by (simp add: word_less_nat_alt)
  then show ?case using 0(1) same_blocks_refl by auto
next
  case (Suc n)
  show ?case
  proof (cases "va < e")
    case False
    then show ?thesis using Suc.prems(1) same_blocks_refl by auto
  next
    case True
    let ?va = "PAGE_BASE (va + of_nat PAGE_SIZE)"
    have lt: "unat va < unat e" using True by (simp add: word_less_nat_alt)
    have nx: "unat ?va = (unat va div 4096 + 1) * 4096" using next_page [of va] e lt by simp
    obtain s1 where s1: "drop_page pd va s = Inr s1" "vm_inv E (pt pd) s1" "same_blocks (vheap s) (vheap s1)"
      "\<forall>x\<in>vslot. x \<noteq> pidx va \<longrightarrow> leaf (ptw s1) (pt pd) x = leaf (ptw s) (pt pd) x" "\<not> valid_pte (leaf (ptw s1) (pt pd) (pidx va))"
      using drop_page_spec [OF Suc.prems(1) pd] by blast
    have va: "unat va < unat ?va" "unat va div 4096 * 4096 \<le> unat va"
      unfolding nx using mod_less_divisor [of 4096 "unat va"] div_mult_mod_eq [of "unat va" 4096] by simp_all
    have f: "unat e \<le> (unat ?va div 4096 + n) * 4096" unfolding nx using Suc.prems(2) by simp
    obtain s' where s': "drop_range (Suc n) pd ?va e s1 = Inr s'" "vm_inv E (pt pd) s'" "same_blocks (vheap s1) (vheap s')"
      "\<forall>x\<in>vslot. x \<notin> pidx ` {?va..<e} \<longrightarrow> leaf (ptw s') (pt pd) x = leaf (ptw s1) (pt pd) x"
      "\<forall>x\<in>pidx ` {?va..<e}. \<not> valid_pte (leaf (ptw s') (pt pd) x)"
      using Suc.IH [OF s1(2) f] nx by auto
    have D: "pidx ` {va..<e} = insert (pidx va) (pidx ` {?va..<e})"
    proof -
      have "pidx v = pidx va" if "va \<le> v" "\<not> ?va \<le> v" for v
      proof (rule pidx_page)
        show "PAGE_BASE v = PAGE_BASE va" using that va(2) nx unfolding PAGE_BASE_eq_iff word_le_nat_alt
          by (intro div_nat_eqI) auto
      qed
      moreover have "va \<le> ?va" using va(1) by (simp add: word_le_nat_alt)
      ultimately have "v \<in> {va..<e} \<Longrightarrow> pidx v \<in> insert (pidx va) (pidx ` {?va..<e})" for v by force
      then have "pidx ` {va..<e} \<subseteq> insert (pidx va) (pidx ` {?va..<e})" by blast
      moreover have "{?va..<e} \<subseteq> {va..<e}" "va \<in> {va..<e}" using True \<open>va \<le> ?va\<close> by auto
      ultimately show ?thesis by blast
    qed
    have "drop_range (Suc (Suc n)) pd va e s = Inr s'" using True s1(1) s'(1) by (simp del: drop_range.simps add: drop_range.simps(2) [of "Suc n"])
    moreover have "same_blocks (vheap s) (vheap s')" using same_blocks_trans [OF s1(3) s'(3)] .
    moreover have "\<forall>x\<in>vslot. x \<notin> pidx ` {va..<e} \<longrightarrow> leaf (ptw s') (pt pd) x = leaf (ptw s) (pt pd) x"
      unfolding D using s1(4) s'(4) by simp
    moreover have "\<not> valid_pte (leaf (ptw s') (pt pd) (pidx va))"
      using s1(5) s'(4,5) pidx_vslot [of va] by (cases "pidx va \<in> pidx ` {?va..<e}") auto
    ultimately show ?thesis using s'(2,5) unfolding D by blast
  qed
qed

section \<open>Release of the sections\<close>

lemma kfree_pages: "kfree p h = Inr h' \<Longrightarrow> free_pages h' = free_pages h \<and> page_ref h' = page_ref h"
  by (auto simp: kfree_def insert_locked_def insertToHead_def Let_def setBlockHeaderWithoutPre_def set_hdr_def split: if_splits)

lemma vm_inv_cong:
  assumes "ptw s' = ptw s" "free_pages (vheap s') = free_pages (vheap s)" "page_ref (vheap s') = page_ref (vheap s)"
  shows "vm_inv E root s' = vm_inv E root s"
proof -
  have "pref s' = pref s" using assms(3) by (simp add: pref_def fun_eq_iff)
  then show ?thesis using assms by (simp add: vm_inv_def pages_inv_def mapset_def)
qed

text \<open>Detaching the head of a list empties the list and returns the last node.\<close>

lemma detach_head:
  assumes "is_list h l (ns @ [n])"
  shows "fst (detach_from_list l h) = n" and "empty_list l (snd (detach_from_list l h))"
proof -
  have "prv h l = n" using is_list_prev [OF assms] by simp
  moreover have "n \<noteq> l" using assms by (auto simp: is_list_def ring_def)
  ultimately show "fst (detach_from_list l h) = n" by (simp add: detach_from_list_def Let_def)
  show "empty_list l (snd (detach_from_list l h))"
    by (simp add: detach_from_list_def Let_def empty_list_def init_list_node_def)
qed

lemma range_fuel_enough: "unat e \<le> (unat b div 4096 + ((unat e - unat b) div PAGE_SIZE + 2)) * 4096"
proof -
  have "unat b < (unat b div 4096 + 1) * 4096" "unat e - unat b < ((unat e - unat b) div 4096 + 1) * 4096"
    using mod_less_divisor [of 4096] div_mult_mod_eq [of _ 4096] by (metis add.commute add_mult_distrib dividend_less_div_times mult.commute mult_1 zero_less_numeral)+
  then show ?thesis by (simp add: PAGE_SIZE_def)
qed


text \<open>An address space with one mapped page that belongs to the first of two sections.\<close>

definition demo_blocks :: "heap \<Rightarrow> heap" where
  "demo_blocks h = h\<lparr>hdr := (\<lambda>_. \<lparr>endOffsetAndStatus = 80, preBlockOffset = 0, inUse = False\<rparr>),
     hashTable := replicate NUM_ENTRIES 0, mlock := False\<rparr>"

lemma demo_kfree: "\<exists>h1. kfree (P2K 0x400000 + 16) (demo_blocks h) = Inr h1"
proof -
  let ?a = "P2K 0x400000 + 8" and ?h = "demo_blocks h"
  have e: "eo ?h x = 80" for x by (simp add: eo_def getEndOffset_def demo_blocks_def)
  have m: "?a mod PAGE_SIZE = 8" by (simp add: P2K_def KSPACE_MASK_def PAGE_SIZE_def)
  have ok: "blk_ok (eo ?h) ?a" by (simp add: blk_ok_def e m) (simp add: P2K_def KSPACE_MASK_def PAGE_SIZE_def)
  let ?h1 = "setBlockHeaderWithoutPre ?a True (getEndOffset (hdr ?h ?a)) ?h"
  have g: "getEndOffset (hdr ?h ?a) = 80" by (simp add: getEndOffset_eo e)
  have e1: "eo ?h1 = eo ?h" using setBlockHeaderWithoutPre_eo(1) [of 80 ?a True ?h] by (simp add: g e fun_eq_iff)
  have sz: "getBlockSize ?a ?h1 = 72" using getBlockSize_eq [of ?h1 ?a] ok by (simp add: e1 bsize_def e m)
  have "header_of_node (P2K 0x400000 + 16) = ?a" by (simp add: header_of_node_def)
  then show ?thesis using sz
    by (simp add: kfree_def Let_def insert_locked_def insertToHead_def aget_def aset_def setBlockHeaderWithoutPre_def set_hdr_def
        demo_blocks_def NUM_ENTRIES_def)
qed


section \<open>Release of the tables\<close>

text \<open>The tables at and below a path.\<close>

definition subtables :: "(addr \<Rightarrow> u64) \<Rightarrow> addr \<Rightarrow> nat list \<Rightarrow> addr set" where
  "subtables w root p = {b. \<exists>r. vpath (p @ r) \<and> tpath w root (p @ r) = Some b}"

definition entries_ok :: "(addr \<Rightarrow> u64) \<Rightarrow> addr \<Rightarrow> bool" where
  "entries_ok w root \<longleftrightarrow> (\<forall>q b i. vpath (q @ [i]) \<longrightarrow> tpath w root q = Some b \<longrightarrow> is_table (w (b + 8 * i)) \<longrightarrow>
     unat (w (b + 8 * i)) < PHYSTOP)"

lemma subtables_cases:
  assumes "tpath w root p = Some t" and "vpath p" and "length p < 3"
  shows "subtables w root p = insert t (\<Union>i<512. subtables w root (p @ [i]))"
proof (intro set_eqI iffI)
  fix b assume "b \<in> subtables w root p"
  then obtain r where r: "vpath (p @ r)" "tpath w root (p @ r) = Some b" by (auto simp: subtables_def)
  show "b \<in> insert t (\<Union>i<512. subtables w root (p @ [i]))"
  proof (cases r)
    case Nil
    then show ?thesis using r(2) assms(1) by simp
  next
    case (Cons i r')
    then have "i < 512" "vpath ((p @ [i]) @ r')" "tpath w root ((p @ [i]) @ r') = Some b" using r by (auto simp: vpath_def)
    then show ?thesis unfolding subtables_def by blast
  qed
next
  fix b assume b: "b \<in> insert t (\<Union>i<512. subtables w root (p @ [i]))"
  show "b \<in> subtables w root p"
  proof (cases "b = t")
    case True
    then have "vpath (p @ []) \<and> tpath w root (p @ []) = Some b" using assms by simp
    then show ?thesis unfolding subtables_def by blast
  next
    case False
    then obtain i r where "vpath ((p @ [i]) @ r)" "tpath w root ((p @ [i]) @ r) = Some b" using b by (auto simp: subtables_def)
    then have "vpath (p @ i # r) \<and> tpath w root (p @ i # r) = Some b" by simp
    then show ?thesis unfolding subtables_def by blast
  qed
qed

lemma subtables_disjoint:
  assumes "tree_ok w root F" and "b \<in> subtables w root (p @ [i])" and "b \<in> subtables w root (p @ [j])"
  shows "i = j"
proof -
  obtain r r' where "vpath ((p @ [i]) @ r)" "tpath w root ((p @ [i]) @ r) = Some b" "vpath ((p @ [j]) @ r')" "tpath w root ((p @ [j]) @ r') = Some b"
    using assms(2,3) by (auto simp: subtables_def)
  then have "(p @ [i]) @ r = (p @ [j]) @ r'" using assms(1) unfolding tree_ok_def by blast
  then show ?thesis by simp
qed

text \<open>The pages of a set are returned, all others keep their counts.\<close>

definition returned :: "addr set \<Rightarrow> vmem \<Rightarrow> vmem \<Rightarrow> bool" where
  "returned T s s' \<longleftrightarrow> ptw s' = ptw s \<and> fpages s' = fpages s \<union> T \<and> distinct (free_pages (vheap s')) \<and>
     (\<forall>b. kpage b \<longrightarrow> b \<notin> T \<longrightarrow> pref s' b = pref s b)"

definition sole :: "addr set \<Rightarrow> vmem \<Rightarrow> bool" where
  "sole T s \<longleftrightarrow> distinct (free_pages (vheap s)) \<and> (\<forall>b\<in>T. kpage b \<and> pref s b = 1 \<and> b \<notin> fpages s)"

lemma returned_one:
  assumes "sole {t} s"
  shows "\<exists>s'. vm_kfree_page t s = Inr s' \<and> returned {t} s s'"
proof -
  have t: "kpage t" "pref s t = 1" "t \<notin> fpages s" "distinct (free_pages (vheap s))" using assms by (auto simp: sole_def)
  then show ?thesis using vm_kfree_page_spec [OF t(1), of s] by (auto simp: returned_def)
qed

lemma returned_trans:
  assumes "returned T s s'" and "returned T' s' s''"
  shows "returned (T \<union> T') s s''"
  using assms unfolding returned_def by auto

lemma sole_after:
  assumes "sole (T \<union> T') s" and "returned T s s'" and "T \<inter> T' = {}"
  shows "sole T' s'"
proof -
  have "kpage b \<and> pref s' b = 1 \<and> b \<notin> fpages s'" if "b \<in> T'" for b
  proof -
    have "kpage b" "pref s b = 1" "b \<notin> fpages s" "b \<notin> T" using assms(1,3) that by (auto simp: sole_def)
    then show ?thesis using assms(2) by (simp add: returned_def)
  qed
  then show ?thesis using assms(2) by (simp add: sole_def returned_def)
qed

lemma fold_returned:
  assumes step: "\<And>i s. i \<in> set js \<Longrightarrow> ptw s = w \<Longrightarrow> sole (T i) s \<Longrightarrow> \<exists>s'. f i s = Inr s' \<and> returned (T i) s s'"
    and dis: "\<And>i j. i \<in> set js \<Longrightarrow> j \<in> set js \<Longrightarrow> i \<noteq> j \<Longrightarrow> T i \<inter> T j = {}"
    and "distinct js" and "ptw s = w" and "sole (\<Union>i\<in>set js. T i) s"
  shows "\<exists>s'. fold_res f js s = Inr s' \<and> returned (\<Union>i\<in>set js. T i) s s'"
  using assms
proof (induction js arbitrary: s)
  case Nil
  then show ?case by (simp add: returned_def sole_def)
next
  case (Cons i js)
  have "sole (T i) s" using Cons.prems(5) by (auto simp: sole_def)
  then obtain s1 where s1: "f i s = Inr s1" "returned (T i) s s1" using Cons.prems(1,4) by (metis list.set_intros(1))
  have "T i \<inter> T j = {}" if "j \<in> set js" for j using Cons.prems(2) [of i j] Cons.prems(3) that by auto
  then have d: "T i \<inter> (\<Union>j\<in>set js. T j) = {}" by blast
  have "ptw s1 = w" using s1(2) Cons.prems(4) by (simp add: returned_def)
  moreover have "sole (\<Union>j\<in>set js. T j) s1" using Cons.prems(5) by (intro sole_after [OF _ s1(2) d]) simp
  moreover have "distinct js" using Cons.prems(3) by simp
  ultimately obtain s2 where "fold_res f js s1 = Inr s2" "returned (\<Union>j\<in>set js. T j) s1 s2"
    using Cons.IH [of s1] Cons.prems(1,2) by (metis list.set_intros(2))
  then show ?case using s1 returned_trans [OF s1(2)] by auto
qed

lemma free_tables_spec:
  assumes tree: "tree_ok w root F" and ok: "entries_ok w root"
    and "tpath w root p = Some t" "vpath p" "length p + d = 3" and "ptw s = w" "sole (subtables w root p) s"
  shows "\<exists>s'. free_tables d t s = Inr s' \<and> returned (subtables w root p) s s'"
  using assms(3-7)
proof (induction d arbitrary: p t s)
  case 0
  have "subtables w root p = {t}"
    using 0 by (auto simp: subtables_def vpath_def intro: exI [of _ "[]"])
  then show ?case using returned_one 0(5) by simp
next
  case (Suc d)
  let ?sub = "\<lambda>i. subtables w root (p @ [i])"
  let ?f = "\<lambda>i s. if is_invalid_pte (ptw s (t + 8 * i)) then Inr s else free_tables d (pte_page (ptw s (t + 8 * i))) s"
  have split: "subtables w root p = insert t (\<Union>i\<in>set [0..<512]. ?sub i)"
    using Suc.prems(1-3) by (subst subtables_cases) (auto simp: atLeast0LessThan)
  have step: "\<exists>s1. ?f i s0 = Inr s1 \<and> returned (?sub i) s0 s1" if i: "i \<in> set [0..<512]" and s0: "ptw s0 = w" "sole (?sub i) s0" for i s0
  proof (cases "is_table (w (t + 8 * i))")
    case True
    have v: "vpath (p @ [i])" using i Suc.prems(2,3) by (simp add: vpath_snoc)
    have p: "tpath w root (p @ [i]) = Some (pte_page (w (t + 8 * i)))" using True Suc.prems(1) by (simp add: tpath_snoc)
    have "\<not> is_invalid_pte (w (t + 8 * i))"
      using True ok v Suc.prems(1) by (auto simp: is_invalid_pte_def entries_ok_def not_le)
    then show ?thesis using Suc.IH [OF p v _ s0] Suc.prems(3) s0(1) by simp
  next
    case False
    then have "?sub i = {}" using Suc.prems(1) by (auto simp: subtables_def tpath_append)
    then show ?thesis using False s0 by (simp add: is_invalid_pte_def returned_def sole_def)
  qed
  have nt: "t \<notin> (\<Union>i\<in>set [0..<512]. ?sub i)"
  proof
    assume "t \<in> (\<Union>i\<in>set [0..<512]. ?sub i)"
    then obtain i r where "vpath ((p @ [i]) @ r)" "tpath w root ((p @ [i]) @ r) = Some t" by (auto simp: subtables_def)
    then have "(p @ [i]) @ r = p" using tree Suc.prems(1,2) unfolding tree_ok_def by blast
    then show False by simp
  qed
  have so: "sole (\<Union>i\<in>set [0..<512]. ?sub i) s" using Suc.prems(5) unfolding split sole_def by blast
  obtain s1 where s1: "fold_res ?f [0..<512] s = Inr s1" "returned (\<Union>i\<in>set [0..<512]. ?sub i) s s1"
    using fold_returned [OF step _ distinct_upt Suc.prems(4) so] subtables_disjoint [OF tree] by blast
  have "sole {t} s1" using Suc.prems(5) nt unfolding split by (intro sole_after [OF _ s1(2)]) auto
  then obtain s2 where s2: "vm_kfree_page t s1 = Inr s2" "returned {t} s1 s2" using returned_one by blast
  have "returned (insert t (\<Union>i\<in>set [0..<512]. ?sub i)) s s2"
    using returned_trans [OF s1(2) s2(2)] by (simp only: Un_insert_right Un_empty_right)
  moreover have "free_tables (Suc d) t s = Inr s2" unfolding free_tables.simps s1(1) rbind_simps by (rule s2(1))
  ultimately show ?case unfolding split by blast
qed

text \<open>C37: The loops of \<^verbatim>\<open>free_pgdir\<close> free every table of a page directory, each exactly once: when the tables have no reference but
  the one of the directory, the call returns, the free pages are those from before and the tables, without repetition, and no other page
  loses a reference.\<close>

theorem free_tables_returns_all:
  assumes "vm_inv E root s" and "entries_ok (ptw s) root" and "\<forall>b\<in>subtables (ptw s) root []. pref s b = 1"
  shows "\<exists>s'. free_tables 3 root s = Inr s' \<and> fpages s' = fpages s \<union> subtables (ptw s) root [] \<and>
    distinct (free_pages (vheap s')) \<and> (\<forall>b. kpage b \<longrightarrow> b \<notin> subtables (ptw s) root [] \<longrightarrow> pref s' b = pref s b)"
proof -
  have t: "tree_ok (ptw s) root (fpages s)" "distinct (free_pages (vheap s))" using assms(1) by (auto simp: vm_inv_def pages_inv_def)
  then have "sole (subtables (ptw s) root []) s" using assms(3) by (auto simp: sole_def subtables_def tree_ok_def)
  then have "\<exists>s'. free_tables 3 root s = Inr s' \<and> returned (subtables (ptw s) root []) s s'"
    by (intro free_tables_spec [OF t(1) assms(2)]) (simp_all add: vpath_def)
  then show ?thesis by (auto simp: returned_def)
qed

definition demo_vm3 :: vmem where
  "demo_vm3 = demo_vm\<lparr>vheap := (vheap demo_vm)\<lparr>page_ref := (\<lambda>i. if i = 0x200 then 1 else 0)\<rparr>\<rparr>"

theorem free_tables_returns_all_witness:
  "\<exists>s'. free_tables 3 (P2K 0x200000) demo_vm3 = Inr s' \<and> fpages s' = insert (P2K 0x200000) (fpages demo_vm3)"
proof -
  have w: "ptw demo_vm3 = (\<lambda>_. 0)" by (simp add: demo_vm3_def demo_vm_def)
  have sub: "subtables (ptw demo_vm3) (P2K 0x200000) [] = {P2K 0x200000}"
    by (auto simp: subtables_def w tpath_zero vpath_def intro: exI [of _ "[]"] split: if_splits)
  have k: "kpage (P2K 0x200000)" by (simp add: kpage_P2K PHYSTOP_def)
  have f: "fpages demo_vm3 = fpages demo_vm" by (simp add: demo_vm3_def)
  have "tree_ok (ptw demo_vm3) (P2K 0x200000) (fpages demo_vm3)" using demo_vm_inv by (simp add: vm_inv_def w f demo_vm_def demo_pd_def)
  moreover have "pages_inv demo_vm3"
    using demo_vm_inv by (auto simp: vm_inv_def pages_inv_def pref_def demo_vm3_def demo_vm_def K2P_P2K PHYSTOP_def PAGE_SIZE_def)
  moreover have "leaf (\<lambda>_. 0) root x = 0" for root x by (simp add: leaf_def split: option.split)
  moreover have "0 \<le> pref demo_vm3 p" for p by (simp add: pref_def demo_vm3_def)
  ultimately have inv: "vm_inv (\<lambda>_. 0) (P2K 0x200000) demo_vm3" by (auto simp: vm_inv_def w mapset_def)
  have "entries_ok (ptw demo_vm3) (P2K 0x200000)" by (simp add: entries_ok_def w is_table_def PTE_TABLE_def)
  moreover have "pref demo_vm3 (P2K 0x200000) = 1" by (simp add: pref_def demo_vm3_def K2P_P2K PHYSTOP_def PAGE_SIZE_def)
  ultimately show ?thesis using free_tables_returns_all [OF inv] unfolding sub by auto
qed

section \<open>The heap of a process\<close>

text \<open>\<^verbatim>\<open>sbrk\<close> refuses to move the end of the heap below its beginning: it returns -1. But it has moved the end already:
  after the refusal the heap ends before it begins, so that no address of it belongs to the section any more.\<close>

theorem sbrk_refusal_moves_end:
  assumes "\<not> pd_lock pd" and "sint sz mod int PAGE_SIZE = 0" "sint sz < 0"
    and "heap = nth_section 3 (section_head pd) s" and "send (sects s heap) + sz < sbegin (sects s heap)"
  shows "\<exists>s'. sbrk pd sz s = Inr (- 1, pd, s') \<and> vm s' = vm s \<and>
    send (sects s' heap) = send (sects s heap) + sz \<and> \<not> (sbegin (sects s' heap) \<le> va \<and> va < send (sects s' heap))"
proof -
  have "pd\<lparr>pd_lock := False\<rparr> = pd" using assms(1) by simp
  then show ?thesis
    using assms by (auto simp: sbrk_def Let_def set_sect_def release_spinlock_def not_le not_less)
qed

definition demo_pg :: pgst where
  "demo_pg = \<lparr>vm = demo_vm, slinks = \<lparr>prv = (\<lambda>x. x - 100), nxt = (\<lambda>x. x + 100)\<rparr>,
     sects = (\<lambda>_. \<lparr>sflags = ST_HEAP, sbegin = 0x3000, send = 0x4000\<rparr>)\<rparr>"

theorem sbrk_refusal_moves_end_witness:
  "\<exists>s'. sbrk demo_pd (- 0x2000) demo_pg = Inr (- 1, demo_pd, s') \<and>
    send (sects s' (nth_section 3 (section_head demo_pd) demo_pg)) = 0x2000"
  using sbrk_refusal_moves_end [of demo_pd "- 0x2000" _ demo_pg 0, OF _ _ _ refl]
  by (auto simp: demo_pd_def demo_pg_def PAGE_SIZE_def)

end
