(* ===== verification/Ipc.thy ===== *)
theory Ipc
  imports Mem
begin

text \<open>
  Message queues, \<^verbatim>\<open>src/src/common/ipc.c\<close>: the table of queues, sending and receiving of messages with sleeping senders
  and receivers, and the removal of a queue. The three lists of a queue are the pointer lists of \<^verbatim>\<open>Klist\<close>, walked with the
  macro \<^verbatim>\<open>_for_in_list\<close>, so that a node that is detached during a walk has the effect it has in the code. A call that sleeps is
  split there; processes that \<^verbatim>\<open>activate_proc\<close> wakes are recorded in \<^verbatim>\<open>woken\<close>.
\<close>

section \<open>Constants and state\<close>

definition ENOMEM :: int where "ENOMEM = - 1"
definition ENOSEQ :: int where "ENOSEQ = - 2"
definition ENOENT :: int where "ENOENT = - 3"
definition EEXIST :: int where "EEXIST = - 4"
definition EINVAL :: int where "EINVAL = - 5"
definition EAGAIN :: int where "EAGAIN = - 6"
definition EIDRM :: int where "EIDRM = - 7"
definition E2BIG :: int where "E2BIG = - 8"
definition ENOMSG :: int where "ENOMSG = - 9"
definition IPC_RMID :: int where "IPC_RMID = 0"
definition SEQ_MULTIPLIER :: int where "SEQ_MULTIPLIER = 16"
definition IPC_PRIVATE :: int where "IPC_PRIVATE = 0"
definition IPC_CREATE :: u32 where "IPC_CREATE = 2"
definition IPC_EXCL :: u32 where "IPC_EXCL = 1"
definition IPC_NOWAIT :: u32 where "IPC_NOWAIT = 1"
definition MAX_MSGNUM :: int where "MAX_MSGNUM = 256"

text \<open>\<^verbatim>\<open>sizeof(msg_msg)\<close> is 32, \<^verbatim>\<open>sizeof(msg_msgseg)\<close> is 8, \<^verbatim>\<open>sizeof(msg_queue)\<close> is 64.\<close>

definition MSG_MSGSZ :: nat where "MSG_MSGSZ = PAGE_SIZE - 32"
definition MSG_MSGSEGSZ :: nat where "MSG_MSGSEGSZ = PAGE_SIZE - 8"
definition sizeof_msg_queue :: int where "sizeof_msg_queue = 64"

record msg_queue =
  key :: int
  qseq :: int
  max_msg :: int
  sum_msg :: int

definition q_message :: "addr \<Rightarrow> addr" where "q_message q = q + 16"
definition q_sender :: "addr \<Rightarrow> addr" where "q_sender q = q + 32"
definition q_receiver :: "addr \<Rightarrow> addr" where "q_receiver q = q + 48"

text \<open>The node is the first field of a message, a sender and a receiver.\<close>

record msg_msg =
  mtype :: int
  msize :: int
  mnxt :: addr

record msg_receiver =
  rproc :: nat
  rmtype :: int
  rsize :: int
  r_msg :: addr

text \<open>
  \<^verbatim>\<open>mdata\<close> is what has been written to the array \<^verbatim>\<open>data\<close> at the end of the page of a message or a segment, \<^verbatim>\<open>segnxt\<close> the field \<^verbatim>\<open>nxt\<close> of a segment.
\<close>

record ipcst =
  iheap :: heap
  ilinks :: lheap
  ilock :: SpinLock
  in_use :: int
  idseq :: u16
  entries :: "addr list"
  queues :: "addr \<Rightarrow> msg_queue"
  msgs :: "addr \<Rightarrow> msg_msg"
  mdata :: "addr \<Rightarrow> u8 list"
  segnxt :: "addr \<Rightarrow> addr"
  senders :: "addr \<Rightarrow> nat"
  receivers :: "addr \<Rightarrow> msg_receiver"
  woken :: "nat list"

text \<open>The field \<^verbatim>\<open>size\<close> of the table is set once, to the length of \<^verbatim>\<open>entries\<close>.\<close>

definition ipc_size :: nat where "ipc_size = 16"

definition init_ipc :: "ipcst \<Rightarrow> ipcst" where
  "init_ipc s = s\<lparr>ilock := init_spinlock, in_use := 0, idseq := 0, entries := replicate 16 0\<rparr>"

section \<open>The table of queues\<close>

definition ipc_addid :: "addr \<Rightarrow> ipcst \<Rightarrow> int \<times> ipcst" where
  "ipc_addid que s =
     (case find (\<lambda>i. entries s ! i = 0) [0..<ipc_size] of
        None \<Rightarrow> (- 1, s)
      | Some i \<Rightarrow>
          (int i, s\<lparr>in_use := in_use s + 1, queues := (queues s)(que := (queues s que)\<lparr>qseq := uint (idseq s)\<rparr>),
                    idseq := idseq s + 1, entries := (entries s)[i := que]\<rparr>))"

definition ipc_buildin :: "int \<Rightarrow> int \<Rightarrow> int" where
  "ipc_buildin i sq = sq * SEQ_MULTIPLIER + i"

definition newque :: "int \<Rightarrow> ipcst \<Rightarrow> (int \<times> ipcst) res" where
  "newque k s =
     rbind (kalloc sizeof_msg_queue (iheap s)) (\<lambda>(que, h).
       let s = s\<lparr>iheap := h\<rparr>
       in if que = 0 then Inr (ENOMEM, s)
          else
            let (i, s) = ipc_addid que s
            in if i < 0 then rbind (kfree que (iheap s)) (\<lambda>h. Inr (ENOSEQ, s\<lparr>iheap := h\<rparr>))
               else
                 let s = s\<lparr>queues := (queues s)(que := (queues s que)\<lparr>key := k, max_msg := MAX_MSGNUM, sum_msg := 0\<rparr>),
                           ilinks := init_list_node (q_sender que) (init_list_node (q_receiver que)
                             (init_list_node (q_message que) (ilinks s)))\<rparr>
                 in Inr (ipc_buildin i (qseq (queues s que)), s))"

definition ipc_findkey :: "int \<Rightarrow> ipcst \<Rightarrow> int" where
  "ipc_findkey k s =
     (case find (\<lambda>i. entries s ! i \<noteq> 0 \<and> key (queues s (entries s ! i)) = k) [0..<ipc_size] of
        None \<Rightarrow> - 1 | Some i \<Rightarrow> int i)"

definition sys_msgget :: "int \<Rightarrow> u32 \<Rightarrow> ipcst \<Rightarrow> (int \<times> ipcst) res" where
  "sys_msgget k msgflg s =
     rbind (acquire_spinlock (ilock s)) (\<lambda>l.
       let s = s\<lparr>ilock := l\<rparr>
       in rbind
         (if k = IPC_PRIVATE then newque k s
          else
            let i = ipc_findkey k s
            in if i = - 1 then if msgflg AND IPC_CREATE \<noteq> 0 then newque k s else Inr (ENOENT, s)
               else if msgflg AND IPC_EXCL \<noteq> 0 then Inr (EEXIST, s)
               else Inr (ipc_buildin i (qseq (queues s (entries s ! nat i))), s))
         (\<lambda>(ret, s). Inr (ret, s\<lparr>ilock := release_spinlock (ilock s)\<rparr>)))"

text \<open>The division and remainder of C round towards zero.\<close>

definition crem :: "int \<Rightarrow> int \<Rightarrow> int" where
  "crem n d = n - cdiv n d * d"

text \<open>A negative remainder is an index below the array.\<close>

definition get_msgq :: "int \<Rightarrow> ipcst \<Rightarrow> addr res" where
  "get_msgq msgid s =
     (let i = crem msgid SEQ_MULTIPLIER
      in if i \<ge> int ipc_size then Inr 0
         else if i < 0 then Inl Fault
         else if entries s ! nat i = 0 then Inr 0
         else if cdiv msgid SEQ_MULTIPLIER \<noteq> qseq (queues s (entries s ! nat i)) then Inr 0
         else Inr (entries s ! nat i))"

section \<open>Messages in memory\<close>

definition ipc_kalloc_page :: "ipcst \<Rightarrow> (addr \<times> ipcst) res" where
  "ipc_kalloc_page s = rbind (kalloc_page (iheap s)) (\<lambda>(p, h). Inr (p, s\<lparr>iheap := h\<rparr>))"

definition ipc_kfree_page :: "addr \<Rightarrow> ipcst \<Rightarrow> ipcst res" where
  "ipc_kfree_page p s = rbind (kfree_page p (iheap s)) (\<lambda>h. Inr (s\<lparr>iheap := h\<rparr>))"

text \<open>The loop of \<^verbatim>\<open>free_msg\<close> over the segments, at most \<^verbatim>\<open>n\<close> of them.\<close>

fun free_segs :: "nat \<Rightarrow> addr \<Rightarrow> ipcst \<Rightarrow> ipcst res" where
  "free_segs 0 mseg s = Inl Spin"
| "free_segs (Suc n) mseg s =
     (if mseg = 0 then Inr s
      else
        let nxtseg = segnxt s mseg
        in rbind (ipc_kfree_page mseg s) (\<lambda>s. free_segs n nxtseg s))"

definition free_msg :: "nat \<Rightarrow> addr \<Rightarrow> ipcst \<Rightarrow> ipcst res" where
  "free_msg n msg s = rbind (free_segs n (mnxt (msgs s msg)) s) (\<lambda>s. ipc_kfree_page msg s)"

text \<open>\<^verbatim>\<open>memcpy\<close> out of and into a buffer at an offset; leaving the buffer is a fault.\<close>

definition buf_read :: "u8 list \<Rightarrow> nat \<Rightarrow> nat \<Rightarrow> u8 list res" where
  "buf_read buf off n = (if off + n \<le> length buf then Inr (take n (drop off buf)) else Inl Fault)"

definition buf_write :: "u8 list \<Rightarrow> nat \<Rightarrow> u8 list \<Rightarrow> u8 list res" where
  "buf_write buf off bs =
     (if off + length bs \<le> length buf then Inr (take off buf @ bs @ drop (off + length bs) buf) else Inl Fault)"

text \<open>
  The loop of \<^verbatim>\<open>load_msg\<close>: \<^verbatim>\<open>prev\<close> is the message or segment whose \<^verbatim>\<open>nxt\<close> is to be set. As in the code, \<^verbatim>\<open>src\<close> advances by the
  minimum with the length that is left after the subtraction.
\<close>

definition set_nxt :: "addr \<Rightarrow> addr \<Rightarrow> addr \<Rightarrow> ipcst \<Rightarrow> ipcst" where
  "set_nxt msg prev v s =
     (if prev = msg then s\<lparr>msgs := (msgs s)(msg := (msgs s msg)\<lparr>mnxt := v\<rparr>)\<rparr>
      else s\<lparr>segnxt := (segnxt s)(prev := v)\<rparr>)"

function load_segs :: "nat \<Rightarrow> addr \<Rightarrow> addr \<Rightarrow> u8 list \<Rightarrow> nat \<Rightarrow> nat \<Rightarrow> ipcst \<Rightarrow> (addr \<times> ipcst) res" where
  "load_segs n msg prev src off len s =
     (if len = 0 then Inr (msg, s)
      else
        rbind (ipc_kalloc_page s) (\<lambda>(mseg, s).
        if mseg = 0 then rbind (free_msg n msg s) (\<lambda>s. Inr (0, s))
        else rbind (buf_read src off (min MSG_MSGSEGSZ len)) (\<lambda>bs.
          let s = s\<lparr>mdata := (mdata s)(mseg := bs)\<rparr>;
              s = set_nxt msg prev mseg s;
              s = s\<lparr>segnxt := (segnxt s)(mseg := 0)\<rparr>;
              len' = len - min MSG_MSGSEGSZ len
          in load_segs n msg mseg src (off + min MSG_MSGSEGSZ len') len' s)))"
  by pat_completeness auto
termination
  by (relation "measure (\<lambda>(_, _, _, _, _, len, _). len)") (auto simp: MSG_MSGSEGSZ_def PAGE_SIZE_def)

declare load_segs.simps [simp del]

definition load_msg :: "nat \<Rightarrow> u8 list \<Rightarrow> nat \<Rightarrow> ipcst \<Rightarrow> (addr \<times> ipcst) res" where
  "load_msg n src len s =
     rbind (ipc_kalloc_page s) (\<lambda>(msg, s).
     if msg = 0 then Inr (0, s)
     else rbind (buf_read src 0 (min MSG_MSGSZ len)) (\<lambda>bs.
       let s = s\<lparr>mdata := (mdata s)(msg := bs)\<rparr>;
           len' = len - min MSG_MSGSZ len;
           s = s\<lparr>msgs := (msgs s)(msg := (msgs s msg)\<lparr>mnxt := 0\<rparr>)\<rparr>
       in load_segs n msg msg src (min MSG_MSGSZ len') len' s))"

text \<open>\<^verbatim>\<open>store_msg\<close> into the buffer of the receiver.\<close>

function store_segs :: "u8 list \<Rightarrow> nat \<Rightarrow> nat \<Rightarrow> addr \<Rightarrow> ipcst \<Rightarrow> u8 list res" where
  "store_segs dst off n sg s =
     (if n = 0 then Inr dst
      else if sg = 0 then Inl Fault
      else
        rbind (buf_write dst off (take (min n MSG_MSGSEGSZ) (mdata s sg))) (\<lambda>dst.
          let n' = n - min n MSG_MSGSEGSZ
          in store_segs dst (off + min n' MSG_MSGSEGSZ) n' (segnxt s sg) s))"
  by pat_completeness auto
termination
  by (relation "measure (\<lambda>(_, _, n, _, _). n)") (auto simp: MSG_MSGSEGSZ_def PAGE_SIZE_def)

declare store_segs.simps [simp del]

definition store_msg :: "u8 list \<Rightarrow> addr \<Rightarrow> nat \<Rightarrow> ipcst \<Rightarrow> (int \<times> u8 list) res" where
  "store_msg dst msg n s =
     rbind (buf_write dst 0 (take (min n MSG_MSGSZ) (mdata s msg))) (\<lambda>dst.
       let n' = n - min MSG_MSGSZ n
       in rbind (store_segs dst (min MSG_MSGSZ n') n' (mnxt (msgs s msg)) s) (\<lambda>dst.
            Inr (mtype (msgs s msg), dst)))"

section \<open>Sending\<close>

definition testmsg :: "int \<Rightarrow> int \<Rightarrow> bool" where
  "testmsg rqtype ty = (if rqtype = 0 then True else if rqtype < 0 then rqtype + ty \<le> 0 else rqtype = ty)"

text \<open>
  The walk of \<^verbatim>\<open>pipeline_send\<close> from the node \<^verbatim>\<open>node\<close> on: the macro goes on with \<^verbatim>\<open>node->next\<close>, read after the body has
  run. \<^verbatim>\<open>None\<close> is a walk that is not over after \<^verbatim>\<open>n\<close> nodes.
\<close>

fun pipeline_walk :: "nat \<Rightarrow> addr \<Rightarrow> addr \<Rightarrow> addr \<Rightarrow> ipcst \<Rightarrow> (bool \<times> ipcst) option" where
  "pipeline_walk 0 head node msg s = None"
| "pipeline_walk (Suc n) head node msg s =
     (if node = head then Some (False, s)
      else
        let rcver = receivers s node
        in if testmsg (rmtype rcver) (mtype (msgs s msg))
           then
             let s = s\<lparr>ilinks := snd (detach_from_list node (ilinks s))\<rparr>
             in if msize (msgs s msg) > rsize rcver
                then
                  let s = s\<lparr>receivers := (receivers s)(node := rcver\<lparr>r_msg := 0\<rparr>), woken := woken s @ [rproc rcver]\<rparr>
                  in pipeline_walk n head (nxt (ilinks s) node) msg s
                else Some (True, s\<lparr>receivers := (receivers s)(node := rcver\<lparr>r_msg := msg\<rparr>), woken := woken s @ [rproc rcver]\<rparr>)
           else pipeline_walk n head (nxt (ilinks s) node) msg s)"

definition pipeline_send :: "nat \<Rightarrow> addr \<Rightarrow> addr \<Rightarrow> ipcst \<Rightarrow> (bool \<times> ipcst) res" where
  "pipeline_send n msgq msg s =
     (case pipeline_walk n (q_receiver msgq) (nxt (ilinks s) (q_receiver msgq)) msg s of
        None \<Rightarrow> Inl Spin | Some r \<Rightarrow> Inr r)"

datatype sres = SRet int | SSleep

definition ipc_unlock :: "ipcst \<Rightarrow> ipcst" where
  "ipc_unlock s = s\<lparr>ilock := release_spinlock (ilock s)\<rparr>"

text \<open>
  \<^verbatim>\<open>sys_msgsnd\<close> from the label \<^verbatim>\<open>retry\<close> on, in the process \<^verbatim>\<open>p\<close>; \<^verbatim>\<open>sender\<close> is the address of its \<^verbatim>\<open>msg_sender\<close>. \<^verbatim>\<open>SSleep\<close>
  is the call of the scheduler, after which the process comes back here.
\<close>

definition msgsnd_retry :: "nat \<Rightarrow> nat \<Rightarrow> addr \<Rightarrow> int \<Rightarrow> addr \<Rightarrow> u32 \<Rightarrow> ipcst \<Rightarrow> (sres \<times> ipcst) res" where
  "msgsnd_retry n p sender msgid msg msgflg s =
     rbind (acquire_spinlock (ilock s)) (\<lambda>l.
       let s = s\<lparr>ilock := l\<rparr>;
           fail = (\<lambda>err s. rbind (free_msg n msg (ipc_unlock s)) (\<lambda>s. Inr (SRet err, s)))
       in rbind (get_msgq msgid s) (\<lambda>msgq.
         if msgq = 0 then fail EIDRM s
         else if sum_msg (queues s msgq) + 1 > max_msg (queues s msgq)
         then
           if msgflg AND IPC_NOWAIT \<noteq> 0 then fail EAGAIN s
           else
             let s = s\<lparr>senders := (senders s)(sender := p),
                       ilinks := snd (insert_into_list (prv (ilinks s) (q_sender msgq)) sender (ilinks s))\<rparr>
             in Inr (SSleep, ipc_unlock s)
         else
           rbind (pipeline_send n msgq msg s) (\<lambda>(sent, s).
             let s = (if sent then s
                      else s\<lparr>ilinks := snd (insert_into_list (prv (ilinks s) (q_message msgq)) msg (ilinks s)),
                             queues := (queues s)(msgq := (queues s msgq)\<lparr>sum_msg := sum_msg (queues s msgq) + 1\<rparr>)\<rparr>)
             in Inr (SRet 0, ipc_unlock s))))"

text \<open>\<^verbatim>\<open>msgp\<close> is the type and the bytes of the message buffer, \<^verbatim>\<open>None\<close> the null pointer.\<close>

definition sys_msgsnd :: "nat \<Rightarrow> nat \<Rightarrow> addr \<Rightarrow> int \<Rightarrow> (int \<times> u8 list) option \<Rightarrow> int \<Rightarrow> u32 \<Rightarrow> ipcst \<Rightarrow> (sres \<times> ipcst) res" where
  "sys_msgsnd n p sender msgid msgp msgsz msgflg s =
     (case msgp of
        None \<Rightarrow> Inr (SRet EINVAL, s)
      | Some (ty, bytes) \<Rightarrow>
          if msgsz < 0 \<or> ty < 1 then Inr (SRet EINVAL, s)
          else
            rbind (load_msg n bytes (nat msgsz) s) (\<lambda>(msg, s).
              if msg = 0 then Inr (SRet ENOMEM, s)
              else
              let s = s\<lparr>msgs := (msgs s)(msg := (msgs s msg)\<lparr>mtype := ty, msize := msgsz\<rparr>)\<rparr>
              in msgsnd_retry n p sender msgid msg msgflg s))"

section \<open>Receiving\<close>

text \<open>
  \<^verbatim>\<open>ss_wakeup\<close>: each round takes the first node off the list. \<^verbatim>\<open>procof\<close> reads the field \<^verbatim>\<open>proc\<close>, which is at the same place in
  senders and receivers.
\<close>

fun ss_wakeup :: "nat \<Rightarrow> (addr \<Rightarrow> nat) \<Rightarrow> addr \<Rightarrow> ipcst \<Rightarrow> ipcst res" where
  "ss_wakeup 0 procof head s = Inl Spin"
| "ss_wakeup (Suc n) procof head s =
     (if empty_list head (ilinks s) then Inr s
      else
        let node = nxt (ilinks s) head
        in ss_wakeup n procof head (s\<lparr>ilinks := snd (detach_from_list node (ilinks s)), woken := woken s @ [procof node]\<rparr>))"

text \<open>
  The search of \<^verbatim>\<open>sys_msgrcv\<close>: a match with a type below -1 is remembered, the type is raised, and the search goes on.
  The results are the message found, 0 for none, and the type.
\<close>

fun find_msg :: "nat \<Rightarrow> addr \<Rightarrow> addr \<Rightarrow> int \<Rightarrow> addr \<Rightarrow> ipcst \<Rightarrow> (addr \<times> int) option" where
  "find_msg 0 head node ty found s = None"
| "find_msg (Suc n) head node ty found s =
     (if node = head then Some (found, ty)
      else if testmsg ty (mtype (msgs s node))
      then if ty < - 1 then find_msg n head (nxt (ilinks s) node) (ty + 1) node s else Some (node, ty)
      else find_msg n head (nxt (ilinks s) node) ty found s)"

datatype rcvres = RRet int "(int \<times> u8 list) option" | RSleep

text \<open>The end of \<^verbatim>\<open>sys_msgrcv\<close>: the message is copied to the buffer \<^verbatim>\<open>buf\<close> and freed.\<close>

definition msgrcv_deliver :: "nat \<Rightarrow> u8 list \<Rightarrow> int \<Rightarrow> addr \<Rightarrow> ipcst \<Rightarrow> (rcvres \<times> ipcst) res" where
  "msgrcv_deliver n buf msgsz msg s =
     (let msgsz = min msgsz (msize (msgs s msg))
      in rbind (store_msg buf msg (nat msgsz) s) (\<lambda>out.
         rbind (free_msg n msg s) (\<lambda>s. Inr (RRet msgsz (Some out), s))))"

definition sys_msgrcv :: "nat \<Rightarrow> nat \<Rightarrow> addr \<Rightarrow> int \<Rightarrow> u8 list option \<Rightarrow> int \<Rightarrow> int \<Rightarrow> u32 \<Rightarrow> ipcst \<Rightarrow> (rcvres \<times> ipcst) res" where
  "sys_msgrcv n p receiver msgid msgp msgsz ty msgflg s =
     (case msgp of
        None \<Rightarrow> Inr (RRet EINVAL None, s)
      | Some buf \<Rightarrow>
          if msgsz < 0 then Inr (RRet EINVAL None, s)
          else
            rbind (acquire_spinlock (ilock s)) (\<lambda>l.
              let s = s\<lparr>ilock := l\<rparr>;
                  fail = (\<lambda>err. Inr (RRet err None, ipc_unlock s))
              in rbind (get_msgq msgid s) (\<lambda>msgq.
                if msgq = 0 then fail EIDRM
                else
                  case find_msg n (q_message msgq) (nxt (ilinks s) (q_message msgq)) ty 0 s of
                    None \<Rightarrow> Inl Spin
                  | Some (found, ty) \<Rightarrow>
                      if found \<noteq> 0
                      then
                        if msize (msgs s found) > msgsz then fail E2BIG
                        else
                          let s = s\<lparr>ilinks := snd (detach_from_list found (ilinks s)),
                                    queues := (queues s)(msgq := (queues s msgq)\<lparr>sum_msg := sum_msg (queues s msgq) - 1\<rparr>)\<rparr>
                          in rbind (ss_wakeup n (senders s) (q_sender msgq) s) (\<lambda>s.
                               msgrcv_deliver n buf msgsz found (ipc_unlock s))
                      else if msgflg AND IPC_NOWAIT \<noteq> 0 then fail ENOMSG
                      else
                        let s = s\<lparr>ilinks := snd (insert_into_list (prv (ilinks s) (q_receiver msgq)) receiver (ilinks s)),
                                  receivers := (receivers s)(receiver := (receivers s receiver)\<lparr>rmtype := ty, rproc := p, rsize := msgsz\<rparr>)\<rparr>
                        in Inr (RSleep, ipc_unlock s))))"

text \<open>\<^verbatim>\<open>sys_msgrcv\<close> after the scheduler has come back to the receiver.\<close>

definition msgrcv_resume :: "nat \<Rightarrow> addr \<Rightarrow> u8 list \<Rightarrow> int \<Rightarrow> ipcst \<Rightarrow> (rcvres \<times> ipcst) res" where
  "msgrcv_resume n receiver buf msgsz s =
     (let found = r_msg (receivers s receiver)
      in if found = 0 then Inr (RRet E2BIG None, s) else msgrcv_deliver n buf msgsz found s)"

section \<open>Removing a queue\<close>

fun expunge_all :: "nat \<Rightarrow> addr \<Rightarrow> ipcst \<Rightarrow> ipcst res" where
  "expunge_all 0 que s = Inl Spin"
| "expunge_all (Suc n) que s =
     (if empty_list (q_receiver que) (ilinks s) then Inr s
      else
        let node = nxt (ilinks s) (q_receiver que)
        in expunge_all n que (s\<lparr>ilinks := snd (detach_from_list node (ilinks s)),
             receivers := (receivers s)(node := (receivers s node)\<lparr>r_msg := 0\<rparr>), woken := woken s @ [rproc (receivers s node)]\<rparr>))"

fun free_messages :: "nat \<Rightarrow> addr \<Rightarrow> ipcst \<Rightarrow> ipcst res" where
  "free_messages 0 msgq s = Inl Spin"
| "free_messages (Suc n) msgq s =
     (if empty_list (q_message msgq) (ilinks s) then Inr s
      else
        let node = nxt (ilinks s) (q_message msgq);
            s = s\<lparr>ilinks := snd (detach_from_list node (ilinks s))\<rparr>
        in rbind (free_msg n node s) (\<lambda>s. free_messages n msgq s))"

text \<open>
  \<^verbatim>\<open>ss_wakeup\<close> is called on the list of receivers, whose structures it takes for senders.
\<close>

definition freeque :: "nat \<Rightarrow> int \<Rightarrow> ipcst \<Rightarrow> ipcst res" where
  "freeque n msgid s =
     rbind (acquire_spinlock (ilock s)) (\<lambda>l.
       let s = s\<lparr>ilock := l\<rparr>
       in rbind (get_msgq msgid s) (\<lambda>msgq.
         if msgq = 0 then Inr (ipc_unlock s)
         else
           let s = s\<lparr>entries := (entries s)[nat (crem msgid SEQ_MULTIPLIER) := 0]\<rparr>
           in rbind (ss_wakeup n (\<lambda>a. rproc (receivers s a)) (q_receiver msgq) s) (\<lambda>s.
              rbind (expunge_all n msgq s) (\<lambda>s.
              rbind (free_messages n msgq s) (\<lambda>s.
              rbind (kfree msgq (iheap s)) (\<lambda>h.
                Inr (ipc_unlock (s\<lparr>in_use := in_use s - 1, iheap := h\<rparr>))))))))"

definition sys_msgctl :: "nat \<Rightarrow> int \<Rightarrow> int \<Rightarrow> ipcst \<Rightarrow> (int \<times> ipcst) res" where
  "sys_msgctl n msgid cmd s =
     (if cmd = IPC_RMID then rbind (freeque n msgid s) (\<lambda>s. Inr (0, s)) else Inr (EINVAL, s))"

end
