(* ===== verification/Ipc_Props.thy ===== *)
theory Ipc_Props
  imports Ipc
begin

text \<open>
  Correctness of the message queues: sending and receiving implement a list of typed messages, as long as a message fits into
  one page; a longer message loses its tail, and a receiver with too small a buffer makes the sender loop forever.
\<close>

section \<open>Pages of messages\<close>

definition page_no :: "addr \<Rightarrow> nat" where
  "page_no p = K2P p div PAGE_SIZE"

definition ipc_pages :: "heap \<Rightarrow> addr list \<Rightarrow> bool" where
  "ipc_pages h ms \<longleftrightarrow>
     distinct (map page_no (free_pages h @ ms)) \<and>
     (\<forall>p \<in> set (free_pages h @ ms). p \<noteq> 0 \<and> page_no p < MY_PAGE_COUNT) \<and>
     (\<forall>p \<in> set (free_pages h). page_ref h (page_no p) = 0) \<and> (\<forall>m \<in> set ms. page_ref h (page_no m) = 1) \<and>
     alloc_page_cnt h + int (length (free_pages h)) \<le> int MY_PAGE_COUNT"

lemma ipc_pages_distinct:
  assumes "ipc_pages h ms"
  shows "distinct (free_pages h)" "distinct ms" "set (free_pages h) \<inter> set ms = {}" "0 \<notin> set ms" "0 \<notin> set (free_pages h)"
  using assms unfolding ipc_pages_def by (auto simp: distinct_map)

lemma clear_page_fields [simp]:
  "free_pages (clear_page p h) = free_pages h" "page_ref (clear_page p h) = page_ref h"
  "alloc_page_cnt (clear_page p h) = alloc_page_cnt h"
  by (simp_all add: clear_page_def)

lemma ipc_kalloc_page_spec:
  assumes inv: "ipc_pages (iheap s) ms" and p: "free_pages (iheap s) = p # ps"
  shows "\<exists>h'. ipc_kalloc_page s = Inr (p, s\<lparr>iheap := h'\<rparr>) \<and> free_pages h' = ps \<and> ipc_pages h' (ms @ [p])"
proof -
  let ?h = "iheap s"
  define h' where "h' = (clear_page p (?h\<lparr>alloc_page_cnt := alloc_page_cnt ?h + 1, free_pages := ps\<rparr>))
    \<lparr>page_ref := (page_ref ?h)(page_no p := page_ref ?h (page_no p) + 1)\<rparr>"
  have idx: "page_index p = Inr (page_no p)" and le: "alloc_page_cnt ?h + 1 \<le> int MY_PAGE_COUNT"
    using inv p by (auto simp: ipc_pages_def page_index_def page_no_def)
  have "ipc_kalloc_page s = Inr (p, s\<lparr>iheap := h'\<rparr>)"
    using p idx le by (simp add: ipc_kalloc_page_def kalloc_page_def Let_def increment_rc_def h'_def)
  moreover have "free_pages h' = ps" by (simp add: h'_def)
  moreover have "ipc_pages h' (ms @ [p])"
    using inv p by (auto simp: ipc_pages_def h'_def image_iff)
  ultimately show ?thesis by blast
qed

lemma ipc_kfree_page_spec:
  assumes inv: "ipc_pages (iheap s) ms" and m: "m \<in> set ms"
  shows "\<exists>h'. ipc_kfree_page m s = Inr (s\<lparr>iheap := h'\<rparr>) \<and> free_pages h' = m # free_pages (iheap s) \<and> ipc_pages h' (remove1 m ms)"
proof -
  let ?h = "iheap s"
  obtain as bs where ms: "ms = as @ m # bs" "m \<notin> set as" using split_list_first [OF m] by blast
  define h' where "h' = ?h\<lparr>page_ref := (page_ref ?h)(page_no m := 0), free_pages := m # free_pages ?h,
    alloc_page_cnt := alloc_page_cnt ?h - 1\<rparr>"
  have idx: "page_index m = Inr (page_no m)" and r: "page_ref ?h (page_no m) = 1"
    using inv m by (auto simp: ipc_pages_def page_index_def page_no_def)
  have "ipc_kfree_page m s = Inr (s\<lparr>iheap := h'\<rparr>)"
    using idx r by (simp add: ipc_kfree_page_def kfree_page_def Let_def decrement_rc_def h'_def)
  moreover have "remove1 m ms = as @ bs" using ms by (simp add: remove1_append)
  moreover have "ipc_pages h' (as @ bs)"
    using inv ms by (auto simp: ipc_pages_def h'_def image_iff)
  ultimately show ?thesis by (auto simp: h'_def)
qed

section \<open>The contents of a queue\<close>

text \<open>
  \<^verbatim>\<open>msgq s q msgid ms ss\<close>: the queue at \<^verbatim>\<open>q\<close> has the identifier \<^verbatim>\<open>msgid\<close>, no waiting receiver, the messages \<^verbatim>\<open>ms\<close>, each of one
  page, and the sleeping senders \<^verbatim>\<open>ss\<close>. \<^verbatim>\<open>contents\<close> is what the messages say.
\<close>

definition heads_apart :: "addr \<Rightarrow> addr list \<Rightarrow> addr list \<Rightarrow> bool" where
  "heads_apart q ms ss \<longleftrightarrow>
     distinct ([q_message q, q_receiver q] @ ms) \<and> set ([q_message q, q_receiver q] @ ms) \<inter> set (q_sender q # ss) = {}"

definition msgq :: "ipcst \<Rightarrow> addr \<Rightarrow> int \<Rightarrow> addr list \<Rightarrow> addr list \<Rightarrow> bool" where
  "msgq s q msgid ms ss \<longleftrightarrow>
     \<not> ilock s \<and> q \<noteq> 0 \<and> get_msgq msgid s = Inr q \<and> max_msg (queues s q) = MAX_MSGNUM \<and> sum_msg (queues s q) = int (length ms) \<and>
     is_list (ilinks s) (q_message q) ms \<and> is_list (ilinks s) (q_receiver q) [] \<and> is_list (ilinks s) (q_sender q) ss \<and>
     heads_apart q (ms @ free_pages (iheap s)) ss \<and> ipc_pages (iheap s) ms \<and>
     (\<forall>m \<in> set ms. mnxt (msgs s m) = 0 \<and> msize (msgs s m) = int (length (mdata s m)) \<and> length (mdata s m) \<le> MSG_MSGSZ)"

definition contents :: "ipcst \<Rightarrow> addr list \<Rightarrow> (int \<times> u8 list) list" where
  "contents s ms = map (\<lambda>m. (mtype (msgs s m), mdata s m)) ms"

lemma get_msgq_cong:
  assumes "entries s' = entries s" and "\<And>q. qseq (queues s' q) = qseq (queues s q)"
  shows "get_msgq i s' = get_msgq i s"
  using assms by (simp add: get_msgq_def Let_def)

lemma get_msgq_upd [simp]:
  "get_msgq i (s\<lparr>ilock := v1\<rparr>) = get_msgq i s" "get_msgq i (s\<lparr>iheap := v2\<rparr>) = get_msgq i s"
  "get_msgq i (s\<lparr>msgs := v3\<rparr>) = get_msgq i s" "get_msgq i (s\<lparr>mdata := v4\<rparr>) = get_msgq i s"
  "get_msgq i (s\<lparr>ilinks := v5\<rparr>) = get_msgq i s"
  by (simp_all add: get_msgq_def Let_def)

lemma buf_read_all [simp]: "n = length bs \<Longrightarrow> buf_read bs 0 n = Inr bs"
  by (simp add: buf_read_def)

lemma load_msg_short:
  assumes len: "length bytes \<le> MSG_MSGSZ" and inv: "ipc_pages (iheap s) ms" and p: "free_pages (iheap s) = p # ps"
  shows "\<exists>h'. free_pages h' = ps \<and> ipc_pages h' (ms @ [p]) \<and>
    load_msg n bytes (length bytes) s = Inr (p, s\<lparr>iheap := h', mdata := (mdata s)(p := bytes), msgs := (msgs s)(p := (msgs s p)\<lparr>mnxt := 0\<rparr>)\<rparr>)"
proof -
  obtain h' where "ipc_kalloc_page s = Inr (p, s\<lparr>iheap := h'\<rparr>)" "free_pages h' = ps" "ipc_pages h' (ms @ [p])"
    using ipc_kalloc_page_spec [OF inv p] by blast
  moreover have "p \<noteq> 0" using ipc_pages_distinct(5) [OF inv] p by auto
  ultimately show ?thesis using len by (intro exI [of _ h']) (simp add: load_msg_def Let_def load_segs.simps)
qed

text \<open>Sending to a queue nobody waits on appends to it.\<close>

lemma pipeline_send_none:
  assumes "is_list (ilinks s) (q_receiver q) []" and "0 < n"
  shows "pipeline_send n q msg s = Inr (False, s)"
  using assms by (cases n) (auto simp: pipeline_send_def is_list_def)

lemma msgsnd_appends:
  assumes q: "msgq s q msgid ms ss" and room: "length ms < 256" and p: "free_pages (iheap s) = p # ps"
    and ty: "1 \<le> ty" and len: "length bytes \<le> MSG_MSGSZ" and n: "0 < n"
  shows "\<exists>s'. sys_msgsnd n pr sd msgid (Some (ty, bytes)) (int (length bytes)) flg s = Inr (SRet 0, s') \<and>
    msgq s' q msgid (ms @ [p]) ss \<and> contents s' (ms @ [p]) = contents s ms @ [(ty, bytes)] \<and> woken s' = woken s \<and>
    senders s' = senders s \<and> free_pages (iheap s') = ps"
proof -
  note Q = q [unfolded msgq_def]
  have inv: "ipc_pages (iheap s) ms" using Q by blast
  have p0: "p \<noteq> 0" "p \<notin> set ms" using ipc_pages_distinct [OF inv] p by auto
  obtain h' where h': "free_pages h' = ps" "ipc_pages h' (ms @ [p])"
    and ld: "load_msg n bytes (length bytes) s =
      Inr (p, s\<lparr>iheap := h', mdata := (mdata s)(p := bytes), msgs := (msgs s)(p := (msgs s p)\<lparr>mnxt := 0\<rparr>)\<rparr>)"
    using load_msg_short [OF len inv p] by blast
  let ?h = "snd (insert_into_list (prv (ilinks s) (q_message q)) p (ilinks s))"
  define s' where "s' = s\<lparr>iheap := h', mdata := (mdata s)(p := bytes),
    msgs := (msgs s)(p := (msgs s p)\<lparr>mnxt := 0, mtype := ty, msize := int (length bytes)\<rparr>), ilinks := ?h,
    queues := (queues s)(q := (queues s q)\<lparr>sum_msg := int (length ms) + 1\<rparr>), ilock := False\<rparr>"
  have ha: "heads_apart q (ms @ p # ps) ss" using Q p by simp
  have nm: "p \<notin> set (q_message q # ms)" "set (p # q_message q # ms) \<inter> set (q_receiver q # []) = {}"
    "set (p # q_message q # ms) \<inter> set (q_sender q # ss) = {}"
    using ha by (auto simp: heads_apart_def)
  have lm: "is_list (ilinks s) (q_message q) ms" and lr: "is_list (ilinks s) (q_receiver q) []"
    and ls: "is_list (ilinks s) (q_sender q) ss" using Q by simp_all
  note l = insert_into_list_back [OF lm p0(1) nm(1)] insert_into_list_back_other [OF lm p0(1) nm(1) lr nm(2)]
    insert_into_list_back_other [OF lm p0(1) nm(1) ls nm(3)]
  have "sys_msgsnd n pr sd msgid (Some (ty, bytes)) (int (length bytes)) flg s = Inr (SRet 0, s')"
    using Q ty room n p0 ld lr
    by (simp add: sys_msgsnd_def msgsnd_retry_def acquire_spinlock_def try_acquire_spinlock_def Let_def MAX_MSGNUM_def
        pipeline_send_none ipc_unlock_def release_spinlock_def s'_def)
  moreover have "msgq s' q msgid (ms @ [p]) ss"
    unfolding msgq_def
  proof (intro conjI)
    show "get_msgq msgid s' = Inr q" using Q get_msgq_cong [of s' s] by (simp add: s'_def)
    show "heads_apart q ((ms @ [p]) @ free_pages (iheap s')) ss" using ha h' by (simp add: s'_def)
    show "\<forall>m \<in> set (ms @ [p]). mnxt (msgs s' m) = 0 \<and> msize (msgs s' m) = int (length (mdata s' m)) \<and> length (mdata s' m) \<le> MSG_MSGSZ"
      using Q len p0 by (auto simp: s'_def)
  qed (use Q l h' in \<open>simp_all add: s'_def\<close>)
  moreover have "contents s' (ms @ [p]) = contents s ms @ [(ty, bytes)]"
    using p0 by (auto simp: contents_def s'_def)
  ultimately show ?thesis using h' by (auto simp: s'_def)
qed

section \<open>Receiving\<close>

abbreviation matches :: "ipcst \<Rightarrow> int \<Rightarrow> addr \<Rightarrow> bool" where
  "matches s ty m \<equiv> testmsg ty (mtype (msgs s m))"

lemma find_msg_links:
  assumes "links (ilinks s) (ms @ [l])" and "l \<notin> set ms" and "length ms < n" and "- 1 \<le> ty"
  shows "find_msg n l (hd (ms @ [l])) ty 0 s = Some (case find (matches s ty) ms of None \<Rightarrow> 0 | Some m \<Rightarrow> m, ty)"
  using assms
proof (induction ms arbitrary: n)
  case Nil
  then show ?case by (cases n) auto
next
  case (Cons m ms)
  then obtain k where n: "n = Suc k" by (cases n) auto
  have "links (ilinks s) (ms @ [l])" and "nxt (ilinks s) m = hd (ms @ [l])"
    using Cons.prems(1) by (cases ms; simp)+
  with Cons n show ?case by auto
qed

lemma find_msg_list:
  assumes "is_list (ilinks s) l ms" and "length ms < n" and "- 1 \<le> ty"
  shows "find_msg n l (nxt (ilinks s) l) ty 0 s = Some (case find (matches s ty) ms of None \<Rightarrow> 0 | Some m \<Rightarrow> m, ty)"
proof -
  have "links (ilinks s) (ms @ [l])" and "l \<notin> set ms"
    using assms(1) by (cases ms; simp add: is_list_def ring_def)+
  then show ?thesis
    using find_msg_links [of s ms l n ty] assms ring_ends(2) [of "ilinks s" l ms] by (simp add: is_list_def)
qed

lemma ss_wakeup_list:
  assumes "is_list (ilinks s) l ss" and "length ss < n"
  shows "\<exists>h'. ss_wakeup n procof l s = Inr (s\<lparr>ilinks := h', woken := woken s @ map procof ss\<rparr>) \<and> is_list h' l [] \<and>
    (\<forall>k ys. is_list (ilinks s) k ys \<and> set (l # ss) \<inter> set (k # ys) = {} \<longrightarrow> is_list h' k ys)"
  using assms
proof (induction ss arbitrary: n s)
  case Nil
  then obtain k where "n = Suc k" by (cases n) auto
  with Nil show ?case by (intro exI [of _ "ilinks s"]) (simp add: is_list_empty)
next
  case (Cons x ss)
  then obtain k where n: "n = Suc k" "length ss < k" by (cases n) auto
  let ?h = "snd (detach_from_list x (ilinks s))"
  let ?s = "s\<lparr>ilinks := ?h, woken := woken s @ [procof x]\<rparr>"
  have l: "is_list (ilinks ?s) l ss" using kl.rep_detach [OF Cons.prems(1), of x] by simp
  have fr: "is_list ?h j ys" if "is_list (ilinks s) j ys" "set (l # x # ss) \<inter> set (j # ys) = {}" for j ys
    by (rule detach_from_list_other [OF Cons.prems(1) _ that]) simp
  obtain h' where h': "ss_wakeup k procof l ?s = Inr (?s\<lparr>ilinks := h', woken := woken ?s @ map procof ss\<rparr>)" "is_list h' l []"
    and fr': "\<And>j ys. is_list ?h j ys \<Longrightarrow> set (l # ss) \<inter> set (j # ys) = {} \<Longrightarrow> is_list h' j ys"
    using Cons.IH [OF l n(2)] by auto
  have "ss_wakeup n procof l s = Inr (s\<lparr>ilinks := h', woken := woken s @ map procof (x # ss)\<rparr>)"
    using Cons.prems(1) h'(1) n(1) by (simp add: is_list_empty is_list_next Let_def)
  moreover have "is_list h' j ys" if "is_list (ilinks s) j ys" "set (l # x # ss) \<inter> set (j # ys) = {}" for j ys
    using fr' [OF fr [OF that]] that(2) by auto
  ultimately show ?case using h'(2) by blast
qed

lemma buf_write_0: "length bs \<le> length buf \<Longrightarrow> buf_write buf 0 bs = Inr (bs @ drop (length bs) buf)"
  by (simp add: buf_write_def)

lemma msgrcv_deliver_short:
  assumes m: "mnxt (msgs s m) = 0" "msize (msgs s m) = int (length (mdata s m))" "length (mdata s m) \<le> MSG_MSGSZ"
    and sz: "int (length (mdata s m)) \<le> msgsz" "length (mdata s m) \<le> length buf" and n: "0 < n"
    and inv: "ipc_pages (iheap s) ms" "m \<in> set ms"
  shows "\<exists>h'. free_pages h' = m # free_pages (iheap s) \<and> ipc_pages h' (remove1 m ms) \<and>
    msgrcv_deliver n buf msgsz m s =
      Inr (RRet (int (length (mdata s m))) (Some (mtype (msgs s m), mdata s m @ drop (length (mdata s m)) buf)), s\<lparr>iheap := h'\<rparr>)"
proof -
  obtain h' where h': "ipc_kfree_page m s = Inr (s\<lparr>iheap := h'\<rparr>)" "free_pages h' = m # free_pages (iheap s)"
    "ipc_pages h' (remove1 m ms)"
    using ipc_kfree_page_spec [OF inv] by blast
  have st: "store_msg buf m (length (mdata s m)) s = Inr (mtype (msgs s m), mdata s m @ drop (length (mdata s m)) buf)"
    using m sz by (simp add: store_msg_def buf_write_0 store_segs.simps)
  have "free_msg n m s = Inr (s\<lparr>iheap := h'\<rparr>)"
    using n m(1) h'(1) by (cases n) (auto simp: free_msg_def)
  with h' st m(2) sz(1) show ?thesis by (intro exI [of _ h']) (simp add: msgrcv_deliver_def min_absorb2)
qed

lemma heads_apart_free:
  assumes "heads_apart q (ms @ fs) ss" and "m \<in> set ms"
  shows "heads_apart q (remove1 m ms @ m # fs) []"
proof -
  obtain as bs where ms: "ms = as @ m # bs" "m \<notin> set as" using split_list_first [OF assms(2)] by blast
  then have "remove1 m ms = as @ bs" by (simp add: remove1_append)
  with assms(1) ms show ?thesis by (auto simp: heads_apart_def)
qed

lemma msgrcv_takes:
  assumes q: "msgq s q msgid ms ss" and n: "length ms < n" "length ss < n" and ty: "- 1 \<le> ty"
    and m: "find (matches s ty) ms = Some m"
    and sz: "int (length (mdata s m)) \<le> msgsz" "msgsz \<le> int (length buf)"
  shows "\<exists>s'. sys_msgrcv n pr rc msgid (Some buf) msgsz ty flg s =
      Inr (RRet (int (length (mdata s m))) (Some (mtype (msgs s m), mdata s m @ drop (length (mdata s m)) buf)), s') \<and>
    msgq s' q msgid (remove1 m ms) [] \<and> contents s' (remove1 m ms) = contents s (remove1 m ms) \<and>
    woken s' = woken s @ map (senders s) ss"
proof -
  note Q = q [unfolded msgq_def]
  have mm: "m \<in> set ms" using m by (auto simp: find_Some_iff)
  have lm: "is_list (ilinks s) (q_message q) ms" and lr: "is_list (ilinks s) (q_receiver q) []"
    and ls: "is_list (ilinks s) (q_sender q) ss" and inv: "ipc_pages (iheap s) ms" using Q by simp_all
  have ha: "heads_apart q (ms @ free_pages (iheap s)) ss" using Q by simp
  have dj: "set (q_message q # ms) \<inter> set (q_receiver q # []) = {}" "set (q_message q # ms) \<inter> set (q_sender q # ss) = {}"
    "set (q_sender q # ss) \<inter> set (q_message q # remove1 m ms) = {}" "set (q_sender q # ss) \<inter> set (q_receiver q # []) = {}"
    using ha set_remove1_subset [of m ms] by (auto simp: heads_apart_def)
  have m0: "m \<noteq> 0" using ipc_pages_distinct(4) [OF inv] mm by (cases m) auto
  let ?h = "snd (detach_from_list m (ilinks s))"
  let ?u = "s\<lparr>ilock := True, ilinks := ?h, queues := (queues s)(q := (queues s q)\<lparr>sum_msg := int (length ms) - 1\<rparr>)\<rparr>"
  note d = detach_from_list_list(1) [OF lm mm] detach_from_list_other [OF lm mm lr dj(1)] detach_from_list_other [OF lm mm ls dj(2)]
  obtain g where g: "ss_wakeup n (senders s) (q_sender q) ?u = Inr (?u\<lparr>ilinks := g, woken := woken s @ map (senders s) ss\<rparr>)"
    "is_list g (q_sender q) []" "is_list g (q_message q) (remove1 m ms)" "is_list g (q_receiver q) []"
    using ss_wakeup_list [of ?u "q_sender q" ss n "senders s"] d n(2) dj(3,4) by auto
  define v where "v = ?u\<lparr>ilinks := g, woken := woken s @ map (senders s) ss, ilock := False\<rparr>"
  have mok: "mnxt (msgs s m) = 0" "msize (msgs s m) = int (length (mdata s m))" "length (mdata s m) \<le> MSG_MSGSZ"
    using Q mm by auto
  obtain h' where h': "free_pages h' = m # free_pages (iheap s)" "ipc_pages h' (remove1 m ms)"
    and dl: "msgrcv_deliver n buf msgsz m v =
      Inr (RRet (int (length (mdata s m))) (Some (mtype (msgs s m), mdata s m @ drop (length (mdata s m)) buf)), v\<lparr>iheap := h'\<rparr>)"
    using msgrcv_deliver_short [of v m msgsz buf n ms] mok sz n mm inv by (auto simp: v_def)
  let ?s' = "v\<lparr>iheap := h'\<rparr>"
  have "sys_msgrcv n pr rc msgid (Some buf) msgsz ty flg s =
      Inr (RRet (int (length (mdata s m))) (Some (mtype (msgs s m), mdata s m @ drop (length (mdata s m)) buf)), ?s')"
    using Q sz n ty m m0 mok g(1) dl find_msg_list [of "s\<lparr>ilock := True\<rparr>" "q_message q" ms n ty]
    by (simp add: sys_msgrcv_def acquire_spinlock_def try_acquire_spinlock_def Let_def ipc_unlock_def release_spinlock_def v_def)
  moreover have "msgq ?s' q msgid (remove1 m ms) []"
    unfolding msgq_def
  proof (intro conjI)
    show "get_msgq msgid ?s' = Inr q" using Q get_msgq_cong [of ?s' s] by (simp add: v_def)
    show "heads_apart q (remove1 m ms @ free_pages (iheap ?s')) []" using heads_apart_free [OF ha mm] h' by simp
    show "sum_msg (queues ?s' q) = int (length (remove1 m ms))"
      using length_remove1 [of m ms] length_pos_if_in_set [OF mm] mm by (simp add: v_def of_nat_diff Suc_leI)
    show "\<forall>x \<in> set (remove1 m ms). mnxt (msgs ?s' x) = 0 \<and> msize (msgs ?s' x) = int (length (mdata ?s' x)) \<and> length (mdata ?s' x) \<le> MSG_MSGSZ"
      using Q set_remove1_subset [of m ms] by (auto simp: v_def)
  qed (use Q g h' in \<open>simp_all add: v_def\<close>)
  moreover have "contents ?s' (remove1 m ms) = contents s (remove1 m ms)" by (simp add: contents_def v_def)
  ultimately show ?thesis by (intro exI [of _ ?s']) (simp add: v_def)
qed

section \<open>The queue as a list of messages\<close>

text \<open>The abstract queue: the first message that the type asks for, and the rest.\<close>

fun take_match :: "int \<Rightarrow> (int \<times> u8 list) list \<Rightarrow> ((int \<times> u8 list) \<times> (int \<times> u8 list) list) option" where
  "take_match t [] = None"
| "take_match t (a # as) =
     (if testmsg t (fst a) then Some (a, as) else map_option (\<lambda>(m, bs). (m, a # bs)) (take_match t as))"

lemma take_match_contents:
  "take_match t (contents s ms) =
     map_option (\<lambda>m. ((mtype (msgs s m), mdata s m), contents s (remove1 m ms))) (find (matches s t) ms)"
  by (induction ms) (auto simp: contents_def option.map_comp comp_def find_Some_iff intro!: option.map_cong0)

definition queue_holds :: "ipcst \<Rightarrow> int \<Rightarrow> (int \<times> u8 list) list \<Rightarrow> addr list \<Rightarrow> bool" where
  "queue_holds s msgid A ss \<longleftrightarrow> (\<exists>q ms. msgq s q msgid ms ss \<and> contents s ms = A)"

lemma msgrcv_none:
  assumes q: "msgq s q msgid ms ss" and n: "length ms < n" and ty: "- 1 \<le> ty" and m: "find (matches s ty) ms = None"
    and sz: "0 \<le> msgsz"
  shows "sys_msgrcv n pr rc msgid (Some buf) msgsz ty IPC_NOWAIT s = Inr (RRet ENOMSG None, s)"
  using q [unfolded msgq_def] n ty m sz find_msg_list [of "s\<lparr>ilock := True\<rparr>" "q_message q" ms n ty]
  by (simp add: sys_msgrcv_def acquire_spinlock_def try_acquire_spinlock_def Let_def ipc_unlock_def release_spinlock_def IPC_NOWAIT_def)


text \<open>An empty queue, and two free pages.\<close>

definition demo_ipc :: ipcst where
  "demo_ipc = \<lparr>iheap = one_page_heap\<lparr>free_pages := [P2K 0x100000, P2K 0x101000]\<rparr>,
     ilinks = \<lparr>prv = (\<lambda>a. a), nxt = (\<lambda>a. a)\<rparr>, ilock = False, in_use = 1, idseq = 1,
     entries = 1000 # replicate 15 0, queues = (\<lambda>_. \<lparr>key = 5, qseq = 0, max_msg = 256, sum_msg = 0\<rparr>),
     msgs = (\<lambda>_. \<lparr>mtype = 0, msize = 0, mnxt = 0\<rparr>), mdata = (\<lambda>_. []), segnxt = (\<lambda>_. 0), senders = (\<lambda>_. 0),
     receivers = (\<lambda>_. \<lparr>rproc = 0, rmtype = 0, rsize = 0, r_msg = 0\<rparr>), woken = []\<rparr>"

lemma demo_ipc_pages: "ipc_pages (iheap demo_ipc) []"
  by (simp add: ipc_pages_def demo_ipc_def one_page_heap_def page_no_def P2K_def K2P_def KSPACE_MASK_def PAGE_SIZE_def MY_PAGE_COUNT_def
      PHYSTOP_def)

lemma demo_ipc_holds: "queue_holds demo_ipc 0 [] []"
proof -
  have "msgq demo_ipc 1000 0 [] []"
    using demo_ipc_pages unfolding msgq_def
    by (simp add: get_msgq_def crem_def cdiv_def SEQ_MULTIPLIER_def ipc_size_def heads_apart_def q_message_def q_receiver_def
        q_sender_def is_list_def MAX_MSGNUM_def) (simp add: demo_ipc_def P2K_def KSPACE_MASK_def)
  then show ?thesis by (auto simp: queue_holds_def contents_def)
qed


section \<open>Messages of more than one page\<close>

lemma load_long:
  assumes inv: "ipc_pages (iheap s) ms" and pp: "free_pages (iheap s) = p # p' # ps" and k: "0 < k" "2 * k \<le> MSG_MSGSZ"
    and len: "length bytes = MSG_MSGSZ + k"
  shows "\<exists>s'. load_msg n bytes (MSG_MSGSZ + k) s = Inr (p, s') \<and> mdata s' p = take MSG_MSGSZ bytes \<and>
    mnxt (msgs s' p) = p' \<and> mdata s' p' = take k (drop k bytes) \<and> p' \<noteq> 0"
proof -
  obtain h1 where h1: "ipc_kalloc_page s = Inr (p, s\<lparr>iheap := h1\<rparr>)" "free_pages h1 = p' # ps" "ipc_pages h1 (ms @ [p])"
    using ipc_kalloc_page_spec [OF inv pp] by blast
  let ?s = "s\<lparr>iheap := h1, mdata := (mdata s)(p := take MSG_MSGSZ bytes), msgs := (msgs s)(p := (msgs s p)\<lparr>mnxt := 0\<rparr>)\<rparr>"
  obtain h2 where h2: "ipc_kalloc_page ?s = Inr (p', ?s\<lparr>iheap := h2\<rparr>)"
    using ipc_kalloc_page_spec [of ?s "ms @ [p]" p' ps] h1 by auto
  have ne: "p \<noteq> 0" "p' \<noteq> 0" "p' \<noteq> p" using ipc_pages_distinct [OF inv] pp by auto
  have km: "min MSG_MSGSZ k = k" "min MSG_MSGSEGSZ k = k" using k by (auto simp: MSG_MSGSZ_def MSG_MSGSEGSZ_def)
  show ?thesis
    using h1(1) h2 ne km k len
    by (auto simp: load_msg_def buf_read_def load_segs.simps [of n p p bytes k k] load_segs.simps [of n p p' bytes _ 0]
        Let_def set_nxt_def)
qed

text \<open>
  C39: a message of one page and k more bytes (k at most half a page) loses its end: what store_msg gives back after load_msg
  has the bytes of the first page, and behind them what was in the buffer of the receiver before.
\<close>

theorem long_message_loses_tail:
  assumes inv: "ipc_pages (iheap s) ms" and pp: "free_pages (iheap s) = p # p' # ps" and k: "0 < k" "2 * k \<le> MSG_MSGSZ"
    and len: "length bytes = MSG_MSGSZ + k" "length buf = MSG_MSGSZ + k"
  shows "\<exists>s' ty. load_msg n bytes (MSG_MSGSZ + k) s = Inr (p, s') \<and>
    store_msg buf p (MSG_MSGSZ + k) s' = Inr (ty, take MSG_MSGSZ bytes @ drop MSG_MSGSZ buf)"
proof -
  obtain s' where s': "load_msg n bytes (MSG_MSGSZ + k) s = Inr (p, s')" "mdata s' p = take MSG_MSGSZ bytes"
    "mnxt (msgs s' p) = p'" "mdata s' p' = take k (drop k bytes)" "p' \<noteq> 0"
    using load_long [OF inv pp k len(1)] by blast
  let ?d = "take MSG_MSGSZ bytes @ drop MSG_MSGSZ buf"
  have km: "min MSG_MSGSZ k = k" "min k MSG_MSGSEGSZ = k" using k by (auto simp: MSG_MSGSZ_def MSG_MSGSEGSZ_def)
  have seg: "length (take k (drop k bytes)) = k" using len k by simp
  have "take k ?d @ take k (drop k bytes) @ drop (k + k) ?d = ?d"
  proof -
    have "take k (drop k bytes) = take k (drop k ?d)" using k len by (simp add: drop_take min_def)
    then show ?thesis by (metis append.assoc append_take_drop_id take_add)
  qed
  then have "buf_write ?d k (take k (drop k bytes)) = Inr ?d"
    unfolding buf_write_def seg using len k by (simp only: length_append length_take length_drop) auto
  then have "store_msg buf p (MSG_MSGSZ + k) s' = Inr (mtype (msgs s' p), ?d)"
    using s' km len k by (simp add: store_msg_def buf_write_0 store_segs.simps [of _ k k] store_segs.simps [of _ _ 0])
  with s'(1) show ?thesis by blast
qed

theorem long_message_loses_tail_witness:
  "\<exists>s' ty. load_msg 9 (replicate 4065 42) 4065 demo_ipc = Inr (P2K 0x100000, s') \<and>
     store_msg (replicate 4065 0) (P2K 0x100000) 4065 s' = Inr (ty, replicate 4064 42 @ [0])"
  using long_message_loses_tail [OF demo_ipc_pages, of "P2K 0x100000" "P2K 0x101000" "[]" 1 "replicate 4065 42" "replicate 4065 0" 9]
  by (simp add: demo_ipc_def MSG_MSGSZ_def PAGE_SIZE_def)

section \<open>A receiver with too small a buffer\<close>

lemma pipeline_walk_self:
  assumes "ring (ilinks s) [r]" and "r \<noteq> head" and "testmsg (rmtype (receivers s r)) (mtype (msgs s msg))"
    and "rsize (receivers s r) < msize (msgs s msg)"
  shows "pipeline_walk n head r msg s = None"
  using assms
proof (induction n arbitrary: s)
  case (Suc n)
  let ?s = "s\<lparr>ilinks := init_list_node r (ilinks s), receivers := (receivers s)(r := (receivers s r)\<lparr>r_msg := 0\<rparr>), woken := woken s @ [rproc (receivers s r)]\<rparr>"
  have "pipeline_walk n head r msg ?s = None" by (rule Suc.IH) (use Suc.prems in auto)
  then show ?case using Suc.prems detach_from_list_single [OF Suc.prems(1)] by (simp add: Let_def)
qed simp

text \<open>
  C40: a message that is too big for the first waiting receiver that asks for its type makes the sender spin, whatever the
  number of rounds: the walk goes on from the node it has just detached, which points to itself.
\<close>

theorem pipeline_send_spins:
  assumes l: "is_list (ilinks s) (q_receiver q) (r # rs)"
    and ty: "testmsg (rmtype (receivers s r)) (mtype (msgs s msg))" and sz: "rsize (receivers s r) < msize (msgs s msg)"
  shows "\<forall>n. pipeline_send n q msg s = Inl Spin"
proof
  fix n
  have r: "nxt (ilinks s) (q_receiver q) = r" "r \<noteq> q_receiver q"
    using is_list_next [OF l] kl.rep_wf [OF l] by auto
  have d: "ring (snd (detach_from_list r (ilinks s))) [r]" using detach_from_list_list(2) [OF l] by simp
  show "pipeline_send n q msg s = Inl Spin"
  proof (cases n)
    case (Suc k)
    let ?s = "s\<lparr>ilinks := snd (detach_from_list r (ilinks s)), receivers := (receivers s)(r := (receivers s r)\<lparr>r_msg := 0\<rparr>),
      woken := woken s @ [rproc (receivers s r)]\<rparr>"
    have "pipeline_walk k (q_receiver q) r msg ?s = None"
      by (rule pipeline_walk_self) (use d r ty sz in auto)
    then show ?thesis using r ty sz d Suc by (simp add: pipeline_send_def Let_def)
  qed (simp add: pipeline_send_def)
qed

text \<open>A receiver with a buffer of four bytes waits for messages of any type.\<close>

definition demo_waiting :: ipcst where
  "demo_waiting = demo_ipc\<lparr>ilinks := \<lparr>prv = (\<lambda>a. a)(1048 := 3000, 3000 := 1048), nxt = (\<lambda>a. a)(1048 := 3000, 3000 := 1048)\<rparr>,
     receivers := (\<lambda>_. \<lparr>rproc = 7, rmtype = 0, rsize = 4, r_msg = 0\<rparr>), msgs := (\<lambda>_. \<lparr>mtype = 1, msize = 5, mnxt = 0\<rparr>)\<rparr>"

theorem pipeline_send_spins_witness: "\<forall>n. pipeline_send n 1000 4096 demo_waiting = Inl Spin"
  by (rule pipeline_send_spins [of _ _ 3000 "[]"]) (simp_all add: demo_waiting_def q_receiver_def is_list_def ring_def testmsg_def)

end
