(* ===== verification/Rbtree.thy ===== *)
theory Rbtree
  imports Klist
begin

text \<open>
  The red-black trees of \<^verbatim>\<open>src/src/common/rbtree.c\<close>: nodes with a left and a right pointer and one word that holds the address
  of the parent and, in its lowest bit, the colour. The comparison function is an argument. Following the pointer to
  a grandparent or a sibling that is null is a fault; the code tests the other pointers before it follows them. The loops take fuel; \<^verbatim>\<open>Rbtree_Props\<close> shows how much is enough.
\<close>

record rbheap =
  parent_color :: "addr \<Rightarrow> nat"
  rb_right :: "addr \<Rightarrow> addr"
  rb_left :: "addr \<Rightarrow> addr"
  rb_node :: "addr \<Rightarrow> addr"

definition RB_RED :: nat where "RB_RED = 0"
definition RB_BLACK :: nat where "RB_BLACK = 1"

text \<open>\<^verbatim>\<open>pc & ~3\<close> and \<^verbatim>\<open>pc & 1\<close>.\<close>

definition pc_parent :: "nat \<Rightarrow> addr" where "pc_parent pc = pc div 4 * 4"
definition pc_color :: "nat \<Rightarrow> nat" where "pc_color pc = pc mod 2"
definition pc_is_black :: "nat \<Rightarrow> bool" where "pc_is_black pc \<longleftrightarrow> pc_color pc \<noteq> 0"

definition rb_parent :: "addr \<Rightarrow> rbheap \<Rightarrow> addr" where "rb_parent r h = pc_parent (parent_color h r)"
definition rb_color :: "addr \<Rightarrow> rbheap \<Rightarrow> nat" where "rb_color r h = pc_color (parent_color h r)"
definition rb_is_red :: "addr \<Rightarrow> rbheap \<Rightarrow> bool" where "rb_is_red r h \<longleftrightarrow> rb_color r h = 0"
definition rb_is_black :: "addr \<Rightarrow> rbheap \<Rightarrow> bool" where "rb_is_black r h \<longleftrightarrow> rb_color r h \<noteq> 0"

definition set_pc :: "addr \<Rightarrow> nat \<Rightarrow> rbheap \<Rightarrow> rbheap" where
  "set_pc r v h = h\<lparr>parent_color := (parent_color h)(r := v)\<rparr>"

definition set_left :: "addr \<Rightarrow> addr \<Rightarrow> rbheap \<Rightarrow> rbheap" where
  "set_left r v h = h\<lparr>rb_left := (rb_left h)(r := v)\<rparr>"

definition set_right :: "addr \<Rightarrow> addr \<Rightarrow> rbheap \<Rightarrow> rbheap" where
  "set_right r v h = h\<lparr>rb_right := (rb_right h)(r := v)\<rparr>"

definition rb_set_black :: "addr \<Rightarrow> rbheap \<Rightarrow> rbheap" where
  "rb_set_black r h = set_pc r (parent_color h r OR RB_BLACK) h"

definition rb_red_parent :: "addr \<Rightarrow> rbheap \<Rightarrow> addr" where
  "rb_red_parent r h = parent_color h r"

definition rb_set_parent :: "addr \<Rightarrow> addr \<Rightarrow> rbheap \<Rightarrow> rbheap" where
  "rb_set_parent r p h = set_pc r (rb_color r h OR p) h"

definition rb_set_parent_color :: "addr \<Rightarrow> addr \<Rightarrow> nat \<Rightarrow> rbheap \<Rightarrow> rbheap" where
  "rb_set_parent_color r p c h = set_pc r (p OR c) h"

definition set_parent_color_if :: "addr \<Rightarrow> addr \<Rightarrow> nat \<Rightarrow> rbheap \<Rightarrow> rbheap" where
  "set_parent_color_if r p c h = (if r \<noteq> 0 then rb_set_parent_color r p c h else h)"

definition rb_change_child :: "addr \<Rightarrow> addr \<Rightarrow> addr \<Rightarrow> addr \<Rightarrow> rbheap \<Rightarrow> rbheap" where
  "rb_change_child old new par rt h =
     (if par \<noteq> 0
      then if rb_left h par = old then set_left par new h else set_right par new h
      else h\<lparr>rb_node := (rb_node h)(rt := new)\<rparr>)"

definition rb_rotate_set_parents :: "addr \<Rightarrow> addr \<Rightarrow> addr \<Rightarrow> nat \<Rightarrow> rbheap \<Rightarrow> rbheap" where
  "rb_rotate_set_parents old new rt c h =
     (let par = rb_parent old h
      in rb_change_child old new par rt (rb_set_parent_color old new c (set_pc new (parent_color h old) h)))"

section \<open>Insertion\<close>

text \<open>
  The loop of \<^verbatim>\<open>__rb_insert_fix\<close>. The two halves are the same up to the side; \<^verbatim>\<open>tmp\<close> takes the values it has in the code.
\<close>

fun rb_insert_fix :: "nat \<Rightarrow> addr \<Rightarrow> addr \<Rightarrow> addr \<Rightarrow> rbheap \<Rightarrow> rbheap res" where
  "rb_insert_fix 0 node par rt h = Inl Spin"
| "rb_insert_fix (Suc n) node par rt h =
     (if par = 0
      then let h = rb_set_parent_color node 0 RB_BLACK h in Inr (h\<lparr>rb_node := (rb_node h)(rt := node)\<rparr>)
      else if rb_is_black par h then Inr h
      else
        let gparent = rb_red_parent par h
        in if gparent = 0 then Inl Fault
           else
             let tmp = rb_right h gparent
             in if par \<noteq> tmp
                then
                  if tmp \<noteq> 0 \<and> rb_is_red tmp h
                  then
                    let h = rb_set_parent_color tmp gparent RB_BLACK h;
                        h = rb_set_parent_color par gparent RB_BLACK h;
                        par = rb_parent gparent h;
                        h = rb_set_parent_color gparent par RB_RED h
                    in rb_insert_fix n gparent par rt h
                  else
                    let tmp = rb_right h par;
                        (par, tmp, h) =
                          (if node = tmp
                           then
                             let tmp = rb_left h node;
                                 h = set_right par tmp h;
                                 h = set_parent_color_if tmp par RB_BLACK h;
                                 h = set_left node par h;
                                 h = rb_set_parent_color par node RB_RED h
                             in (node, rb_right h node, h)
                           else (par, tmp, h));
                        h = set_left gparent tmp h;
                        h = set_parent_color_if tmp gparent RB_BLACK h;
                        h = set_right par gparent h
                    in Inr (rb_rotate_set_parents gparent par rt RB_RED h)
                else
                  let tmp = rb_left h gparent
                  in if tmp \<noteq> 0 \<and> rb_is_red tmp h
                     then
                       let h = rb_set_parent_color tmp gparent RB_BLACK h;
                           h = rb_set_parent_color par gparent RB_BLACK h;
                           par = rb_parent gparent h;
                           h = rb_set_parent_color gparent par RB_RED h
                       in rb_insert_fix n gparent par rt h
                     else
                       let tmp = rb_left h par;
                           (par, tmp, h) =
                             (if node = tmp
                              then
                                let tmp = rb_right h node;
                                    h = set_left par tmp h;
                                    h = set_parent_color_if tmp par RB_BLACK h;
                                    h = set_right node par h;
                                    h = rb_set_parent_color par node RB_RED h
                                in (node, rb_left h node, h)
                              else (par, tmp, h));
                           h = set_right gparent tmp h;
                           h = set_parent_color_if tmp gparent RB_BLACK h;
                           h = set_left par gparent h
                       in Inr (rb_rotate_set_parents gparent par rt RB_RED h))"

text \<open>The descent of \<^verbatim>\<open>_rb_insert\<close>: False when an equal node is in the tree.\<close>

fun rb_descend :: "nat \<Rightarrow> (addr \<Rightarrow> addr \<Rightarrow> bool) \<Rightarrow> addr \<Rightarrow> addr \<Rightarrow> rbheap \<Rightarrow> (bool \<times> rbheap) res" where
  "rb_descend 0 cmp node nw h = Inl Spin"
| "rb_descend (Suc n) cmp node nw h =
     (if nw = 0 then Inr (True, h)
      else if cmp node nw
      then
        let nx = rb_left h nw
        in if nx = 0 then Inr (True, set_pc node nw (set_left nw node h)) else rb_descend n cmp node nx h
      else if cmp nw node
      then
        let nx = rb_right h nw
        in if nx = 0 then Inr (True, set_pc node nw (set_right nw node h)) else rb_descend n cmp node nx h
      else Inr (False, h))"

definition rb_insert :: "nat \<Rightarrow> addr \<Rightarrow> addr \<Rightarrow> (addr \<Rightarrow> addr \<Rightarrow> bool) \<Rightarrow> rbheap \<Rightarrow> (int \<times> rbheap) res" where
  "rb_insert n node rt cmp h =
     (let nw = rb_node h rt;
          h = set_pc node 0 (set_left node 0 (set_right node 0 h))
      in rbind (rb_descend n cmp node nw h) (\<lambda>(ok, h).
           if ok then rbind (rb_insert_fix n node (rb_red_parent node h) rt h) (\<lambda>h. Inr (0, h)) else Inr (- 1, h)))"

section \<open>Removal\<close>

text \<open>The loop of \<^verbatim>\<open>__rb_erase\<close> that looks for the successor: the node without a left child and the one above it.\<close>

fun rb_leftmost :: "nat \<Rightarrow> addr \<Rightarrow> addr \<Rightarrow> rbheap \<Rightarrow> (addr \<times> addr) res" where
  "rb_leftmost 0 successor tmp h = Inl Spin"
| "rb_leftmost (Suc n) successor tmp h =
     (if rb_left h tmp = 0 then Inr (successor, tmp) else rb_leftmost n tmp (rb_left h tmp) h)"

definition rb_erase_node :: "nat \<Rightarrow> addr \<Rightarrow> addr \<Rightarrow> rbheap \<Rightarrow> (addr \<times> rbheap) res" where
  "rb_erase_node n node rt h =
     (let child = rb_right h node; tmp = rb_left h node
      in if tmp = 0
         then
           let pc = parent_color h node;
               par = pc_parent pc;
               h = rb_change_child node child par rt h
           in if child \<noteq> 0 then Inr (0, set_pc child pc h) else Inr (if pc_is_black pc then par else 0, h)
         else if child = 0
         then
           let pc = parent_color h node;
               h = set_pc tmp pc h;
               par = pc_parent pc
           in Inr (0, rb_change_child node tmp par rt h)
         else
           rbind
             (if rb_left h child = 0 then Inr (child, child, rb_right h child, h)
              else
                rbind (rb_leftmost n child (rb_left h child) h) (\<lambda>(par, successor).
                  let child2 = rb_right h successor;
                      h = set_left par child2 h;
                      h = set_right successor child h;
                      h = rb_set_parent child successor h
                  in Inr (par, successor, child2, h)))
             (\<lambda>(par, successor, child2, h).
                let tmp = rb_left h node;
                    h = set_left successor tmp h;
                    h = rb_set_parent tmp successor h;
                    pc = parent_color h node;
                    tmp = pc_parent pc;
                    h = rb_change_child node successor tmp rt h
                in if child2 \<noteq> 0
                   then Inr (0, rb_set_parent_color child2 par RB_BLACK (set_pc successor pc h))
                   else
                     let pc2 = parent_color h successor;
                         h = set_pc successor pc h
                     in Inr (if pc_is_black pc2 then par else 0, h)))"

text \<open>The loop of \<^verbatim>\<open>__rb_erase_fix\<close>.\<close>

fun rb_erase_fix :: "nat \<Rightarrow> addr \<Rightarrow> addr \<Rightarrow> addr \<Rightarrow> rbheap \<Rightarrow> rbheap res" where
  "rb_erase_fix 0 node par rt h = Inl Spin"
| "rb_erase_fix (Suc n) node par rt h =
     (let sibling = rb_right h par
      in if node \<noteq> sibling
         then
           if sibling = 0 then Inl Fault
           else
             let (sibling, h) =
                   (if rb_is_red sibling h
                    then
                      let tmp1 = rb_left h sibling;
                          h = set_right par tmp1 h;
                          h = set_parent_color_if tmp1 par RB_BLACK h;
                          h = set_left sibling par h;
                          h = rb_rotate_set_parents par sibling rt RB_RED h
                      in (tmp1, h)
                    else (sibling, h))
             in if sibling = 0 then Inl Fault
                else
                  let tmp1 = rb_right h sibling;
                      tmp2 = rb_left h sibling;
                      black1 = (tmp1 = 0 \<or> rb_is_black tmp1 h)
                  in if black1 \<and> (tmp2 = 0 \<or> rb_is_black tmp2 h)
                     then
                       let h = rb_set_parent_color sibling par RB_RED h
                       in if rb_is_red par h then Inr (rb_set_black par h)
                          else
                            let gpar = rb_parent par h
                            in if gpar \<noteq> 0 then rb_erase_fix n par gpar rt h else Inr h
                     else
                       let (tmp1, sibling, h) =
                             (if black1
                              then
                                let t = rb_right h tmp2;
                                    h = set_left sibling t h;
                                    h = set_parent_color_if t sibling RB_BLACK h;
                                    h = set_right tmp2 sibling h;
                                    h = set_right par tmp2 h
                                in (sibling, tmp2, h)
                              else (tmp1, sibling, h));
                           tmp2 = rb_left h sibling;
                           h = set_right par tmp2 h;
                           h = (if tmp2 \<noteq> 0 then rb_set_parent tmp2 par h else h);
                           h = set_left sibling par h;
                           h = rb_set_parent_color tmp1 sibling RB_BLACK h
                       in Inr (rb_rotate_set_parents par sibling rt RB_BLACK h)
         else
           let sibling = rb_left h par
           in if sibling = 0 then Inl Fault
           else
             let (sibling, h) =
                   (if rb_is_red sibling h
                    then
                      let tmp1 = rb_right h sibling;
                          h = set_left par tmp1 h;
                          h = set_parent_color_if tmp1 par RB_BLACK h;
                          h = set_right sibling par h;
                          h = rb_rotate_set_parents par sibling rt RB_RED h
                      in (tmp1, h)
                    else (sibling, h))
             in if sibling = 0 then Inl Fault
                else
                  let tmp1 = rb_left h sibling;
                      tmp2 = rb_right h sibling;
                      black1 = (tmp1 = 0 \<or> rb_is_black tmp1 h)
                  in if black1 \<and> (tmp2 = 0 \<or> rb_is_black tmp2 h)
                     then
                       let h = rb_set_parent_color sibling par RB_RED h
                       in if rb_is_red par h then Inr (rb_set_black par h)
                          else
                            let gpar = rb_parent par h
                            in if gpar \<noteq> 0 then rb_erase_fix n par gpar rt h else Inr h
                     else
                       let (tmp1, sibling, h) =
                             (if black1
                              then
                                let t = rb_left h tmp2;
                                    h = set_right sibling t h;
                                    h = set_parent_color_if t sibling RB_BLACK h;
                                    h = set_left tmp2 sibling h;
                                    h = set_left par tmp2 h
                                in (sibling, tmp2, h)
                              else (tmp1, sibling, h));
                           tmp2 = rb_right h sibling;
                           h = set_left par tmp2 h;
                           h = (if tmp2 \<noteq> 0 then rb_set_parent tmp2 par h else h);
                           h = set_right sibling par h;
                           h = rb_set_parent_color tmp1 sibling RB_BLACK h
                       in Inr (rb_rotate_set_parents par sibling rt RB_BLACK h))"

text \<open>
  In the case of a red sibling the code writes the parent of \<^verbatim>\<open>tmp1\<close> without a test; a null \<^verbatim>\<open>tmp1\<close> is the fault right behind.
\<close>

definition rb_erase :: "nat \<Rightarrow> addr \<Rightarrow> addr \<Rightarrow> rbheap \<Rightarrow> rbheap res" where
  "rb_erase n node rt h =
     rbind (rb_erase_node n node rt h) (\<lambda>(rebalance, h).
       if rebalance \<noteq> 0 then rb_erase_fix n 0 rebalance rt h else Inr h)"

section \<open>Search\<close>

fun rb_search :: "nat \<Rightarrow> (addr \<Rightarrow> addr \<Rightarrow> bool) \<Rightarrow> addr \<Rightarrow> addr \<Rightarrow> rbheap \<Rightarrow> addr res" where
  "rb_search 0 cmp node nw h = Inl Spin"
| "rb_search (Suc n) cmp node nw h =
     (if nw = 0 then Inr 0
      else if cmp node nw then rb_search n cmp node (rb_left h nw) h
      else if cmp nw node then rb_search n cmp node (rb_right h nw) h
      else Inr nw)"

definition rb_lookup :: "nat \<Rightarrow> addr \<Rightarrow> addr \<Rightarrow> (addr \<Rightarrow> addr \<Rightarrow> bool) \<Rightarrow> rbheap \<Rightarrow> addr res" where
  "rb_lookup n node rt cmp h = rb_search n cmp node (rb_node h rt) h"

fun rb_go_left :: "nat \<Rightarrow> addr \<Rightarrow> rbheap \<Rightarrow> addr res" where
  "rb_go_left 0 nd h = Inl Spin"
| "rb_go_left (Suc n) nd h = (if rb_left h nd = 0 then Inr nd else rb_go_left n (rb_left h nd) h)"

definition rb_first :: "nat \<Rightarrow> addr \<Rightarrow> rbheap \<Rightarrow> addr res" where
  "rb_first n rt h = (if rb_node h rt = 0 then Inr 0 else rb_go_left n (rb_node h rt) h)"

end
