(* ===== verification/Rbtree_Graph.thy ===== *)
theory Rbtree_Graph
  imports Rbtree
begin

text \<open>
  Red-black trees as a data type, trees with a hole, and what it means that the nodes in memory form a tree. The pointer
  operations of \<^verbatim>\<open>Rbtree\<close> are related to operations on these trees in \<^verbatim>\<open>Rbtree_Insert\<close> and \<^verbatim>\<open>Rbtree_Erase\<close>.
\<close>

datatype clr = Red | Black

datatype rbt = Tip | Nd clr rbt addr rbt

text \<open>A path to a hole, innermost first: the hole is the left (\<^verbatim>\<open>FL\<close>) or the right (\<^verbatim>\<open>FR\<close>) child.\<close>

datatype frame = FL clr addr rbt | FR clr rbt addr

fun inorder :: "rbt \<Rightarrow> addr list" where
  "inorder Tip = []"
| "inorder (Nd c l x r) = inorder l @ x # inorder r"

fun plug :: "frame list \<Rightarrow> rbt \<Rightarrow> rbt" where
  "plug [] t = t"
| "plug (FL c x r # k) t = plug k (Nd c t x r)"
| "plug (FR c l x # k) t = plug k (Nd c l x t)"

fun fnode :: "frame \<Rightarrow> addr" where
  "fnode (FL c x r) = x"
| "fnode (FR c l x) = x"

fun fclr :: "frame \<Rightarrow> clr" where
  "fclr (FL c x r) = c"
| "fclr (FR c l x) = c"

fun fsib :: "frame \<Rightarrow> rbt" where
  "fsib (FL c x r) = r"
| "fsib (FR c l x) = l"

fun top_of :: "frame list \<Rightarrow> addr" where
  "top_of [] = 0"
| "top_of (f # k) = fnode f"

fun nodes :: "frame list \<Rightarrow> addr list" where
  "nodes [] = []"
| "nodes (f # k) = fnode f # inorder (fsib f) @ nodes k"

fun kleft :: "frame list \<Rightarrow> addr list" where
  "kleft [] = []"
| "kleft (FL c x r # k) = kleft k"
| "kleft (FR c l x # k) = kleft k @ inorder l @ [x]"

fun kright :: "frame list \<Rightarrow> addr list" where
  "kright [] = []"
| "kright (FL c x r # k) = x # inorder r @ kright k"
| "kright (FR c l x # k) = kright k"

fun is_red :: "rbt \<Rightarrow> bool" where
  "is_red Tip = False"
| "is_red (Nd c l x r) = (c = Red)"

fun paint :: "clr \<Rightarrow> rbt \<Rightarrow> rbt" where
  "paint c Tip = Tip"
| "paint c (Nd c' l x r) = Nd c l x r"

lemma inorder_plug: "inorder (plug k t) = kleft k @ inorder t @ kright k"
  by (induction k t rule: plug.induct) simp_all

lemma nodes_set: "set (nodes k) = set (kleft k) \<union> set (kright k)"
proof (induction k)
  case (Cons f k)
  then show ?case by (cases f) auto
qed simp

lemma distinct_plug: "distinct (inorder (plug k t)) \<longleftrightarrow> distinct (nodes k @ inorder t)"
proof (induction k arbitrary: t)
  case (Cons f k)
  show ?case by (cases f) (auto simp: Cons.IH)
qed simp

lemma inorder_paint [simp]: "inorder (paint c t) = inorder t"
  by (cases t) simp_all

section \<open>Trees in memory\<close>

text \<open>The word that holds a parent and a colour. Nodes are aligned, so the two do not overlap.\<close>

definition pcw :: "addr \<Rightarrow> clr \<Rightarrow> nat" where
  "pcw p c = p + (if c = Black then 1 else 0)"

definition aligned :: "addr \<Rightarrow> bool" where
  "aligned p \<longleftrightarrow> p mod 4 = 0"

lemma or_black: "aligned p \<Longrightarrow> p OR RB_BLACK = pcw p Black"
proof -
  assume a: "aligned p"
  then have "even p" unfolding aligned_def by presburger
  then show ?thesis using or_Suc_0_eq [of p] by (simp add: RB_BLACK_def pcw_def)
qed

lemma or_red: "p OR RB_RED = pcw p Red"
  by (simp add: RB_RED_def pcw_def)

lemma pcw_unpack [simp]:
  "aligned p \<Longrightarrow> pc_parent (pcw p c) = p" "aligned p \<Longrightarrow> pc_color (pcw p Black) = 1" "aligned p \<Longrightarrow> pc_color (pcw p Red) = 0"
  unfolding aligned_def pc_parent_def pc_color_def pcw_def by (auto, presburger+)

lemma pcw_red: "pcw p Red = p"
  by (simp add: pcw_def)

fun tr :: "rbheap \<Rightarrow> addr \<Rightarrow> addr \<Rightarrow> rbt \<Rightarrow> bool" where
  "tr h q p Tip \<longleftrightarrow> q = 0"
| "tr h q p (Nd c l x r) \<longleftrightarrow> q = x \<and> x \<noteq> 0 \<and> aligned x \<and> parent_color h x = pcw p c \<and>
     tr h (rb_left h x) x l \<and> tr h (rb_right h x) x r"

fun cx :: "rbheap \<Rightarrow> addr \<Rightarrow> addr \<Rightarrow> frame list \<Rightarrow> bool" where
  "cx h rt q [] \<longleftrightarrow> rb_node h rt = q"
| "cx h rt q (FL c x r # k) \<longleftrightarrow> x \<noteq> 0 \<and> aligned x \<and> parent_color h x = pcw (top_of k) c \<and> rb_left h x = q \<and>
     tr h (rb_right h x) x r \<and> cx h rt x k"
| "cx h rt q (FR c l x # k) \<longleftrightarrow> x \<noteq> 0 \<and> aligned x \<and> parent_color h x = pcw (top_of k) c \<and> rb_right h x = q \<and>
     tr h (rb_left h x) x l \<and> cx h rt x k"

definition rbtree :: "rbheap \<Rightarrow> addr \<Rightarrow> rbt \<Rightarrow> bool" where
  "rbtree h rt t \<longleftrightarrow> tr h (rb_node h rt) 0 t \<and> distinct (inorder t)"

lemma cx_plug: "(\<exists>q. cx h rt q k \<and> tr h q (top_of k) t) \<longleftrightarrow> tr h (rb_node h rt) 0 (plug k t)"
proof (induction k t rule: plug.induct)
  case (2 c x r k t)
  then show ?case by (auto simp flip: "2.IH")
next
  case (3 c l x k t)
  then show ?case by (auto simp flip: "3.IH")
qed simp

lemma rbtree_plugI: "cx h rt q k \<Longrightarrow> tr h q (top_of k) t \<Longrightarrow> distinct (nodes k @ inorder t) \<Longrightarrow> rbtree h rt (plug k t)"
  unfolding rbtree_def using cx_plug distinct_plug by blast

lemma rbtree_plugE:
  assumes "rbtree h rt (plug k t)"
  obtains q where "cx h rt q k" "tr h q (top_of k) t" "distinct (nodes k @ inorder t)"
  using assms unfolding rbtree_def distinct_plug using cx_plug by blast

lemma top_of_aligned: "cx h rt q k \<Longrightarrow> aligned (top_of k)"
  by (cases "(h, rt, q, k)" rule: cx.cases) (auto simp: aligned_def)

lemma top_of_in: "k \<noteq> [] \<Longrightarrow> top_of k \<in> set (nodes k)"
  by (cases k) auto

lemma tr_nodes: "tr h q p t \<Longrightarrow> x \<in> set (inorder t) \<Longrightarrow> x \<noteq> 0 \<and> aligned x"
  by (induction t arbitrary: q p) auto

lemma cx_nodes: "cx h rt q k \<Longrightarrow> x \<in> set (nodes k) \<Longrightarrow> x \<noteq> 0 \<and> aligned x"
proof (induction k arbitrary: q)
  case (Cons f k)
  then show ?case by (cases f) (auto dest: tr_nodes)
qed simp

lemma tr_0: "tr h 0 p t \<longleftrightarrow> t = Tip"
  by (cases t) auto

section \<open>Writes that leave a tree alone\<close>

lemma rb_fields [simp]:
  "parent_color (set_pc a v h) = (parent_color h)(a := v)" "rb_left (set_pc a v h) = rb_left h"
  "rb_right (set_pc a v h) = rb_right h" "rb_node (set_pc a v h) = rb_node h"
  "parent_color (set_left a v h) = parent_color h" "rb_left (set_left a v h) = (rb_left h)(a := v)"
  "rb_right (set_left a v h) = rb_right h" "rb_node (set_left a v h) = rb_node h"
  "parent_color (set_right a v h) = parent_color h" "rb_left (set_right a v h) = rb_left h"
  "rb_right (set_right a v h) = (rb_right h)(a := v)" "rb_node (set_right a v h) = rb_node h"
  by (simp_all add: set_pc_def set_left_def set_right_def)

lemma tr_cong:
  assumes "\<And>x. x \<in> set (inorder t) \<Longrightarrow>
    parent_color h' x = parent_color h x \<and> rb_left h' x = rb_left h x \<and> rb_right h' x = rb_right h x"
  shows "tr h' q p t = tr h q p t"
  using assms by (induction t arbitrary: q p) auto

lemma cx_cong:
  assumes "\<And>x. x \<in> set (nodes k) \<Longrightarrow>
    parent_color h' x = parent_color h x \<and> rb_left h' x = rb_left h x \<and> rb_right h' x = rb_right h x"
    and "rb_node h' rt = rb_node h rt"
  shows "cx h' rt q k = cx h rt q k"
  using assms
proof (induction k arbitrary: q)
  case (Cons f k)
  then show ?case
  proof (cases f)
    case (FL c x r)
    then show ?thesis using Cons tr_cong [of r h' h] by auto
  next
    case (FR c l x)
    then show ?thesis using Cons tr_cong [of l h' h] by auto
  qed
qed simp

lemma tr_frame [simp]:
  "a \<notin> set (inorder t) \<Longrightarrow> tr (set_pc a v h) q p t = tr h q p t"
  "a \<notin> set (inorder t) \<Longrightarrow> tr (set_left a v h) q p t = tr h q p t"
  "a \<notin> set (inorder t) \<Longrightarrow> tr (set_right a v h) q p t = tr h q p t"
  "tr (h\<lparr>rb_node := w\<rparr>) q p t = tr h q p t"
  by (rule tr_cong; auto)+

lemma cx_frame [simp]:
  "a \<notin> set (nodes k) \<Longrightarrow> cx (set_pc a v h) rt q k = cx h rt q k"
  "a \<notin> set (nodes k) \<Longrightarrow> cx (set_left a v h) rt q k = cx h rt q k"
  "a \<notin> set (nodes k) \<Longrightarrow> cx (set_right a v h) rt q k = cx h rt q k"
  by (rule cx_cong; auto)+

text \<open>Painting the root of a subtree and giving it a new parent.\<close>

lemma tr_set_root:
  assumes "tr h q p (Nd c l x r)" and "distinct (inorder (Nd c l x r))"
  shows "tr (set_pc x (pcw p' c') h) x p' (Nd c' l x r)"
  using assms by auto

lemma tr_set_parent_color_if:
  assumes "tr h q p t" and "distinct (inorder t)" and "aligned p'"
  shows "tr (set_parent_color_if q p' RB_BLACK h) q p' (paint Black t)"
  using assms by (cases t) (auto simp: set_parent_color_if_def rb_set_parent_color_def or_black)

lemma set_parent_color_if_frame [simp]:
  "rb_left (set_parent_color_if q p c h) = rb_left h" "rb_right (set_parent_color_if q p c h) = rb_right h"
  "rb_node (set_parent_color_if q p c h) = rb_node h"
  "x \<noteq> q \<Longrightarrow> parent_color (set_parent_color_if q p c h) x = parent_color h x"
  "(q \<noteq> 0 \<longrightarrow> q \<notin> set (inorder t)) \<Longrightarrow> tr (set_parent_color_if q p c h) qq pp t = tr h qq pp t"
  "(q \<noteq> 0 \<longrightarrow> q \<notin> set (nodes k)) \<Longrightarrow> cx (set_parent_color_if q p c h) rt qq k = cx h rt qq k"
  by (auto simp: set_parent_color_if_def rb_set_parent_color_def)

text \<open>Replacing the hole.\<close>

lemma change_child_fields [simp]:
  "parent_color (rb_change_child old new p rt h) = parent_color h"
  "x \<noteq> p \<Longrightarrow> rb_left (rb_change_child old new p rt h) x = rb_left h x"
  "x \<noteq> p \<Longrightarrow> rb_right (rb_change_child old new p rt h) x = rb_right h x"
  by (auto simp: rb_change_child_def)

lemma tr_change_child [simp]: "p \<notin> set (inorder t) \<Longrightarrow> tr (rb_change_child old new p rt h) q pp t = tr h q pp t"
  by (rule tr_cong) (auto simp: rb_change_child_def)

lemma cx_change_child:
  assumes "cx h rt old k" and "old \<noteq> 0" and "old \<notin> set (nodes k)" and "distinct (nodes k)"
  shows "cx (rb_change_child old new (top_of k) rt h) rt new k"
proof (cases k)
  case (Cons f k')
  show ?thesis
  proof (cases f)
    case (FL c x r)
    then show ?thesis using assms Cons by (auto simp: rb_change_child_def)
  next
    case (FR c l x)
    have "rb_left h x \<noteq> old" using assms Cons FR by (cases l) auto
    then show ?thesis using assms Cons FR by (auto simp: rb_change_child_def)
  qed
qed (use assms in \<open>simp add: rb_change_child_def\<close>)

text \<open>What \<^verbatim>\<open>__rb_rotate_set_parents\<close> does when \<^verbatim>\<open>p\<close> takes the place of \<^verbatim>\<open>g\<close> below the path \<^verbatim>\<open>k\<close>.\<close>

lemma or_color: "aligned p \<Longrightarrow> p OR (if c = Black then RB_BLACK else RB_RED) = pcw p c"
  by (cases c) (simp_all add: or_black or_red)

lemma rotate_set_parents_eq:
  assumes "parent_color h g = pcw (top_of k) c" and "aligned (top_of k)" and "aligned p"
  shows "rb_rotate_set_parents g p rt RB_RED h =
      rb_change_child g p (top_of k) rt (set_pc g (pcw p Red) (set_pc p (pcw (top_of k) c) h))"
    and "rb_rotate_set_parents g p rt RB_BLACK h =
      rb_change_child g p (top_of k) rt (set_pc g (pcw p Black) (set_pc p (pcw (top_of k) c) h))"
  using assms by (simp_all add: rb_rotate_set_parents_def rb_parent_def rb_set_parent_color_def or_red or_black Let_def)

lemma rotated:
  fixes c c' :: clr
  assumes k: "cx h rt g k" and d: "distinct (p # g # nodes k @ inorder t1 @ inorder t2 @ inorder t3)"
    and pg: "p \<noteq> 0" "g \<noteq> 0" "aligned p" "aligned g"
  defines "h' \<equiv> rb_change_child g p (top_of k) rt (set_pc g (pcw p c') (set_pc p (pcw (top_of k) c) h))"
  shows "rb_right h p = g \<Longrightarrow> tr h (rb_left h p) p t1 \<Longrightarrow> tr h (rb_left h g) g t2 \<Longrightarrow> tr h (rb_right h g) g t3 \<Longrightarrow>
      rbtree h' rt (plug k (Nd c t1 p (Nd c' t2 g t3)))"
    and "rb_left h p = g \<Longrightarrow> tr h (rb_left h g) g t1 \<Longrightarrow> tr h (rb_right h g) g t2 \<Longrightarrow> tr h (rb_right h p) p t3 \<Longrightarrow>
      rbtree h' rt (plug k (Nd c (Nd c' t1 g t2) p t3))"
proof -
  have tk: "top_of k \<noteq> p" "top_of k \<noteq> g" "top_of k \<notin> set (inorder t1)" "top_of k \<notin> set (inorder t2)" "top_of k \<notin> set (inorder t3)"
    if "tr h q1 p1 t1" "tr h q2 p2 t2" "tr h q3 p3 t3" for q1 q2 q3 p1 p2 p3
    using d pg that by (cases k; auto dest: tr_nodes)+
  have dk: "p \<notin> set (nodes k)" "g \<notin> set (nodes k)" "distinct (nodes k)" "p \<noteq> g" "g \<noteq> p"
    "p \<notin> set (inorder t1)" "p \<notin> set (inorder t2)" "p \<notin> set (inorder t3)"
    "g \<notin> set (inorder t1)" "g \<notin> set (inorder t2)" "g \<notin> set (inorder t3)" using d by auto
  have cx': "cx h' rt p k" unfolding h'_def by (rule cx_change_child) (use k pg dk in simp_all)
  show "rbtree h' rt (plug k (Nd c t1 p (Nd c' t2 g t3)))"
    if a: "rb_right h p = g" "tr h (rb_left h p) p t1" "tr h (rb_left h g) g t2" "tr h (rb_right h g) g t3"
  proof (rule rbtree_plugI [OF cx'])
    note T = tk [OF a(2,3,4)]
    show "tr h' p (top_of k) (Nd c t1 p (Nd c' t2 g t3))"
      using a pg dk T T(1,2) [symmetric] by (simp add: h'_def)
  qed (use d in auto)
  show "rbtree h' rt (plug k (Nd c (Nd c' t1 g t2) p t3))"
    if a: "rb_left h p = g" "tr h (rb_left h g) g t1" "tr h (rb_right h g) g t2" "tr h (rb_right h p) p t3"
  proof (rule rbtree_plugI [OF cx'])
    note T = tk [OF a(2,3,4)]
    show "tr h' p (top_of k) (Nd c (Nd c' t1 g t2) p t3)"
      using a pg dk T T(1,2) [symmetric] by (simp add: h'_def)
  qed (use d in auto)
qed

end
