(* ===== verification/Rbtree_Inv.thy ===== *)
theory Rbtree_Inv
  imports Rbtree_Graph
begin

text \<open>
  What \<^verbatim>\<open>__rb_insert_fix\<close>, \<^verbatim>\<open>__rb_erase\<close> and \<^verbatim>\<open>__rb_erase_fix\<close> do to a tree, seen as functions on trees with a hole, and that they
  keep the order of the nodes, the colours and the black heights.
\<close>

section \<open>The repair after an insertion\<close>

fun recolour :: "frame \<Rightarrow> frame \<Rightarrow> rbt \<Rightarrow> rbt" where
  "recolour f (FL c g u) t = Nd Red (plug [f] t) g (paint Black u)"
| "recolour f (FR c u g) t = Nd Red (paint Black u) g (plug [f] t)"

fun blackf :: "frame \<Rightarrow> frame" where
  "blackf (FL c x r) = FL Black x r"
| "blackf (FR c l x) = FR Black l x"

fun rot :: "frame \<Rightarrow> frame \<Rightarrow> rbt \<Rightarrow> rbt" where
  "rot (FL c p s) (FL c' g u) t = Nd c' t p (Nd Red (paint Black s) g u)"
| "rot (FR c s p) (FR c' u g) t = Nd c' (Nd Red u g (paint Black s)) p t"
| "rot (FR c s p) (FL c' g u) (Nd d a x b) = Nd c' (Nd Red s p (paint Black a)) x (Nd Red (paint Black b) g u)"
| "rot (FL c p s) (FR c' u g) (Nd d a x b) = Nd c' (Nd Red u g (paint Black a)) x (Nd Red (paint Black b) p s)"
| "rot f g Tip = Tip"

fun ifix :: "frame list \<Rightarrow> rbt \<Rightarrow> rbt" where
  "ifix [] t = paint Black t"
| "ifix [f] t = plug [f] t"
| "ifix (f # g # k) t =
     (if fclr f = Black then plug (f # g # k) t
      else if is_red (fsib g) then ifix k (recolour (blackf f) g t)
      else plug k (rot f g t))"

text \<open>No red node has a red parent, and the root is black: what the walk up the tree relies on.\<close>

fun no_red_red :: "frame list \<Rightarrow> bool" where
  "no_red_red [] \<longleftrightarrow> True"
| "no_red_red [f] \<longleftrightarrow> fclr f = Black"
| "no_red_red (f # g # k) \<longleftrightarrow> (fclr f = Red \<longrightarrow> fclr g = Black) \<and> no_red_red (g # k)"

lemma no_red_red_tl: "no_red_red (f # k) \<Longrightarrow> no_red_red k"
  by (cases k) auto

section \<open>The repair after a removal\<close>

text \<open>
  The subtree in the hole has one black node too few. \<^verbatim>\<open>turn\<close> is the rotation that makes a red sibling the parent, \<^verbatim>\<open>rot4\<close> the
  rotation that ends the repair, for a red child of the sibling.
\<close>

fun turn :: "frame \<Rightarrow> frame \<times> frame" where
  "turn (FL c p (Nd d a s b)) = (FL Red p (paint Black a), FL c s b)"
| "turn (FR c (Nd d b s a) p) = (FR Red (paint Black a) p, FR c b s)"
| "turn f = (f, f)"

fun low :: "frame \<Rightarrow> bool" where
  "low f = (case fsib f of Tip \<Rightarrow> False | Nd d a s b \<Rightarrow> \<not> is_red a \<and> \<not> is_red b)"

fun redsib :: "frame \<Rightarrow> frame" where
  "redsib (FL c p s) = FL c p (paint Red s)"
| "redsib (FR c s p) = FR c (paint Red s) p"

fun rot4 :: "frame \<Rightarrow> rbt \<Rightarrow> rbt" where
  "rot4 (FL c p (Nd d a s b)) t =
     (if is_red b then Nd c (Nd Black t p a) s (paint Black b)
      else case a of Tip \<Rightarrow> Tip | Nd e a1 x a2 \<Rightarrow> Nd c (Nd Black t p a1) x (Nd Black (paint Black a2) s b))"
| "rot4 (FR c (Nd d b s a) p) t =
     (if is_red b then Nd c (paint Black b) s (Nd Black a p t)
      else case a of Tip \<Rightarrow> Tip | Nd e a2 x a1 \<Rightarrow> Nd c (Nd Black b s (paint Black a2)) x (Nd Black a1 p t))"
| "rot4 f t = Tip"

fun dfix :: "frame list \<Rightarrow> rbt \<Rightarrow> rbt" where
  "dfix [] t = t"
| "dfix (f # k) t =
     (if is_red (fsib f)
      then case turn f of (f', g) \<Rightarrow>
        if low f' then plug (g # k) (plug [blackf (redsib f')] t) else plug (g # k) (rot4 f' t)
      else if low f
      then if fclr f = Red then plug k (plug [blackf (redsib f)] t) else dfix k (plug [redsib f] t)
      else plug k (rot4 f t))"

text \<open>The leftmost node of a tree, with its colour, its right subtree and the path to it.\<close>

fun smin :: "rbt \<Rightarrow> frame list \<Rightarrow> frame list \<times> clr \<times> addr \<times> rbt" where
  "smin (Nd c Tip y r) k = (k, c, y, r)"
| "smin (Nd c l x r) k = smin l (FL c x r # k)"
| "smin Tip k = (k, Red, 0, Tip)"

fun derase :: "frame list \<Rightarrow> rbt \<Rightarrow> rbt" where
  "derase k Tip = plug k Tip"
| "derase k (Nd c l x r) =
     (if l = Tip
      then if r = Tip then if c = Black then dfix k Tip else plug k Tip else plug k (paint c r)
      else if r = Tip then plug k (paint c l)
      else case smin r [] of (kk, d, y, yr) \<Rightarrow>
        if yr \<noteq> Tip then plug (kk @ FR c l y # k) (paint Black yr)
        else if d = Black then dfix (kk @ FR c l y # k) Tip
        else plug (kk @ FR c l y # k) Tip)"

section \<open>The order of the nodes\<close>

lemma clr_neq [simp]: "c \<noteq> Black \<longleftrightarrow> c = Red" "c \<noteq> Red \<longleftrightarrow> c = Black"
  by (cases c; simp)+

lemma inorder_blackf [simp]: "inorder (plug [blackf f] t) = inorder (plug [f] t)"
  by (cases f) simp_all

lemma inorder_redsib [simp]: "inorder (plug [redsib f] t) = inorder (plug [f] t)"
  by (cases f) simp_all

lemma plug_Cons: "plug (f # k) t = plug k (plug [f] t)"
  by (cases f) simp_all

lemma plug_append: "plug (k @ k') t = plug k' (plug k t)"
proof (induction k arbitrary: t)
  case (Cons f k)
  show ?case using Cons.IH by (cases f) simp_all
qed simp

lemma inorder_plug_cong: "inorder t = inorder t' \<Longrightarrow> inorder (plug k t) = inorder (plug k t')"
  by (simp add: inorder_plug)

lemma inorder_recolour: "inorder (recolour (blackf f) g t) = inorder (plug [f, g] t)"
  by (cases f; cases g) simp_all

lemma inorder_rot: "t \<noteq> Tip \<Longrightarrow> inorder (rot f g t) = inorder (plug [f, g] t)"
  by (cases "(f, g, t)" rule: rot.cases) simp_all

lemma ifix_inorder: "t \<noteq> Tip \<Longrightarrow> inorder (ifix k t) = inorder (plug k t)"
proof (induction k t rule: ifix.induct)
  case (3 f g k t)
  have ne: "recolour (blackf f) g t \<noteq> Tip" by (cases g) auto
  have r: "inorder (ifix k (recolour (blackf f) g t)) = inorder (plug k (plug [f, g] t))" if "fclr f \<noteq> Black" "is_red (fsib g)"
    using "3.IH" [OF that ne] by (simp only: inorder_plug inorder_recolour)
  have pk: "plug (f # g # k) t = plug k (plug [f, g] t)" using plug_append [of "[f, g]" k t] by simp
  show ?case
    using r inorder_plug_cong [OF inorder_rot [OF "3.prems"], of k f g] unfolding ifix.simps pk by simp
qed simp_all

lemma inorder_rot4: "\<not> low f \<Longrightarrow> fsib f \<noteq> Tip \<Longrightarrow> inorder (rot4 f t) = inorder (plug [f] t)"
  by (cases "(f, t)" rule: rot4.cases) (auto split: rbt.splits)

lemma inorder_turn: "fsib f \<noteq> Tip \<Longrightarrow> turn f = (f', g) \<Longrightarrow> inorder (plug [f', g] t) = inorder (plug [f] t)"
  by (cases f rule: turn.cases) auto

section \<open>Colours and black heights\<close>

fun bh :: "rbt \<Rightarrow> nat" where
  "bh Tip = 0"
| "bh (Nd c l x r) = bh l + (if c = Black then 1 else 0)"

fun invh :: "rbt \<Rightarrow> bool" where
  "invh Tip \<longleftrightarrow> True"
| "invh (Nd c l x r) \<longleftrightarrow> bh l = bh r \<and> invh l \<and> invh r"

fun invc :: "rbt \<Rightarrow> bool" where
  "invc Tip \<longleftrightarrow> True"
| "invc (Nd c l x r) \<longleftrightarrow> invc l \<and> invc r \<and> (c = Red \<longrightarrow> \<not> is_red l \<and> \<not> is_red r)"

definition rb :: "rbt \<Rightarrow> bool" where
  "rb t \<longleftrightarrow> invc t \<and> invh t \<and> \<not> is_red t"

text \<open>The same for a path: what the tree around the hole needs of the tree in the hole.\<close>

fun kh :: "frame list \<Rightarrow> nat \<Rightarrow> bool" where
  "kh [] n \<longleftrightarrow> True"
| "kh (f # k) n \<longleftrightarrow> invh (fsib f) \<and> bh (fsib f) = n \<and> kh k (n + (if fclr f = Black then 1 else 0))"

definition black_top :: "frame list \<Rightarrow> bool" where
  "black_top k \<longleftrightarrow> k \<noteq> [] \<and> fclr (hd k) = Black"

fun kc :: "frame list \<Rightarrow> bool" where
  "kc [] \<longleftrightarrow> True"
| "kc (f # k) \<longleftrightarrow> invc (fsib f) \<and> (fclr f = Red \<longrightarrow> \<not> is_red (fsib f) \<and> black_top k) \<and> kc k"

lemma rb_plug: "rb (plug k t) \<longleftrightarrow> invc t \<and> invh t \<and> kh k (bh t) \<and> kc k \<and> (is_red t \<longrightarrow> black_top k)"
proof (induction k arbitrary: t)
  case Nil
  then show ?case by (auto simp: rb_def black_top_def)
next
  case (Cons f k)
  have "rb (plug (f # k) t) \<longleftrightarrow> rb (plug k (plug [f] t))" by (simp add: plug_Cons [of f k])
  also have "\<dots> \<longleftrightarrow> invc t \<and> invh t \<and> kh (f # k) (bh t) \<and> kc (f # k) \<and> (is_red t \<longrightarrow> black_top (f # k))"
    unfolding Cons.IH by (cases f) (auto simp: black_top_def)
  finally show ?case .
qed

lemma no_red_red_kc: "kc k \<Longrightarrow> no_red_red k"
  by (induction k rule: no_red_red.induct) (auto simp: black_top_def)

lemma paint_black_id: "\<not> is_red t \<Longrightarrow> paint Black t = t"
  by (cases t) auto

lemma is_red_paint [simp]: "\<not> is_red (paint Black t)" "t \<noteq> Tip \<Longrightarrow> is_red (paint Red t)"
  by (cases t; simp)+

lemma inv_paint [simp]: "invc t \<Longrightarrow> invc (paint Black t)" "invh (paint c t) = invh t"
  by (cases t; simp)+

lemma bh_paint: "is_red t \<Longrightarrow> bh (paint Black t) = Suc (bh t)"
  by (cases t) auto

lemma is_red_blackf [simp]: "\<not> is_red (plug [blackf f] t)"
  by (cases f) simp_all

lemma ifix_rb: "invh t \<Longrightarrow> kh k (bh t) \<Longrightarrow> invc t \<Longrightarrow> kc k \<Longrightarrow> is_red t \<Longrightarrow> rb (ifix k t)"
proof (induction k t rule: ifix.induct)
  case (1 t)
  then show ?case by (simp add: rb_def)
next
  case (2 f t)
  then have "fclr f = Black" by (cases "fclr f") (auto simp: black_top_def)
  with 2 show ?case unfolding ifix.simps rb_plug by (auto simp: black_top_def)
next
  case (3 f g k t)
  consider (black) "fclr f = Black" | (red) "fclr f = Red" "is_red (fsib g)" | (rotation) "fclr f = Red" "\<not> is_red (fsib g)"
    by (cases "fclr f") auto
  then show ?case
  proof cases
    case black
    then show ?thesis using "3.prems" rb_plug [of "f # g # k" t] by (simp add: black_top_def)
  next
    case red
    let ?t = "recolour (blackf f) g t"
    have "invh ?t" "kh k (bh ?t)" "invc ?t" "is_red ?t"
      using "3.prems" red bh_paint [OF red(2)] by (cases f; cases g; auto simp: black_top_def)+
    then show ?thesis using "3.IH" red "3.prems"(4) by simp
  next
    case rotation
    have "invh (rot f g t)" "kh k (bh (rot f g t))" "invc (rot f g t)" "\<not> is_red (rot f g t)"
      using "3.prems" rotation by (cases t; cases f; cases g; auto simp: black_top_def paint_black_id)+
    then show ?thesis using rotation "3.prems"(4) by (simp add: rb_plug)
  qed
qed

text \<open>The steps of the repair after a removal.\<close>

lemma rot4_ok:
  assumes "\<not> low f" and "\<not> is_red (fsib f)" and "invh (fsib f)" "invc (fsib f)" "bh (fsib f) = Suc (bh t)"
    and "invh t" "invc t" "\<not> is_red t"
  shows "invh (rot4 f t) \<and> invc (rot4 f t) \<and> bh (rot4 f t) = Suc (bh t) + (if fclr f = Black then 1 else 0) \<and>
    (is_red (rot4 f t) \<longrightarrow> fclr f = Red)"
  using assms by (cases "(f, t)" rule: rot4.cases) (auto split: rbt.splits simp: paint_black_id bh_paint)

lemma low_ok:
  assumes "low f" and "\<not> is_red (fsib f)" and "invh (fsib f)" "invc (fsib f)" "bh (fsib f) = Suc (bh t)"
    and "invh t" "invc t" "\<not> is_red t"
  shows "invh (plug [redsib f] t) \<and> bh (plug [redsib f] t) = bh t + (if fclr f = Black then 1 else 0)"
    and "invc (plug [blackf (redsib f)] t)" "invh (plug [blackf (redsib f)] t)" "bh (plug [blackf (redsib f)] t) = Suc (bh t)"
  using assms by (cases f; cases "fsib f"; auto split: if_splits)+

lemma turn_ok:
  assumes "is_red (fsib f)" and "invh (fsib f)" "invc (fsib f)" and "turn f = (f', g)"
  shows "\<not> is_red (fsib f')" "invh (fsib f')" "invc (fsib f')" "bh (fsib f') = bh (fsib f)" "fclr f' = Red" "fclr g = fclr f"
    "invh (fsib g)" "invc (fsib g)" "bh (fsib g) = bh (fsib f)"
  using assms by (cases f; cases "fsib f"; auto simp: paint_black_id)+

lemma dfix_ok:
  assumes "invh t" and "kh k (Suc (bh t))" and "invc t" and "kc k" and "\<not> is_red t"
  shows "rb (dfix k t) \<and> inorder (dfix k t) = inorder (plug k t)"
  using assms
proof (induction k arbitrary: t)
  case Nil
  then show ?case by (simp add: rb_def)
next
  case (Cons f k)
  have S: "invh (fsib f)" "invc (fsib f)" "bh (fsib f) = Suc (bh t)" "kh k (Suc (bh t) + (if fclr f = Black then 1 else 0))" "kc k"
    "fsib f \<noteq> Tip" using Cons.prems(2,4) by auto
  have pk: "inorder (plug (f # k) t) = inorder (plug k (plug [f] t))" by (simp add: plug_Cons [of f k])
  show ?case
  proof (cases "is_red (fsib f)")
    case True
    obtain f' g where T: "turn f = (f', g)" by (cases "turn f")
    note U = turn_ok [OF True S(1,2) T]
    have b: "bh (fsib f') = Suc (bh t)" "fsib f' \<noteq> Tip" using U(4) S(3) by auto
    have fb: "fclr f = Black" using True Cons.prems(4) by (cases "fclr f") auto
    let ?r = "if low f' then plug [blackf (redsib f')] t else rot4 f' t"
    have r: "invh ?r" "invc ?r" "bh ?r = Suc (bh t)"
      using low_ok [OF _ U(1-3) b(1) Cons.prems(1,3,5)] rot4_ok [OF _ U(1-3) b(1) Cons.prems(1,3,5)] U(5) by auto
    have "dfix (f # k) t = plug (g # k) ?r" using True T by simp
    moreover have "rb (plug (g # k) ?r)"
      unfolding rb_plug using r S fb U by (auto simp: black_top_def)
    moreover have "inorder (plug (g # k) ?r) = inorder (plug (f # k) t)"
    proof -
      have "inorder ?r = inorder (plug [f'] t)" using inorder_rot4 [OF _ b(2)] by simp
      then have "inorder (plug [g] ?r) = inorder (plug [f', g] t)"
        using inorder_plug_cong [of ?r "plug [f'] t" "[g]"] plug_append [of "[f']" "[g]" t] by simp
      then have "inorder (plug [g] ?r) = inorder (plug [f] t)" using inorder_turn [OF S(6) T] by simp
      then show ?thesis unfolding pk plug_Cons [of g k] by (rule inorder_plug_cong)
    qed
    ultimately show ?thesis by simp
  next
    case nr: False
    show ?thesis
    proof (cases "low f")
      case True
      note L = low_ok [OF True nr S(1-3) Cons.prems(1,3,5)]
      show ?thesis
      proof (cases "fclr f")
        case Red
        have "rb (plug k (plug [blackf (redsib f)] t))"
          unfolding rb_plug using L Red S(4,5) by simp
        then show ?thesis
          using nr True Red pk inorder_plug_cong [of "plug [blackf (redsib f)] t" "plug [f] t" k] by simp
      next
        case Black
        then have eq: "plug [blackf (redsib f)] t = plug [redsib f] t" by (cases f) auto
        have "rb (dfix k (plug [redsib f] t)) \<and> inorder (dfix k (plug [redsib f] t)) = inorder (plug k (plug [redsib f] t))"
          using Cons.IH [of "plug [redsib f] t"] L S(4,5) Black is_red_blackf [of "redsib f" t] unfolding eq by simp
        then show ?thesis
          using nr True Black pk inorder_plug_cong [of "plug [redsib f] t" "plug [f] t" k] by simp
      qed
    next
      case False
      note R = rot4_ok [OF False nr S(1-3) Cons.prems(1,3,5)]
      then have "rb (plug k (rot4 f t))"
        unfolding rb_plug using S(4,5) Cons.prems(4) by auto
      then show ?thesis
        using nr False pk inorder_plug_cong [OF inorder_rot4 [OF False S(6)], of k] by simp
    qed
  qed
qed

text \<open>Removal of the node in the hole.\<close>

lemma smin_plug: "t \<noteq> Tip \<Longrightarrow> smin t k = (kk, c, y, r) \<Longrightarrow> plug kk (Nd c Tip y r) = plug k t"
  by (induction t k rule: smin.induct) auto

lemma smin_leftmost: "t \<noteq> Tip \<Longrightarrow> smin t k = (kk, c, y, r) \<Longrightarrow> kleft kk = kleft k"
  by (induction t k rule: smin.induct) auto

lemma kleft_append: "kleft (k @ k') = kleft k' @ kleft k"
  by (induction k rule: kleft.induct) simp_all

lemma kright_append: "kright (k @ k') = kright k @ kright k'"
  by (induction k rule: kright.induct) simp_all

lemma bh_0_black: "bh t = 0 \<Longrightarrow> \<not> is_red t \<Longrightarrow> t = Tip"
  by (cases t) auto

lemma bh_0_red:
  assumes "bh t = 0" and "t \<noteq> Tip" and "invh t" and "invc t"
  obtains y where "t = Nd Red Tip y Tip"
  using assms bh_0_black by (cases t) (auto split: if_splits)

lemma kh_rename: "kh (kk @ FR c l x # k) n = kh (kk @ FR c l y # k) n"
  by (induction kk arbitrary: n) auto

lemma kc_rename: "kc (kk @ FR c l x # k) = kc (kk @ FR c l y # k)"
proof (induction kk)
  case (Cons f kk)
  then show ?case by (cases kk) (auto simp: black_top_def)
qed simp

lemma black_top_rename: "black_top (kk @ FR c l x # k) = black_top (kk @ FR c l y # k)"
  by (cases kk) (auto simp: black_top_def)

lemma derase_both:
  assumes l: "l \<noteq> Tip" and r: "r \<noteq> Tip" and t: "rb (plug k (Nd c l x r))"
  shows "rb (derase k (Nd c l x r)) \<and> inorder (derase k (Nd c l x r)) = kleft k @ inorder l @ inorder r @ kright k"
proof -
  obtain kk d y yr where m: "smin r [] = (kk, d, y, yr)" by (cases "smin r []") auto
  let ?K = "\<lambda>z. kk @ FR c l z # k"
  have R: "r = plug kk (Nd d Tip y yr)" using smin_plug [OF r m] by simp
  have kl: "kleft kk = []" using smin_leftmost [OF r m] by simp
  have "rb (plug (?K x) (Nd d Tip y yr))" using t unfolding R by (simp add: plug_append)
  then have P: "invc yr" "invh yr" "bh yr = 0" "d = Red \<longrightarrow> \<not> is_red yr \<and> black_top (?K y)"
    "kh (?K y) (if d = Black then 1 else 0)" "kc (?K y)"
    unfolding rb_plug kh_rename [of kk c l x k _ y] kc_rename [of kk c l x k y] black_top_rename [of kk c l x k y] by auto
  have io: "inorder (plug (?K y) s) = kleft k @ inorder l @ [y] @ inorder s @ kright kk @ kright k" for s
    by (simp add: inorder_plug kleft_append kright_append kl)
  have ir: "inorder r = y # inorder yr @ kright kk" unfolding R inorder_plug kl by simp
  show ?thesis
  proof (cases "yr = Tip")
    case True
    then show ?thesis using P l r m ir io dfix_ok [of Tip "?K y"] rb_plug [of "?K y" Tip] by auto
  next
    case False
    then obtain z where z: "yr = Nd Red Tip z Tip" using bh_0_red P(1-3) by blast
    then have "d = Black" using P(4) by auto
    then show ?thesis using P l r m ir io z rb_plug [of "?K y" "Nd Black Tip z Tip"] by auto
  qed
qed

lemma derase_ok:
  assumes t: "t = plug k (Nd c l x r)" and rb: "rb t" and d: "distinct (inorder t)"
  shows "rb (derase k (Nd c l x r)) \<and> inorder (derase k (Nd c l x r)) = remove1 x (inorder t)"
proof -
  have P: "invc l" "invc r" "c = Red \<longrightarrow> \<not> is_red l \<and> \<not> is_red r" "invh l" "invh r" "bh l = bh r"
    "kh k (bh l + (if c = Black then 1 else 0))" "kc k" "c = Red \<longrightarrow> black_top k"
    using rb unfolding t rb_plug by auto
  have rem: "remove1 x (inorder t) = kleft k @ inorder l @ inorder r @ kright k"
    using d unfolding t inorder_plug by (simp add: remove1_append)
  have io: "inorder (plug k s) = kleft k @ inorder s @ kright k" for s by (rule inorder_plug)
  consider (leaf) "l = Tip" "r = Tip" | (right) "l = Tip" "r \<noteq> Tip" | (left) "l \<noteq> Tip" "r = Tip" | (both) "l \<noteq> Tip" "r \<noteq> Tip"
    by blast
  then show ?thesis
  proof cases
    case leaf
    then show ?thesis using P dfix_ok [of Tip k] rb_plug [of k Tip] unfolding rem by (auto simp: io)
  next
    case right
    then obtain y where y: "r = Nd Red Tip y Tip" using bh_0_red [of r] P by auto
    then have "c = Black" using P(3) by auto
    then show ?thesis using right y P rb_plug [of k "Nd Black Tip y Tip"] unfolding rem by (simp add: io)
  next
    case left
    then obtain y where y: "l = Nd Red Tip y Tip" using bh_0_red [of l] P by auto
    then have "c = Black" using P(3) by auto
    then show ?thesis using left y P rb_plug [of k "Nd Black Tip y Tip"] unfolding rem by (simp add: io)
  next
    case both
    then show ?thesis unfolding rem using derase_both rb unfolding t by blast
  qed
qed

section \<open>The height\<close>

fun depth :: "rbt \<Rightarrow> nat" where
  "depth Tip = 0"
| "depth (Nd c l x r) = Suc (max (depth l) (depth r))"

lemma depth_bh: "invc t \<Longrightarrow> invh t \<Longrightarrow> depth t \<le> 2 * bh t + (if is_red t then 1 else 0)"
proof (induction t)
  case (Nd c l x r)
  then show ?case by (cases c) (auto split: if_splits)
qed simp

lemma bh_length: "invh t \<Longrightarrow> 2 ^ bh t \<le> Suc (length (inorder t))"
proof (induction t)
  case (Nd c l x r)
  then have "2 ^ bh l \<le> Suc (length (inorder l))" "2 ^ bh l \<le> Suc (length (inorder r))" by auto
  then show ?case by auto
qed simp

lemma depth_le: "rb t \<Longrightarrow> 2 ^ (depth t div 2) \<le> Suc (length (inorder t))"
proof -
  assume rb: "rb t"
  then have "depth t div 2 \<le> bh t" using depth_bh [of t] by (auto simp: rb_def)
  then have "2 ^ (depth t div 2) \<le> (2 ^ bh t :: nat)" by simp
  then show ?thesis using bh_length [of t] rb unfolding rb_def by linarith
qed

lemma length_path: "length k + depth t \<le> depth (plug k t)"
proof (induction k arbitrary: t)
  case (Cons f k)
  have "length k + depth (plug [f] t) \<le> depth (plug k (plug [f] t))" by (rule Cons.IH)
  moreover have "Suc (depth t) \<le> depth (plug [f] t)" by (cases f) auto
  ultimately show ?case unfolding plug_Cons [of f k] by simp
qed simp

end
