(* ===== verification/Rbtree_Insert.thy ===== *)
theory Rbtree_Insert
  imports Rbtree_Inv "HOL-Library.Multiset"
begin

text \<open>
  Insertion into a red-black tree in memory: \<^verbatim>\<open>__rb_insert_fix\<close> does to the nodes what \<^verbatim>\<open>ifix\<close> does to the tree.
\<close>

lemma frame_red_iff:
  "aligned p \<Longrightarrow> parent_color h x = pcw p c \<Longrightarrow> rb_is_red x h \<longleftrightarrow> c = Red"
  "aligned p \<Longrightarrow> parent_color h x = pcw p c \<Longrightarrow> rb_is_black x h \<longleftrightarrow> c = Black"
  by (cases c; simp add: rb_is_red_def rb_is_black_def rb_color_def)+

lemma tr_red_iff: "tr h q p t \<Longrightarrow> aligned p \<Longrightarrow> q \<noteq> 0 \<and> rb_is_red q h \<longleftrightarrow> is_red t"
  by (cases t) (auto simp: frame_red_iff)

lemma tr_root_in: "tr h q p t \<Longrightarrow> q = 0 \<or> q \<in> set (inorder t)"
  by (cases t) auto

text \<open>The two rotations, for each of the four positions of the node.\<close>

lemma distinct_perm: "distinct xs \<Longrightarrow> mset ys = mset xs \<Longrightarrow> distinct ys"
  using mset_eq_imp_distinct_iff by metis

lemma insert_fix_LL:
  assumes c: "cx h rt node (FL Red p s # FL c g u # k)" and t: "tr h node p (Nd d a node b)"
    and d: "distinct (nodes (FL Red p s # FL c g u # k) @ inorder (Nd d a node b))" and u: "\<not> is_red u"
  shows "\<exists>h'. rb_insert_fix (Suc n) node p rt h = Inr h' \<and> rbtree h' rt (plug k (rot (FL Red p s) (FL c g u) (Nd d a node b)))"
proof -
  have C: "cx h rt g k" "parent_color h p = pcw g Red" "parent_color h g = pcw (top_of k) c" "rb_left h p = node" "rb_left h g = p"
    "tr h (rb_right h p) p s" "tr h (rb_right h g) g u" "p \<noteq> 0" "g \<noteq> 0" "aligned p" "aligned g"
    using c by simp_all
  have al: "aligned (top_of k)" using top_of_aligned C(1) by blast
  define tmp where "tmp = rb_right h p"
  define h1 where "h1 = set_right p g (set_parent_color_if tmp g RB_BLACK (set_left g tmp h))"
  have tin: "tmp = 0 \<or> tmp \<in> set (inorder s)" and uin: "rb_right h g = 0 \<or> rb_right h g \<in> set (inorder u)"
    using tr_root_in [OF C(6)] tr_root_in [OF C(7)] by (simp_all add: tmp_def)
  have D: "p \<notin> set (nodes k)" "g \<notin> set (nodes k)" "p \<notin> set (inorder s)" "g \<notin> set (inorder s)" "p \<notin> set (inorder u)"
    "g \<notin> set (inorder u)" "p \<notin> set (inorder (Nd d a node b))" "g \<notin> set (inorder (Nd d a node b))" "distinct (inorder s)"
    "p \<noteq> g" "g \<noteq> p" "node \<notin> set (inorder s)"
    using d by simp_all
  have ds: "set (inorder s) \<inter> set (nodes k) = {}" "set (inorder s) \<inter> set (inorder u) = {}" "set (inorder s) \<inter> set (inorder (Nd d a node b)) = {}"
    using d by auto
  have T: "tmp \<noteq> 0 \<longrightarrow> tmp \<notin> set (nodes k)" "tmp \<noteq> 0 \<longrightarrow> tmp \<notin> set (inorder u)" "tmp \<noteq> 0 \<longrightarrow> tmp \<notin> set (inorder (Nd d a node b))"
    "g \<noteq> tmp" "p \<noteq> tmp" "node \<noteq> tmp" "p \<noteq> rb_right h g"
    using tin uin ds D C(8,9) t by (blast, blast, blast, metis, metis, auto)
  have d': "distinct (p # g # nodes k @ inorder (Nd d a node b) @ inorder (paint Black s) @ inorder u)"
    using d by (rule distinct_perm) simp
  have g1: "parent_color h1 g = pcw (top_of k) c" using C(3) T(4) by (simp add: h1_def)
  have nb: "\<not> rb_is_black p h" "rb_red_parent p h = g" "\<not> (rb_right h g \<noteq> 0 \<and> rb_is_red (rb_right h g) h)"
    using frame_red_iff(2) [OF C(11,2)] C(2) tr_red_iff [OF C(7,11)] u by (simp_all add: rb_red_parent_def pcw_red)
  have "rb_insert_fix (Suc n) node p rt h = Inr (rb_rotate_set_parents g p rt RB_RED h1)"
    unfolding rb_insert_fix.simps Let_def nb(2) h1_def tmp_def
    using nb(1,3) C(8,9) T(6,7) by (auto simp: tmp_def)
  moreover have "rbtree (rb_rotate_set_parents g p rt RB_RED h1) rt (plug k (Nd c (Nd d a node b) p (Nd Red (paint Black s) g u)))"
    unfolding rotate_set_parents_eq(1) [OF g1 al C(10)]
  proof (rule rotated(1) [OF _ d' C(8-11)])
    show "cx h1 rt g k" using C(1) T(1) D(1,2) by (simp add: h1_def)
    show "rb_right h1 p = g" by (simp add: h1_def)
    show "tr h1 (rb_left h1 p) p (Nd d a node b)" using t C(4) D(7,8,11) T(3,6) by (simp add: h1_def)
    show "tr h1 (rb_left h1 g) g (paint Black s)"
      using tr_set_parent_color_if [of "set_left g tmp h" tmp p s g] C(6,11) D(3,4,9) by (simp add: h1_def tmp_def)
    show "tr h1 (rb_right h1 g) g u" using C(7) D(5,6,10,11) T(2) by (simp add: h1_def)
  qed
  ultimately show ?thesis by simp
qed

lemma insert_fix_RR:
  assumes c: "cx h rt node (FR Red s p # FR c u g # k)" and t: "tr h node p (Nd d a node b)"
    and d: "distinct (nodes (FR Red s p # FR c u g # k) @ inorder (Nd d a node b))" and u: "\<not> is_red u"
  shows "\<exists>h'. rb_insert_fix (Suc n) node p rt h = Inr h' \<and> rbtree h' rt (plug k (rot (FR Red s p) (FR c u g) (Nd d a node b)))"
proof -
  have C: "cx h rt g k" "parent_color h p = pcw g Red" "parent_color h g = pcw (top_of k) c" "rb_right h p = node" "rb_right h g = p"
    "tr h (rb_left h p) p s" "tr h (rb_left h g) g u" "p \<noteq> 0" "g \<noteq> 0" "aligned p" "aligned g"
    using c by simp_all
  have al: "aligned (top_of k)" using top_of_aligned C(1) by blast
  define tmp where "tmp = rb_left h p"
  define h1 where "h1 = set_left p g (set_parent_color_if tmp g RB_BLACK (set_right g tmp h))"
  have tin: "tmp = 0 \<or> tmp \<in> set (inorder s)" and uin: "rb_left h g = 0 \<or> rb_left h g \<in> set (inorder u)"
    using tr_root_in [OF C(6)] tr_root_in [OF C(7)] by (simp_all add: tmp_def)
  have D: "p \<notin> set (nodes k)" "g \<notin> set (nodes k)" "p \<notin> set (inorder s)" "g \<notin> set (inorder s)" "p \<notin> set (inorder u)"
    "g \<notin> set (inorder u)" "p \<notin> set (inorder (Nd d a node b))" "g \<notin> set (inorder (Nd d a node b))" "distinct (inorder s)"
    "p \<noteq> g" "g \<noteq> p" "node \<notin> set (inorder s)"
    using d by simp_all
  have ds: "set (inorder s) \<inter> set (nodes k) = {}" "set (inorder s) \<inter> set (inorder u) = {}" "set (inorder s) \<inter> set (inorder (Nd d a node b)) = {}"
    using d by auto
  have T: "tmp \<noteq> 0 \<longrightarrow> tmp \<notin> set (nodes k)" "tmp \<noteq> 0 \<longrightarrow> tmp \<notin> set (inorder u)" "tmp \<noteq> 0 \<longrightarrow> tmp \<notin> set (inorder (Nd d a node b))"
    "g \<noteq> tmp" "p \<noteq> tmp" "node \<noteq> tmp" "p \<noteq> rb_left h g"
    using tin uin ds D C(8,9) t by (blast, blast, blast, metis, metis, auto)
  have d': "distinct (p # g # nodes k @ inorder u @ inorder (paint Black s) @ inorder (Nd d a node b))"
    using d by (rule distinct_perm) simp
  have g1: "parent_color h1 g = pcw (top_of k) c" using C(3) T(4) by (simp add: h1_def)
  have nb: "\<not> rb_is_black p h" "rb_red_parent p h = g" "\<not> (rb_left h g \<noteq> 0 \<and> rb_is_red (rb_left h g) h)"
    using frame_red_iff(2) [OF C(11,2)] C(2) tr_red_iff [OF C(7,11)] u by (simp_all add: rb_red_parent_def pcw_red)
  have "rb_insert_fix (Suc n) node p rt h = Inr (rb_rotate_set_parents g p rt RB_RED h1)"
    unfolding rb_insert_fix.simps Let_def nb(2) h1_def tmp_def
    using nb(1,3) C(5,8,9) T(6) by (auto simp: tmp_def)
  moreover have "rbtree (rb_rotate_set_parents g p rt RB_RED h1) rt (plug k (Nd c (Nd Red u g (paint Black s)) p (Nd d a node b)))"
    unfolding rotate_set_parents_eq(1) [OF g1 al C(10)]
  proof (rule rotated(2) [OF _ d' C(8-11)])
    show "cx h1 rt g k" using C(1) T(1) D(1,2) by (simp add: h1_def)
    show "rb_left h1 p = g" by (simp add: h1_def)
    show "tr h1 (rb_right h1 p) p (Nd d a node b)" using t C(4) D(7,8,11) T(3,6) by (simp add: h1_def)
    show "tr h1 (rb_right h1 g) g (paint Black s)"
      using tr_set_parent_color_if [of "set_right g tmp h" tmp p s g] C(6,11) D(3,4,9) by (simp add: h1_def tmp_def)
    show "tr h1 (rb_left h1 g) g u" using C(7) D(5,6,10,11) T(2) by (simp add: h1_def)
  qed
  ultimately show ?thesis by simp
qed

lemma insert_fix_LR:
  assumes c: "cx h rt node (FR Red s p # FL c g u # k)" and t: "tr h node p (Nd d a node b)"
    and d: "distinct (nodes (FR Red s p # FL c g u # k) @ inorder (Nd d a node b))" and u: "\<not> is_red u"
  shows "\<exists>h'. rb_insert_fix (Suc n) node p rt h = Inr h' \<and> rbtree h' rt (plug k (rot (FR Red s p) (FL c g u) (Nd d a node b)))"
proof -
  have C: "cx h rt g k" "parent_color h p = pcw g Red" "parent_color h g = pcw (top_of k) c" "rb_right h p = node" "rb_left h g = p"
    "tr h (rb_left h p) p s" "tr h (rb_right h g) g u" "p \<noteq> 0" "g \<noteq> 0" "aligned p" "aligned g"
    using c by simp_all
  have N: "tr h (rb_left h node) node a" "tr h (rb_right h node) node b" "node \<noteq> 0" "aligned node" using t by simp_all
  have al: "aligned (top_of k)" using top_of_aligned C(1) by blast
  define a0 where "a0 = rb_left h node"
  define b0 where "b0 = rb_right h node"
  define h0 where "h0 = rb_set_parent_color p node RB_RED (set_left node p (set_parent_color_if a0 p RB_BLACK (set_right p a0 h)))"
  define h1 where "h1 = set_right node g (set_parent_color_if b0 g RB_BLACK (set_left g b0 h0))"
  have h0': "h0 = set_pc p (pcw node Red) (set_left node p (set_parent_color_if a0 p RB_BLACK (set_right p a0 h)))"
    by (simp add: h0_def rb_set_parent_color_def or_red)
  have tin: "a0 = 0 \<or> a0 \<in> set (inorder a)" "b0 = 0 \<or> b0 \<in> set (inorder b)" and uin: "rb_right h g = 0 \<or> rb_right h g \<in> set (inorder u)"
    using tr_root_in [OF N(1)] tr_root_in [OF N(2)] tr_root_in [OF C(7)] by (simp_all add: a0_def b0_def)
  have D: "p \<notin> set (nodes k)" "g \<notin> set (nodes k)" "node \<notin> set (nodes k)"
    "p \<notin> set (inorder s)" "g \<notin> set (inorder s)" "node \<notin> set (inorder s)" "p \<notin> set (inorder u)" "g \<notin> set (inorder u)" "node \<notin> set (inorder u)"
    "p \<notin> set (inorder a)" "g \<notin> set (inorder a)" "node \<notin> set (inorder a)" "p \<notin> set (inorder b)" "g \<notin> set (inorder b)" "node \<notin> set (inorder b)"
    "distinct (inorder a)" "distinct (inorder b)" and E: "p \<noteq> g" "g \<noteq> p" "node \<noteq> p" "p \<noteq> node" "node \<noteq> g" "g \<noteq> node"
    using d by simp_all
  have ds: "set (inorder a) \<inter> set (nodes k) = {}" "set (inorder a) \<inter> set (inorder u) = {}" "set (inorder a) \<inter> set (inorder b) = {}"
    "set (inorder a) \<inter> set (inorder s) = {}" "set (inorder b) \<inter> set (nodes k) = {}" "set (inorder b) \<inter> set (inorder u) = {}"
    "set (inorder b) \<inter> set (inorder s) = {}"
    using d by auto
  have T: "a0 \<noteq> 0 \<longrightarrow> a0 \<notin> set (nodes k)" "a0 \<noteq> 0 \<longrightarrow> a0 \<notin> set (inorder u)" "a0 \<noteq> 0 \<longrightarrow> a0 \<notin> set (inorder b)"
    "a0 \<noteq> 0 \<longrightarrow> a0 \<notin> set (inorder s)"
    "b0 \<noteq> 0 \<longrightarrow> b0 \<notin> set (nodes k)" "b0 \<noteq> 0 \<longrightarrow> b0 \<notin> set (inorder u)" "b0 \<noteq> 0 \<longrightarrow> b0 \<notin> set (inorder a)"
    "b0 \<noteq> 0 \<longrightarrow> b0 \<notin> set (inorder s)"
    using tin ds by blast+
  have I: "g \<noteq> a0" "p \<noteq> a0" "g \<noteq> b0" "p \<noteq> b0" "node \<noteq> a0" "node \<noteq> b0" and pu: "p \<noteq> rb_right h g"
    using tin uin D C(8,9) N(3) by metis+
  have d': "distinct (node # g # nodes k @ inorder (Nd Red s p (paint Black a)) @ inorder (paint Black b) @ inorder u)"
    using d by (rule distinct_perm) simp
  have g1: "parent_color h1 g = pcw (top_of k) c" using C(3) I(1,3) E by (simp add: h1_def h0')
  have nb: "\<not> rb_is_black p h" "rb_red_parent p h = g" "\<not> (rb_right h g \<noteq> 0 \<and> rb_is_red (rb_right h g) h)"
    using frame_red_iff(2) [OF C(11,2)] C(2) tr_red_iff [OF C(7,11)] u by (simp_all add: rb_red_parent_def pcw_red)
  have h0r: "rb_right h0 node = b0" using E by (simp add: h0' b0_def)
  have "rb_insert_fix (Suc n) node p rt h = Inr (rb_rotate_set_parents g node rt RB_RED h1)"
    unfolding rb_insert_fix.simps Let_def nb(2) h1_def
    using nb(1,3) C(4,8,9) pu h0r by (auto simp: h0_def a0_def)
  moreover have "rbtree (rb_rotate_set_parents g node rt RB_RED h1) rt
      (plug k (Nd c (Nd Red s p (paint Black a)) node (Nd Red (paint Black b) g u)))"
    unfolding rotate_set_parents_eq(1) [OF g1 al N(4)]
  proof (rule rotated(1) [OF _ d' N(3) C(9) N(4) C(11)])
    show "cx h1 rt g k" using C(1) T(1,5) D(1-3) by (simp add: h1_def h0')
    show "rb_right h1 node = g" by (simp add: h1_def)
    have "tr h1 a0 p (paint Black a)"
      using tr_set_parent_color_if [of "set_right p a0 h" a0 node a p] N(1) D(10-12,16) T(7) C(10)
      by (simp add: h1_def h0' a0_def)
    then show "tr h1 (rb_left h1 node) node (Nd Red s p (paint Black a))"
      using C(6,8,10) D(4-6) T(4,8) E I(2,4) by (simp add: h1_def h0')
    show "tr h1 (rb_left h1 g) g (paint Black b)"
      using tr_set_parent_color_if [of "set_left g b0 h0" b0 node b g] N(2) D(13-15,17) T(3) C(11)
      by (simp add: h1_def h0' b0_def)
    show "tr h1 (rb_right h1 g) g u" using C(7) D(7-9) E T(2,6) by (simp add: h1_def h0')
  qed
  ultimately show ?thesis by simp
qed

lemma insert_fix_RL:
  assumes c: "cx h rt node (FL Red p s # FR c u g # k)" and t: "tr h node p (Nd d b node a)"
    and d: "distinct (nodes (FL Red p s # FR c u g # k) @ inorder (Nd d b node a))" and u: "\<not> is_red u"
  shows "\<exists>h'. rb_insert_fix (Suc n) node p rt h = Inr h' \<and> rbtree h' rt (plug k (rot (FL Red p s) (FR c u g) (Nd d b node a)))"
proof -
  have C: "cx h rt g k" "parent_color h p = pcw g Red" "parent_color h g = pcw (top_of k) c" "rb_left h p = node" "rb_right h g = p"
    "tr h (rb_right h p) p s" "tr h (rb_left h g) g u" "p \<noteq> 0" "g \<noteq> 0" "aligned p" "aligned g"
    using c by simp_all
  have N: "tr h (rb_right h node) node a" "tr h (rb_left h node) node b" "node \<noteq> 0" "aligned node" using t by simp_all
  have al: "aligned (top_of k)" using top_of_aligned C(1) by blast
  define a0 where "a0 = rb_right h node"
  define b0 where "b0 = rb_left h node"
  define h0 where "h0 = rb_set_parent_color p node RB_RED (set_right node p (set_parent_color_if a0 p RB_BLACK (set_left p a0 h)))"
  define h1 where "h1 = set_left node g (set_parent_color_if b0 g RB_BLACK (set_right g b0 h0))"
  have h0': "h0 = set_pc p (pcw node Red) (set_right node p (set_parent_color_if a0 p RB_BLACK (set_left p a0 h)))"
    by (simp add: h0_def rb_set_parent_color_def or_red)
  have tin: "a0 = 0 \<or> a0 \<in> set (inorder a)" "b0 = 0 \<or> b0 \<in> set (inorder b)" and uin: "rb_left h g = 0 \<or> rb_left h g \<in> set (inorder u)"
    using tr_root_in [OF N(1)] tr_root_in [OF N(2)] tr_root_in [OF C(7)] by (simp_all add: a0_def b0_def)
  have D: "p \<notin> set (nodes k)" "g \<notin> set (nodes k)" "node \<notin> set (nodes k)"
    "p \<notin> set (inorder s)" "g \<notin> set (inorder s)" "node \<notin> set (inorder s)" "p \<notin> set (inorder u)" "g \<notin> set (inorder u)" "node \<notin> set (inorder u)"
    "p \<notin> set (inorder a)" "g \<notin> set (inorder a)" "node \<notin> set (inorder a)" "p \<notin> set (inorder b)" "g \<notin> set (inorder b)" "node \<notin> set (inorder b)"
    "distinct (inorder a)" "distinct (inorder b)" and E: "p \<noteq> g" "g \<noteq> p" "node \<noteq> p" "p \<noteq> node" "node \<noteq> g" "g \<noteq> node"
    using d by simp_all
  have ds: "set (inorder a) \<inter> set (nodes k) = {}" "set (inorder a) \<inter> set (inorder u) = {}" "set (inorder a) \<inter> set (inorder b) = {}"
    "set (inorder a) \<inter> set (inorder s) = {}" "set (inorder b) \<inter> set (nodes k) = {}" "set (inorder b) \<inter> set (inorder u) = {}"
    "set (inorder b) \<inter> set (inorder s) = {}"
    using d by auto
  have T: "a0 \<noteq> 0 \<longrightarrow> a0 \<notin> set (nodes k)" "a0 \<noteq> 0 \<longrightarrow> a0 \<notin> set (inorder u)" "a0 \<noteq> 0 \<longrightarrow> a0 \<notin> set (inorder b)"
    "a0 \<noteq> 0 \<longrightarrow> a0 \<notin> set (inorder s)"
    "b0 \<noteq> 0 \<longrightarrow> b0 \<notin> set (nodes k)" "b0 \<noteq> 0 \<longrightarrow> b0 \<notin> set (inorder u)" "b0 \<noteq> 0 \<longrightarrow> b0 \<notin> set (inorder a)"
    "b0 \<noteq> 0 \<longrightarrow> b0 \<notin> set (inorder s)"
    using tin ds by blast+
  have I: "g \<noteq> a0" "p \<noteq> a0" "g \<noteq> b0" "p \<noteq> b0" "node \<noteq> a0" "node \<noteq> b0" and pu: "p \<noteq> rb_left h g"
    using tin uin D C(8,9) N(3) by metis+
  have d': "distinct (node # g # nodes k @ inorder u @ inorder (paint Black b) @ inorder (Nd Red (paint Black a) p s))"
    using d by (rule distinct_perm) simp
  have g1: "parent_color h1 g = pcw (top_of k) c" using C(3) I(1,3) E by (simp add: h1_def h0')
  have nb: "\<not> rb_is_black p h" "rb_red_parent p h = g" "\<not> (rb_left h g \<noteq> 0 \<and> rb_is_red (rb_left h g) h)"
    using frame_red_iff(2) [OF C(11,2)] C(2) tr_red_iff [OF C(7,11)] u by (simp_all add: rb_red_parent_def pcw_red)
  have h0r: "rb_left h0 node = b0" using E by (simp add: h0' b0_def)
  have "rb_insert_fix (Suc n) node p rt h = Inr (rb_rotate_set_parents g node rt RB_RED h1)"
    unfolding rb_insert_fix.simps Let_def nb(2) h1_def
    using nb(1,3) C(4,5,8,9) h0r by (auto simp: h0_def a0_def)
  moreover have "rbtree (rb_rotate_set_parents g node rt RB_RED h1) rt
      (plug k (Nd c (Nd Red u g (paint Black b)) node (Nd Red (paint Black a) p s)))"
    unfolding rotate_set_parents_eq(1) [OF g1 al N(4)]
  proof (rule rotated(2) [OF _ d' N(3) C(9) N(4) C(11)])
    show "cx h1 rt g k" using C(1) T(1,5) D(1-3) by (simp add: h1_def h0')
    show "rb_left h1 node = g" by (simp add: h1_def)
    have "tr h1 a0 p (paint Black a)"
      using tr_set_parent_color_if [of "set_left p a0 h" a0 node a p] N(1) D(10-12,16) T(7) C(10)
      by (simp add: h1_def h0' a0_def)
    then show "tr h1 (rb_right h1 node) node (Nd Red (paint Black a) p s)"
      using C(6,8,10) D(4-6) T(4,8) E I(2,4) by (simp add: h1_def h0')
    show "tr h1 (rb_right h1 g) g (paint Black b)"
      using tr_set_parent_color_if [of "set_right g b0 h0" b0 node b g] N(2) D(13-15,17) T(3) C(11)
      by (simp add: h1_def h0' b0_def)
    show "tr h1 (rb_left h1 g) g u" using C(7) D(7-9) E T(2,6) by (simp add: h1_def h0')
  qed
  ultimately show ?thesis by simp
qed

text \<open>A red uncle: three nodes change colour and the walk goes on two levels up.\<close>

lemma tr_frame_plug:
  assumes "cx h rt q (f # k)" and "tr h q (fnode f) t" and "distinct (nodes [f] @ inorder t)"
  shows "tr (set_pc (fnode f) (pcw pp Black) h) (fnode f) pp (plug [blackf f] t)"
  using assms by (cases f) auto

lemma set_pc_commute: "a \<noteq> b \<Longrightarrow> set_pc a v (set_pc b w h) = set_pc b w (set_pc a v h)"
  by (simp add: set_pc_def fun_upd_twist)

lemma recolour_step:
  assumes c: "cx h rt node (f # g # k)" and t: "tr h node (fnode f) t"
    and d: "distinct (nodes (f # g # k) @ inorder t)" and f: "fclr f = Red" and u: "is_red (fsib g)"
  shows "\<exists>h'. rb_insert_fix (Suc n) node (fnode f) rt h = rb_insert_fix n (fnode g) (top_of k) rt h' \<and>
    cx h' rt (fnode g) k \<and> tr h' (fnode g) (top_of k) (recolour (blackf f) g t) \<and>
    distinct (nodes k @ inorder (recolour (blackf f) g t))"
proof -
  obtain ul u0 ur where U: "fsib g = Nd Red ul u0 ur" using u by (cases "fsib g") auto
  let ?p = "fnode f" let ?g = "fnode g"
  have F: "parent_color h ?p = pcw ?g Red" "?p \<noteq> 0" "aligned ?p" "cx h rt ?p (g # k)" using c f by (cases f; auto)+
  have G: "parent_color h ?g = pcw (top_of k) (fclr g)" "?g \<noteq> 0" "aligned ?g" "cx h rt ?g k" "tr h u0 ?g (fsib g)"
    using F(4) U by (cases g; auto)+
  have al: "aligned (top_of k)" using top_of_aligned G(4) by blast
  define h' where "h' = set_pc ?g (pcw (top_of k) Red) (set_pc ?p (pcw ?g Black) (set_pc u0 (pcw ?g Black) h))"
  define P where "P = inorder (fsib f) @ inorder t"
  have "distinct (?p # ?g # u0 # inorder ul @ inorder ur @ P @ nodes k)"
    using d by (rule distinct_perm) (simp add: U P_def)
  moreover have sp: "set (inorder (plug [blackf f] t)) = insert ?p (set P)" by (cases f) (auto simp: P_def)
  ultimately have D: "?p \<notin> set (nodes k)" "?g \<notin> set (nodes k)" "u0 \<notin> set (nodes k)" "?p \<noteq> ?g" "?p \<noteq> u0" "?g \<noteq> u0"
    "u0 \<notin> set (inorder (plug [blackf f] t))" "?g \<notin> set (inorder (plug [blackf f] t))"
    "?p \<notin> set (inorder (fsib g))" "?g \<notin> set (inorder (fsib g))" "distinct (?p # P)" "u0 \<notin> set P"
    by (simp_all add: U)
  have dg: "distinct (inorder (fsib g))" using d by simp
  have u0: "u0 \<noteq> 0" "parent_color h u0 = pcw ?g Red" using G(5) U by simp_all
  have red: "\<not> rb_is_black ?p h" "rb_is_red u0 h" "rb_red_parent ?p h = ?g"
    using frame_red_iff(2) [OF G(3) F(1)] frame_red_iff(1) [OF G(3) u0(2)] F(1) by (simp_all add: rb_red_parent_def pcw_red)
  have gp: "rb_parent ?g (set_pc ?p (pcw ?g Black) (set_pc u0 (pcw ?g Black) h)) = top_of k"
    using G(1) D(4-6) al by (simp add: rb_parent_def)
  have "rb_insert_fix (Suc n) node ?p rt h = rb_insert_fix n ?g (top_of k) rt h'"
  proof (cases g)
    case (FL c x r)
    then have "rb_right h ?g = u0" "?p \<noteq> rb_right h ?g" using F(4) U D(5) by auto
    then show ?thesis
      unfolding rb_insert_fix.simps Let_def red(3)
      using red(1,2) F(2) G(2) u0(1) gp al G(3) by (simp add: rb_set_parent_color_def or_black or_red h'_def)
  next
    case (FR c l x)
    then have "rb_left h ?g = u0" "rb_right h ?g = ?p" using F(4) U by auto
    then show ?thesis
      unfolding rb_insert_fix.simps Let_def red(3)
      using red(1,2) F(2) G(2) u0(1) gp al G(3) by (simp add: rb_set_parent_color_def or_black or_red h'_def)
  qed
  moreover have "cx h' rt ?g k" using G(4) D(1-3) by (simp add: h'_def)
  moreover have "tr h' ?g (top_of k) (recolour (blackf f) g t)"
  proof -
    have "tr (set_pc ?p (pcw ?g Black) h) ?p ?g (plug [blackf f] t)"
      by (rule tr_frame_plug [OF c t]) (use D(11) in \<open>simp add: P_def\<close>)
    then have "tr h' ?p ?g (plug [blackf f] t)"
      unfolding h'_def set_pc_commute [OF D(5)] using D(7,8) by simp
    moreover have "tr h' u0 ?g (paint Black (fsib g))"
      using tr_set_root [of h u0 ?g Red ul u0 ur ?g Black] G(5) dg D(9,10) U by (simp add: h'_def)
    moreover have "rb_left h' = rb_left h" "rb_right h' = rb_right h" "parent_color h' ?g = pcw (top_of k) Red"
      by (simp_all add: h'_def)
    ultimately show ?thesis using F(4) G(2,3) U by (cases g) auto
  qed
  moreover have "distinct (nodes k @ inorder (recolour (blackf f) g t))"
    using d by (rule distinct_perm) (cases f; cases g; simp)
  ultimately show ?thesis by blast
qed

lemma insert_fix_rotation:
  assumes c: "cx h rt node (f # g # k)" and t: "tr h node (fnode f) (Nd d' a node b)"
    and d: "distinct (nodes (f # g # k) @ inorder (Nd d' a node b))" and r: "fclr f = Red" "\<not> is_red (fsib g)"
  shows "\<exists>h'. rb_insert_fix (Suc n) node (fnode f) rt h = Inr h' \<and> rbtree h' rt (plug k (rot f g (Nd d' a node b)))"
proof (cases f)
  case (FL c p s)
  then have f: "f = FL Red p s" using r(1) by simp
  show ?thesis
  proof (cases g)
    case g: (FL c g' u)
    show ?thesis using insert_fix_LL [OF c [unfolded f g] _ d [unfolded f g]] t r(2) f g
      by (simp del: rb_insert_fix.simps)
  next
    case g: (FR c u g')
    show ?thesis using insert_fix_RL [OF c [unfolded f g] _ d [unfolded f g]] t r(2) f g
      by (simp del: rb_insert_fix.simps)
  qed
next
  case (FR c s p)
  then have f: "f = FR Red s p" using r(1) by simp
  show ?thesis
  proof (cases g)
    case g: (FL c g' u)
    show ?thesis using insert_fix_LR [OF c [unfolded f g] _ d [unfolded f g]] t r(2) f g
      by (simp del: rb_insert_fix.simps)
  next
    case g: (FR c u g')
    show ?thesis using insert_fix_RR [OF c [unfolded f g] _ d [unfolded f g]] t r(2) f g
      by (simp del: rb_insert_fix.simps)
  qed
qed

text \<open>The whole walk; fuel for half of the path is enough.\<close>

lemma insert_fix_refines:
  assumes "cx h rt node k" and "tr h node (top_of k) t" and "t \<noteq> Tip" and "distinct (nodes k @ inorder t)"
    and "no_red_red k" and "length k < 2 * n"
  shows "\<exists>h'. rb_insert_fix n node (top_of k) rt h = Inr h' \<and> rbtree h' rt (ifix k t)"
  using assms
proof (induction k t arbitrary: n h node rule: ifix.induct)
  case (1 t)
  then obtain m l r c where "n = Suc m" "t = Nd c l node r" by (cases n; cases t) auto
  with 1 show ?case by (auto simp: rbtree_def rb_set_parent_color_def RB_BLACK_def pcw_def aligned_def Let_def)
next
  case (2 f t)
  then obtain m where n: "n = Suc m" by (cases n) auto
  have "parent_color h (fnode f) = pcw 0 Black" "fnode f \<noteq> 0" using "2.prems"(1,5) by (cases f; simp)+
  moreover from this have "rb_is_black (fnode f) h" using frame_red_iff(2) [of 0] by (simp add: aligned_def)
  ultimately show ?case using n rbtree_plugI [OF "2.prems"(1,2,4)] by simp
next
  case (3 f g k t)
  then obtain m where n: "n = Suc m" "length k < 2 * m" by (cases n) auto
  have F: "parent_color h (fnode f) = pcw (fnode g) (fclr f)" "fnode f \<noteq> 0" and ag: "aligned (fnode g)"
    using "3.prems"(1) by (cases f; cases g; simp)+
  consider (black) "fclr f = Black" | (red) "fclr f = Red" "is_red (fsib g)" | (rotation) "fclr f = Red" "\<not> is_red (fsib g)"
    by (cases "fclr f") auto
  then show ?case
  proof cases
    case black
    then have "rb_is_black (fnode f) h" using frame_red_iff(2) [OF ag F(1)] by simp
    then show ?thesis using n(1) F(2) black rbtree_plugI [OF "3.prems"(1,2,4)] by simp
  next
    case red
    obtain h' where h': "rb_insert_fix n node (fnode f) rt h = rb_insert_fix m (fnode g) (top_of k) rt h'" "cx h' rt (fnode g) k"
      "tr h' (fnode g) (top_of k) (recolour (blackf f) g t)" "distinct (nodes k @ inorder (recolour (blackf f) g t))"
      using recolour_step [OF "3.prems"(1) _ "3.prems"(4) red] "3.prems"(2) unfolding n(1) by auto
    have "recolour (blackf f) g t \<noteq> Tip" by (cases g) auto
    moreover have "no_red_red k" using "3.prems"(5) no_red_red_tl by blast
    ultimately show ?thesis
      using "3.IH" [OF _ _ h'(2,3) _ h'(4) _ n(2)] red h'(1) by auto
  next
    case rotation
    obtain d a b where t: "t = Nd d a node b" using "3.prems"(2,3) by (cases t) auto
    have "\<exists>h'. rb_insert_fix (Suc m) node (fnode f) rt h = Inr h' \<and> rbtree h' rt (plug k (rot f g t))"
      using insert_fix_rotation [OF "3.prems"(1) _ "3.prems"(4) [unfolded t] rotation] "3.prems"(2) unfolding t by simp
    then show ?thesis using rotation n(1) by (simp del: rb_insert_fix.simps)
  qed
qed

section \<open>The descent\<close>

text \<open>The path from a subtree to the place of a new node, or None when an equal node is there.\<close>

fun path :: "(addr \<Rightarrow> addr \<Rightarrow> bool) \<Rightarrow> addr \<Rightarrow> rbt \<Rightarrow> frame list \<Rightarrow> frame list option" where
  "path cmp x Tip k = Some k"
| "path cmp x (Nd c l y r) k =
     (if cmp x y then path cmp x l (FL c y r # k) else if cmp y x then path cmp x r (FR c l y # k) else None)"

lemma path_plug: "path cmp x t k = Some k' \<Longrightarrow> plug k' Tip = plug k t"
  by (induction t arbitrary: k) (auto split: if_splits)

lemma path_none: "path cmp x t k = None \<Longrightarrow> \<exists>y \<in> set (inorder t). \<not> cmp x y \<and> \<not> cmp y x"
  by (induction t arbitrary: k) (auto split: if_splits)

lemma path_length: "path cmp x t k = Some k' \<Longrightarrow> t \<noteq> Tip \<Longrightarrow> k' \<noteq> []"
proof (induction t arbitrary: k)
  case (Nd c l y r)
  then show ?case by (cases "l = Tip"; cases "r = Tip") (auto split: if_splits)
qed simp

lemma tr_0_iff: "tr h q p t \<Longrightarrow> q = 0 \<longleftrightarrow> t = Tip"
  by (cases t) auto

lemma descend_refines:
  assumes "cx h rt q k" and "tr h q (top_of k) t" and "t \<noteq> Tip" and "distinct (nodes k @ inorder t)"
    and "node \<noteq> 0" "aligned node" "node \<notin> set (nodes k @ inorder t)" "rb_left h node = 0" "rb_right h node = 0" and "depth t < n"
  shows "case path cmp node t k of
      None \<Rightarrow> rb_descend n cmp node q h = Inr (False, h)
    | Some k' \<Rightarrow> \<exists>h'. rb_descend n cmp node q h = Inr (True, h') \<and> cx h' rt node k' \<and>
        tr h' node (top_of k') (Nd Red Tip node Tip) \<and> parent_color h' node = top_of k'"
  using assms
proof (induction t arbitrary: q k n)
  case (Nd c l y r)
  then obtain m where n: "n = Suc m" "depth l < m" "depth r < m" by (cases n) auto
  have y: "q = y" "y \<noteq> 0" "aligned y" "parent_color h y = pcw (top_of k) c" "tr h (rb_left h y) y l" "tr h (rb_right h y) y r"
    using Nd.prems(2) by simp_all
  have cl: "cx h rt (rb_left h y) (FL c y r # k)" and cr: "cx h rt (rb_right h y) (FR c l y # k)"
    using Nd.prems(1) y by simp_all
  have d: "distinct (nodes (FL c y r # k) @ inorder l)" "distinct (nodes (FR c l y # k) @ inorder r)"
    "node \<notin> set (nodes (FL c y r # k) @ inorder l)" "node \<notin> set (nodes (FR c l y # k) @ inorder r)"
    using Nd.prems(4,7) by auto
  consider (left) "cmp node y" | (right) "\<not> cmp node y" "cmp y node" | (equal) "\<not> cmp node y" "\<not> cmp y node" by blast
  then show ?case
  proof cases
    case left
    show ?thesis
    proof (cases "l = Tip")
      case True
      let ?h = "set_pc node y (set_left y node h)"
      have "rb_descend n cmp node q h = Inr (True, ?h)" using left n(1) y(1,2,5) True by simp
      moreover have "cx ?h rt node (FL c y r # k)" "tr ?h node y (Nd Red Tip node Tip)"
        using Nd.prems(1,5,6,8,9) y d(1,3) by (simp_all add: pcw_red)
      ultimately show ?thesis using left True by simp
    next
      case False
      then have "rb_left h y \<noteq> 0" using tr_0_iff [OF y(5)] by simp
      then have st: "rb_descend n cmp node q h = rb_descend m cmp node (rb_left h y) h" using left n(1) y(1,2) by simp
      show ?thesis
        unfolding st using Nd.IH(1) [OF cl _ False d(1) Nd.prems(5,6) d(3) Nd.prems(8,9) n(2)] left y(5) by simp
    qed
  next
    case right
    show ?thesis
    proof (cases "r = Tip")
      case True
      let ?h = "set_pc node y (set_right y node h)"
      have "rb_descend n cmp node q h = Inr (True, ?h)" using right n(1) y(1,2,6) True by simp
      moreover have "cx ?h rt node (FR c l y # k)" "tr ?h node y (Nd Red Tip node Tip)"
        using Nd.prems(1,5,6,8,9) y d(2,4) by (simp_all add: pcw_red)
      ultimately show ?thesis using right True by simp
    next
      case False
      then have "rb_right h y \<noteq> 0" using tr_0_iff [OF y(6)] by simp
      then have st: "rb_descend n cmp node q h = rb_descend m cmp node (rb_right h y) h" using right n(1) y(1,2) by simp
      show ?thesis
        unfolding st using Nd.IH(2) [OF cr _ False d(2) Nd.prems(5,6) d(4) Nd.prems(8,9) n(3)] right y(6) by simp
    qed
  next
    case equal
    then show ?thesis using n(1) y by simp
  qed
qed simp

section \<open>Insertion\<close>

definition new_node :: "addr \<Rightarrow> rbheap \<Rightarrow> rbheap" where
  "new_node node h = set_pc node 0 (set_left node 0 (set_right node 0 h))"

lemma new_node_tree: "node \<notin> set (inorder t) \<Longrightarrow> rbtree h rt t \<Longrightarrow> rbtree (new_node node h) rt t"
  by (simp add: rbtree_def new_node_def)

lemma rb_insert_tree:
  assumes t: "rbtree h rt t" "rb t" and node: "node \<noteq> 0" "aligned node" "node \<notin> set (inorder t)" and n: "Suc (depth t) < n"
  shows "case path cmp node t [] of
      None \<Rightarrow> rb_insert n node rt cmp h = Inr (- 1, new_node node h)
    | Some k \<Rightarrow> \<exists>h'. rb_insert n node rt cmp h = Inr (0, h') \<and> rbtree h' rt (ifix k (Nd Red Tip node Tip))"
proof (cases "t = Tip")
  case True
  let ?h = "new_node node h"
  obtain m where m: "n = Suc m" using n by (cases n) auto
  have "rb_node h rt = 0" using t(1) True by (simp add: rbtree_def)
  then have "rb_insert n node rt cmp h = Inr (0, (rb_set_parent_color node 0 RB_BLACK ?h)\<lparr>rb_node := (rb_node ?h)(rt := node)\<rparr>)"
    unfolding m by (simp add: rb_insert_def Let_def rb_red_parent_def new_node_def rb_set_parent_color_def)
  then show ?thesis
    using True node by (auto simp: rbtree_def rb_set_parent_color_def new_node_def pcw_def RB_BLACK_def)
next
  case False
  let ?h = "new_node node h"
  have h: "rbtree ?h rt t" using new_node_tree node(3) t(1) .
  have rn: "rb_node ?h rt = rb_node h rt" by (simp add: new_node_def)
  have C: "cx ?h rt (rb_node h rt) []" "tr ?h (rb_node h rt) (top_of []) t" "distinct (nodes [] @ inorder t)"
    using h rn by (simp_all add: rbtree_def)
  have z: "rb_left ?h node = 0" "rb_right ?h node = 0" by (simp_all add: new_node_def)
  have D: "case path cmp node t [] of None \<Rightarrow> rb_descend n cmp node (rb_node h rt) ?h = Inr (False, ?h)
    | Some k' \<Rightarrow> \<exists>h'. rb_descend n cmp node (rb_node h rt) ?h = Inr (True, h') \<and> cx h' rt node k' \<and>
        tr h' node (top_of k') (Nd Red Tip node Tip) \<and> parent_color h' node = top_of k'"
    by (rule descend_refines [OF C(1,2) False C(3) node(1,2) _ z]) (use node(3) n in simp_all)
  show ?thesis
  proof (cases "path cmp node t []")
    case None
    then show ?thesis using D by (simp add: rb_insert_def Let_def new_node_def)
  next
    case (Some k)
    then obtain h1 where h1: "rb_descend n cmp node (rb_node h rt) ?h = Inr (True, h1)" "cx h1 rt node k"
      "tr h1 node (top_of k) (Nd Red Tip node Tip)" "parent_color h1 node = top_of k" using D by auto
    have pk: "plug k Tip = t" using path_plug [OF Some] by simp
    have "rb (plug k Tip)" "distinct (inorder (plug k Tip))" using t pk by (simp_all add: rbtree_def)
    then have kc: "no_red_red k" and d: "distinct (nodes k @ inorder (Nd Red Tip node Tip))"
      using node(3) pk nodes_set [of k] unfolding rb_plug distinct_plug by (auto simp: no_red_red_kc inorder_plug)
    have "length k < 2 * n" using length_path [of k Tip] pk n by simp
    then obtain h' where "rb_insert_fix n node (top_of k) rt h1 = Inr h'" "rbtree h' rt (ifix k (Nd Red Tip node Tip))"
      using insert_fix_refines [OF h1(2,3) _ d kc] by auto
    then show ?thesis using Some h1(1,4) by (simp add: rb_insert_def Let_def new_node_def rb_red_parent_def)
  qed
qed

end
