(* ===== verification/Rbtree_Erase.thy ===== *)
theory Rbtree_Erase
  imports Rbtree_Insert
begin

text \<open>
  Removal from a red-black tree in memory: \<^verbatim>\<open>__rb_erase\<close> and \<^verbatim>\<open>__rb_erase_fix\<close> do to the nodes what \<^verbatim>\<open>derase\<close> and \<^verbatim>\<open>dfix\<close> do to the
  tree. No null pointer is followed, because a subtree beside one that lacks a black node is not empty.
\<close>

section \<open>Writes to the root of a subtree\<close>

fun rp :: "rbt \<Rightarrow> addr" where
  "rp Tip = 0"
| "rp (Nd c l x r) = x"

lemma tr_rp: "tr h q p t \<Longrightarrow> q = rp t"
  by (cases t) auto

lemma rp_in: "rp t = 0 \<or> rp t \<in> set (inorder t)"
  by (cases t) auto

lemma rp_notin: "set (inorder t) \<inter> A = {} \<Longrightarrow> rp t \<noteq> 0 \<longrightarrow> rp t \<notin> A"
  by (cases t) auto

lemma rp_neq: "x \<notin> set (inorder t) \<Longrightarrow> x \<noteq> 0 \<Longrightarrow> x \<noteq> rp t"
  by (cases t) auto

lemma rbtree_hole:
  assumes "rbtree h rt (plug k t)"
  shows "cx h rt (rp t) k" "tr h (rp t) (top_of k) t" "distinct (nodes k @ inorder t)"
  using assms by (auto elim!: rbtree_plugE dest: tr_rp)

lemma paint_node:
  assumes "rbtree h rt (plug k (Nd c l x r))"
  shows "rbtree (set_pc x (pcw (top_of k) c') h) rt (plug k (Nd c' l x r))"
proof (rule rbtree_plugI)
  note H = rbtree_hole [OF assms]
  show "cx (set_pc x (pcw (top_of k) c') h) rt x k" using H(1,3) by simp
  show "tr (set_pc x (pcw (top_of k) c') h) x (top_of k) (Nd c' l x r)" using H(2,3) by simp
  show "distinct (nodes k @ inorder (Nd c' l x r))" using H(3) by simp
qed

definition set_parent_if :: "addr \<Rightarrow> addr \<Rightarrow> rbheap \<Rightarrow> rbheap" where
  "set_parent_if q p h = (if q \<noteq> 0 then rb_set_parent q p h else h)"

lemma color_or: "aligned p \<Longrightarrow> aligned pp \<Longrightarrow> pc_color (pcw pp c) OR p = pcw p c"
  using or_black [of p] or_red [of p] by (cases c) (simp_all add: RB_BLACK_def RB_RED_def or.commute)

lemma set_parent_if_frame [simp]:
  "rb_left (set_parent_if q p h) = rb_left h" "rb_right (set_parent_if q p h) = rb_right h"
  "rb_node (set_parent_if q p h) = rb_node h"
  "x \<noteq> q \<Longrightarrow> parent_color (set_parent_if q p h) x = parent_color h x"
  "(q \<noteq> 0 \<longrightarrow> q \<notin> set (inorder t)) \<Longrightarrow> tr (set_parent_if q p h) qq pp t = tr h qq pp t"
  "(q \<noteq> 0 \<longrightarrow> q \<notin> set (nodes k)) \<Longrightarrow> cx (set_parent_if q p h) rt qq k = cx h rt qq k"
  by (auto simp: set_parent_if_def rb_set_parent_def)

lemma tr_set_parent_if:
  assumes "tr h q p t" and "distinct (inorder t)" and "aligned p'" "aligned p"
  shows "tr (set_parent_if q p' h) q p' t"
  using assms by (cases t) (auto simp: set_parent_if_def rb_set_parent_def rb_color_def color_or)

section \<open>The repair\<close>

lemma erase_turn_L:
  assumes T: "rbtree h rt (plug (FL c p (Nd Red a s b) # k) t)"
  shows "rbtree (rb_rotate_set_parents p s rt RB_RED (set_left s p (set_parent_color_if (rp a) p RB_BLACK (set_right p (rp a) h)))) rt
    (plug (FL Red p (paint Black a) # FL c s b # k) t)"
proof -
  note H = rbtree_hole [OF T]
  have C: "cx h rt p k" "parent_color h p = pcw (top_of k) c" "rb_left h p = rp t" "p \<noteq> 0" "aligned p" "s \<noteq> 0" "aligned s"
    "tr h (rb_left h s) s a" "tr h (rb_right h s) s b" "tr h (rp t) p t"
    using H(1,2) by simp_all
  have al: "aligned (top_of k)" using top_of_aligned C(1) by blast
  define h1 where "h1 = set_left s p (set_parent_color_if (rp a) p RB_BLACK (set_right p (rp a) h))"
  have d': "distinct (s # p # nodes k @ inorder t @ inorder (paint Black a) @ inorder b)"
    using H(3) by (rule distinct_perm) simp
  have D: "p \<notin> set (nodes k)" "s \<notin> set (nodes k)" "p \<noteq> s" "s \<noteq> p" "p \<notin> set (inorder t)" "s \<notin> set (inorder t)"
    "p \<notin> set (inorder a)" "s \<notin> set (inorder a)" "p \<notin> set (inorder b)" "s \<notin> set (inorder b)"
    using d' by simp_all
  have ds: "set (inorder a) \<inter> set (nodes k) = {}" "set (inorder a) \<inter> set (inorder t) = {}" "set (inorder a) \<inter> set (inorder b) = {}"
    and da: "distinct (inorder a)"
    using d' unfolding distinct.simps distinct_append set_append inorder_paint by blast+
  have A: "rp a \<noteq> 0 \<longrightarrow> rp a \<notin> set (nodes k)" "rp a \<noteq> 0 \<longrightarrow> rp a \<notin> set (inorder t)" "rp a \<noteq> 0 \<longrightarrow> rp a \<notin> set (inorder b)"
    using rp_notin [OF ds(1)] rp_notin [OF ds(2)] rp_notin [OF ds(3)] by simp_all
  have B: "p \<noteq> rp a" "s \<noteq> rp a" using rp_neq [OF D(7) C(4)] rp_neq [OF D(8) C(6)] by simp_all
  have g1: "parent_color h1 p = pcw (top_of k) c" using C(2) B(1) by (simp add: h1_def)
  have "rbtree (rb_rotate_set_parents p s rt RB_RED h1) rt (plug k (Nd c (Nd Red t p (paint Black a)) s b))"
    unfolding rotate_set_parents_eq(1) [OF g1 al C(7)]
  proof (rule rotated(2) [OF _ d' C(6,4,7,5)])
    show "cx h1 rt p k" using C(1) A(1) D(1,2) by (simp add: h1_def)
    show "rb_left h1 s = p" by (simp add: h1_def)
    show "tr h1 (rb_left h1 p) p t" using C(3,10) A(2) D(3,5,6) by (simp add: h1_def)
    show "tr h1 (rb_right h1 p) p (paint Black a)"
      using tr_set_parent_color_if [of "set_right p (rp a) h" "rp a" s a p] C(5,8) tr_rp [OF C(8)] da D(7,8) by (simp add: h1_def)
    show "tr h1 (rb_right h1 s) s b" using C(9) A(3) D(4,9,10) by (simp add: h1_def)
  qed
  then show ?thesis by (simp add: h1_def)
qed

lemma erase_turn_R:
  assumes T: "rbtree h rt (plug (FR c (Nd Red b s a) p # k) t)"
  shows "rbtree (rb_rotate_set_parents p s rt RB_RED (set_right s p (set_parent_color_if (rp a) p RB_BLACK (set_left p (rp a) h)))) rt
    (plug (FR Red (paint Black a) p # FR c b s # k) t)"
proof -
  note H = rbtree_hole [OF T]
  have C: "cx h rt p k" "parent_color h p = pcw (top_of k) c" "rb_right h p = rp t" "p \<noteq> 0" "aligned p" "s \<noteq> 0" "aligned s"
    "tr h (rb_right h s) s a" "tr h (rb_left h s) s b" "tr h (rp t) p t"
    using H(1,2) by simp_all
  have al: "aligned (top_of k)" using top_of_aligned C(1) by blast
  define h1 where "h1 = set_right s p (set_parent_color_if (rp a) p RB_BLACK (set_left p (rp a) h))"
  have d': "distinct (s # p # nodes k @ inorder b @ inorder (paint Black a) @ inorder t)"
    using H(3) by (rule distinct_perm) simp
  have D: "p \<notin> set (nodes k)" "s \<notin> set (nodes k)" "p \<noteq> s" "s \<noteq> p" "p \<notin> set (inorder t)" "s \<notin> set (inorder t)"
    "p \<notin> set (inorder a)" "s \<notin> set (inorder a)" "p \<notin> set (inorder b)" "s \<notin> set (inorder b)"
    using d' by simp_all
  have ds: "set (inorder a) \<inter> set (nodes k) = {}" "set (inorder a) \<inter> set (inorder t) = {}" "set (inorder a) \<inter> set (inorder b) = {}"
    and da: "distinct (inorder a)"
    using d' unfolding distinct.simps distinct_append set_append inorder_paint by blast+
  have A: "rp a \<noteq> 0 \<longrightarrow> rp a \<notin> set (nodes k)" "rp a \<noteq> 0 \<longrightarrow> rp a \<notin> set (inorder t)" "rp a \<noteq> 0 \<longrightarrow> rp a \<notin> set (inorder b)"
    using rp_notin [OF ds(1)] rp_notin [OF ds(2)] rp_notin [OF ds(3)] by simp_all
  have B: "p \<noteq> rp a" "s \<noteq> rp a" using rp_neq [OF D(7) C(4)] rp_neq [OF D(8) C(6)] by simp_all
  have g1: "parent_color h1 p = pcw (top_of k) c" using C(2) B(1) by (simp add: h1_def)
  have "rbtree (rb_rotate_set_parents p s rt RB_RED h1) rt (plug k (Nd c b s (Nd Red (paint Black a) p t)))"
    unfolding rotate_set_parents_eq(1) [OF g1 al C(7)]
  proof (rule rotated(1) [OF _ d' C(6,4,7,5)])
    show "cx h1 rt p k" using C(1) A(1) D(1,2) by (simp add: h1_def)
    show "rb_right h1 s = p" by (simp add: h1_def)
    show "tr h1 (rb_right h1 p) p t" using C(3,10) A(2) D(3,5,6) by (simp add: h1_def)
    show "tr h1 (rb_left h1 p) p (paint Black a)"
      using tr_set_parent_color_if [of "set_left p (rp a) h" "rp a" s a p] C(5,8) tr_rp [OF C(8)] da D(7,8) by (simp add: h1_def)
    show "tr h1 (rb_left h1 s) s b" using C(9) A(3) D(4,9,10) by (simp add: h1_def)
  qed
  then show ?thesis by (simp add: h1_def)
qed

lemma erase_outer_L:
  assumes T: "rbtree h rt (plug (FL c p (Nd d a s b) # k) t)" and b: "b \<noteq> Tip"
  shows "rbtree (rb_rotate_set_parents p s rt RB_BLACK (rb_set_parent_color (rp b) s RB_BLACK (set_left s p
      (set_parent_if (rp a) p (set_right p (rp a) h))))) rt
    (plug k (Nd c (Nd Black t p a) s (paint Black b)))"
proof -
  note H = rbtree_hole [OF T]
  have C: "cx h rt p k" "parent_color h p = pcw (top_of k) c" "rb_left h p = rp t" "p \<noteq> 0" "aligned p" "s \<noteq> 0" "aligned s"
    "tr h (rb_left h s) s a" "tr h (rb_right h s) s b" "tr h (rp t) p t"
    using H(1,2) by simp_all
  have al: "aligned (top_of k)" using top_of_aligned C(1) by blast
  define h1 where "h1 = set_parent_color_if (rp b) s RB_BLACK (set_left s p (set_parent_if (rp a) p (set_right p (rp a) h)))"
  have h1': "rb_set_parent_color (rp b) s RB_BLACK (set_left s p (set_parent_if (rp a) p (set_right p (rp a) h))) = h1"
    using b tr_0_iff [OF C(9)] tr_rp [OF C(9)] by (simp add: h1_def set_parent_color_if_def)
  have d': "distinct (s # p # nodes k @ inorder t @ inorder a @ inorder (paint Black b))"
    using H(3) by (rule distinct_perm) simp
  have D: "p \<notin> set (nodes k)" "s \<notin> set (nodes k)" "p \<noteq> s" "s \<noteq> p" "p \<notin> set (inorder t)" "s \<notin> set (inorder t)"
    "p \<notin> set (inorder a)" "s \<notin> set (inorder a)" "p \<notin> set (inorder b)" "s \<notin> set (inorder b)"
    using d' by simp_all
  have ds: "set (inorder a) \<inter> set (nodes k) = {}" "set (inorder a) \<inter> set (inorder t) = {}" "set (inorder a) \<inter> set (inorder b) = {}"
    "set (inorder b) \<inter> set (nodes k) = {}" "set (inorder b) \<inter> set (inorder t) = {}" "set (inorder b) \<inter> set (inorder a) = {}"
    and da: "distinct (inorder a)" "distinct (inorder b)"
    using d' unfolding distinct.simps distinct_append set_append inorder_paint by blast+
  note A = rp_notin [OF ds(1)] rp_notin [OF ds(2)] rp_notin [OF ds(3)] rp_notin [OF ds(4)] rp_notin [OF ds(5)] rp_notin [OF ds(6)]
  note B = rp_neq [OF D(7) C(4)] rp_neq [OF D(8) C(6)] rp_neq [OF D(9) C(4)] rp_neq [OF D(10) C(6)]
  have g1: "parent_color h1 p = pcw (top_of k) c" using C(2) B by (simp add: h1_def)
  have "rbtree (rb_rotate_set_parents p s rt RB_BLACK h1) rt (plug k (Nd c (Nd Black t p a) s (paint Black b)))"
    unfolding rotate_set_parents_eq(2) [OF g1 al C(7)]
  proof (rule rotated(2) [OF _ d' C(6,4,7,5)])
    show "cx h1 rt p k" using C(1) A(1,4) D(1,2) by (simp add: h1_def)
    show "rb_left h1 s = p" by (simp add: h1_def)
    show "tr h1 (rb_left h1 p) p t" using C(3,10) A(2,5) D(3,5,6) by (simp add: h1_def)
    show "tr h1 (rb_right h1 p) p a"
      using tr_set_parent_if [of "set_right p (rp a) h" "rp a" s a p] C(5,7,8) tr_rp [OF C(8)] da(1) A(6) D(7,8) by (simp add: h1_def)
    show "tr h1 (rb_right h1 s) s (paint Black b)"
      using tr_set_parent_color_if [of "set_left s p (set_parent_if (rp a) p (set_right p (rp a) h))" "rp b" s b s]
        C(7,9) tr_rp [OF C(9)] da(2) A(3) D(4,9,10) by (simp add: h1_def)
  qed
  then show ?thesis unfolding h1' .
qed

lemma erase_outer_R:
  assumes T: "rbtree h rt (plug (FR c (Nd d b s a) p # k) t)" and b: "b \<noteq> Tip"
  shows "rbtree (rb_rotate_set_parents p s rt RB_BLACK (rb_set_parent_color (rp b) s RB_BLACK (set_right s p
      (set_parent_if (rp a) p (set_left p (rp a) h))))) rt
    (plug k (Nd c (paint Black b) s (Nd Black a p t)))"
proof -
  note H = rbtree_hole [OF T]
  have C: "cx h rt p k" "parent_color h p = pcw (top_of k) c" "rb_right h p = rp t" "p \<noteq> 0" "aligned p" "s \<noteq> 0" "aligned s"
    "tr h (rb_right h s) s a" "tr h (rb_left h s) s b" "tr h (rp t) p t"
    using H(1,2) by simp_all
  have al: "aligned (top_of k)" using top_of_aligned C(1) by blast
  define h1 where "h1 = set_parent_color_if (rp b) s RB_BLACK (set_right s p (set_parent_if (rp a) p (set_left p (rp a) h)))"
  have h1': "rb_set_parent_color (rp b) s RB_BLACK (set_right s p (set_parent_if (rp a) p (set_left p (rp a) h))) = h1"
    using b tr_0_iff [OF C(9)] tr_rp [OF C(9)] by (simp add: h1_def set_parent_color_if_def)
  have d': "distinct (s # p # nodes k @ inorder (paint Black b) @ inorder a @ inorder t)"
    using H(3) by (rule distinct_perm) simp
  have D: "p \<notin> set (nodes k)" "s \<notin> set (nodes k)" "p \<noteq> s" "s \<noteq> p" "p \<notin> set (inorder t)" "s \<notin> set (inorder t)"
    "p \<notin> set (inorder a)" "s \<notin> set (inorder a)" "p \<notin> set (inorder b)" "s \<notin> set (inorder b)"
    using d' by simp_all
  have ds: "set (inorder a) \<inter> set (nodes k) = {}" "set (inorder a) \<inter> set (inorder t) = {}" "set (inorder a) \<inter> set (inorder b) = {}"
    "set (inorder b) \<inter> set (nodes k) = {}" "set (inorder b) \<inter> set (inorder t) = {}" "set (inorder b) \<inter> set (inorder a) = {}"
    and da: "distinct (inorder a)" "distinct (inorder b)"
    using d' unfolding distinct.simps distinct_append set_append inorder_paint by blast+
  note A = rp_notin [OF ds(1)] rp_notin [OF ds(2)] rp_notin [OF ds(3)] rp_notin [OF ds(4)] rp_notin [OF ds(5)] rp_notin [OF ds(6)]
  note B = rp_neq [OF D(7) C(4)] rp_neq [OF D(8) C(6)] rp_neq [OF D(9) C(4)] rp_neq [OF D(10) C(6)]
  have g1: "parent_color h1 p = pcw (top_of k) c" using C(2) B by (simp add: h1_def)
  have "rbtree (rb_rotate_set_parents p s rt RB_BLACK h1) rt (plug k (Nd c (paint Black b) s (Nd Black a p t)))"
    unfolding rotate_set_parents_eq(2) [OF g1 al C(7)]
  proof (rule rotated(1) [OF _ d' C(6,4,7,5)])
    show "cx h1 rt p k" using C(1) A(1,4) D(1,2) by (simp add: h1_def)
    show "rb_right h1 s = p" by (simp add: h1_def)
    show "tr h1 (rb_right h1 p) p t" using C(3,10) A(2,5) D(3,5,6) by (simp add: h1_def)
    show "tr h1 (rb_left h1 p) p a"
      using tr_set_parent_if [of "set_left p (rp a) h" "rp a" s a p] C(5,7,8) tr_rp [OF C(8)] da(1) A(6) D(7,8) by (simp add: h1_def)
    show "tr h1 (rb_left h1 s) s (paint Black b)"
      using tr_set_parent_color_if [of "set_right s p (set_parent_if (rp a) p (set_left p (rp a) h))" "rp b" s b s]
        C(7,9) tr_rp [OF C(9)] da(2) A(3) D(4,9,10) by (simp add: h1_def)
  qed
  then show ?thesis unfolding h1' .
qed

lemma erase_inner_L:
  assumes T: "rbtree h rt (plug (FL c p (Nd d (Nd e a1 x a2) s b) # k) t)"
  shows "rbtree (rb_rotate_set_parents p x rt RB_BLACK (rb_set_parent_color s x RB_BLACK (set_left x p
      (set_parent_if (rp a1) p (set_right p (rp a1) (set_right p x (set_right x s
        (set_parent_color_if (rp a2) s RB_BLACK (set_left s (rp a2) h))))))))) rt
    (plug k (Nd c (Nd Black t p a1) x (Nd Black (paint Black a2) s b)))"
proof -
  note H = rbtree_hole [OF T]
  have C: "cx h rt p k" "parent_color h p = pcw (top_of k) c" "rb_left h p = rp t" "p \<noteq> 0" "aligned p" "s \<noteq> 0" "aligned s"
    "x \<noteq> 0" "aligned x" "tr h (rb_left h x) x a1" "tr h (rb_right h x) x a2" "tr h (rb_right h s) s b" "tr h (rp t) p t"
    using H(1,2) by simp_all
  have al: "aligned (top_of k)" using top_of_aligned C(1) by blast
  define h0 where "h0 = set_right p x (set_right x s (set_parent_color_if (rp a2) s RB_BLACK (set_left s (rp a2) h)))"
  define h1 where "h1 = set_pc s (pcw x Black) (set_left x p (set_parent_if (rp a1) p (set_right p (rp a1) h0)))"
  have h1': "rb_set_parent_color s x RB_BLACK (set_left x p (set_parent_if (rp a1) p (set_right p (rp a1) h0))) = h1"
    using C(9) by (simp add: h1_def rb_set_parent_color_def or_black)
  have d': "distinct (x # p # nodes k @ inorder t @ inorder a1 @ inorder (Nd Black (paint Black a2) s b))"
    using H(3) by (rule distinct_perm) simp
  have D: "p \<notin> set (nodes k)" "s \<notin> set (nodes k)" "x \<notin> set (nodes k)" "p \<notin> set (inorder t)" "s \<notin> set (inorder t)" "x \<notin> set (inorder t)"
    "p \<notin> set (inorder a1)" "s \<notin> set (inorder a1)" "x \<notin> set (inorder a1)" "p \<notin> set (inorder a2)" "s \<notin> set (inorder a2)" "x \<notin> set (inorder a2)"
    "p \<notin> set (inorder b)" "s \<notin> set (inorder b)" "x \<notin> set (inorder b)"
    and E: "p \<noteq> s" "s \<noteq> p" "p \<noteq> x" "x \<noteq> p" "s \<noteq> x" "x \<noteq> s"
    using H(3) by simp_all
  have ds: "set (inorder a1) \<inter> set (nodes k) = {}" "set (inorder a1) \<inter> set (inorder t) = {}" "set (inorder a1) \<inter> set (inorder a2) = {}"
    "set (inorder a1) \<inter> set (inorder b) = {}" "set (inorder a2) \<inter> set (nodes k) = {}" "set (inorder a2) \<inter> set (inorder t) = {}"
    "set (inorder a2) \<inter> set (inorder a1) = {}" "set (inorder a2) \<inter> set (inorder b) = {}"
    and da: "distinct (inorder a1)" "distinct (inorder a2)"
    using d' unfolding inorder.simps distinct.simps distinct_append set_append inorder_paint by auto
  note A = rp_notin [OF ds(1)] rp_notin [OF ds(2)] rp_notin [OF ds(3)] rp_notin [OF ds(4)]
    rp_notin [OF ds(5)] rp_notin [OF ds(6)] rp_notin [OF ds(7)] rp_notin [OF ds(8)]
  note B = rp_neq [OF D(7) C(4)] rp_neq [OF D(8) C(6)] rp_neq [OF D(9) C(8)] rp_neq [OF D(10) C(4)] rp_neq [OF D(11) C(6)] rp_neq [OF D(12) C(8)]
  have g1: "parent_color h1 p = pcw (top_of k) c" using C(2) B E by (simp add: h1_def h0_def)
  have "rbtree (rb_rotate_set_parents p x rt RB_BLACK h1) rt (plug k (Nd c (Nd Black t p a1) x (Nd Black (paint Black a2) s b)))"
    unfolding rotate_set_parents_eq(2) [OF g1 al C(9)]
  proof (rule rotated(2) [OF _ d' C(8,4,9,5)])
    show "cx h1 rt p k" using C(1) A(1,5) D(1-3) by (simp add: h1_def h0_def)
    show "rb_left h1 x = p" by (simp add: h1_def)
    show "tr h1 (rb_left h1 p) p t" using C(3,13) A(2,6) D(4-6) E by (simp add: h1_def h0_def)
    show "tr h1 (rb_right h1 p) p a1"
      using tr_set_parent_if [of "set_right p (rp a1) h0" "rp a1" x a1 p] C(5,9,10) tr_rp [OF C(10)] da(1) A(7) D(7-9)
      by (simp add: h1_def h0_def)
    have "tr h1 (rp a2) s (paint Black a2)"
      using tr_set_parent_color_if [of "set_left s (rp a2) h" "rp a2" x a2 s] C(7,11) tr_rp [OF C(11)] da(2) A(3) D(10-12)
      by (simp add: h1_def h0_def)
    then show "tr h1 (rb_right h1 x) x (Nd Black (paint Black a2) s b)"
      using C(6,7,12) D(13-15) A(4,8) E by (simp add: h1_def h0_def)
  qed
  then show ?thesis unfolding h1' [symmetric] h0_def .
qed

lemma erase_inner_R:
  assumes T: "rbtree h rt (plug (FR c (Nd d b s (Nd e a2 x a1)) p # k) t)"
  shows "rbtree (rb_rotate_set_parents p x rt RB_BLACK (rb_set_parent_color s x RB_BLACK (set_right x p
      (set_parent_if (rp a1) p (set_left p (rp a1) (set_left p x (set_left x s
        (set_parent_color_if (rp a2) s RB_BLACK (set_right s (rp a2) h))))))))) rt
    (plug k (Nd c (Nd Black b s (paint Black a2)) x (Nd Black a1 p t)))"
proof -
  note H = rbtree_hole [OF T]
  have C: "cx h rt p k" "parent_color h p = pcw (top_of k) c" "rb_right h p = rp t" "p \<noteq> 0" "aligned p" "s \<noteq> 0" "aligned s"
    "x \<noteq> 0" "aligned x" "tr h (rb_right h x) x a1" "tr h (rb_left h x) x a2" "tr h (rb_left h s) s b" "tr h (rp t) p t"
    using H(1,2) by simp_all
  have al: "aligned (top_of k)" using top_of_aligned C(1) by blast
  define h0 where "h0 = set_left p x (set_left x s (set_parent_color_if (rp a2) s RB_BLACK (set_right s (rp a2) h)))"
  define h1 where "h1 = set_pc s (pcw x Black) (set_right x p (set_parent_if (rp a1) p (set_left p (rp a1) h0)))"
  have h1': "rb_set_parent_color s x RB_BLACK (set_right x p (set_parent_if (rp a1) p (set_left p (rp a1) h0))) = h1"
    using C(9) by (simp add: h1_def rb_set_parent_color_def or_black)
  have d': "distinct (x # p # nodes k @ inorder (Nd Black b s (paint Black a2)) @ inorder a1 @ inorder t)"
    using H(3) by (rule distinct_perm) simp
  have D: "p \<notin> set (nodes k)" "s \<notin> set (nodes k)" "x \<notin> set (nodes k)" "p \<notin> set (inorder t)" "s \<notin> set (inorder t)" "x \<notin> set (inorder t)"
    "p \<notin> set (inorder a1)" "s \<notin> set (inorder a1)" "x \<notin> set (inorder a1)" "p \<notin> set (inorder a2)" "s \<notin> set (inorder a2)" "x \<notin> set (inorder a2)"
    "p \<notin> set (inorder b)" "s \<notin> set (inorder b)" "x \<notin> set (inorder b)"
    and E: "p \<noteq> s" "s \<noteq> p" "p \<noteq> x" "x \<noteq> p" "s \<noteq> x" "x \<noteq> s"
    using H(3) by simp_all
  have ds: "set (inorder a1) \<inter> set (nodes k) = {}" "set (inorder a1) \<inter> set (inorder t) = {}" "set (inorder a1) \<inter> set (inorder a2) = {}"
    "set (inorder a1) \<inter> set (inorder b) = {}" "set (inorder a2) \<inter> set (nodes k) = {}" "set (inorder a2) \<inter> set (inorder t) = {}"
    "set (inorder a2) \<inter> set (inorder a1) = {}" "set (inorder a2) \<inter> set (inorder b) = {}"
    and da: "distinct (inorder a1)" "distinct (inorder a2)"
    using d' unfolding inorder.simps distinct.simps distinct_append set_append inorder_paint by auto
  note A = rp_notin [OF ds(1)] rp_notin [OF ds(2)] rp_notin [OF ds(3)] rp_notin [OF ds(4)]
    rp_notin [OF ds(5)] rp_notin [OF ds(6)] rp_notin [OF ds(7)] rp_notin [OF ds(8)]
  note B = rp_neq [OF D(7) C(4)] rp_neq [OF D(8) C(6)] rp_neq [OF D(9) C(8)] rp_neq [OF D(10) C(4)] rp_neq [OF D(11) C(6)] rp_neq [OF D(12) C(8)]
  have g1: "parent_color h1 p = pcw (top_of k) c" using C(2) B E by (simp add: h1_def h0_def)
  have "rbtree (rb_rotate_set_parents p x rt RB_BLACK h1) rt (plug k (Nd c (Nd Black b s (paint Black a2)) x (Nd Black a1 p t)))"
    unfolding rotate_set_parents_eq(2) [OF g1 al C(9)]
  proof (rule rotated(1) [OF _ d' C(8,4,9,5)])
    show "cx h1 rt p k" using C(1) A(1,5) D(1-3) by (simp add: h1_def h0_def)
    show "rb_right h1 x = p" by (simp add: h1_def)
    show "tr h1 (rb_right h1 p) p t" using C(3,13) A(2,6) D(4-6) E by (simp add: h1_def h0_def)
    show "tr h1 (rb_left h1 p) p a1"
      using tr_set_parent_if [of "set_left p (rp a1) h0" "rp a1" x a1 p] C(5,9,10) tr_rp [OF C(10)] da(1) A(7) D(7-9)
      by (simp add: h1_def h0_def)
    have "tr h1 (rp a2) s (paint Black a2)"
      using tr_set_parent_color_if [of "set_right s (rp a2) h" "rp a2" x a2 s] C(7,11) tr_rp [OF C(11)] da(2) A(3) D(10-12)
      by (simp add: h1_def h0_def)
    then show "tr h1 (rb_left h1 x) x (Nd Black b s (paint Black a2))"
      using C(6,7,12) D(13-15) A(4,8) E by (simp add: h1_def h0_def)
  qed
  then show ?thesis unfolding h1' [symmetric] h0_def .
qed

text \<open>The part of the loop behind the test for a red sibling.\<close>

definition erase_rest_L :: "nat \<Rightarrow> addr \<Rightarrow> addr \<Rightarrow> addr \<Rightarrow> rbheap \<Rightarrow> rbheap res" where
  "erase_rest_L n par rt sibling h =
     (let tmp1 = rb_right h sibling;
          tmp2 = rb_left h sibling;
          black1 = (tmp1 = 0 \<or> rb_is_black tmp1 h)
      in if black1 \<and> (tmp2 = 0 \<or> rb_is_black tmp2 h)
         then
           let h = rb_set_parent_color sibling par RB_RED h
           in if rb_is_red par h then Inr (rb_set_black par h)
              else
                let gpar = rb_parent par h
                in if gpar \<noteq> 0 then rb_erase_fix n par gpar rt h else Inr h
         else
           let (tmp1, sibling, h) =
                 (if black1
                  then
                    let t = rb_right h tmp2;
                        h = set_left sibling t h;
                        h = set_parent_color_if t sibling RB_BLACK h;
                        h = set_right tmp2 sibling h;
                        h = set_right par tmp2 h
                    in (sibling, tmp2, h)
                  else (tmp1, sibling, h));
               tmp2 = rb_left h sibling;
               h = set_right par tmp2 h;
               h = (if tmp2 \<noteq> 0 then rb_set_parent tmp2 par h else h);
               h = set_left sibling par h;
               h = rb_set_parent_color tmp1 sibling RB_BLACK h
           in Inr (rb_rotate_set_parents par sibling rt RB_BLACK h))"

lemma rest_L_low:
  assumes T: "rbtree h rt (plug (FL c p (Nd d a s b) # k) t)" and low: "\<not> is_red a" "\<not> is_red b"
  shows "\<exists>h1. rbtree h1 rt (plug k (Nd c t p (Nd Red a s b))) \<and>
    erase_rest_L n p rt s h = (if c = Red then Inr (set_pc p (pcw (top_of k) Black) h1)
      else if k \<noteq> [] then rb_erase_fix n p (top_of k) rt h1 else Inr h1)"
proof -
  note H = rbtree_hole [OF T]
  have C: "cx h rt p k" "parent_color h p = pcw (top_of k) c" "aligned p" "s \<noteq> p" "aligned s"
    "tr h (rb_left h s) s a" "tr h (rb_right h s) s b"
    using H(1,2,3) by auto
  have al: "aligned (top_of k)" using top_of_aligned C(1) by blast
  let ?h1 = "set_pc s (pcw p Red) h"
  have "rbtree h rt (plug (FR c t p # k) (Nd d a s b))" using T by simp
  then have "rbtree ?h1 rt (plug (FR c t p # k) (Nd Red a s b))" using paint_node by fastforce
  then have t1: "rbtree ?h1 rt (plug k (Nd c t p (Nd Red a s b)))" by simp
  have p1: "parent_color ?h1 p = pcw (top_of k) c" using C(2,4) by simp
  have ch: "rb_left h s = 0 \<or> rb_is_black (rb_left h s) h" "rb_right h s = 0 \<or> rb_is_black (rb_right h s) h"
    using tr_red_iff [OF C(6,5)] tr_red_iff [OF C(7,5)] low by (auto simp: rb_is_red_def rb_is_black_def)
  have bk: "rb_set_black p ?h1 = set_pc p (pcw (top_of k) Black) ?h1" if "c = Red"
    using p1 that or_black [OF al] by (simp add: rb_set_black_def pcw_red)
  have tk: "top_of k \<noteq> 0 \<longleftrightarrow> k \<noteq> []" using cx_nodes [OF C(1)] top_of_in by (cases k) auto
  have "erase_rest_L n p rt s h = (if c = Red then Inr (set_pc p (pcw (top_of k) Black) ?h1)
      else if k \<noteq> [] then rb_erase_fix n p (top_of k) rt ?h1 else Inr ?h1)"
    using ch frame_red_iff(1) [OF al p1] p1 tk al bk
    by (auto simp: erase_rest_L_def Let_def rb_set_parent_color_def or_red rb_parent_def)
  then show ?thesis using t1 by blast
qed

lemma rest_L_rot:
  assumes T: "rbtree h rt (plug (FL c p (Nd d a s b) # k) t)" and high: "is_red a \<or> is_red b"
  shows "\<exists>h'. erase_rest_L n p rt s h = Inr h' \<and> rbtree h' rt (plug k (rot4 (FL c p (Nd d a s b)) t))"
proof -
  note H = rbtree_hole [OF T]
  have C: "aligned s" "tr h (rb_left h s) s a" "tr h (rb_right h s) s b" using H(1) by simp_all
  have E: "p \<noteq> s" "s \<noteq> p" "p \<notin> set (inorder a)" "s \<notin> set (inorder a)" using H(3) by auto
  note R = tr_red_iff [OF C(2,1)] tr_red_iff [OF C(3,1)] tr_rp [OF C(2)] tr_rp [OF C(3)] tr_0_iff [OF C(2)] tr_0_iff [OF C(3)]
  show ?thesis
  proof (cases "is_red b")
    case True
    then have b: "b \<noteq> Tip" "rp b \<noteq> 0" "\<not> rb_is_black (rp b) h" using R by (auto simp: rb_is_red_def rb_is_black_def)
    have "erase_rest_L n p rt s h = Inr (rb_rotate_set_parents p s rt RB_BLACK (rb_set_parent_color (rp b) s RB_BLACK (set_left s p
        (set_parent_if (rp a) p (set_right p (rp a) h)))))"
      using b(2,3) E(1) by (simp add: erase_rest_L_def Let_def R(3,4) set_parent_if_def)
    then show ?thesis using erase_outer_L [OF T b(1)] True by auto
  next
    case False
    then obtain e a1 x a2 where a: "a = Nd e a1 x a2" "is_red a" using high by (cases a) auto
    have ne: "x \<noteq> s" "x \<noteq> p" "s \<noteq> x" "p \<noteq> x" using E a by auto
    have "tr h (rb_left h x) x a1" "tr h (rb_right h x) x a2" using C(2) a by simp_all
    then have x: "rb_left h x = rp a1" "rb_right h x = rp a2" by (auto dest: tr_rp)
    have b: "rp b = 0 \<or> rb_is_black (rp b) h" "rp a = x" "x \<noteq> 0" "\<not> rb_is_black x h"
      using R False a C(2) by (auto simp: rb_is_red_def rb_is_black_def)
    have "erase_rest_L n p rt s h = Inr (rb_rotate_set_parents p x rt RB_BLACK (rb_set_parent_color s x RB_BLACK (set_left x p
        (set_parent_if (rp a1) p (set_right p (rp a1) (set_right p x (set_right x s
          (set_parent_color_if (rp a2) s RB_BLACK (set_left s (rp a2) h)))))))))"
      using b ne x by (simp add: erase_rest_L_def Let_def R(3,4) set_parent_if_def)
    then show ?thesis using erase_inner_L [OF T [unfolded a(1)]] a False by auto
  qed
qed

definition erase_rest_R :: "nat \<Rightarrow> addr \<Rightarrow> addr \<Rightarrow> addr \<Rightarrow> rbheap \<Rightarrow> rbheap res" where
  "erase_rest_R n par rt sibling h =
     (let tmp1 = rb_left h sibling;
          tmp2 = rb_right h sibling;
          black1 = (tmp1 = 0 \<or> rb_is_black tmp1 h)
      in if black1 \<and> (tmp2 = 0 \<or> rb_is_black tmp2 h)
         then
           let h = rb_set_parent_color sibling par RB_RED h
           in if rb_is_red par h then Inr (rb_set_black par h)
              else
                let gpar = rb_parent par h
                in if gpar \<noteq> 0 then rb_erase_fix n par gpar rt h else Inr h
         else
           let (tmp1, sibling, h) =
                 (if black1
                  then
                    let t = rb_left h tmp2;
                        h = set_right sibling t h;
                        h = set_parent_color_if t sibling RB_BLACK h;
                        h = set_left tmp2 sibling h;
                        h = set_left par tmp2 h
                    in (sibling, tmp2, h)
                  else (tmp1, sibling, h));
               tmp2 = rb_right h sibling;
               h = set_left par tmp2 h;
               h = (if tmp2 \<noteq> 0 then rb_set_parent tmp2 par h else h);
               h = set_right sibling par h;
               h = rb_set_parent_color tmp1 sibling RB_BLACK h
           in Inr (rb_rotate_set_parents par sibling rt RB_BLACK h))"

lemma rest_R_low:
  assumes T: "rbtree h rt (plug (FR c (Nd d b s a) p # k) t)" and low: "\<not> is_red a" "\<not> is_red b"
  shows "\<exists>h1. rbtree h1 rt (plug k (Nd c (Nd Red b s a) p t)) \<and>
    erase_rest_R n p rt s h = (if c = Red then Inr (set_pc p (pcw (top_of k) Black) h1)
      else if k \<noteq> [] then rb_erase_fix n p (top_of k) rt h1 else Inr h1)"
proof -
  note H = rbtree_hole [OF T]
  have C: "cx h rt p k" "parent_color h p = pcw (top_of k) c" "aligned p" "s \<noteq> p" "aligned s"
    "tr h (rb_right h s) s a" "tr h (rb_left h s) s b"
    using H(1,2,3) by auto
  have al: "aligned (top_of k)" using top_of_aligned C(1) by blast
  let ?h1 = "set_pc s (pcw p Red) h"
  have "rbtree h rt (plug (FL c p t # k) (Nd d b s a))" using T by simp
  then have "rbtree ?h1 rt (plug (FL c p t # k) (Nd Red b s a))" using paint_node by fastforce
  then have t1: "rbtree ?h1 rt (plug k (Nd c (Nd Red b s a) p t))" by simp
  have p1: "parent_color ?h1 p = pcw (top_of k) c" using C(2,4) by simp
  have ch: "rb_right h s = 0 \<or> rb_is_black (rb_right h s) h" "rb_left h s = 0 \<or> rb_is_black (rb_left h s) h"
    using tr_red_iff [OF C(6,5)] tr_red_iff [OF C(7,5)] low by (auto simp: rb_is_red_def rb_is_black_def)
  have bk: "rb_set_black p ?h1 = set_pc p (pcw (top_of k) Black) ?h1" if "c = Red"
    using p1 that or_black [OF al] by (simp add: rb_set_black_def pcw_red)
  have tk: "top_of k \<noteq> 0 \<longleftrightarrow> k \<noteq> []" using cx_nodes [OF C(1)] top_of_in by (cases k) auto
  have "erase_rest_R n p rt s h = (if c = Red then Inr (set_pc p (pcw (top_of k) Black) ?h1)
      else if k \<noteq> [] then rb_erase_fix n p (top_of k) rt ?h1 else Inr ?h1)"
    using ch frame_red_iff(1) [OF al p1] p1 tk al bk
    by (auto simp: erase_rest_R_def Let_def rb_set_parent_color_def or_red rb_parent_def)
  then show ?thesis using t1 by blast
qed

lemma rest_R_rot:
  assumes T: "rbtree h rt (plug (FR c (Nd d b s a) p # k) t)" and high: "is_red a \<or> is_red b"
  shows "\<exists>h'. erase_rest_R n p rt s h = Inr h' \<and> rbtree h' rt (plug k (rot4 (FR c (Nd d b s a) p) t))"
proof -
  note H = rbtree_hole [OF T]
  have C: "aligned s" "tr h (rb_right h s) s a" "tr h (rb_left h s) s b" using H(1) by simp_all
  have E: "p \<noteq> s" "s \<noteq> p" "p \<notin> set (inorder a)" "s \<notin> set (inorder a)" using H(3) by auto
  note R = tr_red_iff [OF C(2,1)] tr_red_iff [OF C(3,1)] tr_rp [OF C(2)] tr_rp [OF C(3)] tr_0_iff [OF C(2)] tr_0_iff [OF C(3)]
  show ?thesis
  proof (cases "is_red b")
    case True
    then have b: "b \<noteq> Tip" "rp b \<noteq> 0" "\<not> rb_is_black (rp b) h" using R by (auto simp: rb_is_red_def rb_is_black_def)
    have "erase_rest_R n p rt s h = Inr (rb_rotate_set_parents p s rt RB_BLACK (rb_set_parent_color (rp b) s RB_BLACK (set_right s p
        (set_parent_if (rp a) p (set_left p (rp a) h)))))"
      using b(2,3) E(1) by (simp add: erase_rest_R_def Let_def R(3,4) set_parent_if_def)
    then show ?thesis using erase_outer_R [OF T b(1)] True by auto
  next
    case False
    then obtain e a1 x a2 where a: "a = Nd e a2 x a1" "is_red a" using high by (cases a) auto
    have ne: "x \<noteq> s" "x \<noteq> p" "s \<noteq> x" "p \<noteq> x" using E a by auto
    have "tr h (rb_right h x) x a1" "tr h (rb_left h x) x a2" using C(2) a by simp_all
    then have x: "rb_right h x = rp a1" "rb_left h x = rp a2" by (auto dest: tr_rp)
    have b: "rp b = 0 \<or> rb_is_black (rp b) h" "rp a = x" "x \<noteq> 0" "\<not> rb_is_black x h"
      using R False a C(2) by (auto simp: rb_is_red_def rb_is_black_def)
    have "erase_rest_R n p rt s h = Inr (rb_rotate_set_parents p x rt RB_BLACK (rb_set_parent_color s x RB_BLACK (set_right x p
        (set_parent_if (rp a1) p (set_left p (rp a1) (set_left p x (set_left x s
          (set_parent_color_if (rp a2) s RB_BLACK (set_right s (rp a2) h)))))))))"
      using b ne x by (simp add: erase_rest_R_def Let_def R(3,4) set_parent_if_def)
    then show ?thesis using erase_inner_R [OF T [unfolded a(1)]] a False by auto
  qed
qed

lemma erase_fix_unfold_L:
  assumes "node \<noteq> rb_right h par" and "rb_right h par \<noteq> 0"
  shows "rb_erase_fix (Suc n) node par rt h =
    (let sibling = rb_right h par;
         (sibling, h) = (if rb_is_red sibling h
            then (rb_left h sibling, rb_rotate_set_parents par sibling rt RB_RED (set_left sibling par
                   (set_parent_color_if (rb_left h sibling) par RB_BLACK (set_right par (rb_left h sibling) h))))
            else (sibling, h))
     in if sibling = 0 then Inl Fault else erase_rest_L n par rt sibling h)"
  using assms by (simp add: erase_rest_L_def Let_def)

lemma fix_step_L:
  assumes T: "rbtree h rt (plug (FL c p (Nd d a s b) # k) t)" and red: "d = Red \<longrightarrow> a \<noteq> Tip" and f: "f = FL c p (Nd d a s b)"
  shows "if d = Red \<or> \<not> (low f \<and> c = Black \<and> k \<noteq> [])
    then \<exists>h'. rb_erase_fix (Suc n) (rp t) p rt h = Inr h' \<and> rbtree h' rt (dfix (f # k) t)
    else \<exists>h1. rb_erase_fix (Suc n) (rp t) p rt h = rb_erase_fix n p (top_of k) rt h1 \<and> rbtree h1 rt (plug k (plug [redsib f] t))"
proof -
  note H = rbtree_hole [OF T]
  have C: "rb_right h p = s" "s \<noteq> 0" "parent_color h s = pcw p d" "aligned p" "rb_left h s = rp a"
    using H(1) by (auto dest: tr_rp)
  have ne: "rp t \<noteq> rb_right h p" "rb_right h p \<noteq> 0" using H(3) C(1,2) rp_in [of t] by auto
  note U = erase_fix_unfold_L [OF ne, of n rt, unfolded C(1)]
  show ?thesis
  proof (cases d)
    case Red
    obtain e a1 x a2 where a: "a = Nd e a1 x a2" using red Red by (cases a) auto
    let ?g = "FL c s b" and ?f = "FL Red p (Nd Black a1 x a2)"
    define h1 where "h1 = rb_rotate_set_parents p s rt RB_RED (set_left s p (set_parent_color_if (rp a) p RB_BLACK (set_right p (rp a) h)))"
    have T1: "rbtree h1 rt (plug (?f # ?g # k) t)"
      using erase_turn_L [of h rt c p a s b k t] T Red a by (simp add: h1_def)
    have "x \<noteq> 0" using rbtree_hole(1) [OF T1] by simp
    then have e: "rb_erase_fix (Suc n) (rp t) p rt h = erase_rest_L n p rt x h1"
      using U frame_red_iff(1) [OF C(4,3)] Red C(5) a by (simp add: h1_def)
    show ?thesis
    proof (cases "low ?f")
      case True
      then obtain h2 where h2: "rbtree h2 rt (plug (?g # k) (Nd Red t p (Nd Red a1 x a2)))"
        "erase_rest_L n p rt x h1 = Inr (set_pc p (pcw (top_of (?g # k)) Black) h2)"
        using rest_L_low [OF T1, of n] by auto
      then show ?thesis using paint_node [OF h2(1), of Black] e True a Red f by auto
    next
      case False
      then show ?thesis using rest_L_rot [OF T1, of n] e a Red f by auto
    qed
  next
    case Black
    have e: "rb_erase_fix (Suc n) (rp t) p rt h = erase_rest_L n p rt s h"
      using U frame_red_iff(1) [OF C(4,3)] Black C(2) by simp
    show ?thesis
    proof (cases "low f")
      case True
      then obtain h2 where h2: "rbtree h2 rt (plug k (Nd c t p (Nd Red a s b)))"
        "erase_rest_L n p rt s h = (if c = Red then Inr (set_pc p (pcw (top_of k) Black) h2)
           else if k \<noteq> [] then rb_erase_fix n p (top_of k) rt h2 else Inr h2)"
        using rest_L_low [OF T, of n] f by auto
      then show ?thesis using paint_node [OF h2(1), of Black] e True Black f by (cases c) auto
    next
      case False
      then show ?thesis using rest_L_rot [OF T, of n] e Black f by auto
    qed
  qed
qed

lemma erase_fix_unfold_R:
  assumes "node = rb_right h par" and "rb_left h par \<noteq> 0"
  shows "rb_erase_fix (Suc n) node par rt h =
    (let sibling = rb_left h par;
         (sibling, h) = (if rb_is_red sibling h
            then (rb_right h sibling, rb_rotate_set_parents par sibling rt RB_RED (set_right sibling par
                   (set_parent_color_if (rb_right h sibling) par RB_BLACK (set_left par (rb_right h sibling) h))))
            else (sibling, h))
     in if sibling = 0 then Inl Fault else erase_rest_R n par rt sibling h)"
  using assms by (simp add: erase_rest_R_def Let_def)

lemma fix_step_R:
  assumes T: "rbtree h rt (plug (FR c (Nd d b s a) p # k) t)" and red: "d = Red \<longrightarrow> a \<noteq> Tip" and f: "f = FR c (Nd d b s a) p"
  shows "if d = Red \<or> \<not> (low f \<and> c = Black \<and> k \<noteq> [])
    then \<exists>h'. rb_erase_fix (Suc n) (rp t) p rt h = Inr h' \<and> rbtree h' rt (dfix (f # k) t)
    else \<exists>h1. rb_erase_fix (Suc n) (rp t) p rt h = rb_erase_fix n p (top_of k) rt h1 \<and> rbtree h1 rt (plug k (plug [redsib f] t))"
proof -
  note H = rbtree_hole [OF T]
  have C: "rb_left h p = s" "s \<noteq> 0" "parent_color h s = pcw p d" "aligned p" "rb_right h s = rp a"
    using H(1) by (auto dest: tr_rp)
  have ne: "rp t = rb_right h p" "rb_left h p \<noteq> 0" using H(1) C(1,2) by auto
  note U = erase_fix_unfold_R [OF ne, of n rt, unfolded C(1)]
  show ?thesis
  proof (cases d)
    case Red
    obtain e a1 x a2 where a: "a = Nd e a2 x a1" using red Red by (cases a) auto
    let ?g = "FR c b s" and ?f = "FR Red (Nd Black a2 x a1) p"
    define h1 where "h1 = rb_rotate_set_parents p s rt RB_RED (set_right s p (set_parent_color_if (rp a) p RB_BLACK (set_left p (rp a) h)))"
    have T1: "rbtree h1 rt (plug (?f # ?g # k) t)"
      using erase_turn_R [of h rt c b s a p k t] T Red a by (simp add: h1_def)
    have "x \<noteq> 0" using rbtree_hole(1) [OF T1] by simp
    then have e: "rb_erase_fix (Suc n) (rp t) p rt h = erase_rest_R n p rt x h1"
      using U frame_red_iff(1) [OF C(4,3)] Red C(5) a by (simp add: h1_def)
    show ?thesis
    proof (cases "low ?f")
      case True
      then obtain h2 where h2: "rbtree h2 rt (plug (?g # k) (Nd Red (Nd Red a2 x a1) p t))"
        "erase_rest_R n p rt x h1 = Inr (set_pc p (pcw (top_of (?g # k)) Black) h2)"
        using rest_R_low [OF T1, of n] by auto
      then show ?thesis using paint_node [OF h2(1), of Black] e True a Red f by auto
    next
      case False
      then show ?thesis using rest_R_rot [OF T1, of n] e a Red f by auto
    qed
  next
    case Black
    have e: "rb_erase_fix (Suc n) (rp t) p rt h = erase_rest_R n p rt s h"
      using U frame_red_iff(1) [OF C(4,3)] Black C(2) by simp
    show ?thesis
    proof (cases "low f")
      case True
      then obtain h2 where h2: "rbtree h2 rt (plug k (Nd c (Nd Red b s a) p t))"
        "erase_rest_R n p rt s h = (if c = Red then Inr (set_pc p (pcw (top_of k) Black) h2)
           else if k \<noteq> [] then rb_erase_fix n p (top_of k) rt h2 else Inr h2)"
        using rest_R_low [OF T, of n] f by auto
      then show ?thesis using paint_node [OF h2(1), of Black] e True Black f by (cases c) auto
    next
      case False
      then show ?thesis using rest_R_rot [OF T, of n] e Black f by auto
    qed
  qed
qed

lemma fix_step:
  assumes T: "rbtree h rt (plug (f # k) t)" and s: "invh (fsib f)" "bh (fsib f) = Suc (bh t)"
  shows "if is_red (fsib f) \<or> \<not> (low f \<and> fclr f = Black \<and> k \<noteq> [])
    then \<exists>h'. rb_erase_fix (Suc n) (rp t) (fnode f) rt h = Inr h' \<and> rbtree h' rt (dfix (f # k) t)
    else \<exists>h1. rb_erase_fix (Suc n) (rp t) (fnode f) rt h = rb_erase_fix n (fnode f) (top_of k) rt h1 \<and>
      rbtree h1 rt (plug k (plug [redsib f] t))"
proof (cases f)
  case (FL c p S)
  then obtain d a x b where S: "S = Nd d a x b" using s(2) by (cases S) auto
  have red: "d = Red \<longrightarrow> a \<noteq> Tip" using s FL S by auto
  have f: "f = FL c p (Nd d a x b)" and e: "fnode f = p" "fclr f = c" "is_red (fsib f) \<longleftrightarrow> d = Red" using FL S by simp_all
  show ?thesis unfolding e by (rule fix_step_L [OF T [unfolded f] red f])
next
  case (FR c S p)
  then obtain d b x a where S: "S = Nd d b x a" using s(2) by (cases S) auto
  have red: "d = Red \<longrightarrow> a \<noteq> Tip" using s FR S by auto
  have f: "f = FR c (Nd d b x a) p" and e: "fnode f = p" "fclr f = c" "is_red (fsib f) \<longleftrightarrow> d = Red" using FR S by simp_all
  show ?thesis unfolding e by (rule fix_step_R [OF T [unfolded f] red f])
qed

text \<open>The whole repair; fuel for the path is enough.\<close>

lemma erase_fix_refines:
  assumes "rbtree h rt (plug (f # k) t)" and "invh t" "kh (f # k) (Suc (bh t))" "invc t" "kc (f # k)" "\<not> is_red t" and "length k < n"
  shows "\<exists>h'. rb_erase_fix n (rp t) (fnode f) rt h = Inr h' \<and> rbtree h' rt (dfix (f # k) t)"
  using assms
proof (induction k arbitrary: f t h n)
  case Nil
  then obtain m where n: "n = Suc m" by (cases n) auto
  have s: "invh (fsib f)" "bh (fsib f) = Suc (bh t)" using Nil.prems(3) by auto
  show ?case using fix_step [OF Nil.prems(1) s, of m] unfolding n by simp
next
  case (Cons g k)
  then obtain m where n: "n = Suc m" "length k < m" by (cases n) auto
  have s: "invh (fsib f)" "bh (fsib f) = Suc (bh t)" "invc (fsib f)" using Cons.prems(3,5) by auto
  note step = fix_step [OF Cons.prems(1) s(1,2), of m]
  show ?case
  proof (cases "is_red (fsib f) \<or> \<not> (low f \<and> fclr f = Black)")
    case True
    then show ?thesis using step unfolding n(1) by (auto simp del: rb_erase_fix.simps low.simps dfix.simps plug.simps)
  next
    case False
    then have F: "\<not> is_red (fsib f)" "low f" "fclr f = Black" by blast+
    then obtain h1 where h1: "rb_erase_fix (Suc m) (rp t) (fnode f) rt h = rb_erase_fix m (fnode f) (fnode g) rt h1"
      "rbtree h1 rt (plug (g # k) (plug [redsib f] t))"
      using step by (auto simp del: rb_erase_fix.simps low.simps dfix.simps plug.simps)
    note L = low_ok [OF F(2,1) s(1,3,2) Cons.prems(2,4,6)]
    have eq: "plug [blackf (redsib f)] t = plug [redsib f] t" and r: "rp (plug [redsib f] t) = fnode f"
      using F(3) by (cases f; auto)+
    have "kh (g # k) (Suc (bh (plug [redsib f] t)))" "kc (g # k)" using L(1) Cons.prems(3,5) F(3) by auto
    then have "\<exists>h'. rb_erase_fix m (fnode f) (fnode g) rt h1 = Inr h' \<and> rbtree h' rt (dfix (g # k) (plug [redsib f] t))"
      using Cons.IH [OF h1(2) _ _ _ _ _ n(2)] L is_red_blackf [of "redsib f" t] unfolding eq r by blast
    moreover have "dfix (f # g # k) t = dfix (g # k) (plug [redsib f] t)" unfolding dfix.simps(2) [of f] using F by simp
    ultimately show ?thesis unfolding n(1) h1(1) by simp
  qed
qed

end
