(* ===== verification/Rbtree_Remove.thy ===== *)
theory Rbtree_Remove
  imports Rbtree_Erase
begin

text \<open>
  Taking a node out of a red-black tree, \<^verbatim>\<open>__rb_erase\<close>: a node with two children is replaced by the leftmost node of its right
  subtree.
\<close>

section \<open>A node with at most one child\<close>

lemma tr_to_rp: "tr h q p t \<Longrightarrow> tr h (rp t) p t"
  by (cases t) auto

lemma tr_set_pc_root:
  assumes "tr h (rp t) p t" and "distinct (inorder t)" and "t \<noteq> Tip"
  shows "tr (set_pc (rp t) (pcw p' c) h) (rp t) p' (paint c t)"
  using assms by (cases t) auto

lemma change_child_commute:
  "set_pc a v (rb_change_child x y p rt h) = rb_change_child x y p rt (set_pc a v h)"
  by (simp add: rb_change_child_def set_pc_def set_left_def set_right_def)

lemma unlink_leaf:
  assumes T: "rbtree h rt (plug k (Nd c Tip x Tip))"
  shows "rbtree (rb_change_child x 0 (top_of k) rt h) rt (plug k Tip)"
proof (rule rbtree_plugI)
  note H = rbtree_hole [OF T]
  show "cx (rb_change_child x 0 (top_of k) rt h) rt 0 k" by (rule cx_change_child) (use H in auto)
qed (use rbtree_hole(3) [OF T] in auto)

lemma unlink_child:
  assumes T: "rbtree h rt (plug k (Nd c l x r))" and s: "s = l \<or> s = r" "s \<noteq> Tip"
  shows "rbtree (rb_change_child x (rp s) (top_of k) rt (set_pc (rp s) (parent_color h x) h)) rt (plug k (paint c s))"
proof (rule rbtree_plugI)
  note H = rbtree_hole [OF T]
  have pc: "parent_color h x = pcw (top_of k) c" "x \<noteq> 0" using H(2) by simp_all
  have t: "tr h (rp s) x s" using s(1) H(2) tr_to_rp by auto
  have D: "x \<notin> set (nodes k)" "distinct (nodes k)" "distinct (inorder s)" "set (inorder s) \<inter> set (nodes k) = {}" "distinct (nodes k @ inorder s)"
    using H(3) s(1) by auto
  have rs: "rp s \<in> set (inorder s)" "rp s \<noteq> 0" using t s(2) tr_0_iff rp_in [of s] by auto
  have rn: "rp s \<notin> set (nodes k)" using rp_notin [OF D(4)] rs(2) by simp
  let ?h = "set_pc (rp s) (parent_color h x) h"
  show "cx (rb_change_child x (rp s) (top_of k) rt ?h) rt (rp s) k"
    by (rule cx_change_child) (use H(1) D(1,2) pc(2) rn in simp_all)
  have tk: "top_of k \<notin> set (inorder s)" using D(4) tr_nodes [OF t] top_of_in [of k] by (cases k) auto
  show "tr (rb_change_child x (rp s) (top_of k) rt ?h) (rp s) (top_of k) (paint c s)"
    using tr_set_pc_root [OF t D(3) s(2)] tk pc(1) by simp
  show "distinct (nodes k @ inorder (paint c s))" using D(5) by simp
qed

section \<open>The leftmost node of a subtree\<close>

fun minpar :: "rbt \<Rightarrow> addr" where
  "minpar (Nd c (Nd d Tip y yr) x r) = x"
| "minpar (Nd c l x r) = minpar l"
| "minpar Tip = 0"

fun minnode :: "rbt \<Rightarrow> addr" where
  "minnode (Nd c Tip x r) = x"
| "minnode (Nd c l x r) = minnode l"
| "minnode Tip = 0"

fun minright :: "rbt \<Rightarrow> rbt" where
  "minright (Nd c Tip x r) = r"
| "minright (Nd c l x r) = minright l"
| "minright Tip = Tip"

fun delmin :: "rbt \<Rightarrow> rbt" where
  "delmin (Nd c Tip x r) = paint Black r"
| "delmin (Nd c l x r) = Nd c (delmin l) x r"
| "delmin Tip = Tip"

lemma smin_min:
  assumes "smin t k = (kk, c, y, yr)" and "t \<noteq> Tip"
  shows "minnode t = y" "minright t = yr" "plug kk (paint Black yr) = plug k (delmin t)"
  using assms by (induction t k rule: smin.induct) auto

lemma smin_top:
  assumes "smin (Nd d l x r) k = (kk, c, y, yr)" and "l \<noteq> Tip"
  shows "top_of kk = minpar (Nd d l x r)"
  using assms
proof (induction l arbitrary: d x r k)
  case (Nd d' l y r')
  show ?case
  proof (cases "l = Tip")
    case True
    then show ?thesis using Nd.prems by auto
  next
    case False
    then show ?thesis using Nd.IH(1) [of d' y r' "FL d x r # k"] Nd.prems False by (cases l) auto
  qed
qed simp

lemma leftmost_min:
  assumes "tr h q p (Nd c l x r)" and "l \<noteq> Tip" and "depth l < n"
  shows "rb_leftmost n x (rb_left h x) h = Inr (minpar (Nd c l x r), minnode l)"
  using assms
proof (induction l arbitrary: n q p c x r)
  case (Nd d l y l')
  then obtain m where m: "n = Suc m" "depth l < m" by (cases n) auto
  have y: "rb_left h x = y" "tr h y x (Nd d l y l')" using Nd.prems(1) by simp_all
  show ?case
  proof (cases "l = Tip")
    case True
    then show ?thesis using m y by simp
  next
    case False
    then have "rb_left h y \<noteq> 0" using y(2) tr_0_iff by auto
    then show ?thesis using Nd.IH(1) [OF y(2) False m(2)] m(1) y(1) False by (cases l) auto
  qed
qed simp

lemma minpar_in: "l \<noteq> Tip \<Longrightarrow> minpar (Nd c l x r) \<in> set (x # inorder l)"
proof (induction l arbitrary: c x r)
  case (Nd d l y l')
  then show ?case by (cases "l = Tip") (cases l; fastforce)+
qed simp

lemma minright_in: "set (inorder (minright t)) \<subseteq> set (inorder t)"
  by (induction t rule: minright.induct) auto

lemma minright_tr: "tr h q p t \<Longrightarrow> t \<noteq> Tip \<Longrightarrow> tr h (rb_right h (minnode t)) (minnode t) (minright t)"
  by (induction t arbitrary: q p rule: minright.induct) auto

lemma minnode_in: "t \<noteq> Tip \<Longrightarrow> minnode t \<in> set (inorder t)"
  by (induction t rule: minnode.induct) auto

text \<open>Taking the leftmost node out of a subtree whose root stays.\<close>

lemma tr_delmin:
  assumes "tr h q p (Nd c l x r)" and "l \<noteq> Tip" and "distinct (inorder (Nd c l x r))"
  shows "tr (set_parent_color_if (rp (minright l)) (minpar (Nd c l x r)) RB_BLACK
      (set_left (minpar (Nd c l x r)) (rp (minright l)) h)) q p (delmin (Nd c l x r))"
  using assms
proof (induction l arbitrary: q p c x r)
  case (Nd d l y yr)
  have X: "q = x" "x \<noteq> 0" "aligned x" "parent_color h x = pcw p c" "rb_left h x = y" "tr h y x (Nd d l y yr)" "tr h (rb_right h x) x r"
    using Nd.prems(1) by simp_all
  have D: "x \<notin> set (inorder r)" "x \<notin> set (inorder (Nd d l y yr))" "distinct (inorder (Nd d l y yr))"
    "set (inorder (Nd d l y yr)) \<inter> set (inorder r) = {}" using Nd.prems(3) by auto
  let ?z = "rp (minright (Nd d l y yr))"
  have "set (inorder (minright (Nd d l y yr))) \<inter> set (inorder r) = {}" "x \<notin> set (inorder (minright (Nd d l y yr)))"
    using minright_in [of "Nd d l y yr"] D(2,4) by blast+
  note z = rp_notin [OF this(1)] rp_neq [OF this(2) X(2)]
  show ?case
  proof (cases "l = Tip")
    case True
    have y: "tr h (rp yr) y yr" "aligned y" using X(6) tr_to_rp by auto
    let ?h = "set_left x (rp yr) h"
    have "tr ?h (rp yr) y yr" using y D(2) by simp
    then have "tr (set_parent_color_if (rp yr) x RB_BLACK ?h) (rp yr) x (paint Black yr)"
      using tr_set_parent_color_if [of ?h "rp yr" y yr x] D(3) X(3) True by simp
    then show ?thesis using True X D(1,2) z by simp
  next
    case False
    let ?P = "minpar (Nd d l y yr)"
    have P: "?P \<in> set (inorder (Nd d l y yr))" using minpar_in [OF False, of d y yr] by auto
    then have Px: "?P \<noteq> x" "?P \<notin> set (inorder r)" using D(2,4) by auto
    have e: "minpar (Nd c (Nd d l y yr) x r) = ?P" "minright (Nd d l y yr) = minright l"
      "delmin (Nd c (Nd d l y yr) x r) = Nd c (delmin (Nd d l y yr)) x r" using False by (cases l; simp)+
    show ?thesis
      using Nd.IH(1) [OF X(6) False D(3)] X Px z unfolding e by simp
  qed
qed simp

section \<open>A node with two children\<close>

lemma replace_node:
  assumes k: "cx g rt x k" and x: "x \<noteq> 0" and l: "tr g (rp l) x l" and r: "tr g (rb_right g y) y R"
    and d: "distinct (x # y # nodes k @ inorder l @ inorder R)" and al: "aligned x" "aligned y" "y \<noteq> 0"
  shows "rbtree (set_pc y (pcw (top_of k) c) (rb_change_child x y (top_of k) rt (set_parent_if (rp l) y (set_left y (rp l) g)))) rt
    (plug k (Nd c l y R))"
proof (rule rbtree_plugI)
  have D: "x \<notin> set (nodes k)" "y \<notin> set (nodes k)" "distinct (nodes k)" "y \<notin> set (inorder l)" "y \<notin> set (inorder R)" "distinct (inorder l)"
    using d by simp_all
  have ds: "set (inorder l) \<inter> set (nodes k) = {}" "set (inorder l) \<inter> set (inorder R) = {}"
    "set (nodes k) \<inter> set (inorder l) = {}" "set (nodes k) \<inter> set (inorder R) = {}"
    using d unfolding distinct.simps distinct_append set_append by blast+
  note A = rp_notin [OF ds(1)] rp_notin [OF ds(2)] and B = rp_neq [OF D(4) al(3)]
  let ?g = "set_parent_if (rp l) y (set_left y (rp l) g)"
  have c1: "cx (rb_change_child x y (top_of k) rt ?g) rt y k" by (rule cx_change_child) (use k x A D in simp_all)
  then show "cx (set_pc y (pcw (top_of k) c) (rb_change_child x y (top_of k) rt ?g)) rt y k" using D(2) by simp
  have tk: "top_of k \<notin> set (inorder l)" "top_of k \<notin> set (inorder R)" "top_of k \<noteq> y" "y \<noteq> top_of k"
    using ds(3,4) D(2) al(3) tr_nodes [OF l] tr_nodes [OF r] top_of_in [of k] by (cases k; auto)+
  have "tr ?g (rp l) y l"
    using tr_set_parent_if [of "set_left y (rp l) g" "rp l" x l y] l D(4,6) al by simp
  then show "tr (set_pc y (pcw (top_of k) c) (rb_change_child x y (top_of k) rt ?g)) y (top_of k) (Nd c l y R)"
    using r D(4,5) tk A al by simp
  show "distinct (nodes k @ inorder (Nd c l y R))" using d by auto
qed

lemma paint_child_commute:
  "a \<noteq> y \<Longrightarrow> set_parent_color_if a p v (set_pc y w h) = set_pc y w (set_parent_color_if a p v h)"
  "set_parent_color_if a p v (rb_change_child x y q rt h) = rb_change_child x y q rt (set_parent_color_if a p v h)"
  "a = 0 \<or> a \<noteq> b \<Longrightarrow> set_parent_color_if a p v (set_parent_if b q h) = set_parent_if b q (set_parent_color_if a p v h)"
  "set_parent_color_if a p v (set_left y w h) = set_left y w (set_parent_color_if a p v h)"
  "set_parent_color_if a p v (set_right y w h) = set_right y w (set_parent_color_if a p v h)"
  by (auto simp: set_parent_color_if_def rb_set_parent_color_def set_parent_if_def rb_set_parent_def rb_color_def set_pc_def
      set_left_def set_right_def rb_change_child_def fun_upd_twist)

lemma pc_black: "aligned p \<Longrightarrow> pc_is_black (pcw p c) \<longleftrightarrow> c = Black"
  by (cases c) (simp_all add: pc_is_black_def)

text \<open>The end of \<^verbatim>\<open>__rb_erase\<close>: the successor takes the place of the node.\<close>

definition take_place :: "addr \<Rightarrow> addr \<Rightarrow> addr \<Rightarrow> addr \<Rightarrow> addr \<Rightarrow> rbheap \<Rightarrow> (addr \<times> rbheap) res" where
  "take_place node rt par successor child2 h =
     (let tmp = rb_left h node;
          h = set_left successor tmp h;
          h = rb_set_parent tmp successor h;
          pc = parent_color h node;
          tmp = pc_parent pc;
          h = rb_change_child node successor tmp rt h
      in if child2 \<noteq> 0
         then Inr (0, rb_set_parent_color child2 par RB_BLACK (set_pc successor pc h))
         else
           let pc2 = parent_color h successor;
               h = set_pc successor pc h
           in Inr (if pc_is_black pc2 then par else 0, h))"

lemma erase_node_two:
  assumes "rb_left h node \<noteq> 0" and "rb_right h node \<noteq> 0"
  shows "rb_erase_node n node rt h =
    (let child = rb_right h node
     in rbind
       (if rb_left h child = 0 then Inr (child, child, rb_right h child, h)
        else
          rbind (rb_leftmost n child (rb_left h child) h) (\<lambda>(par, successor).
            Inr (par, successor, rb_right h successor,
              rb_set_parent child successor (set_right successor child (set_left par (rb_right h successor) h)))))
       (\<lambda>(par, successor, child2, h). take_place node rt par successor child2 h))"
  using assms by (simp add: rb_erase_node_def take_place_def Let_def cong: if_cong)

lemma take_place_tree:
  assumes k: "cx h rt x k" "parent_color h x = pcw (top_of k) c" "rb_left h x = rp l" and l: "tr h (rp l) x l" "l \<noteq> Tip"
    and r: "tr (set_parent_color_if q par RB_BLACK h) (rb_right h y) y R"
    and d: "distinct (x # y # nodes k @ inorder l @ inorder R)" and al: "x \<noteq> 0" "aligned x" "aligned y" "y \<noteq> 0"
    and q: "q \<noteq> 0 \<longrightarrow> q \<in> set (inorder R)" and y: "parent_color h y = pcw pp e" "aligned pp"
  shows "\<exists>h'. take_place x rt par y q h = Inr (if q = 0 \<and> e = Black then par else 0, h') \<and> rbtree h' rt (plug k (Nd c l y R))"
proof -
  have D: "x \<notin> set (nodes k)" "x \<notin> set (inorder l)" "x \<notin> set (inorder R)" "y \<notin> set (inorder l)" "y \<notin> set (inorder R)" "x \<noteq> y"
    using d by simp_all
  have dq: "set (inorder R) \<inter> set (nodes k) = {}" "set (inorder R) \<inter> set (inorder l) = {}"
    using d unfolding distinct.simps distinct_append set_append by blast+
  have Q: "q \<noteq> 0 \<longrightarrow> q \<notin> set (nodes k)" "q \<noteq> 0 \<longrightarrow> q \<notin> set (inorder l)" "q \<noteq> y"
    using q dq D(5) al(4) by auto
  have ql: "q = 0 \<or> q \<noteq> rp l" using q dq(2) rp_in [of l] by auto
  have L: "rp l \<noteq> 0" using l tr_0_iff by blast
  have al': "aligned (top_of k)" using top_of_aligned k(1) by blast
  let ?g = "set_parent_color_if q par RB_BLACK h"
  let ?f = "\<lambda>g. set_pc y (pcw (top_of k) c) (rb_change_child x y (top_of k) rt (set_parent_if (rp l) y (set_left y (rp l) g)))"
  have xl: "x \<noteq> rp l" "y \<noteq> rp l" using rp_neq [OF D(2) al(1)] rp_neq [OF D(4) al(4)] by simp_all
  have "rbtree (?f ?g) rt (plug k (Nd c l y R))"
    by (rule replace_node [OF _ al(1) _ _ d al(2-4)]) (use k(1) l(1) r Q in simp_all)
  moreover have "?f ?g = set_parent_color_if q par RB_BLACK (?f h)"
    using Q(3) ql by (simp add: paint_child_commute)
  moreover have "take_place x rt par y q h = Inr (if q = 0 \<and> e = Black then par else 0, set_parent_color_if q par RB_BLACK (?f h))"
  proof -
    let ?h1 = "set_parent_if (rp l) y (set_left y (rp l) h)"
    have s: "rb_set_parent (rp l) y (set_left y (rp l) h) = ?h1" using L by (simp add: set_parent_if_def)
    have "parent_color ?h1 x = pcw (top_of k) c" "parent_color ?h1 y = pcw pp e" using k(2) y(1) xl by simp_all
    then show ?thesis
      using al' pc_black [OF y(2)] by (simp add: take_place_def Let_def k(3) s set_parent_color_if_def)
  qed
  ultimately show ?thesis by auto
qed

fun mincol :: "rbt \<Rightarrow> clr" where
  "mincol (Nd c Tip x r) = c"
| "mincol (Nd c l x r) = mincol l"
| "mincol Tip = Red"

lemma mincol_tr: "tr h q p t \<Longrightarrow> t \<noteq> Tip \<Longrightarrow> aligned p \<Longrightarrow> \<exists>pp. aligned pp \<and> parent_color h (minnode t) = pcw pp (mincol t)"
  by (induction t arbitrary: q p rule: mincol.induct) auto

lemma smin_col: "smin t k = (kk, c, y, yr) \<Longrightarrow> t \<noteq> Tip \<Longrightarrow> mincol t = c"
  by (induction t k rule: smin.induct) auto

lemma inorder_delmin: "t \<noteq> Tip \<Longrightarrow> inorder t = minnode t # inorder (delmin t)"
  by (induction t rule: delmin.induct) auto

lemma minright_delmin: "set (inorder (minright t)) \<subseteq> set (inorder (delmin t))"
  by (induction t rule: minright.induct) auto

text \<open>The par of the successor: the successor itself when it is the right child.\<close>

definition succ_par :: "rbt \<Rightarrow> addr" where
  "succ_par r = (case r of Nd e rl s rr \<Rightarrow> if rl = Tip then s else minpar r | Tip \<Rightarrow> 0)"

lemma deep_facts:
  assumes "rl \<noteq> Tip" and d: "distinct (inorder (Nd e rl s rr))"
  shows "s \<noteq> minnode (Nd e rl s rr)" "rp (minright (Nd e rl s rr)) = 0 \<or> rp (minright (Nd e rl s rr)) \<noteq> s"
    "rp (delmin (Nd e rl s rr)) = s" "minnode (Nd e rl s rr) = minnode rl" "minright (Nd e rl s rr) = minright rl"
    "minpar (Nd e rl s rr) \<in> set (inorder (Nd e rl s rr))"
proof -
  show e: "minnode (Nd e rl s rr) = minnode rl" "minright (Nd e rl s rr) = minright rl" "rp (delmin (Nd e rl s rr)) = s"
    using assms(1) by (cases rl; simp)+
  show "s \<noteq> minnode (Nd e rl s rr)" "rp (minright (Nd e rl s rr)) = 0 \<or> rp (minright (Nd e rl s rr)) \<noteq> s"
    unfolding e using minnode_in [OF assms(1)] minright_in [of rl] rp_in [of "minright rl"] d by auto
  show "minpar (Nd e rl s rr) \<in> set (inorder (Nd e rl s rr))" using minpar_in [OF assms(1)] by auto
qed

lemma erase_two:
  assumes T: "rbtree h rt (plug k (Nd c l x r))" and l: "l \<noteq> Tip" and r: "r \<noteq> Tip" and n: "depth r < n"
  shows "\<exists>h'. rb_erase_node n x rt h = Inr (if minright r = Tip \<and> mincol r = Black then succ_par r else 0, h') \<and>
    rbtree h' rt (plug k (Nd c l (minnode r) (delmin r)))"
proof -
  note H = rbtree_hole [OF T]
  obtain e rl s rr where R: "r = Nd e rl s rr" using r by (cases r) auto
  let ?y = "minnode r" and ?yr = "minright r"
  have C: "parent_color h x = pcw (top_of k) c" "x \<noteq> 0" "aligned x" "rb_left h x = rp l" "rb_right h x = s" "tr h (rp l) x l" "tr h s x r"
    using H(2) R tr_to_rp tr_rp by auto
  have y: "?y \<noteq> 0" "aligned ?y" "?y \<in> set (inorder r)" using tr_nodes [OF C(7) minnode_in [OF r]] minnode_in [OF r] by simp_all
  have d: "distinct (x # ?y # nodes k @ inorder l @ inorder (delmin r))"
    using H(3) inorder_delmin [OF r] by (intro distinct_perm [OF H(3)]) simp
  obtain pp where pp: "aligned pp" "parent_color h ?y = pcw pp (mincol r)" using mincol_tr [OF C(7) r C(3)] by blast
  have yr: "tr h (rp ?yr) ?y ?yr" "rb_right h ?y = rp ?yr" using minright_tr [OF C(7) r] tr_to_rp tr_rp by auto
  have q: "rp ?yr \<noteq> 0 \<longrightarrow> rp ?yr \<in> set (inorder (delmin r))" using minright_delmin [of r] rp_in [of ?yr] by auto
  have q0: "rp ?yr = 0 \<longleftrightarrow> ?yr = Tip" using tr_0_iff [OF yr(1)] .
  have nz: "rb_left h x \<noteq> 0" "rb_right h x \<noteq> 0" using C(4-7) l r tr_0_iff by auto
  have dr: "distinct (inorder r)" using H(3) by simp
  show ?thesis
  proof (cases "rl = Tip")
    case True
    then have e1: "?y = s" "delmin r = paint Black ?yr" "succ_par r = s" and z: "rb_left h s = 0" and dy: "distinct (inorder ?yr)"
      using R C(7) dr by (auto simp: succ_par_def)
    have "tr (set_parent_color_if (rp ?yr) ?y RB_BLACK h) (rb_right h ?y) ?y (delmin r)"
      using tr_set_parent_color_if [OF yr(1) dy y(2)] e1 yr(2) by simp
    then obtain h' where "take_place x rt s s (rp ?yr) h = Inr (if rp ?yr = 0 \<and> mincol r = Black then s else 0, h')"
      "rbtree h' rt (plug k (Nd c l ?y (delmin r)))"
      using take_place_tree [OF H(1) [unfolded rp.simps] C(1,4,6) l _ d C(2,3) y(2,1) q pp(2,1), of ?y] e1 by auto
    then show ?thesis
      using erase_node_two [OF nz, of n rt] C(5) z e1 q0 yr(2) by simp
  next
    case False
    let ?P = "minpar r"
    define g where "g = set_parent_if s ?y (set_right ?y s (set_left ?P (rp ?yr) h))"
    have s: "s \<noteq> 0" "s \<in> set (inorder r)" "?y \<noteq> s" "s \<noteq> ?y" "rp ?yr = 0 \<or> rp ?yr \<noteq> s" "rp (delmin r) = s" "?y = minnode rl" "?yr = minright rl"
      and P: "?P \<in> set (inorder r)"
      using deep_facts [OF False dr [unfolded R]] tr_nodes [OF C(7)] R by auto
    have D: "set (inorder r) \<inter> set (nodes k) = {}" "set (inorder r) \<inter> set (inorder l) = {}" "x \<notin> set (inorder r)"
      using H(3) by auto
    have N: "s \<notin> set (nodes k)" "?P \<notin> set (nodes k)" "?y \<notin> set (nodes k)" "s \<notin> set (inorder l)" "?P \<notin> set (inorder l)" "?y \<notin> set (inorder l)"
      "x \<noteq> s" "x \<noteq> ?P" "x \<noteq> ?y" using D s(2) P y(3) by auto
    have G: "cx g rt x k" "parent_color g x = pcw (top_of k) c" "rb_left g x = rp l" "tr g (rp l) x l" "parent_color g ?y = pcw pp (mincol r)"
      "rb_right g ?y = s" "rb_left g x = rp l"
      using H(1) C(1,4,6) pp(2) N s by (simp_all add: g_def)
    have nd: "?y \<notin> set (inorder (delmin r))" "distinct (inorder (delmin r))" using d by simp_all
    have "tr (set_parent_color_if (rp ?yr) ?P RB_BLACK (set_left ?P (rp ?yr) h)) s x (delmin r)"
      using tr_delmin [OF C(7) [unfolded R] False dr [unfolded R]] s(8) R by simp
    then have "tr (set_parent_if s ?y (set_right ?y s (set_parent_color_if (rp ?yr) ?P RB_BLACK (set_left ?P (rp ?yr) h)))) s ?y (delmin r)"
      using tr_set_parent_if [OF _ nd(2) y(2) C(3)] nd(1) by simp
    then have "tr (set_parent_color_if (rp ?yr) ?P RB_BLACK g) (rb_right g ?y) ?y (delmin r)"
      using s(5) by (simp add: g_def paint_child_commute)
    then obtain h' where t: "take_place x rt ?P ?y (rp ?yr) g = Inr (if rp ?yr = 0 \<and> mincol r = Black then ?P else 0, h')"
      "rbtree h' rt (plug k (Nd c l ?y (delmin r)))"
      using take_place_tree [OF G(1-4) l _ d C(2,3) y(2,1) q G(5) pp(1)] by blast
    have lm: "rb_leftmost n s (rb_left h s) h = Inr (?P, ?y)" "rb_left h s \<noteq> 0" "succ_par r = ?P"
      using leftmost_min [of h s x e rl s rr n] C(7) R False n s(7) tr_0_iff by (auto simp: succ_par_def)
    show ?thesis
      using erase_node_two [OF nz, of n rt] C(5) lm t yr(2) s(1) q0 by (simp add: g_def set_parent_if_def)
  qed
qed

section \<open>Removal\<close>

lemma erase_finish:
  assumes e: "rb_erase_node n x rt h = Inr (if b then top_of k else 0, h1)" and T: "rbtree h1 rt (plug k Tip)"
    and b: "b \<longrightarrow> kh k (Suc 0) \<and> kc k" and n: "length k \<le> n"
  shows "\<exists>h'. rb_erase n x rt h = Inr h' \<and> rbtree h' rt (if b then dfix k Tip else plug k Tip)"
proof (cases "b \<and> k \<noteq> []")
  case True
  then obtain f k' where k: "k = f # k'" by (cases k) auto
  have "fnode f \<noteq> 0" using rbtree_hole(1) [OF T] unfolding k by (cases f) auto
  moreover obtain h' where "rb_erase_fix n 0 (fnode f) rt h1 = Inr h'" "rbtree h' rt (dfix k Tip)"
    using erase_fix_refines [of h1 rt f k' Tip n] T b n True unfolding k by auto
  ultimately show ?thesis using e True k by (auto simp: rb_erase_def)
next
  case False
  then show ?thesis using e T by (cases "b") (auto simp: rb_erase_def)
qed

lemma node_path: "x \<in> set (inorder t) \<Longrightarrow> \<exists>k c l r. t = plug k (Nd c l x r)"
proof (induction t)
  case (Nd c l y r)
  consider "x = y" | "x \<in> set (inorder l)" | "x \<in> set (inorder r)" using Nd.prems by auto
  then show ?case
  proof cases
    case 1
    then show ?thesis by (metis plug.simps(1))
  next
    case 2
    then obtain k d a b where "l = plug k (Nd d a x b)" using Nd.IH(1) by blast
    then have "Nd c l y r = plug (k @ [FL c y r]) (Nd d a x b)" by (simp add: plug_append)
    then show ?thesis by blast
  next
    case 3
    then obtain k d a b where "r = plug k (Nd d a x b)" using Nd.IH(2) by blast
    then have "Nd c l y r = plug (k @ [FR c l y]) (Nd d a x b)" by (simp add: plug_append)
    then show ?thesis by blast
  qed
qed simp

lemma erase_one:
  assumes T: "rbtree h rt (plug k (Nd c l x r))" and lr: "l = Tip \<or> r = Tip"
  shows "\<exists>h1. rb_erase_node n x rt h = Inr (if l = Tip \<and> r = Tip \<and> c = Black then top_of k else 0, h1) \<and>
    rbtree h1 rt (plug k (if l \<noteq> Tip then paint c l else if r \<noteq> Tip then paint c r else Tip))"
proof -
  note H = rbtree_hole [OF T]
  have C: "parent_color h x = pcw (top_of k) c" "tr h (rb_left h x) x l" "tr h (rb_right h x) x r" using H(2) by simp_all
  have al: "aligned (top_of k)" using top_of_aligned H(1) by blast
  note R = tr_0_iff [OF C(2)] tr_0_iff [OF C(3)] tr_rp [OF C(2)] tr_rp [OF C(3)]
  consider (leaf) "l = Tip" "r = Tip" | (right) "l = Tip" "r \<noteq> Tip" | (left) "l \<noteq> Tip" "r = Tip" using lr by blast
  then show ?thesis
  proof cases
    case leaf
    have "rb_erase_node n x rt h = Inr (if c = Black then top_of k else 0, rb_change_child x 0 (top_of k) rt h)"
      using R leaf C(1) al pc_black [OF al] by (simp add: rb_erase_node_def Let_def)
    then show ?thesis using unlink_leaf T leaf by auto
  next
    case right
    have "rb_erase_node n x rt h = Inr (0, rb_change_child x (rp r) (top_of k) rt (set_pc (rp r) (parent_color h x) h))"
      using R right C(1) al by (simp add: rb_erase_node_def Let_def change_child_commute)
    then show ?thesis using unlink_child [OF T, of r] right by auto
  next
    case left
    have "rb_erase_node n x rt h = Inr (0, rb_change_child x (rp l) (top_of k) rt (set_pc (rp l) (parent_color h x) h))"
      using R left C(1) al by (simp add: rb_erase_node_def Let_def)
    then show ?thesis using unlink_child [OF T, of l] left by auto
  qed
qed

lemma succ_par_top:
  assumes "smin r [] = (kk, d, y, yr)" and "r \<noteq> Tip"
  shows "succ_par r = top_of (kk @ FR c l y # k)"
proof -
  obtain e rl s rr where R: "r = Nd e rl s rr" using assms(2) by (cases r) auto
  show ?thesis
  proof (cases "rl = Tip")
    case True
    then show ?thesis using assms R by (simp add: succ_par_def)
  next
    case False
    have "top_of kk = minpar r" using smin_top [of e rl s rr "[]" kk d y yr] assms(1) False R by simp
    moreover have "kk \<noteq> []" using smin_plug [OF assms(2,1)] R False by auto
    ultimately show ?thesis using False R by (cases kk) (simp_all add: succ_par_def)
  qed
qed

lemma erase_both:
  assumes T: "rbtree h rt (plug k (Nd c l x r))" and rb: "rb (plug k (Nd c l x r))" and lr: "l \<noteq> Tip" "r \<noteq> Tip"
    and n: "depth r < n" "depth (plug k (Nd c l x r)) < n"
  shows "\<exists>h'. rb_erase n x rt h = Inr h' \<and> rbtree h' rt (derase k (Nd c l x r))"
proof -
  obtain kk d y yr where m: "smin r [] = (kk, d, y, yr)" by (cases "smin r []") auto
  let ?K = "\<lambda>z. kk @ FR c l z # k"
  note M = smin_min [OF m lr(2)] smin_col [OF m lr(2)] succ_par_top [OF m lr(2), of c l k]
  have R: "plug (?K x) (Nd d Tip y yr) = plug k (Nd c l x r)" using smin_plug [OF lr(2) m] by (simp add: plug_append)
  have b: "d = Black \<longrightarrow> kh (?K y) (Suc 0) \<and> kc (?K y)"
    using rb unfolding R [symmetric] rb_plug kh_rename [of kk c l x k _ y] kc_rename [of kk c l x k y] by auto
  have len: "length (?K y) \<le> n" using length_path [of "?K x" "Nd d Tip y yr"] n(2) unfolding R by simp
  obtain h1 where h1: "rb_erase_node n x rt h = Inr (if yr = Tip \<and> d = Black then top_of (?K y) else 0, h1)"
    "rbtree h1 rt (plug k (Nd c l y (delmin r)))"
    using erase_two [OF T lr n(1)] M by auto
  have P: "rbtree h1 rt (plug (?K y) (paint Black yr))" using h1(2) M(3) by (simp add: plug_append)
  show ?thesis
  proof (cases "yr = Tip")
    case True
    then show ?thesis using erase_finish [of n x rt h "d = Black" "?K y" h1] h1(1) P b len lr m by auto
  next
    case False
    then show ?thesis using h1(1) P lr m by (simp add: rb_erase_def)
  qed
qed

lemma rb_erase_tree:
  assumes T: "rbtree h rt t" "rb t" and x: "x \<in> set (inorder t)" and n: "depth t < n"
  shows "\<exists>h' t'. rb_erase n x rt h = Inr h' \<and> rbtree h' rt t' \<and> rb t' \<and> inorder t' = remove1 x (inorder t)"
proof -
  obtain k c l r where t: "t = plug k (Nd c l x r)" using node_path [OF x] by blast
  have D: "rb (derase k (Nd c l x r))" "inorder (derase k (Nd c l x r)) = remove1 x (inorder t)"
    using derase_ok [OF t T(2)] T(1) by (simp_all add: rbtree_def)
  have len: "length k < n" "depth r < n" using length_path [of k "Nd c l x r"] n t by auto
  have rb: "rb (plug k (Nd c l x r))" using T(2) t by simp
  have "\<exists>h'. rb_erase n x rt h = Inr h' \<and> rbtree h' rt (derase k (Nd c l x r))"
  proof (cases "l = Tip \<or> r = Tip")
    case True
    then obtain h1 where h1: "rb_erase_node n x rt h = Inr (if l = Tip \<and> r = Tip \<and> c = Black then top_of k else 0, h1)"
      "rbtree h1 rt (plug k (if l \<noteq> Tip then paint c l else if r \<noteq> Tip then paint c r else Tip))"
      using erase_one [OF T(1) [unfolded t] True] by blast
    show ?thesis
    proof (cases "l = Tip \<and> r = Tip")
      case lf: True
      have b: "c = Black \<longrightarrow> kh k (Suc 0) \<and> kc k" using rb lf unfolding rb_plug by auto
      show ?thesis using erase_finish [of n x rt h "c = Black" k h1] h1 lf b len(1) by auto
    next
      case False
      then show ?thesis using h1 True by (auto simp: rb_erase_def)
    qed
  next
    case False
    then have lr: "l \<noteq> Tip" "r \<noteq> Tip" by blast+
    show ?thesis using erase_both [OF T(1) [unfolded t] rb lr len(2)] n t by simp
  qed
  then show ?thesis using D by blast
qed

end
