(* ===== verification/Rbtree_Props.thy ===== *)
theory Rbtree_Props
  imports Rbtree_Remove
begin

text \<open>
  The contract of the red-black trees: with a comparison that is an order on the nodes, insertion, removal and search
  implement a sorted set of nodes, and the tree stays balanced. The two comparisons of the kernel, of inode numbers and of
  timers, are instances.
\<close>

section \<open>Search\<close>

lemma search_path:
  assumes "tr h q p t" and "depth t < n"
  shows "\<exists>y. rb_search n cmp x q h = Inr y \<and>
    (if path cmp x t k = None then y \<in> set (inorder t) \<and> \<not> cmp x y \<and> \<not> cmp y x else y = 0)"
  using assms
proof (induction t arbitrary: q p n k)
  case Tip
  then show ?case by (cases n) auto
next
  case (Nd c l z r)
  then obtain m where m: "n = Suc m" "depth l < m" "depth r < m" by (cases n) auto
  have z: "q = z" "z \<noteq> 0" "tr h (rb_left h z) z l" "tr h (rb_right h z) z r" using Nd.prems(1) by simp_all
  show ?case
    using Nd.IH(1) [OF z(3) m(2), of "FL c z r # k"] Nd.IH(2) [OF z(4) m(3), of "FR c l z # k"] z(1,2) m(1) by auto
qed

lemma first_inorder:
  assumes "tr h q p t" and "t \<noteq> Tip" and "depth t < n"
  shows "rb_go_left n q h = Inr (hd (inorder t))"
  using assms
proof (induction t arbitrary: q p n)
  case (Nd c l z r)
  then obtain m where m: "n = Suc m" "depth l < m" by (cases n) auto
  have z: "q = z" "tr h (rb_left h z) z l" using Nd.prems(1) by simp_all
  show ?case
  proof (cases "l = Tip")
    case True
    then show ?thesis using z m by simp
  next
    case False
    then have "rb_left h z \<noteq> 0" "inorder l \<noteq> []" using z(2) tr_0_iff by (auto, cases l, auto)
    then show ?thesis using Nd.IH(1) [OF z(2) False m(2)] z(1) m(1) by simp
  qed
qed simp

lemma rb_first_tree: "rbtree h rt t \<Longrightarrow> depth t < n \<Longrightarrow> rb_first n rt h = Inr (case inorder t of [] \<Rightarrow> 0 | x # _ \<Rightarrow> x)"
  using first_inorder [of h "rb_node h rt" 0 t n] tr_0_iff [of h "rb_node h rt" 0 t]
  by (cases t) (auto simp: rbtree_def rb_first_def split: list.splits)

section \<open>The order of the nodes\<close>

lemma sorted_wrt_without: "sorted_wrt R xs \<Longrightarrow> sorted_wrt R (remove1 x xs)"
  by (induction xs) (auto dest: notin_set_remove1)

definition sorted_tree :: "(addr \<Rightarrow> addr \<Rightarrow> bool) \<Rightarrow> addr set \<Rightarrow> rbt \<Rightarrow> bool" where
  "sorted_tree cmp A t \<longleftrightarrow> set (inorder t) \<subseteq> A \<and> sorted_wrt cmp (inorder t)"

locale node_order =
  fixes cmp :: "addr \<Rightarrow> addr \<Rightarrow> bool" and A :: "addr set"
  assumes cmp_irrefl: "x \<in> A \<Longrightarrow> \<not> cmp x x"
    and cmp_trans: "x \<in> A \<Longrightarrow> y \<in> A \<Longrightarrow> z \<in> A \<Longrightarrow> cmp x y \<Longrightarrow> cmp y z \<Longrightarrow> cmp x z"
begin

lemma path_between:
  assumes "path cmp x t k = Some k'" and "x \<in> A" and "set (inorder t) \<subseteq> A" and "sorted_wrt cmp (inorder t)"
    and "\<forall>y \<in> set (kleft k). cmp y x" and "\<forall>y \<in> set (kright k). cmp x y"
  shows "(\<forall>y \<in> set (kleft k'). cmp y x) \<and> (\<forall>y \<in> set (kright k'). cmp x y)"
  using assms
proof (induction t arbitrary: k)
  case (Nd c l y r)
  have s: "set (inorder l) \<subseteq> A" "set (inorder r) \<subseteq> A" "y \<in> A" "sorted_wrt cmp (inorder l)" "sorted_wrt cmp (inorder r)"
    "\<forall>z \<in> set (inorder r). cmp y z" "\<forall>z \<in> set (inorder l). cmp z y"
    using Nd.prems(3,4) by (auto simp: sorted_wrt_append)
  show ?case
  proof (cases "cmp x y")
    case True
    then have "\<forall>z \<in> set (inorder r). cmp x z" using s cmp_trans [OF Nd.prems(2) s(3)] by blast
    then have kr: "\<forall>z \<in> set (kright (FL c y r # k)). cmp x z" using Nd.prems(6) True by auto
    have p: "path cmp x l (FL c y r # k) = Some k'" using Nd.prems(1) True by simp
    show ?thesis by (rule Nd.IH(1) [OF p Nd.prems(2) s(1,4) _ kr]) (use Nd.prems(5) in simp)
  next
    case False
    then have yx: "cmp y x" using Nd.prems(1) by (auto split: if_splits)
    then have "\<forall>z \<in> set (inorder l). cmp z x" using s cmp_trans [OF _ s(3) Nd.prems(2)] by blast
    then have kl: "\<forall>z \<in> set (kleft (FR c l y # k)). cmp z x" using Nd.prems(5) yx by auto
    have p: "path cmp x r (FR c l y # k) = Some k'" using Nd.prems(1) False yx by simp
    show ?thesis by (rule Nd.IH(2) [OF p Nd.prems(2) s(2,5) kl]) (use Nd.prems(6) in simp)
  qed
qed simp

lemma path_none_iff:
  assumes "x \<in> A" and "set (inorder t) \<subseteq> A" and "sorted_wrt cmp (inorder t)"
  shows "path cmp x t k = None \<longleftrightarrow> (\<exists>y \<in> set (inorder t). \<not> cmp x y \<and> \<not> cmp y x)"
proof
  assume "path cmp x t k = None"
  then show "\<exists>y \<in> set (inorder t). \<not> cmp x y \<and> \<not> cmp y x" by (rule path_none)
next
  assume e: "\<exists>y \<in> set (inorder t). \<not> cmp x y \<and> \<not> cmp y x"
  show "path cmp x t k = None"
    using e assms
  proof (induction t arbitrary: k)
    case (Nd c l y r)
    have s: "set (inorder l) \<subseteq> A" "set (inorder r) \<subseteq> A" "y \<in> A" "sorted_wrt cmp (inorder l)" "sorted_wrt cmp (inorder r)"
      "\<forall>z \<in> set (inorder r). cmp y z" "\<forall>z \<in> set (inorder l). cmp z y"
      using Nd.prems(3,4) by (auto simp: sorted_wrt_append)
    have R: "cmp x z" if "cmp x y" "z \<in> set (inorder r)" for z using that s cmp_trans [OF Nd.prems(2) s(3)] by blast
    have L: "cmp z x" if "cmp y x" "z \<in> set (inorder l)" for z using that s cmp_trans [OF _ s(3) Nd.prems(2)] by blast
    obtain z where z: "z \<in> set (inorder (Nd c l y r))" "\<not> cmp x z" "\<not> cmp z x" using Nd.prems(1) by blast
    consider "z = y" | "z \<in> set (inorder l)" | "z \<in> set (inorder r)" using z(1) by auto
    then show ?case
    proof cases
      case 2
      then have "\<exists>y \<in> set (inorder l). \<not> cmp x y \<and> \<not> cmp y x" using z by blast
      from Nd.IH(1) [OF this Nd.prems(2) s(1,4)] show ?thesis using L 2 z(3) by auto
    next
      case 3
      then have "\<exists>y \<in> set (inorder r). \<not> cmp x y \<and> \<not> cmp y x" using z by blast
      from Nd.IH(2) [OF this Nd.prems(2) s(2,5)] show ?thesis using R 3 z(2) by auto
    qed (use z in simp)
  qed simp
qed

text \<open>Insertion of a node into a sorted balanced tree.\<close>

lemma insert_sorted:
  assumes t: "rbtree h rt t" "rb t" "sorted_tree cmp A t" and node: "node \<noteq> 0" "aligned node" "node \<notin> set (inorder t)" "node \<in> A"
    and n: "Suc (depth t) < n"
  shows "if \<exists>y \<in> set (inorder t). \<not> cmp node y \<and> \<not> cmp y node
    then \<exists>h'. rb_insert n node rt cmp h = Inr (- 1, h') \<and> rbtree h' rt t
    else \<exists>h' t'. rb_insert n node rt cmp h = Inr (0, h') \<and> rbtree h' rt t' \<and> rb t' \<and> sorted_tree cmp A t' \<and>
      set (inorder t') = insert node (set (inorder t))"
proof -
  have s: "set (inorder t) \<subseteq> A" "sorted_wrt cmp (inorder t)" using t(3) by (simp_all add: sorted_tree_def)
  note I = rb_insert_tree [OF t(1,2) node(1-3) n, of cmp]
  show ?thesis
  proof (cases "path cmp node t []")
    case None
    then show ?thesis using path_none_iff [OF node(4) s, of "[]"] I new_node_tree [OF node(3) t(1)] by simp
  next
    case (Some k)
    then obtain h' where h': "rb_insert n node rt cmp h = Inr (0, h')" "rbtree h' rt (ifix k (Nd Red Tip node Tip))" using I by auto
    have pk: "plug k Tip = t" using path_plug [OF Some] by simp
    have io: "inorder (ifix k (Nd Red Tip node Tip)) = kleft k @ node # kright k" by (simp add: ifix_inorder inorder_plug)
    have it: "inorder t = kleft k @ kright k" using inorder_plug [of k Tip] pk by simp
    have "rb (ifix k (Nd Red Tip node Tip))" using t(2) unfolding pk [symmetric] rb_plug by (intro ifix_rb) simp_all
    moreover have "(\<forall>y \<in> set (kleft k). cmp y node) \<and> (\<forall>y \<in> set (kright k). cmp node y)"
      using path_between [OF Some node(4) s] by simp
    then have "sorted_tree cmp A (ifix k (Nd Red Tip node Tip))"
      using s node(4) unfolding sorted_tree_def io it by (auto simp: sorted_wrt_append)
    ultimately show ?thesis using h' io it path_none_iff [OF node(4) s, of "[]"] Some by auto
  qed
qed

lemma erase_sorted:
  assumes t: "rbtree h rt t" "rb t" "sorted_tree cmp A t" and x: "x \<in> set (inorder t)" and n: "depth t < n"
  shows "\<exists>h' t'. rb_erase n x rt h = Inr h' \<and> rbtree h' rt t' \<and> rb t' \<and> sorted_tree cmp A t' \<and> inorder t' = remove1 x (inorder t)"
proof -
  obtain h' t' where h': "rb_erase n x rt h = Inr h'" "rbtree h' rt t'" "rb t'" "inorder t' = remove1 x (inorder t)"
    using rb_erase_tree [OF t(1,2) x n] by blast
  have "sorted_wrt cmp (remove1 x (inorder t))"
    using t(3) sorted_wrt_without by (auto simp: sorted_tree_def)
  then have "sorted_tree cmp A t'" using h'(4) t(3) set_remove1_subset [of x "inorder t"] by (auto simp: sorted_tree_def)
  then show ?thesis using h' by blast
qed

lemma lookup_sorted:
  assumes t: "rbtree h rt t" "sorted_tree cmp A t" and x: "x \<in> A" and n: "depth t < n"
  shows "\<exists>y. rb_lookup n x rt cmp h = Inr y \<and>
    (if \<exists>z \<in> set (inorder t). \<not> cmp x z \<and> \<not> cmp z x then y \<in> set (inorder t) \<and> \<not> cmp x y \<and> \<not> cmp y x else y = 0)"
proof -
  have s: "set (inorder t) \<subseteq> A" "sorted_wrt cmp (inorder t)" using t(2) by (simp_all add: sorted_tree_def)
  obtain y where y: "rb_search n cmp x (rb_node h rt) h = Inr y"
    "if path cmp x t [] = None then y \<in> set (inorder t) \<and> \<not> cmp x y \<and> \<not> cmp y x else y = 0"
    using search_path [of h "rb_node h rt" 0 t n cmp x "[]"] t(1) n by (auto simp: rbtree_def)
  then show ?thesis unfolding path_none_iff [OF x s] rb_lookup_def by blast
qed

end

section \<open>The tree of inodes\<close>

text \<open>The comparison of \<^verbatim>\<open>inode.c\<close>; \<^verbatim>\<open>ino\<close> is the field \<^verbatim>\<open>inode_no\<close> of the inode around a tree node.\<close>

definition inode_compare :: "(addr \<Rightarrow> nat) \<Rightarrow> addr \<Rightarrow> addr \<Rightarrow> bool" where
  "inode_compare ino l r \<longleftrightarrow> ino l < ino r"

interpretation ic: node_order "inode_compare ino" UNIV for ino
  by unfold_locales (auto simp: inode_compare_def)

text \<open>
  C7: inserting an inode into the tree of inodes keeps it a sorted red-black tree with the new node added; an inode whose
  number is already there is refused with -1 and the tree stays as it is. Fuel for the height of the tree is enough.
\<close>

theorem rb_insert_inode:
  assumes "rbtree h rt t" and "rb t" and "sorted_tree (inode_compare ino) UNIV t"
    and "node \<noteq> 0" "aligned node" "node \<notin> set (inorder t)" and "Suc (depth t) < n"
  shows "if ino node \<in> ino ` set (inorder t)
    then \<exists>h'. rb_insert n node rt (inode_compare ino) h = Inr (- 1, h') \<and> rbtree h' rt t
    else \<exists>h' t'. rb_insert n node rt (inode_compare ino) h = Inr (0, h') \<and> rbtree h' rt t' \<and> rb t' \<and>
      sorted_tree (inode_compare ino) UNIV t' \<and> set (inorder t') = insert node (set (inorder t))"
proof -
  have "ino node \<in> ino ` set (inorder t) \<longleftrightarrow> (\<exists>y \<in> set (inorder t). \<not> inode_compare ino node y \<and> \<not> inode_compare ino y node)"
    by (auto simp: inode_compare_def image_iff)
  then show ?thesis using ic.insert_sorted [OF assms(1-6) UNIV_I assms(7)] by simp
qed

text \<open>The tree with the single node at 8.\<close>

definition demo_rb :: rbheap where
  "demo_rb = \<lparr>parent_color = (\<lambda>_. 1), rb_right = (\<lambda>_. 0), rb_left = (\<lambda>_. 0), rb_node = (\<lambda>_. 8)\<rparr>"

lemma demo_rb_tree: "rbtree demo_rb rt (Nd Black Tip 8 Tip)" "rb (Nd Black Tip 8 Tip)" "sorted_tree cmp UNIV (Nd Black Tip 8 Tip)"
  by (simp_all add: rbtree_def demo_rb_def aligned_def pcw_def rb_def sorted_tree_def)

theorem rb_insert_inode_witness:
  "\<exists>h' t'. rb_insert 3 16 100 (inode_compare (\<lambda>a. a)) demo_rb = Inr (0, h') \<and> rbtree h' 100 t' \<and> rb t' \<and> set (inorder t') = {8, 16}"
  using rb_insert_inode [OF demo_rb_tree, of 16 3 "\<lambda>a. a" 100] by (auto simp: aligned_def insert_commute)

text \<open>
  C8: removing a node takes exactly this node out of the tree; the order, the colours and the equal black heights stay, and
  the repair never follows the pointer to a sibling that is null.
\<close>

theorem rb_erase_inode:
  assumes "rbtree h rt t" and "rb t" and "sorted_tree (inode_compare ino) UNIV t" and "x \<in> set (inorder t)" and "depth t < n"
  shows "\<exists>h' t'. rb_erase n x rt h = Inr h' \<and> rbtree h' rt t' \<and> rb t' \<and> sorted_tree (inode_compare ino) UNIV t' \<and>
    inorder t' = remove1 x (inorder t)"
  using assms by (rule ic.erase_sorted)

theorem rb_erase_inode_witness: "\<exists>h' t'. rb_erase 2 8 100 demo_rb = Inr h' \<and> rbtree h' 100 t' \<and> inorder t' = []"
  using rb_erase_inode [OF demo_rb_tree, of 8 2 100 "\<lambda>a. a"] by auto

text \<open>
  C9: a search in a tree of fewer than 2^j - 1 nodes ends within 2 j steps, with the node that has the number, or with the
  null pointer when there is none.
\<close>

theorem rb_lookup_logarithmic:
  assumes "rbtree h rt t" and "rb t" and "sorted_tree (inode_compare ino) UNIV t" and "Suc (length (inorder t)) < 2 ^ j"
  shows "\<exists>y. rb_lookup (2 * j) x rt (inode_compare ino) h = Inr y \<and>
    (if ino x \<in> ino ` set (inorder t) then y \<in> set (inorder t) \<and> ino y = ino x else y = 0)"
proof -
  have "(2::nat) ^ (depth t div 2) < 2 ^ j" using depth_le [OF assms(2)] assms(4) by linarith
  then have "depth t div 2 < j" by simp
  then have "depth t < 2 * j" by linarith
  then obtain y where y: "rb_lookup (2 * j) x rt (inode_compare ino) h = Inr y"
    "if \<exists>z \<in> set (inorder t). \<not> inode_compare ino x z \<and> \<not> inode_compare ino z x
     then y \<in> set (inorder t) \<and> \<not> inode_compare ino x y \<and> \<not> inode_compare ino y x else y = 0"
    using ic.lookup_sorted [OF assms(1,3) UNIV_I] by blast
  then show ?thesis by (auto simp: inode_compare_def image_iff split: if_splits)
qed

theorem rb_lookup_logarithmic_witness: "rb_lookup 4 8 100 (inode_compare (\<lambda>a. a)) demo_rb = Inr 8"
  using rb_lookup_logarithmic [OF demo_rb_tree, of 2 8 100 "\<lambda>a. a"] by auto

end
