(* ===== verification/Cpu.thy ===== *)
theory Cpu
  imports Rbtree_Props
begin

text \<open>
  Clocks and timers: \<^verbatim>\<open>src/src/driver/clock.c\<close> and \<^verbatim>\<open>src/src/kernel/cpu.c\<close>. Each CPU has a red-black tree of timers, ordered by the
  time at which they fire. The counter of the hardware is a field of the state (it does not move within one operation), as is the count-down register of each CPU.
\<close>

section \<open>The clock\<close>

text \<open>The functions that are stored in the field \<^verbatim>\<open>handler\<close> of a timer.\<close>

datatype thandler = NoHandler | MyHandler | HelloHandler

record timer =
  triggered :: bool
  elapse :: int
  tkey :: u64
  thandler_of :: thandler
  tdata :: u64

record clkst =
  one_ms :: u64
  ticks :: u64
  tval :: "nat \<Rightarrow> u64"
  trap_on :: "nat \<Rightarrow> bool"
  ttbr0 :: "nat \<Rightarrow> addr"
  online :: "nat \<Rightarrow> bool"
  clock_handler :: bool
  trees :: "nat \<Rightarrow> rbheap"
  timers :: "addr \<Rightarrow> timer"

definition get_timestamp_ms :: "clkst \<Rightarrow> u64" where
  "get_timestamp_ms s = ticks s div one_ms s"

definition reset_clock :: "nat \<Rightarrow> u64 \<Rightarrow> clkst \<Rightarrow> clkst res" where
  "reset_clock c countdown_ms s =
     (let t = countdown_ms * one_ms s
      in if t \<le> 0x7fffffff then Inr (s\<lparr>tval := (tval s)(c := t)\<rparr>) else Inl Panic)"

text \<open>\<^verbatim>\<open>freq\<close> is the frequency that the hardware reports.\<close>

definition init_clock :: "u64 \<Rightarrow> nat \<Rightarrow> clkst \<Rightarrow> clkst res" where
  "init_clock freq c s = reset_clock c 1000 (s\<lparr>one_ms := freq div 1000\<rparr>)"

section \<open>Timers\<close>

text \<open>The tree node is at offset 16 of a timer. A timer is in the tree of one CPU only, so the links of each CPU's tree are a
  part of the memory of their own, \<^verbatim>\<open>trees s c\<close>; the root of it is named \<^verbatim>\<open>c\<close>.\<close>

definition tnode :: "addr \<Rightarrow> addr" where "tnode tm = tm + 16"
definition timer_of :: "addr \<Rightarrow> addr" where "timer_of nd = nd - 16"

definition timer_key :: "(addr \<Rightarrow> timer) \<Rightarrow> addr \<Rightarrow> u64" where
  "timer_key tms nd = tkey (tms (timer_of nd))"

definition timer_cmp :: "(addr \<Rightarrow> timer) \<Rightarrow> addr \<Rightarrow> addr \<Rightarrow> bool" where
  "timer_cmp tms lnode rnode =
     (let d = sint (timer_key tms lnode - timer_key tms rnode)
      in if d < 0 then True else if d = 0 then lnode < rnode else False)"

text \<open>A tree in memory has fewer than \<^verbatim>\<open>2 ^ 64\<close> nodes, so that its height is below 128.\<close>

definition timer_fuel :: nat where "timer_fuel = 130"

definition timer_set_clock :: "nat \<Rightarrow> clkst \<Rightarrow> clkst res" where
  "timer_set_clock c s =
     rbind (rb_first timer_fuel c (trees s c)) (\<lambda>node.
       if node = 0 then reset_clock c 1000 s
       else
         let t1 = tkey (timers s (timer_of node));
             t0 = get_timestamp_ms s
         in if t1 \<le> t0 then reset_clock c 0 s else reset_clock c (t1 - t0) s)"

definition set_cpu_timer :: "nat \<Rightarrow> addr \<Rightarrow> clkst \<Rightarrow> clkst res" where
  "set_cpu_timer c tm s =
     (let s = s\<lparr>timers := (timers s)(tm := (timers s tm)\<lparr>triggered := False,
                tkey := get_timestamp_ms s + word_of_int (elapse (timers s tm))\<rparr>)\<rparr>
      in rbind (rb_insert timer_fuel (tnode tm) c (timer_cmp (timers s)) (trees s c)) (\<lambda>(r, h).
           if r = 0 then timer_set_clock c (s\<lparr>trees := (trees s)(c := h)\<rparr>) else Inl Panic))"

definition cancel_cpu_timer :: "nat \<Rightarrow> addr \<Rightarrow> clkst \<Rightarrow> clkst res" where
  "cancel_cpu_timer c tm s =
     (if triggered (timers s tm) then Inl Panic
      else rbind (rb_erase timer_fuel (tnode tm) c (trees s c)) (\<lambda>h. timer_set_clock c (s\<lparr>trees := (trees s)(c := h)\<rparr>)))"

text \<open>
  The loop of \<^verbatim>\<open>timer_clock_handler\<close>, over a state that has the clock as a part; \<^verbatim>\<open>run\<close> calls the handler of a timer,
  and the loop goes on when it has returned on the same CPU. The handler that preempts the process may come back elsewhere and later; \<^verbatim>\<open>Sched_Props\<close> takes
  one round of the loop with this handler as a step of its own.
\<close>

fun timer_loop :: "('s \<Rightarrow> clkst) \<Rightarrow> ((clkst \<Rightarrow> clkst) \<Rightarrow> 's \<Rightarrow> 's) \<Rightarrow> (addr \<Rightarrow> 's \<Rightarrow> 's res) \<Rightarrow> nat \<Rightarrow> nat \<Rightarrow> 's \<Rightarrow> 's res" where
  "timer_loop get upd run 0 c s = Inl Spin"
| "timer_loop get upd run (Suc n) c s =
     rbind (rb_first timer_fuel c (trees (get s) c)) (\<lambda>node.
       if node = 0 then Inr s
       else
         let tm = timer_of node
         in if get_timestamp_ms (get s) < tkey (timers (get s) tm) then Inr s
            else rbind (cancel_cpu_timer c tm (get s)) (\<lambda>k.
              let s = upd (\<lambda>_. k\<lparr>timers := (timers k)(tm := (timers k tm)\<lparr>triggered := True\<rparr>)\<rparr>) s
              in rbind (run tm s) (\<lambda>s. timer_loop get upd run n c s)))"

definition timer_clock_handler ::
    "('s \<Rightarrow> clkst) \<Rightarrow> ((clkst \<Rightarrow> clkst) \<Rightarrow> 's \<Rightarrow> 's) \<Rightarrow> (addr \<Rightarrow> 's \<Rightarrow> 's res) \<Rightarrow> nat \<Rightarrow> nat \<Rightarrow> 's \<Rightarrow> 's res" where
  "timer_clock_handler get upd run n c s =
     rbind (reset_clock c 1000 (get s)) (\<lambda>k. timer_loop get upd run n c (upd (\<lambda>_. k) s))"

text \<open>
  The only function ever given to \<^verbatim>\<open>set_clock_handler\<close> is \<^verbatim>\<open>timer_clock_handler\<close>, so the pointer is a flag that tells whether it is set.
\<close>

definition set_clock_handler :: "clkst \<Rightarrow> clkst" where
  "set_clock_handler s = s\<lparr>clock_handler := True\<rparr>"

definition invoke_clock_handler ::
    "('s \<Rightarrow> clkst) \<Rightarrow> ((clkst \<Rightarrow> clkst) \<Rightarrow> 's \<Rightarrow> 's) \<Rightarrow> (addr \<Rightarrow> 's \<Rightarrow> 's res) \<Rightarrow> nat \<Rightarrow> nat \<Rightarrow> 's \<Rightarrow> 's res" where
  "invoke_clock_handler get upd run n c s =
     (if \<not> clock_handler (get s) then Inl Panic else timer_clock_handler get upd run n c s)"

text \<open>The handler of \<^verbatim>\<open>hello_timer[c]\<close>, which is at the address \<^verbatim>\<open>ht\<close>.\<close>

definition hello :: "nat \<Rightarrow> addr \<Rightarrow> addr \<Rightarrow> clkst \<Rightarrow> clkst res" where
  "hello c ht t s = set_cpu_timer c ht (s\<lparr>timers := (timers s)(t := (timers s t)\<lparr>tdata := tdata (timers s t) + 1\<rparr>)\<rparr>)"

text \<open>
  \<^verbatim>\<open>set_cpu_on\<close> and \<^verbatim>\<open>set_cpu_off\<close>, without the exception vector, the syndrome register and the messages;
  \<^verbatim>\<open>ipt\<close> is the physical address of \<^verbatim>\<open>invalid_pt\<close>.
\<close>

definition set_cpu_on :: "u64 \<Rightarrow> addr \<Rightarrow> addr \<Rightarrow> nat \<Rightarrow> clkst \<Rightarrow> clkst res" where
  "set_cpu_on freq ipt ht c s =
     (if trap_on s c then Inl Panic
      else rbind (init_clock freq c (s\<lparr>ttbr0 := (ttbr0 s)(c := ipt)\<rparr>)) (\<lambda>s.
        set_cpu_timer c ht (s\<lparr>online := (online s)(c := True),
          timers := (timers s)(ht := (timers s ht)\<lparr>elapse := 5000, thandler_of := HelloHandler\<rparr>)\<rparr>)))"

definition set_cpu_off :: "nat \<Rightarrow> clkst \<Rightarrow> clkst" where
  "set_cpu_off c s = s\<lparr>trap_on := (trap_on s)(c := False), online := (online s)(c := False)\<rparr>"

text \<open>\<^verbatim>\<open>my_timer[i]\<close> for the CPUs; \<^verbatim>\<open>mt i\<close> is its address.\<close>

definition NCPU :: nat where "NCPU = 4"

definition init_timer :: "(nat \<Rightarrow> addr) \<Rightarrow> clkst \<Rightarrow> clkst" where
  "init_timer mt s =
     fold (\<lambda>i s. s\<lparr>timers := (timers s)(mt i := (timers s (mt i))\<lparr>elapse := 15, thandler_of := MyHandler,
       tdata := of_nat (i * 100), triggered := True\<rparr>)\<rparr>)
       [0..<NCPU] s"

section \<open>The order of the timers\<close>

text \<open>
  The comparison subtracts unsigned keys and reads the difference as signed: it is an order on the keys below 2^63, which the
  clock does not reach.
\<close>

definition in_range :: "(addr \<Rightarrow> timer) \<Rightarrow> addr set" where
  "in_range tms = {nd. unat (timer_key tms nd) < 2 ^ 63}"

lemma sint_diff:
  fixes a b :: u64
  assumes "unat a < 2 ^ 63" and "unat b < 2 ^ 63"
  shows "sint (a - b) = int (unat a) - int (unat b)"
proof -
  have "int (unat a) < int (2 ^ 63)" "int (unat b) < int (2 ^ 63)" using assms by (simp_all only: of_nat_less_iff)
  then have u: "uint a < 2 ^ 63" "uint b < 2 ^ 63" by simp_all
  have n: "- (2 ^ 63) \<le> uint a - uint b" "uint a - uint b < 2 ^ 63"
    using u uint_ge_0 [of a] uint_ge_0 [of b] by linarith+
  have "sint (a - b) = signed_take_bit 63 (uint a - uint b)" unfolding word_sub_wi sint_sbintrunc' by simp
  also have "\<dots> = uint a - uint b" using n by (rule signed_take_bit_int_eq_self)
  finally show ?thesis by (simp only: uint_nat)
qed

lemma timer_cmp_iff:
  assumes "x \<in> in_range tms" and "y \<in> in_range tms"
  shows "timer_cmp tms x y \<longleftrightarrow> unat (timer_key tms x) < unat (timer_key tms y) \<or>
    unat (timer_key tms x) = unat (timer_key tms y) \<and> x < y"
proof -
  have d: "sint (timer_key tms x - timer_key tms y) = int (unat (timer_key tms x)) - int (unat (timer_key tms y))"
    by (rule sint_diff) (use assms in \<open>simp_all only: in_range_def mem_Collect_eq\<close>)
  have "(if int a - int b < 0 then True else if int a - int b = 0 then x < y else False) \<longleftrightarrow> a < b \<or> a = b \<and> x < y" for a b
    by auto
  then show ?thesis unfolding timer_cmp_def Let_def d .
qed

interpretation tc: node_order "timer_cmp tms" "in_range tms" for tms
  by unfold_locales (auto simp: timer_cmp_iff)

section \<open>Starting and cancelling a timer\<close>

text \<open>
  The timers of CPU \<^verbatim>\<open>c\<close>, in the order in which they fire, as tree nodes. The bound of 5000 ms is the longest delay of the
  kernel's timers; together with the bound on the frequency it keeps the count-down within the assertion of \<^verbatim>\<open>reset_clock\<close>.
\<close>

definition now :: "clkst \<Rightarrow> nat" where "now s = unat (get_timestamp_ms s)"

definition clock_ok :: "clkst \<Rightarrow> bool" where
  "clock_ok s \<longleftrightarrow> unat (one_ms s) \<le> 400000 \<and> now s < 2 ^ 62"

definition timers_ok :: "clkst \<Rightarrow> nat \<Rightarrow> addr list \<Rightarrow> bool" where
  "timers_ok s c L \<longleftrightarrow> (\<exists>t. rbtree (trees s c) c t \<and> rb t \<and> inorder t = L) \<and> length L < 2 ^ 63 \<and>
     sorted_wrt (timer_cmp (timers s)) L \<and>
     (\<forall>nd \<in> set L. 16 \<le> nd \<and> unat (timer_key (timers s) nd) < 2 ^ 63 \<and> unat (timer_key (timers s) nd) \<le> now s + 5000)"

text \<open>The count-down that the first timer of the list asks for.\<close>

definition countdown :: "clkst \<Rightarrow> addr list \<Rightarrow> nat" where
  "countdown s L = (case L of [] \<Rightarrow> 1000 | nd # _ \<Rightarrow> unat (timer_key (timers s) nd) - now s)"

lemma reset_clock_ok:
  assumes "clock_ok s" and "unat ms \<le> 5000"
  shows "\<exists>v. reset_clock c ms s = Inr (s\<lparr>tval := (tval s)(c := v)\<rparr>) \<and> unat v = unat ms * unat (one_ms s)"
proof -
  have "unat ms * unat (one_ms s) \<le> 5000 * 400000" using assms by (intro mult_le_mono) (simp_all add: clock_ok_def)
  then have m: "unat ms * unat (one_ms s) \<le> 2000000000" by simp
  then have u: "unat (ms * one_ms s) = unat ms * unat (one_ms s)" by (subst unat_mult_lem [symmetric]) simp
  then have "reset_clock c ms s = Inr (s\<lparr>tval := (tval s)(c := ms * one_ms s)\<rparr>)"
    using m by (simp add: reset_clock_def Let_def word_le_nat_alt)
  with u show ?thesis by blast
qed

lemma tr_nonnull: "tr h q p t \<Longrightarrow> 0 \<notin> set (inorder t)"
  by (induction t arbitrary: q p) auto

lemma depth_timer_fuel:
  assumes "rb t" and "length (inorder t) < 2 ^ 63"
  shows "Suc (depth t) < timer_fuel"
proof -
  have "(2::nat) ^ (depth t div 2) < 2 ^ 64" using depth_le [OF assms(1)] assms(2) by simp
  then have "depth t div 2 < 64" by (simp only: power_strict_increasing_iff)
  then show ?thesis by (simp add: timer_fuel_def)
qed

lemma timer_set_clock_ok:
  assumes c: "clock_ok s" and L: "timers_ok s c L"
  shows "\<exists>v. timer_set_clock c s = Inr (s\<lparr>tval := (tval s)(c := v)\<rparr>) \<and> unat v = countdown s L * unat (one_ms s)"
proof -
  obtain t where t: "rbtree (trees s c) c t" "rb t" "inorder t = L" using L by (auto simp: timers_ok_def)
  have f: "rb_first timer_fuel c (trees s c) = Inr (case L of [] \<Rightarrow> 0 | x # _ \<Rightarrow> x)"
    using rb_first_tree [OF t(1), of timer_fuel] depth_timer_fuel [OF t(2)] t(3) L by (simp add: timers_ok_def)
  show ?thesis
  proof (cases L)
    case Nil
    then show ?thesis using f reset_clock_ok [OF c, of 1000 c] by (simp add: timer_set_clock_def countdown_def)
  next
    case (Cons x xs)
    have "x \<noteq> 0" using t(1,3) Cons tr_nonnull [of "trees s c" _ 0 t] by (auto simp: rbtree_def)
    let ?k = "timer_key (timers s) x"
    have b: "unat ?k \<le> now s + 5000" using L Cons by (simp add: timers_ok_def)
    show ?thesis
    proof (cases "?k \<le> get_timestamp_ms s")
      case True
      then show ?thesis using f \<open>x \<noteq> 0\<close> Cons reset_clock_ok [OF c, of 0 c]
        by (simp add: timer_set_clock_def countdown_def timer_key_def now_def word_le_nat_alt)
    next
      case False
      then have "unat (?k - get_timestamp_ms s) = unat ?k - now s"
        by (simp add: now_def unat_sub)
      then show ?thesis using f \<open>x \<noteq> 0\<close> Cons False b reset_clock_ok [OF c, of "?k - get_timestamp_ms s" c]
        by (simp add: timer_set_clock_def countdown_def timer_key_def Let_def)
    qed
  qed
qed

lemma timers_ok_tree:
  assumes "timers_ok s c L"
  obtains t where "rbtree (trees s c) c t" and "rb t" and "inorder t = L" and "sorted_tree (timer_cmp (timers s)) (in_range (timers s)) t"
    and "Suc (depth t) < timer_fuel"
proof -
  obtain t where t: "rbtree (trees s c) c t" "rb t" "inorder t = L" using assms by (auto simp: timers_ok_def)
  then have "sorted_tree (timer_cmp (timers s)) (in_range (timers s)) t" "Suc (depth t) < timer_fuel"
    using assms depth_timer_fuel [OF t(2)] by (auto simp: timers_ok_def sorted_tree_def in_range_def)
  with t show ?thesis using that by blast
qed

text \<open>Only the keys of the timers in the tree matter.\<close>

lemma timer_cmp_cong:
  "timer_key tms x = timer_key tms' x \<Longrightarrow> timer_key tms y = timer_key tms' y \<Longrightarrow> timer_cmp tms x y = timer_cmp tms' x y"
  by (simp add: timer_cmp_def)

lemma timers_ok_update:
  assumes "timers_ok s c L" and "tm \<notin> timer_of ` set L \<or> tkey v = tkey (timers s tm)"
  shows "timers_ok (s\<lparr>timers := (timers s)(tm := v)\<rparr>) c L"
proof -
  have k: "timer_key ((timers s)(tm := v)) nd = timer_key (timers s) nd" if "nd \<in> set L" for nd
    using assms(2) that by (auto simp: timer_key_def)
  have so: "sorted_wrt (timer_cmp (timers s)) L" using assms(1) by (simp add: timers_ok_def)
  have "sorted_wrt (timer_cmp ((timers s)(tm := v))) L"
    by (rule sorted_wrt_mono_rel [OF _ so]) (simp add: timer_cmp_cong [OF k k])
  then show ?thesis using assms(1) k by (simp add: timers_ok_def now_def get_timestamp_ms_def)
qed

lemma timers_ok_other:
  "timers_ok (s\<lparr>trees := (trees s)(c := h)\<rparr>) d L \<longleftrightarrow> (if d = c then timers_ok (s\<lparr>trees := (\<lambda>_. h)\<rparr>) d L else timers_ok s d L)"
  "timers_ok (s\<lparr>tval := v\<rparr>) d L = timers_ok s d L"
  by (simp_all add: timers_ok_def now_def get_timestamp_ms_def)

lemma new_key:
  assumes "clock_ok s" and "0 \<le> e" "e \<le> 5000"
  shows "unat (get_timestamp_ms s + word_of_int e) = now s + nat e"
proof -
  have e: "unat (word_of_int e :: u64) = nat e" using assms(2,3) by (simp add: unat_eq_nat_uint uint_word_of_int)
  have "nat e \<le> 5000" "now s < 2 ^ 62" using assms by (simp_all add: clock_ok_def)
  then have "now s + nat e < 2 ^ 64" by simp
  then have "unat (get_timestamp_ms s) + unat (word_of_int e :: u64) < 2 ^ LENGTH(64)" unfolding e by (simp add: now_def)
  then have "unat (get_timestamp_ms s + word_of_int e) = unat (get_timestamp_ms s) + unat (word_of_int e :: u64)"
    by (simp only: unat_add_lem)
  then show ?thesis unfolding e by (simp add: now_def)
qed

lemma insert_timer:
  assumes c: "clock_ok s" and L: "timers_ok s c L" "Suc (length L) < 2 ^ 63" and tm: "tnode tm \<notin> set L" "aligned (tnode tm)"
    and k: "unat (timer_key (timers s) (tnode tm)) \<le> now s + 5000"
  shows "\<exists>h L'. rb_insert timer_fuel (tnode tm) c (timer_cmp (timers s)) (trees s c) = Inr (0, h) \<and>
    timers_ok (s\<lparr>trees := (trees s)(c := h)\<rparr>) c L' \<and> set L' = insert (tnode tm) (set L)"
proof -
  obtain t where t: "rbtree (trees s c) c t" "rb t" "inorder t = L" "sorted_tree (timer_cmp (timers s)) (in_range (timers s)) t"
    "Suc (depth t) < timer_fuel" by (rule timers_ok_tree [OF L(1)])
  have r: "tnode tm \<in> in_range (timers s)" using k c by (simp add: in_range_def clock_ok_def)
  have ne: "\<not> (\<exists>y \<in> set (inorder t). \<not> timer_cmp (timers s) (tnode tm) y \<and> \<not> timer_cmp (timers s) y (tnode tm))"
    using r t(3,4) tm(1) by (auto simp: timer_cmp_iff sorted_tree_def subset_iff) (metis linorder_neqE_nat)
  have z: "tnode tm \<noteq> 0" and ni: "tnode tm \<notin> set (inorder t)" using tm(1) t(3) by (simp_all add: tnode_def)
  obtain h t' where h: "rb_insert timer_fuel (tnode tm) c (timer_cmp (timers s)) (trees s c) = Inr (0, h)" "rbtree h c t'" "rb t'"
    "sorted_tree (timer_cmp (timers s)) (in_range (timers s)) t'" "set (inorder t') = insert (tnode tm) (set (inorder t))"
    using tc.insert_sorted [OF t(1,2,4) z tm(2) ni r t(5)] unfolding if_not_P [OF ne] by blast
  have "length (inorder t') = Suc (length L)"
    using h(2,5) t(1,3) tm(1) by (simp add: rbtree_def distinct_card [symmetric])
  then have "timers_ok (s\<lparr>trees := (trees s)(c := h)\<rparr>) c (inorder t')"
    using h t(3) L k r unfolding timers_ok_def by (auto simp: now_def get_timestamp_ms_def sorted_tree_def in_range_def tnode_def)
  then show ?thesis using h t(3) by blast
qed

lemma erase_timer:
  assumes L: "timers_ok s c L" and tm: "tnode tm \<in> set L"
  shows "\<exists>h. rb_erase timer_fuel (tnode tm) c (trees s c) = Inr h \<and> timers_ok (s\<lparr>trees := (trees s)(c := h)\<rparr>) c (remove1 (tnode tm) L)"
proof -
  obtain t where t: "rbtree (trees s c) c t" "rb t" "inorder t = L" "sorted_tree (timer_cmp (timers s)) (in_range (timers s)) t"
    "Suc (depth t) < timer_fuel" by (rule timers_ok_tree [OF L])
  obtain h t' where h: "rb_erase timer_fuel (tnode tm) c (trees s c) = Inr h" "rbtree h c t'" "rb t'"
    "sorted_tree (timer_cmp (timers s)) (in_range (timers s)) t'" "inorder t' = remove1 (tnode tm) L"
    using tc.erase_sorted [OF t(1,2,4), of "tnode tm" timer_fuel] tm t(3,5) by auto
  have "length (remove1 (tnode tm) L) \<le> length L" by (simp add: length_remove1)
  then have "timers_ok (s\<lparr>trees := (trees s)(c := h)\<rparr>) c (remove1 (tnode tm) L)"
    using h L set_remove1_subset [of "tnode tm" L] unfolding timers_ok_def
    by (auto simp: now_def get_timestamp_ms_def sorted_tree_def)
  with h(1) show ?thesis by blast
qed

text \<open>What the two operations leave: the lists of the timers, and the clock set for the first of them.\<close>

lemma set_cpu_timer_ok:
  assumes c: "clock_ok s" and L: "timers_ok s c L" "Suc (length L) < 2 ^ 63" and tm: "tnode tm \<notin> set L" "aligned (tnode tm)"
    and e: "0 \<le> elapse (timers s tm)" "elapse (timers s tm) \<le> 5000"
    and v: "v = (timers s tm)\<lparr>triggered := False, tkey := get_timestamp_ms s + word_of_int (elapse (timers s tm))\<rparr>"
  shows "\<exists>h w L'. set_cpu_timer c tm s = Inr (s\<lparr>timers := (timers s)(tm := v), trees := (trees s)(c := h), tval := (tval s)(c := w)\<rparr>) \<and>
    timers_ok (s\<lparr>timers := (timers s)(tm := v), trees := (trees s)(c := h), tval := (tval s)(c := w)\<rparr>) c L' \<and>
    set L' = insert (tnode tm) (set L) \<and> unat w = countdown (s\<lparr>timers := (timers s)(tm := v)\<rparr>) L' * unat (one_ms s)"
proof -
  let ?s = "s\<lparr>timers := (timers s)(tm := v)\<rparr>"
  have "tm \<notin> timer_of ` set L" using L(1) tm(1) by (auto simp: timers_ok_def timer_of_def tnode_def)
  then have L1: "timers_ok ?s c L" using timers_ok_update [OF L(1)] by blast
  have n: "clock_ok ?s" "now ?s = now s" using c by (simp_all add: clock_ok_def now_def get_timestamp_ms_def)
  have k: "unat (timer_key (timers ?s) (tnode tm)) \<le> now ?s + 5000"
    using new_key [OF c e] e n(2) v by (simp add: timer_key_def timer_of_def tnode_def)
  obtain h L' where h: "rb_insert timer_fuel (tnode tm) c (timer_cmp (timers ?s)) (trees ?s c) = Inr (0, h)"
    "timers_ok (?s\<lparr>trees := (trees ?s)(c := h)\<rparr>) c L'" "set L' = insert (tnode tm) (set L)"
    using insert_timer [OF n(1) L1 L(2) tm k] by blast
  have c2: "clock_ok (?s\<lparr>trees := (trees ?s)(c := h)\<rparr>)" using c by (simp add: clock_ok_def now_def get_timestamp_ms_def)
  obtain w where "timer_set_clock c (?s\<lparr>trees := (trees ?s)(c := h)\<rparr>) =
      Inr (?s\<lparr>trees := (trees ?s)(c := h), tval := (tval s)(c := w)\<rparr>)" "unat w = countdown ?s L' * unat (one_ms s)"
    using timer_set_clock_ok [OF c2 h(2)] by (auto simp: countdown_def now_def get_timestamp_ms_def cong: list.case_cong)
  then show ?thesis using h v timers_ok_other(2) [of "(tval s)(c := w)" "?s\<lparr>trees := (trees ?s)(c := h)\<rparr>" c L']
    by (auto simp: set_cpu_timer_def Let_def)
qed

lemma cancel_cpu_timer_ok:
  assumes c: "clock_ok s" and L: "timers_ok s c L" and tm: "tnode tm \<in> set L" "\<not> triggered (timers s tm)"
  shows "\<exists>h w. cancel_cpu_timer c tm s = Inr (s\<lparr>trees := (trees s)(c := h), tval := (tval s)(c := w)\<rparr>) \<and>
    timers_ok (s\<lparr>trees := (trees s)(c := h), tval := (tval s)(c := w)\<rparr>) c (remove1 (tnode tm) L) \<and>
    unat w = countdown s (remove1 (tnode tm) L) * unat (one_ms s)"
proof -
  obtain h where h: "rb_erase timer_fuel (tnode tm) c (trees s c) = Inr h"
    "timers_ok (s\<lparr>trees := (trees s)(c := h)\<rparr>) c (remove1 (tnode tm) L)" using erase_timer [OF L tm(1)] by blast
  have c2: "clock_ok (s\<lparr>trees := (trees s)(c := h)\<rparr>)" using c by (simp add: clock_ok_def now_def get_timestamp_ms_def)
  obtain w where "timer_set_clock c (s\<lparr>trees := (trees s)(c := h)\<rparr>) = Inr (s\<lparr>trees := (trees s)(c := h), tval := (tval s)(c := w)\<rparr>)"
    "unat w = countdown s (remove1 (tnode tm) L) * unat (one_ms s)"
    using timer_set_clock_ok [OF c2 h(2)] by (auto simp: countdown_def now_def get_timestamp_ms_def cong: list.case_cong)
  then show ?thesis using h tm(2) timers_ok_other(2) [of "(tval s)(c := w)" "s\<lparr>trees := (trees s)(c := h)\<rparr>" c]
    by (auto simp: cancel_cpu_timer_def)
qed

section \<open>The clock follows the earliest timer\<close>

lemma countdown_Min:
  assumes "timers_ok s c L" and "L \<noteq> []"
  shows "countdown s L = Min ((\<lambda>nd. unat (timer_key (timers s) nd) - now s) ` set L)"
proof -
  obtain x xs where L: "L = x # xs" using assms(2) by (cases L) auto
  have r: "nd \<in> in_range (timers s)" if "nd \<in> set L" for nd using assms(1) that by (auto simp: timers_ok_def in_range_def)
  have "unat (timer_key (timers s) x) \<le> unat (timer_key (timers s) nd)" if "nd \<in> set L" for nd
    using assms(1) that r timer_cmp_iff [OF r r, of x nd] unfolding L timers_ok_def by auto
  then show ?thesis unfolding countdown_def L by (intro Min_eqI [symmetric]) (auto intro: diff_le_mono)
qed

text \<open>
  C16: setting a timer. For a timer that is not set, with a delay of at most five seconds, the call returns, whatever other timers are set:
  the insertion succeeds and the count-down fits into the register. The new timer joins the others in the tree, which stays a
  balanced tree ordered by time, and the clock of the CPU is set for the earliest of all, in units of the counter.
\<close>

theorem set_cpu_timer_earliest:
  assumes "clock_ok s" and "timers_ok s c L" "Suc (length L) < 2 ^ 63" and "tnode tm \<notin> set L" "aligned (tnode tm)"
    and "0 \<le> elapse (timers s tm)" "elapse (timers s tm) \<le> 5000"
  shows "\<exists>s' L'. set_cpu_timer c tm s = Inr s' \<and> timers_ok s' c L' \<and> set L' = insert (tnode tm) (set L) \<and>
    unat (timer_key (timers s') (tnode tm)) = now s + nat (elapse (timers s tm)) \<and>
    unat (tval s' c) = Min ((\<lambda>nd. unat (timer_key (timers s') nd) - now s) ` set L') * unat (one_ms s)"
proof -
  define v where "v = (timers s tm)\<lparr>triggered := False, tkey := get_timestamp_ms s + word_of_int (elapse (timers s tm))\<rparr>"
  obtain h w L' where s': "set_cpu_timer c tm s = Inr (s\<lparr>timers := (timers s)(tm := v), trees := (trees s)(c := h), tval := (tval s)(c := w)\<rparr>)"
    "timers_ok (s\<lparr>timers := (timers s)(tm := v), trees := (trees s)(c := h), tval := (tval s)(c := w)\<rparr>) c L'"
    "set L' = insert (tnode tm) (set L)" "unat w = countdown (s\<lparr>timers := (timers s)(tm := v)\<rparr>) L' * unat (one_ms s)"
    using set_cpu_timer_ok [OF assms v_def] by blast
  have "L' \<noteq> []" using s'(3) by auto
  from countdown_Min [OF s'(2) this] have "unat w = Min ((\<lambda>nd. unat (timer_key ((timers s)(tm := v)) nd) - now s) ` set L') * unat (one_ms s)"
    unfolding s'(4) by (simp add: countdown_def now_def get_timestamp_ms_def cong: list.case_cong)
  moreover have "unat (timer_key ((timers s)(tm := v)) (tnode tm)) = now s + nat (elapse (timers s tm))"
    using new_key [OF assms(1,6,7)] by (simp add: timer_key_def timer_of_def tnode_def v_def)
  ultimately show ?thesis using s' by (intro exI conjI) (assumption | simp)+
qed

text \<open>A clock of 62.5 MHz that has just started, with no timer set; the timer at 400 has a delay of 15 ms.\<close>

definition demo_clock :: clkst where
  "demo_clock = \<lparr>one_ms = 62500, ticks = 0, tval = (\<lambda>_. 0), trap_on = (\<lambda>_. False), ttbr0 = (\<lambda>_. 0), online = (\<lambda>_. True), clock_handler = True,
     trees = (\<lambda>_. \<lparr>parent_color = (\<lambda>_. 0), rb_right = (\<lambda>_. 0), rb_left = (\<lambda>_. 0), rb_node = (\<lambda>_. 0)\<rparr>),
     timers = (\<lambda>_. \<lparr>triggered = True, elapse = 15, tkey = 0, thandler_of = MyHandler, tdata = 0\<rparr>)\<rparr>"

theorem set_cpu_timer_earliest_witness:
  "\<exists>s'. set_cpu_timer 0 400 demo_clock = Inr s' \<and> unat (tval s' 0) = 937500"
proof -
  have "clock_ok demo_clock" "timers_ok demo_clock 0 []" "aligned (tnode 400)" "now demo_clock = 0" "unat (one_ms demo_clock) = 62500"
    "elapse (timers demo_clock 400) = 15"
    by (auto simp: clock_ok_def timers_ok_def demo_clock_def now_def get_timestamp_ms_def rbtree_def rb_def aligned_def tnode_def intro!: exI [of _ Tip])
  then show ?thesis using set_cpu_timer_earliest [of demo_clock 0 "[]" 400] by auto
qed

end
