(* ===== verification/Sched.thy ===== *)
theory Sched
  imports Cpu Sync Mem
begin

text \<open>
  The scheduler, \<^verbatim>\<open>src/src/kernel/sched.c\<close>: one run queue for all CPUs, from which each CPU picks its next process. The state has the
  processes, the links of the run queue, what each CPU runs, and the clocks and timers of \<^verbatim>\<open>Cpu\<close>. A call of the scheduler is one step: the
  context switch and the release of the lock by the process that is switched to belong to it.
\<close>

datatype procstate = UNUSED | RUNNABLE | RUNNING | SLEEPING | DEEPSLEEPING | ZOMBIE

record proc =
  killed :: bool
  idle :: bool
  pid :: int
  pstate :: procstate
  pgdir_pt :: addr

record schst =
  clk :: clkst
  procs :: "addr \<Rightarrow> proc"
  plinks :: lheap
  rq :: addr
  rq_count :: u64
  rqLock :: SpinLock
  my_timer :: "nat \<Rightarrow> addr"
  thisproc :: "nat \<Rightarrow> addr"
  idleproc :: "nat \<Rightarrow> addr"
  panic_flag :: bool

text \<open>The node of the run queue is at offset 80 of a process.\<close>

definition rq_node :: "addr \<Rightarrow> addr" where "rq_node p = p + 80"
definition rq_proc :: "addr \<Rightarrow> addr" where "rq_proc n = n - 80"

definition set_state :: "addr \<Rightarrow> procstate \<Rightarrow> schst \<Rightarrow> schst" where
  "set_state p st s = s\<lparr>procs := (procs s)(p := (procs s p)\<lparr>pstate := st\<rparr>)\<rparr>"

definition init_rq :: "schst \<Rightarrow> schst" where
  "init_rq s = s\<lparr>rqLock := init_spinlock, plinks := init_list_node (rq s) (plinks s), rq_count := 0, panic_flag := False\<rparr>"

text \<open>\<^verbatim>\<open>new i\<close> is the process that \<^verbatim>\<open>kalloc\<close> returns for CPU \<^verbatim>\<open>i\<close>; its other fields stay as they are in memory.\<close>

definition init_sched :: "(nat \<Rightarrow> addr) \<Rightarrow> schst \<Rightarrow> schst" where
  "init_sched new s =
     fold (\<lambda>i s. s\<lparr>procs := (procs s)(new i := (procs s (new i))\<lparr>idle := True, pid := int i, pstate := RUNNING\<rparr>),
                  thisproc := (thisproc s)(i := new i), idleproc := (idleproc s)(i := new i)\<rparr>) [0..<NCPU] s"

definition init_schinfo :: "addr \<Rightarrow> schst \<Rightarrow> schst" where
  "init_schinfo p s = s\<lparr>plinks := init_list_node (rq_node p) (plinks s)\<rparr>"

definition acquire_sched_lock :: "schst \<Rightarrow> schst res" where
  "acquire_sched_lock s = rbind (acquire_spinlock (rqLock s)) (\<lambda>l. Inr (s\<lparr>rqLock := l\<rparr>))"

definition release_sched_lock :: "schst \<Rightarrow> schst" where
  "release_sched_lock s = s\<lparr>rqLock := release_spinlock (rqLock s)\<rparr>"

definition is_zombie :: "addr \<Rightarrow> schst \<Rightarrow> (bool \<times> schst) res" where
  "is_zombie p s = rbind (acquire_sched_lock s) (\<lambda>s. Inr (pstate (procs s p) = ZOMBIE, release_sched_lock s))"

definition is_unused :: "addr \<Rightarrow> schst \<Rightarrow> (bool \<times> schst) res" where
  "is_unused p s = rbind (acquire_sched_lock s) (\<lambda>s. Inr (pstate (procs s p) = UNUSED, release_sched_lock s))"

definition make_runnable :: "addr \<Rightarrow> schst \<Rightarrow> schst" where
  "make_runnable p s =
     (let s = set_state p RUNNABLE s;
          s = s\<lparr>rq_count := rq_count s + 1\<rparr>
      in s\<lparr>plinks := snd (insert_into_list (rq s) (rq_node p) (plinks s))\<rparr>)"

definition activate_proc :: "addr \<Rightarrow> bool \<Rightarrow> schst \<Rightarrow> (bool \<times> schst) res" where
  "activate_proc p onalert s =
     rbind (acquire_sched_lock s) (\<lambda>s.
       let st = pstate (procs s p)
       in if st = RUNNING \<or> st = RUNNABLE then Inr (False, release_sched_lock s)
          else if st = SLEEPING \<or> st = UNUSED then Inr (True, release_sched_lock (make_runnable p s))
          else if st = ZOMBIE then Inr (True, release_sched_lock (make_runnable p s))
          else if st = DEEPSLEEPING
          then if \<not> onalert then Inr (True, release_sched_lock (make_runnable p s)) else Inr (False, release_sched_lock s)
          else Inl Panic)"

definition update_this_state :: "nat \<Rightarrow> procstate \<Rightarrow> schst \<Rightarrow> schst" where
  "update_this_state c new_state s =
     (let this = thisproc s c;
          s = set_state this new_state s
      in if new_state = SLEEPING \<or> new_state = DEEPSLEEPING \<or> new_state = ZOMBIE
         then let s = s\<lparr>rq_count := rq_count s - 1\<rparr>
              in s\<lparr>plinks := snd (detach_from_list (rq_node this) (plinks s))\<rparr>
         else s)"

text \<open>
  The loop of \<^verbatim>\<open>pick_next\<close>: \<^verbatim>\<open>i\<close> is the counter before the increment, \<^verbatim>\<open>best\<close> is \<^verbatim>\<open>next_proc\<close>. The walk ends at the head of the queue.
  The remainder by zero, when the queue is empty, is the number itself, as on AArch64; it is not used then.
\<close>

fun pick_walk :: "nat \<Rightarrow> schst \<Rightarrow> u64 \<Rightarrow> u64 \<Rightarrow> addr \<Rightarrow> addr \<Rightarrow> addr res" where
  "pick_walk 0 s idx i best p = Inl Spin"
| "pick_walk (Suc n) s idx i best p =
     (let i = i + 1
      in if p = rq s then Inr best
         else
           let temp = rq_proc p
           in if pstate (procs s temp) = RUNNABLE
              then if i = idx then Inr temp else pick_walk n s idx i temp (nxt (plinks s) p)
              else pick_walk n s idx i best (nxt (plinks s) p))"

definition pick_next :: "nat \<Rightarrow> nat \<Rightarrow> schst \<Rightarrow> addr res" where
  "pick_next n c s =
     (if panic_flag s then Inr (idleproc s c)
      else
        let idx = tdata (timers (clk s) (my_timer s c)) mod rq_count s
        in rbind (pick_walk n s idx (- 1) 0 (nxt (plinks s) (rq s))) (\<lambda>next_proc.
             Inr (if next_proc \<noteq> 0 then next_proc else idleproc s c)))"

definition update_this_proc :: "nat \<Rightarrow> addr \<Rightarrow> schst \<Rightarrow> schst res" where
  "update_this_proc c p s =
     (let tm = my_timer s c
      in rbind (if \<not> triggered (timers (clk s) tm) then cancel_cpu_timer c tm (clk s) else Inr (clk s)) (\<lambda>k.
           rbind (set_cpu_timer c tm k) (\<lambda>k. Inr (s\<lparr>clk := k, thisproc := (thisproc s)(c := p)\<rparr>))))"

text \<open>
  The effect of \<^verbatim>\<open>attach_pgdir\<close>, modelled in \<^verbatim>\<open>Pt\<close>, on the translation base of CPU \<^verbatim>\<open>c\<close>; \<^verbatim>\<open>ipt\<close> is the address of \<^verbatim>\<open>invalid_pt\<close>.
\<close>

definition attach_next :: "addr \<Rightarrow> nat \<Rightarrow> addr \<Rightarrow> schst \<Rightarrow> schst" where
  "attach_next ipt c p s =
     s\<lparr>clk := (clk s)\<lparr>ttbr0 := (ttbr0 (clk s))(c := K2P (if pgdir_pt (procs s p) \<noteq> 0 then pgdir_pt (procs s p) else ipt))\<rparr>\<rparr>"

definition simple_sched :: "nat \<Rightarrow> addr \<Rightarrow> nat \<Rightarrow> procstate \<Rightarrow> schst \<Rightarrow> schst res" where
  "simple_sched n ipt c new_state s =
     (let this = thisproc s c
      in if pstate (procs s this) \<noteq> RUNNING then Inl Panic
         else if killed (procs s this) \<and> new_state \<noteq> ZOMBIE then Inr (release_sched_lock s)
         else
           let s = update_this_state c new_state s
           in rbind (pick_next n c s) (\<lambda>next.
                rbind (update_this_proc c next s) (\<lambda>s.
                  if pstate (procs s next) \<noteq> RUNNABLE then Inl Panic
                  else
                    let s = set_state next RUNNING s;
                        s = (if next \<noteq> this then attach_next ipt c next s else s)
                    in Inr (release_sched_lock s))))"

definition sched_yield :: "nat \<Rightarrow> addr \<Rightarrow> nat \<Rightarrow> schst \<Rightarrow> schst res" where
  "sched_yield n ipt c s = rbind (acquire_sched_lock s) (simple_sched n ipt c RUNNABLE)"

text \<open>\<^verbatim>\<open>my_handler\<close> of \<^verbatim>\<open>cpu.c\<close>, the handler of \<^verbatim>\<open>my_timer\<close>.\<close>

definition my_handler :: "nat \<Rightarrow> addr \<Rightarrow> nat \<Rightarrow> addr \<Rightarrow> schst \<Rightarrow> schst res" where
  "my_handler n ipt c t s =
     (let k = clk s;
          s = s\<lparr>clk := k\<lparr>timers := (timers k)(t := (timers k t)\<lparr>tdata := tdata (timers k t) + 1\<rparr>)\<rparr>\<rparr>
      in rbind (acquire_sched_lock s) (simple_sched n ipt c RUNNABLE))"

text \<open>\<^verbatim>\<open>proc_entry\<close>, which a new process runs first: the address it returns to and its argument.\<close>

definition proc_entry :: "addr \<Rightarrow> u64 \<Rightarrow> schst \<Rightarrow> (addr \<times> u64) \<times> schst" where
  "proc_entry entry arg s = ((entry, arg), release_sched_lock s)"

end
