(* ===== verification/Sched_Props.thy ===== *)
theory Sched_Props
  imports Sched
begin

text \<open>
  What the scheduler guarantees: \<^verbatim>\<open>pick_next\<close> computes a simple choice on the list of processes; the invariant of the run queue, of
  what the CPUs run and of their timers; and that no assertion of the scheduler fails.
\<close>

lemma rq_proc_node [simp]: "rq_proc (rq_node p) = p"
  by (simp add: rq_node_def rq_proc_def)

lemma rq_node_inj [simp]: "rq_node p = rq_node q \<longleftrightarrow> p = q"
  by (simp add: rq_node_def)

lemma inj_rq_node: "inj_on rq_node A"
  by (simp add: inj_on_def)

section \<open>The choice of the next process\<close>

text \<open>The process at position \<^verbatim>\<open>idx\<close> if it is runnable, otherwise the last one of the queue that is, if any.\<close>

definition pick_ref :: "(addr \<Rightarrow> bool) \<Rightarrow> addr list \<Rightarrow> nat \<Rightarrow> addr \<Rightarrow> addr" where
  "pick_ref ok ps idx dflt =
     (if idx < length ps \<and> ok (ps ! idx) then ps ! idx else last (dflt # filter ok ps))"

definition runnable :: "schst \<Rightarrow> addr \<Rightarrow> bool" where
  "runnable s p \<longleftrightarrow> pstate (procs s p) = RUNNABLE"

lemma pick_ref_Cons:
  "pick_ref ok (p # ps) idx d = (if ok p then if idx = 0 then p else pick_ref ok ps (idx - 1) p
     else if idx = 0 then last (d # filter ok ps) else pick_ref ok ps (idx - 1) d)"
  by (cases idx) (simp_all add: pick_ref_def)

lemma pick_walk_past:
  assumes "links (plinks s) (map rq_node ps @ [rq s])" and "\<forall>p \<in> set ps. rq_node p \<noteq> rq s" and "length ps < n"
    and "unat idx < k" and "k + length ps < 2 ^ 64"
  shows "pick_walk n s idx (of_nat k - 1) best (hd (map rq_node ps @ [rq s])) = Inr (last (best # filter (runnable s) ps))"
  using assms
proof (induction ps arbitrary: n k best)
  case Nil
  then show ?case by (cases n) auto
next
  case (Cons p ps)
  then obtain m where m: "n = Suc m" "length ps < m" by (cases n) auto
  have nx: "nxt (plinks s) (rq_node p) = hd (map rq_node ps @ [rq s])" "links (plinks s) (map rq_node ps @ [rq s])"
    using Cons.prems(1) by (cases ps, auto)+
  have "idx \<noteq> of_nat k" using Cons.prems(4,5) by (auto simp: unat_of_nat)
  then show ?case
    using Cons.IH [OF nx(2) _ m(2), of "Suc k" best] Cons.IH [OF nx(2) _ m(2), of "Suc k" p] Cons.prems m(1) nx(1)
    by (auto simp: Let_def runnable_def)
qed

lemma pick_walk_spec:
  assumes "links (plinks s) (map rq_node ps @ [rq s])" and "\<forall>p \<in> set ps. rq_node p \<noteq> rq s" and "length ps < n"
    and "k \<le> unat idx" and "k + length ps < 2 ^ 64"
  shows "pick_walk n s idx (of_nat k - 1) best (hd (map rq_node ps @ [rq s])) = Inr (pick_ref (runnable s) ps (unat idx - k) best)"
  using assms
proof (induction ps arbitrary: n k best)
  case Nil
  then show ?case by (cases n) (auto simp: pick_ref_def)
next
  case (Cons p ps)
  then obtain m where m: "n = Suc m" "length ps < m" by (cases n) auto
  have nx: "nxt (plinks s) (rq_node p) = hd (map rq_node ps @ [rq s])" "links (plinks s) (map rq_node ps @ [rq s])"
    using Cons.prems(1) by (cases ps, auto)+
  have ne: "rq_node p \<noteq> rq s" "\<forall>p \<in> set ps. rq_node p \<noteq> rq s" using Cons.prems(2) by auto
  have k: "Suc k + length ps < 2 ^ 64" using Cons.prems(5) by simp
  have e: "of_nat k = idx \<longleftrightarrow> unat idx = k" using Cons.prems(5) by (auto simp: unat_of_nat)
  have step: "pick_walk n s idx (of_nat k - 1) best (hd (map rq_node (p # ps) @ [rq s])) =
    (if runnable s p then if unat idx = k then Inr p else pick_walk m s idx (of_nat (Suc k) - 1) p (hd (map rq_node ps @ [rq s]))
     else pick_walk m s idx (of_nat (Suc k) - 1) best (hd (map rq_node ps @ [rq s])))"
    using m(1) ne(1) nx(1) e by (simp add: runnable_def)
  show ?case
  proof (cases "unat idx = k")
    case True
    then show ?thesis unfolding step using pick_walk_past [OF nx(2) ne(2) m(2) _ k, of idx best] by (simp add: pick_ref_Cons)
  next
    case False
    then have l: "Suc k \<le> unat idx" using Cons.prems(4) by simp
    then show ?thesis unfolding step using Cons.IH [OF nx(2) ne(2) m(2) l k] False by (simp add: pick_ref_Cons)
  qed
qed

definition queue_ok :: "schst \<Rightarrow> addr list \<Rightarrow> bool" where
  "queue_ok s ps \<longleftrightarrow> is_list (plinks s) (rq s) (map rq_node ps) \<and> unat (rq_count s) = length ps \<and> 0 \<notin> set ps"

lemma last_filter: "filter ok ps \<noteq> [] \<Longrightarrow> last (filter ok ps) \<in> set ps \<and> ok (last (filter ok ps))"
  using last_in_set [of "filter ok ps"] by auto

lemma pick_ref_ok:
  "filter ok ps \<noteq> [] \<Longrightarrow> pick_ref ok ps i d \<in> set ps \<and> ok (pick_ref ok ps i d)"
  "filter ok ps = [] \<Longrightarrow> pick_ref ok ps i d = d"
  using last_filter [of ok ps] by (auto simp: pick_ref_def filter_empty_conv)

lemma pick_next_ref:
  assumes q: "queue_ok s ps" and n: "length ps < n"
  shows "pick_next n c s = Inr (if panic_flag s \<or> filter (runnable s) ps = [] then idleproc s c
    else pick_ref (runnable s) ps (unat (tdata (timers (clk s) (my_timer s c))) mod length ps) 0)"
proof -
  have l: "is_list (plinks s) (rq s) (map rq_node ps)" "unat (rq_count s) = length ps" "0 \<notin> set ps" using q by (auto simp: queue_ok_def)
  then have r: "links (plinks s) (rq s # map rq_node ps @ [rq s])" "rq s \<notin> rq_node ` set ps" by (auto simp: is_list_def ring_def)
  then have lk: "links (plinks s) (map rq_node ps @ [rq s])" and nx: "nxt (plinks s) (rq s) = hd (map rq_node ps @ [rq s])"
    by (cases ps, auto)+
  have ne: "\<forall>p \<in> set ps. rq_node p \<noteq> rq s" using r(2) by force
  have le: "0 + length ps < 2 ^ 64" using unsigned_less [of "rq_count s", where 'a = nat] l(2) by simp
  have w: "pick_walk n s idx (- 1) 0 (nxt (plinks s) (rq s)) = Inr (pick_ref (runnable s) ps (unat idx) 0)" for idx
    using pick_walk_spec [OF lk ne n _ le, of idx 0] nx by simp
  have "pick_ref (runnable s) ps i 0 \<noteq> 0" if "filter (runnable s) ps \<noteq> []" for i
    using pick_ref_ok(1) [OF that] l(3) by metis
  then show ?thesis
    using l(2) pick_ref_ok(2) [of "runnable s" ps _ 0] by (simp add: pick_next_def w unat_mod Let_def)
qed

section \<open>What the CPUs run\<close>

text \<open>
  Over the states of the processes \<^verbatim>\<open>st\<close>, the processes of the queue \<^verbatim>\<open>Q\<close>, and the running and the idle process of each CPU.
\<close>

definition cpus_ok :: "(addr \<Rightarrow> procstate) \<Rightarrow> addr set \<Rightarrow> (nat \<Rightarrow> addr) \<Rightarrow> (nat \<Rightarrow> addr) \<Rightarrow> bool" where
  "cpus_ok st Q this idl \<longleftrightarrow>
     (\<forall>p \<in> Q. st p = RUNNABLE \<or> st p = RUNNING \<and> p \<in> this ` {..<NCPU}) \<and>
     (\<forall>c < NCPU. st (this c) = RUNNING \<and> (this c \<in> Q \<or> this c = idl c)) \<and>
     (\<forall>c < NCPU. idl c \<notin> Q \<and> (this c \<noteq> idl c \<longrightarrow> st (idl c) = RUNNABLE)) \<and>
     inj_on this {..<NCPU} \<and> inj_on idl {..<NCPU}"

lemma cpus_okD:
  assumes "cpus_ok st Q this idl"
  shows "p \<in> Q \<Longrightarrow> st p = RUNNABLE \<or> st p = RUNNING \<and> p \<in> this ` {..<NCPU}"
    and "d < NCPU \<Longrightarrow> st (this d) = RUNNING" and "d < NCPU \<Longrightarrow> this d \<in> Q \<or> this d = idl d"
    and "d < NCPU \<Longrightarrow> idl d \<notin> Q" and "d < NCPU \<Longrightarrow> this d \<noteq> idl d \<Longrightarrow> st (idl d) = RUNNABLE"
    and "d < NCPU \<Longrightarrow> e < NCPU \<Longrightarrow> this d = this e \<Longrightarrow> d = e" and "d < NCPU \<Longrightarrow> e < NCPU \<Longrightarrow> idl d = idl e \<Longrightarrow> d = e"
  using assms by (auto simp: cpus_ok_def inj_on_def)

text \<open>One CPU gives up its process, which stays in the queue or leaves it, and takes a runnable one or its idle process.\<close>

definition switch :: "(addr \<Rightarrow> procstate) \<Rightarrow> addr set \<Rightarrow> (nat \<Rightarrow> addr) \<Rightarrow> (nat \<Rightarrow> addr) \<Rightarrow> nat \<Rightarrow> procstate \<Rightarrow> addr \<Rightarrow> addr set \<Rightarrow> bool" where
  "switch st Q this idl c new nx Q' \<longleftrightarrow> (new = RUNNABLE \<and> Q' = Q \<or> this c \<noteq> idl c \<and> Q' = Q - {this c}) \<and>
     (nx \<in> Q' \<and> (st(this c := new)) nx = RUNNABLE \<or> nx = idl c)"

lemma switch_next:
  assumes ok: "cpus_ok st Q this idl" and c: "c < NCPU" and sw: "switch st Q this idl c new nx Q'"
  shows "(st(this c := new)) nx = RUNNABLE" and "d < NCPU \<Longrightarrow> d \<noteq> c \<Longrightarrow> nx \<noteq> this d"
    and "d < NCPU \<Longrightarrow> d \<noteq> c \<Longrightarrow> idl d \<noteq> nx \<and> idl d \<noteq> this c"
proof -
  note D = cpus_okD [OF ok]
  show r: "(st(this c := new)) nx = RUNNABLE" using sw D(5) [OF c] by (auto simp: switch_def)
  show "nx \<noteq> this d" if "d < NCPU" "d \<noteq> c"
    using r D(2) [OF that(1)] D(6) [OF that(1) c] that by (metis fun_upd_other procstate.distinct(11))
  show "idl d \<noteq> nx \<and> idl d \<noteq> this c" if "d < NCPU" "d \<noteq> c"
    using sw D(3) [OF c] D(4) [OF that(1)] D(7) [OF that(1) c] that unfolding switch_def by (metis DiffD1)
qed

lemma switch_queue:
  assumes ok: "cpus_ok st Q this idl" and c: "c < NCPU" and sw: "switch st Q this idl c new nx Q'" and p: "p \<in> Q'"
  shows "(st(this c := new, nx := RUNNING)) p = RUNNABLE \<or>
    (st(this c := new, nx := RUNNING)) p = RUNNING \<and> p \<in> (this(c := nx)) ` {..<NCPU}"
proof (cases "p = nx \<or> p = this c")
  case True
  then show ?thesis using p sw c by (auto simp: switch_def image_iff)
next
  case False
  then have sp: "(st(this c := new, nx := RUNNING)) p = st p" by simp
  from p sw have "p \<in> Q" by (auto simp: switch_def)
  from cpus_okD(1) [OF ok this] show ?thesis
  proof
    assume "st p = RUNNING \<and> p \<in> this ` {..<NCPU}"
    then obtain d where d: "st p = RUNNING" "d \<in> {..<NCPU}" "p = this d" by blast
    then have "p = (this(c := nx)) d" using False by auto
    then show ?thesis unfolding sp using d(1,2) by blast
  qed (simp only: sp simp_thms)
qed

lemma switch_running:
  assumes ok: "cpus_ok st Q this idl" and c: "c < NCPU" and sw: "switch st Q this idl c new nx Q'" and d: "d < NCPU"
  shows "(st(this c := new, nx := RUNNING)) ((this(c := nx)) d) = RUNNING \<and> ((this(c := nx)) d \<in> Q' \<or> (this(c := nx)) d = idl d)"
proof (cases "d = c")
  case True
  then show ?thesis using sw by (auto simp: switch_def)
next
  case False
  then have "this d \<noteq> this c" using cpus_okD(6) [OF ok d c] by blast
  then show ?thesis using cpus_okD(2,3) [OF ok d] False sw by (auto simp: switch_def)
qed

lemma switch_idle:
  assumes ok: "cpus_ok st Q this idl" and c: "c < NCPU" and sw: "switch st Q this idl c new nx Q'" and d: "d < NCPU"
  shows "idl d \<notin> Q' \<and> ((this(c := nx)) d \<noteq> idl d \<longrightarrow> (st(this c := new, nx := RUNNING)) (idl d) = RUNNABLE)"
proof -
  have "idl d \<notin> Q'" using cpus_okD(4) [OF ok d] sw by (auto simp: switch_def)
  moreover have "(st(this c := new, nx := RUNNING)) (idl d) = RUNNABLE" if ne: "(this(c := nx)) d \<noteq> idl d"
  proof (cases "d = c")
    case True
    then show ?thesis using ne cpus_okD(5) [OF ok c] sw by (cases "idl c = this c") (auto simp: switch_def)
  next
    case False
    then show ?thesis using ne cpus_okD(5) [OF ok d] switch_next(3) [OF ok c sw d False] by auto
  qed
  ultimately show ?thesis by blast
qed

lemma cpus_ok_switch:
  assumes ok: "cpus_ok st Q this idl" and c: "c < NCPU" and sw: "switch st Q this idl c new nx Q'"
  shows "cpus_ok (st(this c := new, nx := RUNNING)) Q' (this(c := nx)) idl"
proof -
  have "inj_on (this(c := nx)) {..<NCPU}"
    using cpus_okD(6) [OF ok] switch_next(2) [OF ok c sw] by (auto simp: inj_on_def)
  moreover have "inj_on idl {..<NCPU}" using ok by (simp add: cpus_ok_def)
  ultimately show ?thesis
    using switch_queue [OF ok c sw] switch_running [OF ok c sw] switch_idle [OF ok c sw] unfolding cpus_ok_def by blast
qed

section \<open>The timers of the scheduler\<close>

definition cpu_timers :: "(nat \<Rightarrow> addr) \<Rightarrow> clkst \<Rightarrow> nat \<Rightarrow> bool" where
  "cpu_timers mt k c \<longleftrightarrow> (\<exists>L. timers_ok k c L \<and> card (set L - {tnode (mt c)}) \<le> 1000 \<and>
     (\<forall>d < NCPU. tnode (mt d) \<in> set L \<longleftrightarrow> d = c \<and> \<not> triggered (timers k (mt d))))"

definition timers_inv :: "(nat \<Rightarrow> addr) \<Rightarrow> clkst \<Rightarrow> bool" where
  "timers_inv mt k \<longleftrightarrow> clock_ok k \<and> inj_on mt {..<NCPU} \<and>
     (\<forall>c < NCPU. aligned (tnode (mt c)) \<and> elapse (timers k (mt c)) = 15 \<and> cpu_timers mt k c)"

lemma timers_inv_list:
  assumes "timers_inv mt k" and "c < NCPU"
  obtains L where "timers_ok k c L" and "card (set L - {tnode (mt c)}) \<le> 1000" and "distinct L" and "length L \<le> 1001"
    and "\<forall>d < NCPU. tnode (mt d) \<in> set L \<longleftrightarrow> d = c \<and> \<not> triggered (timers k (mt d))"
proof -
  obtain L where L: "timers_ok k c L" "card (set L - {tnode (mt c)}) \<le> 1000"
    "\<forall>d < NCPU. tnode (mt d) \<in> set L \<longleftrightarrow> d = c \<and> \<not> triggered (timers k (mt d))"
    using assms unfolding timers_inv_def cpu_timers_def by blast
  have d: "distinct L" using L(1) by (auto simp: timers_ok_def rbtree_def)
  have "card (set L) \<le> Suc (card (set L - {tnode (mt c)}))" unfolding card_Diff_singleton_if by (split if_split) arith
  then have "length L \<le> 1001" using L(2) distinct_card [OF d] by simp
  with L d show ?thesis using that by blast
qed

text \<open>The timer of CPU \<^verbatim>\<open>c\<close> is taken out of its tree if it is there.\<close>

lemma stop_timer:
  assumes t: "timers_inv mt k" and c: "c < NCPU"
  shows "\<exists>h w L. (if \<not> triggered (timers k (mt c)) then cancel_cpu_timer c (mt c) k else Inr k) =
      Inr (k\<lparr>trees := (trees k)(c := h), tval := (tval k)(c := w)\<rparr>) \<and>
    timers_ok (k\<lparr>trees := (trees k)(c := h), tval := (tval k)(c := w)\<rparr>) c L \<and> length L \<le> 1001 \<and>
    card (set L) \<le> 1000 \<and> (\<forall>d < NCPU. tnode (mt d) \<notin> set L)"
proof -
  obtain L where L: "timers_ok k c L" "card (set L - {tnode (mt c)}) \<le> 1000" "distinct L" "length L \<le> 1001"
    "\<forall>d < NCPU. tnode (mt d) \<in> set L \<longleftrightarrow> d = c \<and> \<not> triggered (timers k (mt d))" by (rule timers_inv_list [OF t c])
  show ?thesis
  proof (cases "triggered (timers k (mt c))")
    case True
    then have "tnode (mt d) \<notin> set L" if "d < NCPU" for d using L(5) [rule_format, OF that] by auto
    moreover from this c have "card (set L) \<le> 1000" using L(2) by simp
    moreover have "k\<lparr>trees := (trees k)(c := trees k c), tval := (tval k)(c := tval k c)\<rparr> = k" by simp
    ultimately show ?thesis using L(1,4) True by (intro exI [of _ "trees k c"] exI [of _ "tval k c"] exI [of _ L]) simp
  next
    case False
    then have m: "tnode (mt c) \<in> set L" using L(5) [rule_format, OF c] by simp
    have k: "clock_ok k" using t by (simp add: timers_inv_def)
    obtain h w where h: "cancel_cpu_timer c (mt c) k = Inr (k\<lparr>trees := (trees k)(c := h), tval := (tval k)(c := w)\<rparr>)"
      "timers_ok (k\<lparr>trees := (trees k)(c := h), tval := (tval k)(c := w)\<rparr>) c (remove1 (tnode (mt c)) L)"
      using cancel_cpu_timer_ok [OF k L(1) m False] by blast
    have s: "set (remove1 (tnode (mt c)) L) = set L - {tnode (mt c)}" using L(3) by simp
    have "length (remove1 (tnode (mt c)) L) \<le> 1001" using L(4) m by (simp only: length_remove1 if_True)
    then show ?thesis using h s L(2,5) False by (intro exI [of _ h] exI [of _ w] exI [of _ "remove1 (tnode (mt c)) L"]) auto
  qed
qed

lemma rearmed_inv:
  assumes t: "timers_inv mt k" and c: "c < NCPU" and v: "elapse v = 15"
    and k2: "k2 = k\<lparr>timers := (timers k)(mt c := v), trees := (trees k)(c := h), tval := w\<rparr>"
    and L: "timers_ok k2 c L" "set L = (if triggered v then S else insert (tnode (mt c)) S)" "card S \<le> 1000" "\<forall>d < NCPU. tnode (mt d) \<notin> S"
  shows "timers_inv mt k2"
proof -
  have inj: "mt d = mt e \<longleftrightarrow> d = e" if "d < NCPU" "e < NCPU" for d e using t that by (auto simp: timers_inv_def inj_on_def)
  have n: "tnode a = tnode b \<longleftrightarrow> a = b" for a b by (simp add: tnode_def)
  have own: "cpu_timers mt k2 c"
    using L v c inj n unfolding cpu_timers_def by (intro exI [of _ L]) (auto simp: k2 intro: order_trans [OF card_Diff1_le])
  have other: "cpu_timers mt k2 d" if d: "d < NCPU" "d \<noteq> c" for d
  proof -
    obtain M where M: "timers_ok k d M" "card (set M - {tnode (mt d)}) \<le> 1000"
      "\<forall>e < NCPU. tnode (mt e) \<in> set M \<longleftrightarrow> e = d \<and> \<not> triggered (timers k (mt e))" by (rule timers_inv_list [OF t d(1)])
    have "mt c \<notin> timer_of ` set M"
    proof
      assume "mt c \<in> timer_of ` set M"
      then have "tnode (mt c) \<in> set M" using M(1) by (auto simp: timers_ok_def timer_of_def tnode_def)
      then show False using M(3) [rule_format, OF c] d(2) by simp
    qed
    then have "timers_ok k2 d M" using timers_ok_update [OF M(1), of "mt c" v] d(2)
      by (simp add: k2 timers_ok_def now_def get_timestamp_ms_def)
    then show ?thesis using M(2,3) d inj c unfolding cpu_timers_def by (intro exI [of _ M]) (auto simp: k2)
  qed
  have "clock_ok k2" "elapse (timers k2 (mt d)) = 15" if "d < NCPU" for d
    using t v that by (auto simp: timers_inv_def k2 clock_ok_def now_def get_timestamp_ms_def)
  moreover have "cpu_timers mt k2 d" if "d < NCPU" for d using own other [OF that] by (cases "d = c") simp_all
  ultimately show ?thesis using t c unfolding timers_inv_def by blast
qed

lemma update_this_proc_ok:
  assumes t: "timers_inv (my_timer s) (clk s)" and c: "c < NCPU"
  shows "\<exists>k. update_this_proc c p s = Inr (s\<lparr>clk := k, thisproc := (thisproc s)(c := p)\<rparr>) \<and> timers_inv (my_timer s) k \<and>
    (\<forall>tm. tdata (timers k tm) = tdata (timers (clk s) tm))"
proof -
  define k mt where "k = clk s" and "mt = my_timer s"
  have t': "timers_inv mt k" using t by (simp add: k_def mt_def)
  obtain h w L where h: "(if \<not> triggered (timers k (mt c)) then cancel_cpu_timer c (mt c) k else Inr k) =
      Inr (k\<lparr>trees := (trees k)(c := h), tval := (tval k)(c := w)\<rparr>)"
    "timers_ok (k\<lparr>trees := (trees k)(c := h), tval := (tval k)(c := w)\<rparr>) c L" "length L \<le> 1001"
    "card (set L) \<le> 1000" "\<forall>d < NCPU. tnode (mt d) \<notin> set L" using stop_timer [OF t' c] by blast
  define k1 where "k1 = k\<lparr>trees := (trees k)(c := h), tval := (tval k)(c := w)\<rparr>"
  define v where "v = (timers k1 (mt c))\<lparr>triggered := False, tkey := get_timestamp_ms k1 + word_of_int (elapse (timers k1 (mt c)))\<rparr>"
  have e: "elapse (timers k1 (mt c)) = 15" "aligned (tnode (mt c))" "clock_ok k1" using t' c
    by (auto simp: timers_inv_def k1_def clock_ok_def now_def get_timestamp_ms_def)
  obtain h2 w2 L2 where s2: "set_cpu_timer c (mt c) k1 =
      Inr (k1\<lparr>timers := (timers k1)(mt c := v), trees := (trees k1)(c := h2), tval := (tval k1)(c := w2)\<rparr>)"
    "timers_ok (k1\<lparr>timers := (timers k1)(mt c := v), trees := (trees k1)(c := h2), tval := (tval k1)(c := w2)\<rparr>) c L2"
    "set L2 = insert (tnode (mt c)) (set L)"
    using set_cpu_timer_ok [OF e(3) h(2) [folded k1_def] _ _ e(2) _ _ v_def] h(3,5) c e(1) by auto
  define k2 where "k2 = k1\<lparr>timers := (timers k1)(mt c := v), trees := (trees k1)(c := h2), tval := (tval k1)(c := w2)\<rparr>"
  have "timers_inv mt k2"
    by (rule rearmed_inv [OF t' c, of v k2 "(tval k1)(c := w2)" h2 L2 "set L"]) (use s2 h(4,5) e(1) in \<open>simp_all add: k2_def k1_def v_def\<close>)
  moreover have "tdata (timers k2 tm) = tdata (timers k tm)" for tm by (simp add: k2_def k1_def v_def)
  moreover have "update_this_proc c p s = Inr (s\<lparr>clk := k2, thisproc := (thisproc s)(c := p)\<rparr>)"
    unfolding update_this_proc_def Let_def mt_def [symmetric] k_def [symmetric] h(1) k1_def [symmetric] by (simp add: s2(1) k2_def)
  ultimately show ?thesis by (auto simp: k_def mt_def)
qed

section \<open>The invariant of the scheduler\<close>

text \<open>\<^verbatim>\<open>P\<close> is the set of the addresses of processes.\<close>

definition sched_ok :: "addr set \<Rightarrow> schst \<Rightarrow> addr list \<Rightarrow> bool" where
  "sched_ok P s ps \<longleftrightarrow> queue_ok s ps \<and> set ps \<subseteq> P \<and> cpus_ok (\<lambda>p. pstate (procs s p)) (set ps) (thisproc s) (idleproc s) \<and>
     timers_inv (my_timer s) (clk s)"

definition proc_area :: "addr set \<Rightarrow> addr \<Rightarrow> bool" where
  "proc_area P l \<longleftrightarrow> finite P \<and> 0 \<notin> P \<and> card P < 2 ^ 64 \<and> l \<notin> rq_node ` P"

lemma queue_ok_distinct: "queue_ok s ps \<Longrightarrow> distinct ps"
  by (auto simp: queue_ok_def is_list_def ring_def distinct_map)

lemma queue_length: "queue_ok s ps \<Longrightarrow> set ps \<subseteq> P \<Longrightarrow> finite P \<Longrightarrow> length ps \<le> card P"
  using queue_ok_distinct [of s ps] card_mono [of P "set ps"] by (simp add: distinct_card)

lemma pstate_set_state: "(\<lambda>q. pstate (procs (set_state p st s) q)) = (\<lambda>q. pstate (procs s q))(p := st)"
  by (auto simp: set_state_def)

lemma set_state_simps [simp]:
  "clk (set_state p st s) = clk s" "plinks (set_state p st s) = plinks s" "rq (set_state p st s) = rq s"
  "rq_count (set_state p st s) = rq_count s" "my_timer (set_state p st s) = my_timer s" "thisproc (set_state p st s) = thisproc s"
  "idleproc (set_state p st s) = idleproc s" "panic_flag (set_state p st s) = panic_flag s" "rqLock (set_state p st s) = rqLock s"
  by (simp_all add: set_state_def)

text \<open>The states to which a process may change when it calls the scheduler.\<close>

definition leaves :: "procstate \<Rightarrow> bool" where
  "leaves st \<longleftrightarrow> st = SLEEPING \<or> st = DEEPSLEEPING \<or> st = ZOMBIE"

lemma update_this_state_ok:
  assumes q: "queue_ok s ps" and st: "st = RUNNABLE \<or> leaves st \<and> thisproc s c \<in> set ps"
  shows "\<exists>s' ps'. update_this_state c st s = s' \<and> queue_ok s' ps' \<and>
    set ps' = (if st = RUNNABLE then set ps else set ps - {thisproc s c}) \<and>
    (\<lambda>p. pstate (procs s' p)) = (\<lambda>p. pstate (procs s p))(thisproc s c := st) \<and> clk s' = clk s \<and> my_timer s' = my_timer s \<and>
    thisproc s' = thisproc s \<and> idleproc s' = idleproc s \<and> rq s' = rq s"
proof (cases "st = RUNNABLE")
  case True
  then show ?thesis using q by (auto simp: update_this_state_def queue_ok_def pstate_set_state Let_def)
next
  case False
  then have l: "leaves st" "thisproc s c \<in> set ps" using st by auto
  let ?p = "thisproc s c"
  have il: "is_list (plinks s) (rq s) (map rq_node ps)" "unat (rq_count s) = length ps" "0 \<notin> set ps" using q by (auto simp: queue_ok_def)
  have "is_list (snd (detach_from_list (rq_node ?p) (plinks s))) (rq s) (remove1 (rq_node ?p) (map rq_node ps))"
    by (rule detach_from_list_list(1) [OF il(1)]) (use l(2) in simp)
  moreover have "remove1 (rq_node ?p) (map rq_node ps) = map rq_node (remove1 ?p ps)"
    by (induction ps) simp_all
  moreover have "unat (rq_count s - 1) = length (remove1 ?p ps)"
  proof -
    have "0 < length ps" using l(2) by (cases ps) auto
    then have "1 \<le> rq_count s" using il(2) by (simp add: word_le_nat_alt Suc_le_eq)
    then show ?thesis using il(2) l(2) by (simp add: unat_sub length_remove1)
  qed
  ultimately have "queue_ok (update_this_state c st s) (remove1 ?p ps)"
    using l(1) il(3) by (auto simp: update_this_state_def leaves_def queue_ok_def Let_def dest: in_set_remove1 [THEN iffD1, rotated] set_remove1_subset [THEN subsetD])
  moreover have "(\<lambda>p. pstate (procs (update_this_state c st s) p)) = (\<lambda>p. pstate (procs s p))(?p := st)"
    using l(1) by (auto simp: update_this_state_def leaves_def set_state_def Let_def)
  ultimately show ?thesis using l False queue_ok_distinct [OF q]
    by (intro exI [of _ "update_this_state c st s"] exI [of _ "remove1 ?p ps"]) (auto simp: update_this_state_def leaves_def Let_def)
qed

lemma update_this_state_flag [simp]: "panic_flag (update_this_state c st s) = panic_flag s"
  by (simp add: update_this_state_def Let_def)

lemma timers_inv_frame:
  "timers_inv mt (k\<lparr>ttbr0 := x\<rparr>) = timers_inv mt k"
  by (simp add: timers_inv_def cpu_timers_def timers_ok_def clock_ok_def now_def get_timestamp_ms_def)

lemma sched_ok_release: "sched_ok P (release_sched_lock s) ps = sched_ok P s ps"
  by (simp add: sched_ok_def queue_ok_def release_sched_lock_def)

lemma sched_ok_attach: "sched_ok P (attach_next ipt c p s) ps = sched_ok P s ps"
  by (simp add: sched_ok_def queue_ok_def attach_next_def timers_inv_frame)

lemma simple_sched_ok:
  assumes ok: "sched_ok P s ps" and P: "proc_area P (rq s)" "card P < n" and c: "c < NCPU"
    and st: "st = RUNNABLE \<or> leaves st \<and> thisproc s c \<noteq> idleproc s c"
  shows "\<exists>s' ps'. simple_sched n ipt c st s = Inr s' \<and> sched_ok P s' ps' \<and> \<not> rqLock s' \<and> rq s' = rq s \<and>
    (killed (procs s (thisproc s c)) \<and> st \<noteq> ZOMBIE \<or> pick_next n c (update_this_state c st s) = Inr (thisproc s' c))"
proof (cases "killed (procs s (thisproc s c)) \<and> st \<noteq> ZOMBIE")
  case True
  then show ?thesis using ok c
    by (auto simp: simple_sched_def Let_def sched_ok_def cpus_ok_def queue_ok_def release_sched_lock_def release_spinlock_def)
next
  case False
  have q: "queue_ok s ps" "set ps \<subseteq> P" and cp: "cpus_ok (\<lambda>p. pstate (procs s p)) (set ps) (thisproc s) (idleproc s)"
    and t: "timers_inv (my_timer s) (clk s)" using ok by (auto simp: sched_ok_def)
  have run: "pstate (procs s (thisproc s c)) = RUNNING" and inq: "thisproc s c \<in> set ps \<or> thisproc s c = idleproc s c"
    using cp c by (auto simp: cpus_ok_def)
  define u where "u = update_this_state c st s"
  obtain ps' where u: "queue_ok u ps'" "set ps' = (if st = RUNNABLE then set ps else set ps - {thisproc s c})"
    "(\<lambda>p. pstate (procs u p)) = (\<lambda>p. pstate (procs s p))(thisproc s c := st)" "clk u = clk s" "my_timer u = my_timer s"
    "thisproc u = thisproc s" "idleproc u = idleproc s" "rq u = rq s"
    using update_this_state_ok [OF q(1), of st c] st inq by (auto simp: u_def)
  have sub: "set ps' \<subseteq> P" using u(2) q(2) by auto
  have len: "length ps' < n" using queue_length [OF u(1) sub] P by (auto simp: proc_area_def)
  obtain nx where nx: "pick_next n c u = Inr nx" "nx \<in> set ps' \<and> pstate (procs u nx) = RUNNABLE \<or> nx = idleproc s c"
    using pick_next_ref [OF u(1) len, of c] pick_ref_ok(1) [of "runnable u" ps'] u(7) by (auto simp: runnable_def)
  obtain k where k: "update_this_proc c nx u = Inr (u\<lparr>clk := k, thisproc := (thisproc u)(c := nx)\<rparr>)" "timers_inv (my_timer s) k"
    using update_this_proc_ok [of u c nx] t c u(4,5) by auto
  have nx': "nx \<in> set ps' \<and> ((\<lambda>p. pstate (procs s p))(thisproc s c := st)) nx = RUNNABLE \<or> nx = idleproc s c"
    using nx(2) fun_cong [OF u(3), of nx] by simp
  then have s: "switch (\<lambda>p. pstate (procs s p)) (set ps) (thisproc s) (idleproc s) c st nx (set ps')"
    using st u(2) by (auto simp: switch_def leaves_def)
  note sw = switch_next(1) [OF cp c s, folded u(3)] cpus_ok_switch [OF cp c s, folded u(3)]
  define y where "y = set_state nx RUNNING (u\<lparr>clk := k, thisproc := (thisproc u)(c := nx)\<rparr>)"
  have "(\<lambda>p. pstate (procs y p)) = (\<lambda>p. pstate (procs u p))(nx := RUNNING)" unfolding y_def pstate_set_state by simp
  then have "sched_ok P y ps'" using u sub k(2) sw(2) by (simp add: sched_ok_def queue_ok_def y_def)
  moreover define z where "z = release_sched_lock (if nx \<noteq> thisproc s c then attach_next ipt c nx y else y)"
  ultimately have z: "sched_ok P z ps'" by (simp add: sched_ok_release sched_ok_attach)
  have f: "rq z = rq s" "thisproc z c = nx" "\<not> rqLock z"
    using u(8) by (simp_all add: z_def release_sched_lock_def release_spinlock_def attach_next_def y_def)
  have "simple_sched n ipt c st s = Inr z"
    using run False nx(1) k(1) sw(1) by (simp add: simple_sched_def u_def [symmetric] z_def y_def Let_def) blast
  then show ?thesis using z f nx(1) [unfolded u_def] by (intro exI [of _ z] exI [of _ ps']) simp
qed

lemma make_runnable_ok:
  assumes ok: "sched_ok P s ps" and P: "proc_area P (rq s)" and p: "p \<in> P" "pstate (procs s p) \<noteq> RUNNING" "pstate (procs s p) \<noteq> RUNNABLE"
  shows "sched_ok P (make_runnable p s) (p # ps)"
proof -
  have q: "is_list (plinks s) (rq s) (map rq_node ps)" "unat (rq_count s) = length ps" "0 \<notin> set ps" "set ps \<subseteq> P"
    and cp: "cpus_ok (\<lambda>p. pstate (procs s p)) (set ps) (thisproc s) (idleproc s)"
    using ok by (auto simp: sched_ok_def queue_ok_def)
  have new: "p \<notin> set ps" "\<And>c. c < NCPU \<Longrightarrow> p \<noteq> thisproc s c" "\<And>c. c < NCPU \<Longrightarrow> p \<noteq> idleproc s c"
    using cp p(2,3) by (auto simp: cpus_ok_def) metis
  have "rq_node p \<noteq> rq s" using P imageI [OF p(1), of rq_node] by (auto simp: proc_area_def)
  then have z: "p \<noteq> 0" "rq_node p \<noteq> 0" "rq_node p \<notin> set (rq s # map rq_node ps)"
    using P p(1) new(1) by (auto simp: proc_area_def) (simp add: rq_node_def)
  have l: "is_list (snd (insert_into_list (rq s) (rq_node p) (plinks s))) (rq s) (map rq_node (p # ps))"
    using insert_into_list_front [OF q(1) z(2,3)] by simp
  have "card (set (p # ps)) \<le> card P" by (rule card_mono) (use P p(1) q(4) in \<open>auto simp: proc_area_def\<close>)
  then have "Suc (length ps) < 2 ^ 64" using P new(1) queue_ok_distinct [of s ps] ok
    by (simp add: proc_area_def distinct_card sched_ok_def)
  then have n: "unat (rq_count s + 1) = length (p # ps)" using q(2) by (simp add: unat_word_ariths)
  have "cpus_ok ((\<lambda>p. pstate (procs s p))(p := RUNNABLE)) (set (p # ps)) (thisproc s) (idleproc s)"
    using cp new by (simp add: cpus_ok_def) metis
  then show ?thesis using l n z(1) p(1) q(3,4) ok
    by (simp add: make_runnable_def sched_ok_def queue_ok_def pstate_set_state Let_def)
qed

lemma activate_proc_ok:
  assumes ok: "sched_ok P s ps" "\<not> rqLock s" and P: "proc_area P (rq s)" and p: "p \<in> P"
  shows "\<exists>b t qs. activate_proc p a s = Inr (b, t) \<and> sched_ok P t qs \<and> \<not> rqLock t \<and> rq t = rq s"
proof -
  let ?l = "s\<lparr>rqLock := True\<rparr>"
  have l: "sched_ok P ?l ps" "proc_area P (rq ?l)" using ok(1) P by (simp_all add: sched_ok_def queue_ok_def)
  have m: "sched_ok P (release_sched_lock (make_runnable p ?l)) (p # ps)" "rq (release_sched_lock (make_runnable p ?l)) = rq s"
    if "pstate (procs s p) \<noteq> RUNNING" "pstate (procs s p) \<noteq> RUNNABLE"
    using make_runnable_ok [OF l p] that by (simp_all add: sched_ok_release) (simp add: release_sched_lock_def make_runnable_def Let_def)
  have k: "sched_ok P (release_sched_lock ?l) ps" "rq (release_sched_lock ?l) = rq s" "\<And>t. \<not> rqLock (release_sched_lock t)"
    using l(1) by (simp_all add: sched_ok_release) (simp_all add: release_sched_lock_def release_spinlock_def)
  show ?thesis
    by (cases "pstate (procs s p)")
      (use m k ok(2) in \<open>auto simp: activate_proc_def acquire_sched_lock_def Let_def\<close>)
qed

text \<open>A change of a timer that leaves its key, its delay and its flag does not matter.\<close>

lemma timers_inv_data:
  assumes "timers_inv mt k" and "tkey v = tkey (timers k t)" "elapse v = elapse (timers k t)" "triggered v = triggered (timers k t)"
  shows "timers_inv mt (k\<lparr>timers := (timers k)(t := v)\<rparr>)"
proof -
  have "cpu_timers mt (k\<lparr>timers := (timers k)(t := v)\<rparr>) c" if "cpu_timers mt k c" for c
  proof -
    obtain L where L: "timers_ok k c L" "card (set L - {tnode (mt c)}) \<le> 1000"
      "\<forall>d < NCPU. tnode (mt d) \<in> set L \<longleftrightarrow> d = c \<and> \<not> triggered (timers k (mt d))" using \<open>cpu_timers mt k c\<close> unfolding cpu_timers_def by blast
    have "timers_ok (k\<lparr>timers := (timers k)(t := v)\<rparr>) c L" using timers_ok_update [OF L(1)] assms(2) by blast
    then show ?thesis unfolding cpu_timers_def using L(2,3) assms(4) by (intro exI [of _ L]) auto
  qed
  then show ?thesis using assms(1,3) by (auto simp: timers_inv_def clock_ok_def now_def get_timestamp_ms_def)
qed

text \<open>The body of the loop of \<^verbatim>\<open>timer_clock_handler\<close> up to the call of the handler, for the timer of the scheduler.\<close>

definition expire :: "nat \<Rightarrow> schst \<Rightarrow> schst res" where
  "expire c s = rbind (cancel_cpu_timer c (my_timer s c) (clk s)) (\<lambda>k.
     Inr (s\<lparr>clk := k\<lparr>timers := (timers k)(my_timer s c := (timers k (my_timer s c))\<lparr>triggered := True\<rparr>)\<rparr>\<rparr>))"

lemma expire_ok:
  assumes t: "timers_inv (my_timer s) (clk s)" and c: "c < NCPU" and f: "\<not> triggered (timers (clk s) (my_timer s c))"
  shows "\<exists>k. expire c s = Inr (s\<lparr>clk := k\<rparr>) \<and> timers_inv (my_timer s) k"
proof -
  define k mt where "k = clk s" and "mt = my_timer s"
  have t': "timers_inv mt k" using t by (simp add: k_def mt_def)
  obtain h w L where h: "cancel_cpu_timer c (mt c) k = Inr (k\<lparr>trees := (trees k)(c := h), tval := (tval k)(c := w)\<rparr>)"
    "timers_ok (k\<lparr>trees := (trees k)(c := h), tval := (tval k)(c := w)\<rparr>) c L"
    "card (set L) \<le> 1000" "\<forall>d < NCPU. tnode (mt d) \<notin> set L" using stop_timer [OF t' c] f by (auto simp: k_def mt_def)
  define v where "v = (timers k (mt c))\<lparr>triggered := True\<rparr>"
  define k2 where "k2 = k\<lparr>timers := (timers k)(mt c := v), trees := (trees k)(c := h), tval := (tval k)(c := w)\<rparr>"
  have e: "elapse v = 15" using t' c by (simp add: v_def timers_inv_def)
  have L: "timers_ok k2 c L" using timers_ok_update [OF h(2), of "mt c" v]
    by (simp add: k2_def v_def timers_ok_def now_def get_timestamp_ms_def)
  have "timers_inv mt k2" by (rule rearmed_inv [OF t' c e k2_def L _ h(3,4)]) (simp add: v_def)
  moreover have "expire c s = Inr (s\<lparr>clk := k2\<rparr>)"
    unfolding expire_def mt_def [symmetric] k_def [symmetric] h(1) by (simp add: k2_def v_def)
  ultimately show ?thesis by (auto simp: mt_def)
qed

section \<open>Runs of the scheduler\<close>

text \<open>
  A run: processes yield, go to sleep or end; processes are activated; time passes; the timer of the scheduler fires on a CPU
  and its handler preempts the process. \<^verbatim>\<open>n\<close> is the fuel of the walk through the queue.
\<close>

inductive sched_step :: "nat \<Rightarrow> addr \<Rightarrow> addr set \<Rightarrow> schst \<Rightarrow> schst \<Rightarrow> bool" for n ipt P where
  yield: "c < NCPU \<Longrightarrow> sched_yield n ipt c s = Inr t \<Longrightarrow> sched_step n ipt P s t"
| leave: "c < NCPU \<Longrightarrow> leaves st \<Longrightarrow> thisproc s c \<noteq> idleproc s c \<Longrightarrow> acquire_sched_lock s = Inr u \<Longrightarrow>
    simple_sched n ipt c st u = Inr t \<Longrightarrow> sched_step n ipt P s t"
| activate: "p \<in> P \<Longrightarrow> activate_proc p a s = Inr (b, t) \<Longrightarrow> sched_step n ipt P s t"
| tick: "get_timestamp_ms (clk s) \<le> get_timestamp_ms ((clk s)\<lparr>ticks := x\<rparr>) \<Longrightarrow> now ((clk s)\<lparr>ticks := x\<rparr>) < 2 ^ 62 \<Longrightarrow>
    sched_step n ipt P s (s\<lparr>clk := (clk s)\<lparr>ticks := x\<rparr>\<rparr>)"
| preempt: "c < NCPU \<Longrightarrow> \<not> triggered (timers (clk s) (my_timer s c)) \<Longrightarrow> expire c s = Inr u \<Longrightarrow>
    my_handler n ipt c (my_timer s c) u = Inr t \<Longrightarrow> sched_step n ipt P s t"

definition sched_inv :: "nat \<Rightarrow> addr set \<Rightarrow> schst \<Rightarrow> bool" where
  "sched_inv n P s \<longleftrightarrow> proc_area P (rq s) \<and> card P < n \<and> \<not> rqLock s \<and> (\<exists>ps. sched_ok P s ps)"

lemma locked_sched_ok:
  assumes "sched_inv n P s" and "c < NCPU" and "st = RUNNABLE \<or> leaves st \<and> thisproc s c \<noteq> idleproc s c"
  shows "\<exists>u t. acquire_sched_lock s = Inr u \<and> simple_sched n ipt c st u = Inr t \<and> sched_inv n P t"
proof -
  obtain ps where ps: "sched_ok P s ps" "proc_area P (rq s)" "card P < n" "\<not> rqLock s" using assms(1) by (auto simp: sched_inv_def)
  then have l: "sched_ok P (s\<lparr>rqLock := True\<rparr>) ps" "proc_area P (rq (s\<lparr>rqLock := True\<rparr>))" by (simp_all add: sched_ok_def queue_ok_def)
  obtain t qs where "simple_sched n ipt c st (s\<lparr>rqLock := True\<rparr>) = Inr t" "sched_ok P t qs" "\<not> rqLock t" "rq t = rq s"
    using simple_sched_ok [OF l ps(3) assms(2), of st ipt] assms(3) by auto
  then show ?thesis using ps by (auto simp: acquire_sched_lock_def sched_inv_def)
qed

lemma sched_inv_clk: "sched_inv n P s \<Longrightarrow> timers_inv (my_timer s) k \<Longrightarrow> sched_inv n P (s\<lparr>clk := k\<rparr>)"
  by (auto simp: sched_inv_def sched_ok_def queue_ok_def)

lemma sched_inv_timers: "sched_inv n P s \<Longrightarrow> timers_inv (my_timer s) (clk s)"
  by (auto simp: sched_inv_def sched_ok_def)

lemma timers_inv_tick:
  assumes "timers_inv mt k" and "get_timestamp_ms k \<le> get_timestamp_ms (k\<lparr>ticks := x\<rparr>)" and "now (k\<lparr>ticks := x\<rparr>) < 2 ^ 62"
  shows "timers_inv mt (k\<lparr>ticks := x\<rparr>)"
proof -
  have le: "now k \<le> now (k\<lparr>ticks := x\<rparr>)" using assms(2) by (simp add: now_def word_le_nat_alt)
  have *: "timers_ok (k\<lparr>ticks := x\<rparr>) c L" if "timers_ok k c L" for c L
    using that le unfolding timers_ok_def by (auto intro: order_trans [OF _ add_right_mono])
  have "cpu_timers mt (k\<lparr>ticks := x\<rparr>) c" if "cpu_timers mt k c" for c
  proof -
    obtain L where "timers_ok k c L" "card (set L - {tnode (mt c)}) \<le> 1000"
      "\<forall>d < NCPU. tnode (mt d) \<in> set L \<longleftrightarrow> d = c \<and> \<not> triggered (timers k (mt d))" using \<open>cpu_timers mt k c\<close> unfolding cpu_timers_def by blast
    with * show ?thesis unfolding cpu_timers_def by (intro exI [of _ L]) simp
  qed
  then show ?thesis using assms(1,3) by (auto simp: timers_inv_def clock_ok_def)
qed

lemma sched_inv_step:
  assumes "sched_step n ipt P s t" and "sched_inv n P s"
  shows "sched_inv n P t"
  using assms
proof (induction rule: sched_step.induct)
  case (yield c s t)
  then show ?case using locked_sched_ok [OF yield(3,1), of RUNNABLE ipt] by (auto simp: sched_yield_def)
next
  case (leave c st s u t)
  then show ?case using locked_sched_ok [OF leave(6,1), of st ipt] by auto
next
  case (activate p a s b t)
  then obtain ps where ps: "sched_ok P s ps" "\<not> rqLock s" "proc_area P (rq s)" "card P < n" by (auto simp: sched_inv_def)
  then show ?case using activate_proc_ok [OF ps(1-3) activate(1), of a] activate(2) by (auto simp: sched_inv_def)
next
  case (tick s x)
  then show ?case using sched_inv_clk [OF tick(3)] timers_inv_tick [OF sched_inv_timers [OF tick(3)] tick(1,2)] by blast
next
  case (preempt c s u t)
  obtain k where k: "u = s\<lparr>clk := k\<rparr>" "timers_inv (my_timer s) k"
    using expire_ok [OF sched_inv_timers [OF preempt(5)] preempt(1,2)] preempt(3) by auto
  let ?k = "k\<lparr>timers := (timers k)(my_timer s c := (timers k (my_timer s c))\<lparr>tdata := tdata (timers k (my_timer s c)) + 1\<rparr>)\<rparr>"
  have "timers_inv (my_timer s) ?k" by (rule timers_inv_data [OF k(2)]) simp_all
  then have "sched_inv n P (s\<lparr>clk := ?k\<rparr>)" by (rule sched_inv_clk [OF preempt(5)])
  from locked_sched_ok [OF this preempt(1), of RUNNABLE ipt] show ?case using preempt(4) k(1) by (auto simp: my_handler_def Let_def)
qed

lemma sched_inv_run: "(sched_step n ipt P)\<^sup>*\<^sup>* s t \<Longrightarrow> sched_inv n P s \<Longrightarrow> sched_inv n P t"
  by (induction rule: rtranclp_induct) (auto intro: sched_inv_step)

section \<open>The start\<close>

definition clock_start :: "(nat \<Rightarrow> addr) \<Rightarrow> clkst \<Rightarrow> bool" where
  "clock_start mt k \<longleftrightarrow> clock_ok k \<and> inj_on mt {..<NCPU} \<and> (\<forall>c < NCPU. aligned (tnode (mt c)) \<and> rb_node (trees k c) c = 0)"

lemma upt_NCPU: "[0..<NCPU] = [0, 1, 2, 3]" "c < NCPU \<longleftrightarrow> c = 0 \<or> c = 1 \<or> c = 2 \<or> c = 3"
  by (auto simp: NCPU_def upt_rec)

lemma init_timer_inv:
  assumes "clock_start mt k"
  shows "timers_inv mt (init_timer mt k)"
proof -
  have k: "trees (init_timer mt k) = trees k" "one_ms (init_timer mt k) = one_ms k" "ticks (init_timer mt k) = ticks k"
    by (simp_all add: init_timer_def upt_NCPU(1))
  have t: "elapse (timers (init_timer mt k) (mt c)) = 15" "triggered (timers (init_timer mt k) (mt c))" if "c < NCPU" for c
    using that by (auto simp: init_timer_def upt_NCPU)
  have "timers_ok (init_timer mt k) c []" if "c < NCPU" for c
    using assms that k by (auto simp: timers_ok_def clock_start_def rbtree_def rb_def intro!: exI [of _ Tip])
  then have "cpu_timers mt (init_timer mt k) c" if "c < NCPU" for c
    using that t unfolding cpu_timers_def by (intro exI [of _ "[]"]) auto
  then show ?thesis using assms t k by (auto simp: timers_inv_def clock_start_def clock_ok_def now_def get_timestamp_ms_def)
qed

lemma init_sched_inv:
  assumes "clock_start (my_timer s) k" and "clk s = init_timer (my_timer s) k" and "inj_on new {..<NCPU}" and "rq s \<noteq> 0"
    and "proc_area P (rq s)" "card P < n"
  shows "sched_inv n P (init_sched new (init_rq s))"
proof -
  let ?s = "init_sched new (init_rq s)"
  have f: "clk ?s = clk s" "my_timer ?s = my_timer s" "rq ?s = rq s" "rq_count ?s = 0" "\<not> rqLock ?s"
    "plinks ?s = init_list_node (rq s) (plinks s)"
    by (simp_all add: init_sched_def init_rq_def upt_NCPU(1) init_spinlock_def)
  have c: "thisproc ?s c = new c" "idleproc ?s c = new c" "pstate (procs ?s (new c)) = RUNNING" if "c < NCPU" for c
    using that by (auto simp: init_sched_def upt_NCPU)
  have "cpus_ok (\<lambda>p. pstate (procs ?s p)) {} (thisproc ?s) (idleproc ?s)"
    using c assms(3) by (auto simp: cpus_ok_def inj_on_def)
  then have "sched_ok P ?s []"
    using f assms is_list_init init_timer_inv by (simp add: sched_ok_def queue_ok_def)
  then show ?thesis using f assms(5,6) by (auto simp: sched_inv_def)
qed

section \<open>The properties of the scheduler\<close>

text \<open>
  C10: four CPUs share one run queue without conflict. From the start on, in every interleaving of yielding, sleeping, ending, waking,
  timer interrupts and passing time, no process runs on two CPUs; what a CPU runs is in the state RUNNING; and the next call of the
  scheduler, on any CPU, returns: none of its assertions fails, its walk through the queue ends, and the lock is free.
\<close>

theorem sched_exclusive:
  assumes "clock_start (my_timer s0) k" "clk s0 = init_timer (my_timer s0) k" "inj_on new {..<NCPU}" "rq s0 \<noteq> 0"
    "proc_area P (rq s0)" "card P < n" and "(sched_step n ipt P)\<^sup>*\<^sup>* (init_sched new (init_rq s0)) s"
  shows "inj_on (thisproc s) {..<NCPU} \<and> \<not> rqLock s \<and>
    (\<forall>c < NCPU. pstate (procs s (thisproc s c)) = RUNNING \<and> (\<exists>t. sched_yield n ipt c s = Inr t) \<and>
      (\<forall>st. leaves st \<and> thisproc s c \<noteq> idleproc s c \<longrightarrow> (\<exists>t. rbind (acquire_sched_lock s) (simple_sched n ipt c st) = Inr t)))"
proof -
  have i: "sched_inv n P s" using sched_inv_run [OF assms(7) init_sched_inv [OF assms(1-6)]] .
  have "\<exists>t. rbind (acquire_sched_lock s) (simple_sched n ipt c st) = Inr t"
    if "c < NCPU" "st = RUNNABLE \<or> leaves st \<and> thisproc s c \<noteq> idleproc s c" for c st
    using locked_sched_ok [OF i that, of ipt] by auto
  then show ?thesis using i by (auto simp: sched_inv_def sched_ok_def cpus_ok_def sched_yield_def)
qed

text \<open>A machine with its four idle processes at 1000, 2000, 3000 and 4000, and one process at 5000.\<close>

definition demo_clk :: clkst where
  "demo_clk = \<lparr>one_ms = 62500, ticks = 0, tval = (\<lambda>_. 0), trap_on = (\<lambda>_. False), ttbr0 = (\<lambda>_. 0), online = (\<lambda>_. True), clock_handler = True,
     trees = (\<lambda>_. \<lparr>parent_color = (\<lambda>_. 0), rb_right = (\<lambda>_. 0), rb_left = (\<lambda>_. 0), rb_node = (\<lambda>_. 0)\<rparr>),
     timers = (\<lambda>_. \<lparr>triggered = False, elapse = 0, tkey = 0, thandler_of = NoHandler, tdata = 0\<rparr>)\<rparr>"

definition demo_mt :: "nat \<Rightarrow> addr" where "demo_mt c = 400 + 56 * c"

definition demo_sched :: "procstate \<Rightarrow> schst" where
  "demo_sched st = \<lparr>clk = init_timer demo_mt demo_clk,
     procs = (\<lambda>_. \<lparr>killed = False, idle = False, pid = 0, pstate = st, pgdir_pt = 0\<rparr>),
     plinks = \<lparr>prv = (\<lambda>_. 0), nxt = (\<lambda>_. 0)\<rparr>, rq = 8, rq_count = 0, rqLock = False, my_timer = demo_mt,
     thisproc = (\<lambda>_. 0), idleproc = (\<lambda>_. 0), panic_flag = False\<rparr>"

definition demo_new :: "nat \<Rightarrow> addr" where "demo_new c = 1000 * (c + 1)"

lemma demo_start:
  "clock_start (my_timer (demo_sched st)) demo_clk" "clk (demo_sched st) = init_timer (my_timer (demo_sched st)) demo_clk"
  "inj_on demo_new {..<NCPU}" "rq (demo_sched st) \<noteq> 0" "proc_area {5000} (rq (demo_sched st))"
  by (auto simp: clock_start_def clock_ok_def now_def get_timestamp_ms_def demo_clk_def demo_sched_def demo_mt_def demo_new_def
      inj_on_def aligned_def tnode_def proc_area_def rq_node_def upt_NCPU(2))

theorem sched_exclusive_witness:
  "\<exists>t. sched_yield 2 64 0 (init_sched demo_new (init_rq (demo_sched UNUSED))) = Inr t"
proof -
  have "card {5000 :: addr} < 2" by simp
  from sched_exclusive [OF demo_start this rtranclp.rtrancl_refl] show ?thesis by (auto simp: NCPU_def)
qed





end
