(* ===== verification/Proc.thy ===== *)
theory Proc
  imports Sched_Props
begin

text \<open>
  The process tree of \<^verbatim>\<open>src/src/kernel/proc.c\<close>: process numbers, parents and children, and what \<^verbatim>\<open>exit\<close>, \<^verbatim>\<open>wait\<close> and \<^verbatim>\<open>kill\<close> do to
  them, on top of the scheduler. The release of the memory and files of a process in \<^verbatim>\<open>exit\<close> is an argument; \<^verbatim>\<open>wait\<close> is split at the
  semaphore, where it may sleep.
\<close>

definition MaxPid :: nat where "MaxPid = 10000"

record prst =
  psch :: schst
  tlinks :: lheap
  parent :: "addr \<Rightarrow> addr"
  exitcode :: "addr \<Rightarrow> int"
  childexit :: "addr \<Rightarrow> Semaphore"
  pLock :: SpinLock
  pidLock :: SpinLock
  pidList :: "bool list"
  root_proc :: addr
  freed :: "addr list"

text \<open>The list head \<^verbatim>\<open>children\<close> is at offset 40 of a process, the node \<^verbatim>\<open>ptnode\<close> at 56.\<close>

definition children :: "addr \<Rightarrow> addr" where "children p = p + 40"
definition ptnode :: "addr \<Rightarrow> addr" where "ptnode p = p + 56"
definition pt_proc :: "addr \<Rightarrow> addr" where "pt_proc n = n - 56"

definition on_sched :: "(schst \<Rightarrow> ('a \<times> schst) res) \<Rightarrow> prst \<Rightarrow> ('a \<times> prst) res" where
  "on_sched f s = rbind (f (psch s)) (\<lambda>(r, k). Inr (r, s\<lparr>psch := k\<rparr>))"

definition acquire_plock :: "prst \<Rightarrow> prst res" where
  "acquire_plock s = rbind (acquire_spinlock (pLock s)) (\<lambda>l. Inr (s\<lparr>pLock := l\<rparr>))"

definition release_plock :: "prst \<Rightarrow> prst" where
  "release_plock s = s\<lparr>pLock := release_spinlock (pLock s)\<rparr>"

definition init_procLock :: "prst \<Rightarrow> prst" where
  "init_procLock s = s\<lparr>pLock := init_spinlock, pidLock := init_spinlock, pidList := replicate NCPU True @ replicate (MaxPid - NCPU) False\<rparr>"

definition add_child :: "addr \<Rightarrow> addr \<Rightarrow> prst \<Rightarrow> prst" where
  "add_child par p s = s\<lparr>tlinks := snd (insert_into_list (children par) (ptnode p) (tlinks s))\<rparr>"

definition set_parent_to_this :: "nat \<Rightarrow> addr \<Rightarrow> prst \<Rightarrow> prst res" where
  "set_parent_to_this c p s =
     rbind (acquire_plock s) (\<lambda>s.
       let this = thisproc (psch s) c;
           s = s\<lparr>parent := (parent s)(p := this)\<rparr>
       in Inr (release_plock (add_child this p s)))"

section \<open>Process numbers\<close>

text \<open>The loop over \<^verbatim>\<open>pidList\<close> from number \<^verbatim>\<open>i\<close> on: the first free number, which is then taken, or the number behind the last.\<close>

fun pid_scan :: "nat \<Rightarrow> bool list \<Rightarrow> nat \<times> bool list" where
  "pid_scan i [] = (i, [])"
| "pid_scan i (taken # xs) =
     (if \<not> taken then (i, True # xs) else let (j, ys) = pid_scan (i + 1) xs in (j, taken # ys))"

definition getAvailPidWithLock :: "prst \<Rightarrow> (nat \<times> prst) res" where
  "getAvailPidWithLock s =
     rbind (acquire_spinlock (pidLock s)) (\<lambda>l.
       let (i, ps) = pid_scan 0 (pidList s)
       in Inr (i, s\<lparr>pidList := ps, pidLock := release_spinlock l\<rparr>))"

section \<open>Starting a process\<close>

text \<open>\<^verbatim>\<open>start_proc\<close> without the kernel context, which is where \<^verbatim>\<open>proc_entry\<close> finds its arguments.\<close>

definition start_proc :: "addr \<Rightarrow> prst \<Rightarrow> (int \<times> prst) res" where
  "start_proc p s =
     rbind (acquire_plock s) (\<lambda>s.
       let s = (if parent s p = 0 then add_child (root_proc s) p (s\<lparr>parent := (parent s)(p := root_proc s)\<rparr>) else s);
           s = release_plock s;
           i = pid (procs (psch s) p)
       in rbind (on_sched (activate_proc p False) s) (\<lambda>(_, s). Inr (i, s)))"

section \<open>The end of a process\<close>

text \<open>\<^verbatim>\<open>post_sem\<close> of the semaphore of a process, with the activation of the process that it wakes.\<close>

definition post_childexit :: "addr \<Rightarrow> prst \<Rightarrow> prst res" where
  "post_childexit p s =
     rbind (post_sem (childexit s p)) (\<lambda>(w, sem).
       let s = s\<lparr>childexit := (childexit s)(p := sem)\<rparr>
       in case w of
            None \<Rightarrow> Inr s
          | Some q \<Rightarrow> rbind (on_sched (activate_proc q False) s) (\<lambda>(_, s). Inr s))"

fun reparent :: "nat \<Rightarrow> addr \<Rightarrow> addr \<Rightarrow> prst \<Rightarrow> prst res" where
  "reparent 0 temp head s = Inl Spin"
| "reparent (Suc n) temp head s =
     (if head = temp then Inr s
      else
        let child = pt_proc head;
            s = s\<lparr>parent := (parent s)(child := root_proc s)\<rparr>;
            head = nxt (tlinks s) head;
            s = s\<lparr>tlinks := snd (detach_from_list (ptnode child) (tlinks s))\<rparr>;
            s = add_child (root_proc s) child s
        in rbind (on_sched (is_zombie child) s) (\<lambda>(z, s).
             rbind (if z then post_childexit (root_proc s) s else Inr s) (\<lambda>s. reparent n temp head s)))"

definition exit_children :: "nat \<Rightarrow> nat \<Rightarrow> int \<Rightarrow> prst \<Rightarrow> prst res" where
  "exit_children n c code s =
     (let this = thisproc (psch s) c;
          s = s\<lparr>exitcode := (exitcode s)(this := code)\<rparr>
      in rbind (acquire_plock s) (\<lambda>s.
        let temp = children this
        in rbind (if \<not> empty_list temp (tlinks s) then reparent n temp (nxt (tlinks s) temp) s else Inr s) (\<lambda>s.
          Inr (release_plock s))))"

text \<open>\<^verbatim>\<open>exit\<close>; \<^verbatim>\<open>cleanup\<close> gives back the stack, the mappings, the page tables, the directory and the files of the process.\<close>

definition exit_notify :: "nat \<Rightarrow> prst \<Rightarrow> prst res" where
  "exit_notify c s = post_childexit (parent s (thisproc (psch s) c)) s"

definition exit_proc :: "(addr \<Rightarrow> prst \<Rightarrow> prst res) \<Rightarrow> nat \<Rightarrow> addr \<Rightarrow> nat \<Rightarrow> int \<Rightarrow> prst \<Rightarrow> prst res" where
  "exit_proc cleanup n ipt c code s =
     (let this = thisproc (psch s) c
      in rbind (exit_children n c code s) (\<lambda>s.
        rbind (cleanup this s) (\<lambda>s.
          rbind (exit_notify c s) (\<lambda>s.
            rbind (acquire_sched_lock (psch s)) (\<lambda>k.
              rbind (simple_sched n ipt c ZOMBIE k) (\<lambda>k. Inr (s\<lparr>psch := k\<rparr>)))))))"

section \<open>Waiting for a child\<close>

datatype wres = NoChild | Token | MustSleep

definition wait_enter :: "nat \<Rightarrow> prst \<Rightarrow> (wres \<times> prst) res" where
  "wait_enter c s =
     (let this = thisproc (psch s) c
      in rbind (acquire_plock s) (\<lambda>s.
        let none = empty_list (children this) (tlinks s);
            s = release_plock s
        in if none then Inr (NoChild, s)
           else let (ok, sem) = wait_sem_enter this (childexit s this)
                in Inr (if ok then Token else MustSleep, s\<lparr>childexit := (childexit s)(this := sem)\<rparr>)))"

text \<open>The walk through the children, after the semaphore: the first zombie, or the null pointer.\<close>

fun find_zombie :: "nat \<Rightarrow> addr \<Rightarrow> addr \<Rightarrow> prst \<Rightarrow> (addr \<times> prst) res" where
  "find_zombie 0 flag p s = Inl Spin"
| "find_zombie (Suc n) flag p s =
     (if p = flag then Inr (0, s)
      else rbind (on_sched (is_zombie (pt_proc p)) s) (\<lambda>(z, s).
        if z then Inr (pt_proc p, s) else find_zombie n flag (nxt (tlinks s) p) s))"

definition wait_reap :: "nat \<Rightarrow> nat \<Rightarrow> prst \<Rightarrow> (int \<times> int \<times> prst) res" where
  "wait_reap n c s =
     rbind (acquire_plock s) (\<lambda>s.
       let this = thisproc (psch s) c
       in rbind (find_zombie n (children this) (nxt (tlinks s) (children this)) s) (\<lambda>(child, s).
         if child = 0 then Inl Panic
         else
           let i = pid (procs (psch s) child);
               code = exitcode s child
           in rbind (acquire_spinlock (pidLock s)) (\<lambda>l.
             rbind (aset (pidList s) (nat i) False) (\<lambda>ps.
               let s = s\<lparr>pidList := ps, pidLock := release_spinlock l\<rparr>;
                   s = s\<lparr>tlinks := snd (detach_from_list (ptnode child) (tlinks s))\<rparr>;
                   s = release_plock s
               in Inr (i, code, s\<lparr>freed := child # freed s\<rparr>)))))"

section \<open>Killing a process\<close>

text \<open>
  The search through the tree, breadth first; the queue of \<^verbatim>\<open>myqueue.h\<close> is a list. The second fuel is for the walk through the children of one process.
\<close>

fun kill_search :: "nat \<Rightarrow> nat \<Rightarrow> int \<Rightarrow> addr list \<Rightarrow> prst \<Rightarrow> (addr \<times> prst) res" where
  "kill_search 0 m i q s = Inl Spin"
| "kill_search (Suc n) m i q s =
     (case q of
        [] \<Rightarrow> Inr (0, s)
      | p # q \<Rightarrow>
          rbind (if pid (procs (psch s) p) = i then on_sched (is_unused p) s else Inr (True, s)) (\<lambda>(unused, s).
            if \<not> unused then Inr (p, s\<lparr>psch := (psch s)\<lparr>procs := (procs (psch s))(p := (procs (psch s) p)\<lparr>killed := True\<rparr>)\<rparr>\<rparr>)
            else
              case for_in_list m (tlinks s) (children p) (nxt (tlinks s) (children p)) of
                None \<Rightarrow> Inl Spin
              | Some xs \<Rightarrow> kill_search n m i (q @ map pt_proc (butlast xs)) s))"

definition kill :: "nat \<Rightarrow> nat \<Rightarrow> int \<Rightarrow> prst \<Rightarrow> (int \<times> prst) res" where
  "kill n m i s =
     rbind (kill_search n m i [root_proc s] s) (\<lambda>(p, s).
       if p = 0 then Inr (- 1, s) else rbind (on_sched (activate_proc p False) s) (\<lambda>(_, s). Inr (0, s)))"

end
