(* ===== verification/Proc_Props.thy ===== *)
theory Proc_Props
  imports Proc
begin

text \<open>
  What \<^verbatim>\<open>exit\<close> does to the children of a process, what the allocation of process numbers returns, and how \<^verbatim>\<open>wait\<close> can panic.
\<close>

lemma tree_nodes [simp]:
  "pt_proc (ptnode p) = p" "ptnode p = ptnode q \<longleftrightarrow> p = q" "children p = children q \<longleftrightarrow> p = q"
  by (simp_all add: pt_proc_def ptnode_def children_def)

lemma remove1_ptnode: "remove1 (ptnode p) (map ptnode ps) = map ptnode (remove1 p ps)"
  by (induction ps) simp_all

section \<open>Process numbers\<close>

lemma pid_scan_spec:
  "pid_scan i xs = (if False \<in> set xs then (i + length (takeWhile id xs), xs[length (takeWhile id xs) := True]) else (i + length xs, xs))"
  by (induction xs arbitrary: i) auto

lemma takeWhile_shorter: "False \<in> set xs \<Longrightarrow> length (takeWhile id xs) < length xs"
  by (induction xs) auto

section \<open>Looking for a zombie\<close>

lemma on_sched_zombie:
  assumes "\<not> rqLock (psch s)"
  shows "on_sched (is_zombie p) s = Inr (pstate (procs (psch s) p) = ZOMBIE, s)"
  using assms by (simp add: on_sched_def is_zombie_def acquire_sched_lock_def release_sched_lock_def release_spinlock_def)

lemma find_zombie_none:
  assumes "links (tlinks s) (map ptnode cs @ [l])" and "\<forall>x \<in> set cs. ptnode x \<noteq> l \<and> pstate (procs (psch s) x) \<noteq> ZOMBIE"
    and "\<not> rqLock (psch s)" and "length cs < n"
  shows "find_zombie n l (hd (map ptnode cs @ [l])) s = Inr (0, s)"
  using assms
proof (induction cs arbitrary: n)
  case Nil
  then show ?case by (cases n) auto
next
  case (Cons x cs)
  then obtain m where m: "n = Suc m" "length cs < m" by (cases n) auto
  have nx: "nxt (tlinks s) (ptnode x) = hd (map ptnode cs @ [l])" "links (tlinks s) (map ptnode cs @ [l])"
    using Cons.prems(1) by (cases cs, auto)+
  show ?case using Cons.IH [OF nx(2) _ Cons.prems(3) m(2)] Cons.prems(2,3) m(1) nx(1) by (simp add: on_sched_zombie)
qed

lemma child_links:
  assumes "is_list h l (map ptnode cs)"
  shows "links h (map ptnode cs @ [l])" and "nxt h l = hd (map ptnode cs @ [l])" and "\<forall>x \<in> set cs. ptnode x \<noteq> l"
proof -
  have r: "links h (l # map ptnode cs @ [l])" "l \<notin> ptnode ` set cs" using assms by (auto simp: is_list_def ring_def)
  then show "links h (map ptnode cs @ [l])" "nxt h l = hd (map ptnode cs @ [l])" by (cases cs, auto)+
  show "\<forall>x \<in> set cs. ptnode x \<noteq> l" using r(2) by force
qed

text \<open>
  C14: \<^verbatim>\<open>exit\<close> posts the semaphore of the parent before the process is a zombie. A parent that calls \<^verbatim>\<open>wait\<close> on another CPU right after this gets the
  token, finds no zombie among its children, and the kernel panics.
\<close>

theorem wait_panics_before_zombie:
  assumes "\<not> rqLock (psch s)" "\<not> pLock s" and "q = thisproc (psch s) d" "parent s q = thisproc (psch s) c" and "q \<in> set cs"
    and "is_list (tlinks s) (children (thisproc (psch s) c)) (map ptnode cs)"
    and "\<forall>x \<in> set cs. pstate (procs (psch s) x) \<noteq> ZOMBIE"
    and "sval (childexit s (thisproc (psch s) c)) = 0" and "length cs < n"
  shows "\<exists>t u. exit_notify d s = Inr t \<and> wait_enter c t = Inr (Token, u) \<and> wait_reap n c u = Inl Panic"
proof -
  let ?p = "thisproc (psch s) c"
  define t where "t = s\<lparr>childexit := (childexit s)(?p := (childexit s ?p)\<lparr>sval := 1\<rparr>)\<rparr>"
  define u where "u = s\<lparr>childexit := (childexit s)(?p := (childexit s ?p)\<lparr>sval := 0\<rparr>), pLock := False\<rparr>"
  have t: "exit_notify d s = Inr t"
    using assms(3,4,8) by (simp add: exit_notify_def post_childexit_def post_sem_def t_def Let_def)
  have ne: "\<not> empty_list (children ?p) (tlinks s)" using is_list_empty [OF assms(6)] assms(5) by auto
  have u: "wait_enter c t = Inr (Token, u)"
    using assms(2) ne by (simp add: wait_enter_def acquire_plock_def release_plock_def release_spinlock_def wait_sem_enter_def t_def u_def Let_def)
  note L = child_links [OF assms(6)]
  have "find_zombie n (children ?p) (nxt (tlinks s) (children ?p)) (u\<lparr>pLock := True\<rparr>) = Inr (0, u\<lparr>pLock := True\<rparr>)"
    unfolding L(2) by (rule find_zombie_none) (use L assms in \<open>simp_all add: u_def\<close>)
  then have "wait_reap n c u = Inl Panic" by (simp add: wait_reap_def acquire_plock_def u_def)
  with t u show ?thesis by blast
qed

text \<open>Process 1000 on CPU 0 has the child 2000, which is about to end on CPU 1.\<close>

definition demo_tree :: prst where
  "demo_tree = \<lparr>psch = init_sched demo_new (init_rq (demo_sched UNUSED)),
     tlinks = \<lparr>prv = (\<lambda>a. if a = 1040 then 2056 else if a = 2056 then 1040 else a), nxt = (\<lambda>a. if a = 1040 then 2056 else if a = 2056 then 1040 else a)\<rparr>,
     parent = (\<lambda>_. 1000), exitcode = (\<lambda>_. 0), childexit = (\<lambda>_. init_sem 0), pLock = False, pidLock = False, pidList = [], root_proc = 5000, freed = []\<rparr>"

lemma demo_tree_sched:
  "\<not> rqLock (psch demo_tree)" "thisproc (psch demo_tree) 0 = 1000" "thisproc (psch demo_tree) 1 = 2000" "pstate (procs (psch demo_tree) 2000) = RUNNING"
  by (simp_all add: demo_tree_def init_sched_def init_rq_def upt_NCPU(1) demo_new_def demo_sched_def init_spinlock_def)

lemma demo_tree_list: "is_list (tlinks demo_tree) (children 1000) (map ptnode [2000])"
  by (simp add: is_list_def ring_def children_def ptnode_def demo_tree_def)

theorem wait_panics_before_zombie_witness:
  "\<exists>t u. exit_notify 1 demo_tree = Inr t \<and> wait_enter 0 t = Inr (Token, u) \<and> wait_reap 2 0 u = Inl Panic"
  by (rule wait_panics_before_zombie [where q = 2000 and cs = "[2000]"])
    (use demo_tree_sched demo_tree_list in \<open>simp_all add: demo_tree_def init_sem_def\<close>)

section \<open>The children of a process that ends\<close>

lemma activate_proc_frame:
  assumes "activate_proc p a k = Inr (b, k')"
  shows "thisproc k' = thisproc k" and "x \<noteq> p \<Longrightarrow> procs k' x = procs k x"
  using assms
  by (auto simp: activate_proc_def acquire_sched_lock_def release_sched_lock_def make_runnable_def set_state_def rbind_def Let_def
      split: sum.splits if_splits)

lemma post_sem_waker:
  assumes "post_sem sem = Inr (w, sem')"
  shows "set (sleeplist sem') \<subseteq> set (sleeplist sem)" and "w = Some q \<Longrightarrow> q \<in> set (sleeplist sem)"
  using assms set_remove1_subset [of "last (sleeplist sem)" "sleeplist sem"]
  by (auto simp: post_sem_def Let_def split: if_splits)

definition tree_of :: "prst \<Rightarrow> lheap \<times> (addr \<Rightarrow> addr) \<times> addr \<times> bool" where
  "tree_of s = (tlinks s, parent s, root_proc s, pLock s)"

lemma post_childexit_ok:
  assumes "sched_inv N P (psch s)" and "sem_inv (childexit s r)" and "set (sleeplist (childexit s r)) \<subseteq> P"
  shows "\<exists>t. post_childexit r s = Inr t \<and> tree_of t = tree_of s \<and> sched_inv N P (psch t) \<and> sem_inv (childexit t r) \<and>
    sval (childexit t r) = sval (childexit s r) + 1 \<and> set (sleeplist (childexit t r)) \<subseteq> set (sleeplist (childexit s r)) \<and>
    (\<forall>x. x \<notin> set (sleeplist (childexit s r)) \<longrightarrow> procs (psch t) x = procs (psch s) x)"
proof -
  obtain w sem where w: "post_sem (childexit s r) = Inr (w, sem)" "sem_inv sem" "sval sem = sval (childexit s r) + 1"
    using post_sem_inv [OF assms(2)] by blast
  note W = post_sem_waker [OF w(1)]
  let ?s = "s\<lparr>childexit := (childexit s)(r := sem)\<rparr>"
  show ?thesis
  proof (cases w)
    case None
    then show ?thesis using w W(1) assms(1) by (intro exI [of _ ?s]) (simp add: post_childexit_def tree_of_def)
  next
    case (Some q)
    then have q: "q \<in> set (sleeplist (childexit s r))" using W(2) by simp
    obtain ps where ps: "sched_ok P (psch s) ps" "\<not> rqLock (psch s)" "proc_area P (rq (psch s))" "card P < N"
      using assms(1) by (auto simp: sched_inv_def)
    obtain b k qs where k: "activate_proc q False (psch s) = Inr (b, k)" "sched_ok P k qs" "\<not> rqLock k" "rq k = rq (psch s)"
      using activate_proc_ok [OF ps(1-3), of q False] q assms(3) by blast
    have "sched_inv N P k" using k ps by (auto simp: sched_inv_def)
    moreover have "\<forall>x. x \<notin> set (sleeplist (childexit s r)) \<longrightarrow> procs k x = procs (psch s) x"
      using activate_proc_frame(2) [OF k(1)] q by metis
    ultimately show ?thesis using w W(1) Some k(1)
      by (intro exI [of _ "?s\<lparr>psch := k\<rparr>"]) (simp add: post_childexit_def on_sched_def tree_of_def)
  qed
qed

text \<open>Moving the first child of one process to another.\<close>

lemma move_child:
  assumes l: "is_list h l (map ptnode (x # cs))" and k: "is_list h k (map ptnode rs)"
    and d: "set (l # map ptnode (x # cs)) \<inter> set (k # map ptnode rs) = {}"
  defines "h' \<equiv> snd (insert_into_list k (ptnode x) (snd (detach_from_list (ptnode x) h)))"
  shows "is_list h' l (map ptnode cs)" and "is_list h' k (map ptnode (x # rs))"
    and "set (l # map ptnode cs) \<inter> set (k # map ptnode (x # rs)) = {}"
proof -
  let ?h = "snd (detach_from_list (ptnode x) h)"
  have dist: "ptnode x \<notin> set (l # map ptnode cs)" using l unfolding is_list_def ring_def by auto
  have x: "ptnode x \<in> set (map ptnode (x # cs))" by simp
  have 1: "is_list ?h l (map ptnode cs)" using detach_from_list_list(1) [OF l x] by simp
  have 2: "is_list ?h k (map ptnode rs)" by (rule detach_from_list_other [OF l x k d])
  have n: "ptnode x \<noteq> 0" "ptnode x \<notin> set (k # map ptnode rs)" using d by (simp add: ptnode_def, auto)
  show "is_list h' k (map ptnode (x # rs))" using insert_into_list_front [OF 2 n] by (simp add: h'_def)
  show d': "set (l # map ptnode cs) \<inter> set (k # map ptnode (x # rs)) = {}" using d dist by auto
  have "set (ptnode x # k # map ptnode rs) \<inter> set (l # map ptnode cs) = {}" using d' by auto
  then show "is_list h' l (map ptnode cs)" unfolding h'_def by (rule insert_into_list_front_other [OF 2 n 1])
qed

definition zombies :: "prst \<Rightarrow> addr list \<Rightarrow> nat" where
  "zombies s cs = length (filter (\<lambda>x. pstate (procs (psch s) x) = ZOMBIE) cs)"

lemma reparent_ok:
  assumes "sched_inv N P (psch s)" and "sem_inv (childexit s r)" "set (sleeplist (childexit s r)) \<subseteq> P - set cs" and "root_proc s = r"
    and "is_list (tlinks s) l (map ptnode cs)" "is_list (tlinks s) (children r) (map ptnode rs)"
      "set (l # map ptnode cs) \<inter> set (children r # map ptnode rs) = {}" and "length cs < n"
  shows "\<exists>t. reparent n l (nxt (tlinks s) l) s = Inr t \<and> is_list (tlinks t) l [] \<and> is_list (tlinks t) (children r) (map ptnode (rev cs @ rs)) \<and>
    (\<forall>x. parent t x = (if x \<in> set cs then r else parent s x)) \<and> sval (childexit t r) = sval (childexit s r) + int (zombies s cs) \<and>
    sched_inv N P (psch t) \<and> pLock t = pLock s"
  using assms
proof (induction cs arbitrary: s rs n)
  case Nil
  have "nxt (tlinks s) l = l" using child_links(2) [OF Nil.prems(5)] by simp
  then show ?case using Nil.prems by (cases n) (auto simp: zombies_def)
next
  case (Cons x cs)
  obtain m where m: "n = Suc m" "length cs < m" using Cons.prems(8) by (cases n) auto
  note L = child_links [OF Cons.prems(5)]
  define s1 where "s1 = add_child r x (s\<lparr>parent := (parent s)(x := r), tlinks := snd (detach_from_list (ptnode x) (tlinks s))\<rparr>)"
  have f: "psch s1 = psch s" "childexit s1 = childexit s" "root_proc s1 = r" "pLock s1 = pLock s" "parent s1 = (parent s)(x := r)"
    "tlinks s1 = snd (insert_into_list (children r) (ptnode x) (snd (detach_from_list (ptnode x) (tlinks s))))"
    using Cons.prems(4) by (simp_all add: s1_def add_child_def)
  note M = move_child [OF Cons.prems(5-7), folded f(6)]
  have lock: "\<not> rqLock (psch s1)" using Cons.prems(1) f(1) by (simp add: sched_inv_def)
  let ?z = "pstate (procs (psch s) x) = ZOMBIE"
  have "set (sleeplist (childexit s1 r)) \<subseteq> P" using Cons.prems(3) f(2) by auto
  then obtain s2 where s2: "(if ?z then post_childexit r s1 else Inr s1) = Inr s2" "tree_of s2 = tree_of s1" "sched_inv N P (psch s2)"
    "sem_inv (childexit s2 r)" "sval (childexit s2 r) = sval (childexit s r) + (if ?z then 1 else 0)"
    "set (sleeplist (childexit s2 r)) \<subseteq> set (sleeplist (childexit s r))"
    "\<forall>y. y \<notin> set (sleeplist (childexit s r)) \<longrightarrow> procs (psch s2) y = procs (psch s) y"
    using post_childexit_ok [of N P s1 r] Cons.prems(1,2) f(1,2) by (cases ?z) auto
  have tr: "tlinks s2 = tlinks s1" "parent s2 = parent s1" "root_proc s2 = r" "pLock s2 = pLock s" using s2(2) f by (simp_all add: tree_of_def)
  have sl: "set (sleeplist (childexit s2 r)) \<subseteq> P - set cs" using s2(6) Cons.prems(3) by auto
  have zs: "zombies s2 cs = zombies s cs" unfolding zombies_def
    by (rule arg_cong [where f = length], rule filter_cong) (use s2(7) Cons.prems(3) in auto)
  obtain t where t: "reparent m l (nxt (tlinks s2) l) s2 = Inr t" "is_list (tlinks t) l []"
    "is_list (tlinks t) (children r) (map ptnode (rev cs @ x # rs))" "\<forall>y. parent t y = (if y \<in> set cs then r else parent s2 y)"
    "sval (childexit t r) = sval (childexit s2 r) + int (zombies s cs)" "sched_inv N P (psch t)" "pLock t = pLock s2"
    using Cons.IH [OF s2(3,4) sl tr(3) M(1) [folded tr(1)] M(2) [folded tr(1)] M(3) m(2)] zs by auto
  have nx: "nxt (tlinks s2) l = nxt (tlinks s) (ptnode x)"
    using child_links(2) [OF M(1)] tr(1) L(1) by (cases cs) auto
  have "reparent n l (nxt (tlinks s) l) s = Inr t"
    using L(2,3) t(1) s2(1) on_sched_zombie [OF lock, of x] f(1,3) nx Cons.prems(4) unfolding m(1) s1_def
    by (cases ?z) (simp_all add: Let_def)
  then show ?case using t s2(5) tr f(5) by (auto simp: zombies_def)
qed


text \<open>Process 1000 of the example above, which has the child 2000, ends; the root process is 5000.\<close>

lemma demo_tree_root: "is_list (tlinks demo_tree) (children (root_proc demo_tree)) (map ptnode [])"
  by (simp add: is_list_def ring_def children_def demo_tree_def)


section \<open>Numbers and signals\<close>

text \<open>
  C15: process numbers. A call of \<^verbatim>\<open>getAvailPidWithLock\<close> returns the smallest number that is not taken and takes exactly this one; when all are taken it
  returns the length of the table, which is no number of it, and reports no error.
\<close>

theorem getAvailPid_smallest:
  assumes "\<not> pidLock s"
  shows "if \<exists>i < length (pidList s). \<not> pidList s ! i
    then \<exists>i < length (pidList s). getAvailPidWithLock s = Inr (i, s\<lparr>pidList := (pidList s)[i := True]\<rparr>) \<and>
      \<not> pidList s ! i \<and> (\<forall>j < i. pidList s ! j)
    else getAvailPidWithLock s = Inr (length (pidList s), s)"
proof -
  have f: "(\<exists>i < length (pidList s). \<not> pidList s ! i) \<longleftrightarrow> False \<in> set (pidList s)" by (auto simp: in_set_conv_nth)
  have g: "getAvailPidWithLock s = Inr (fst (pid_scan 0 (pidList s)), s\<lparr>pidList := snd (pid_scan 0 (pidList s))\<rparr>)"
    using assms by (simp add: getAvailPidWithLock_def release_spinlock_def split_beta)
  show ?thesis
  proof (cases "False \<in> set (pidList s)")
    case True
    define i where "i = length (takeWhile id (pidList s))"
    have i: "i < length (pidList s)" unfolding i_def by (rule takeWhile_shorter [OF True])
    have "\<not> pidList s ! i" using nth_length_takeWhile [of id "pidList s"] i by (simp add: i_def)
    moreover have "\<forall>j < i. pidList s ! j" unfolding i_def by (metis id_apply nth_mem set_takeWhileD takeWhile_nth)
    ultimately show ?thesis using True i f g by (auto simp: pid_scan_spec i_def)
  next
    case False
    then show ?thesis using f g by (simp add: pid_scan_spec)
  qed
qed

theorem getAvailPid_smallest_witness:
  "getAvailPidWithLock (demo_tree\<lparr>pidList := [True, False]\<rparr>) = Inr (1, demo_tree\<lparr>pidList := [True, True]\<rparr>)"
proof -
  let ?s = "demo_tree\<lparr>pidList := [True, False]\<rparr>"
  have l: "\<not> pidLock ?s" by (simp add: demo_tree_def)
  have e: "\<exists>i < length (pidList ?s). \<not> pidList ?s ! i" by (intro exI [of _ 1]) simp
  obtain i where i: "i < length (pidList ?s)" "getAvailPidWithLock ?s = Inr (i, ?s\<lparr>pidList := (pidList ?s)[i := True]\<rparr>)" "\<not> pidList ?s ! i"
    using getAvailPid_smallest [OF l] unfolding if_P [OF e] by blast
  then have "i = 1" by (cases i) auto
  then show ?thesis using i(2) by simp
qed

end
