(* ===== verification/Spec2Isabelle.thy ===== *)
theory Spec2Isabelle
  imports File Paging_Props Ipc_Props Proc_Props
begin

text \<open>
  Verification of a teaching operating system for AArch64, the kernel under \<^verbatim>\<open>src/src\<close>.

  \<^bold>\<open>The program.\<close> The kernel has lists, locks and semaphores (\<^verbatim>\<open>common\<close>); an allocator of pages and blocks; page tables and
  sections of address spaces; a scheduler with timers for four CPUs; a file system of four layers, that is a block cache with a
  write-ahead log, inodes, pipes, and a table of open files; a console; and message queues. The upper layers call the lower
  ones: files call inodes and pipes, inodes call the cache, the cache and the pipes call semaphores; sections call page tables,
  which call the allocator; message queues call lists and the allocator; the scheduler calls lists and timers, and timers are
  kept in red-black trees, as inodes are.

  \<^bold>\<open>The model.\<close> A structure is a record, an operation a function from the state to a result. A result is \<^verbatim>\<open>Inr\<close> of a value
  or \<^verbatim>\<open>Inl\<close> of a reason why there is none: a panic or failed assertion, a fault (an access through a null pointer or out of range), a loop that
  spins, or a call that sleeps (\<^verbatim>\<open>Kernel_Prelude\<close>). Addresses are natural numbers and memory is a function of them, one for
  each kind of structure. Words keep their width where the code depends on it. A spin lock is a flag; a call that would wait for a
  taken lock spins. A call that sleeps is split where it calls the scheduler, and the interleavings of the parts are the
  step relations of \<^verbatim>\<open>Sync\<close>, \<^verbatim>\<open>Pipe\<close>, \<^verbatim>\<open>Transactions\<close> and \<^verbatim>\<open>Sched_Props\<close>.

  \<^bold>\<open>The theories.\<close>
  \<^item> \<^verbatim>\<open>Klist\<close>: \<^verbatim>\<open>common/list.c\<close>. Circular lists implement lists; the lock-free stack hands one node out twice in one interleaving.
  \<^item> \<^verbatim>\<open>Sync\<close>: \<^verbatim>\<open>common/spinlock.c\<close>, \<^verbatim>\<open>rc.c\<close>, \<^verbatim>\<open>sem.c\<close>. Sleep locks exclude each other and no wake-up panics.
  \<^item> \<^verbatim>\<open>Bitmap\<close>, \<^verbatim>\<open>Cache\<close>, \<^verbatim>\<open>Cache_Inv\<close>, \<^verbatim>\<open>Log\<close>, \<^verbatim>\<open>Transactions\<close>, \<^verbatim>\<open>Cache_Alloc\<close>: \<^verbatim>\<open>common/bitmap.h\<close> and \<^verbatim>\<open>fs/cache.c\<close>. The cache refines an array of
    blocks; a commit is atomic under crashes, also during recovery; concurrent operations never overflow the log; the block allocator.
  \<^item> \<^verbatim>\<open>Inode\<close>, \<^verbatim>\<open>Inode_Data\<close>, \<^verbatim>\<open>Inode_Props\<close>: \<^verbatim>\<open>fs/inode.c\<close>. Reading and writing files, the table of inodes, and the block that a growing write loses.
  \<^item> \<^verbatim>\<open>Pipe\<close>, \<^verbatim>\<open>File\<close>: \<^verbatim>\<open>fs/pipe.c\<close>, \<^verbatim>\<open>fs/file.c\<close>. A pipe is a byte stream without lost wake-ups until it is closed; the table of open files.
  \<^item> \<^verbatim>\<open>Console\<close>, \<^verbatim>\<open>Kstring\<close>: \<^verbatim>\<open>kernel/console.c\<close>, \<^verbatim>\<open>common/string.c\<close>, \<^verbatim>\<open>common/format.c\<close>. The line editor; moving memory and printing numbers.
  \<^item> \<^verbatim>\<open>Mem\<close>: \<^verbatim>\<open>kernel/mem.c\<close>. Regions that are handed out do not overlap, up to 4080 bytes.
  \<^item> \<^verbatim>\<open>Pt\<close>, \<^verbatim>\<open>Pt_Props\<close>, \<^verbatim>\<open>Paging\<close>, \<^verbatim>\<open>Paging_Props\<close>: \<^verbatim>\<open>kernel/pt.c\<close> and the sections of \<^verbatim>\<open>kernel/paging.c\<close>. Mapping, the life of pages and tables.
  \<^item> \<^verbatim>\<open>Ipc\<close>, \<^verbatim>\<open>Ipc_Props\<close>: \<^verbatim>\<open>common/ipc.c\<close>. Message queues are lists of typed messages, for messages of at most one page.
  \<^item> \<^verbatim>\<open>Rbtree\<close>, \<^verbatim>\<open>Rbtree_Graph\<close>, \<^verbatim>\<open>Rbtree_Inv\<close>, \<^verbatim>\<open>Rbtree_Insert\<close>, \<^verbatim>\<open>Rbtree_Erase\<close>, \<^verbatim>\<open>Rbtree_Remove\<close>, \<^verbatim>\<open>Rbtree_Props\<close>: \<^verbatim>\<open>common/rbtree.c\<close>. The pointer
    operations do what functions on trees do; these keep order, colours and black heights. The contract is the locale \<^verbatim>\<open>node_order\<close>,
    with the comparisons of inodes and of timers as instances.
  \<^item> \<^verbatim>\<open>Cpu\<close>: \<^verbatim>\<open>driver/clock.c\<close>, \<^verbatim>\<open>kernel/cpu.c\<close>. The clock of a CPU is set for the earliest of its timers.
  \<^item> \<^verbatim>\<open>Sched\<close>, \<^verbatim>\<open>Sched_Props\<close>: \<^verbatim>\<open>kernel/sched.c\<close>. No process runs on two CPUs and no assertion of the scheduler fails; a process that has ended
    can be made to run again.
  \<^item> \<^verbatim>\<open>Proc\<close>, \<^verbatim>\<open>Proc_Props\<close>: the process tree of \<^verbatim>\<open>kernel/proc.c\<close>. \<^verbatim>\<open>exit\<close> gives the children of a process to the root process; \<^verbatim>\<open>wait\<close> can panic when it runs
    between the notification of the parent and the end of the child; process numbers.

  \<^bold>\<open>Bounds.\<close> Loops whose end depends on the shape of memory take fuel, and the properties say how much is enough: the length of the list
  for walks through lists and queues, the height for trees (at most 130 for timers, as a tree of fewer than 2^63 nodes is less than 129 high), the number
  of pages for ranges of addresses. Keys of timers are below 2^63, since the counter in milliseconds is below 2^62, and
  the frequency of the clock is at most 400 MHz, so that five seconds fit into its register.

  \<^bold>\<open>Idealisations.\<close> Reference counts and the values of semaphores are unbounded integers. A call of the cache runs without
  interruption up to where it sleeps, and a block has at most one holder. The disk writes whole blocks in order. The trees of different CPUs lie in separate parts of the memory. The counter of the
  hardware does not move within an operation. A call of the scheduler is one step together with the context switch. The steps of the scheduler
  have one round of the timer interrupt with the preempting handler, not the rounds that follow it in the same interrupt.

  \<^bold>\<open>Not modelled.\<close> Of \<^verbatim>\<open>kernel/proc.c\<close> the creation of a process, fork, and the release of memory and files in \<^verbatim>\<open>exit\<close>, and \<^verbatim>\<open>kernel/vma.c\<close> with the page fault handler of
  \<^verbatim>\<open>kernel/paging.c\<close>: each combines most of the components above in one operation, and their states are not joined in one
  record here. \<^verbatim>\<open>kernel/syscall.c\<close>, \<^verbatim>\<open>sysfile.c\<close>, \<^verbatim>\<open>sysproc.c\<close> and \<^verbatim>\<open>exec.c\<close>: they read and write the memory of user programs. The drivers
  (\<^verbatim>\<open>driver/sd.c\<close>, \<^verbatim>\<open>uart.c\<close>, \<^verbatim>\<open>mbox.c\<close>, \<^verbatim>\<open>interrupt.c\<close>), \<^verbatim>\<open>aarch64\<close>, \<^verbatim>\<open>start.S\<close> and \<^verbatim>\<open>main.c\<close>: registers of devices and of the processor, and assembly.
  \<^verbatim>\<open>user\<close> and \<^verbatim>\<open>test\<close>: programs on top of the kernel. \<^verbatim>\<open>src/musl\<close> is a C library from elsewhere, \<^verbatim>\<open>src/boot\<close> firmware.
\<close>

end
